(* ===== verification/Prelude.thy ===== *)
theory Prelude
  imports Main "HOL-Library.Word"
begin

text \<open>
  Shared vocabulary of the Noxis development: the C integer types of
  src/src/common/types.h as machine words, the status codes of
  src/src/common/status.h, C arrays and C strings, and the generic lemmas on words,
  functional arrays and lists that the component theories rewrite with.

  A C array that is indexed by a loop variable is a total function on \<open>nat\<close> (the
  component theories prove the index bounds separately); a C string is the list of its
  bytes before the terminating zero byte, and \<open>cstr s i\<close> is the byte a read of
  \<open>s[i]\<close> sees, the terminator included.
\<close>

unbundle bit_operations_syntax

section \<open>Integer types and status codes\<close>

type_synonym u8 = "8 word"
type_synonym u16 = "16 word"
type_synonym u32 = "32 word"
type_synonym u64 = "64 word"

datatype os_status =
    OS_OK | OS_ERR_NULL | OS_ERR_OOM | OS_ERR_INVALID | OS_ERR_IO
  | OS_ERR_NOT_FOUND | OS_ERR_PERM | OS_ERR_BUSY | OS_ERR_RANGE | OS_ERR_NOSYS

text \<open>The all-ones value \<open>(uint32_t)-1\<close> that several interfaces return for an error.\<close>

definition NO_INO :: u32 where
  "NO_INO = - 1"

section \<open>C strings\<close>

type_synonym cstring = "u8 list"

definition cstr :: "cstring \<Rightarrow> nat \<Rightarrow> u8" where
  "cstr s i = (if i < length s then s ! i else 0)"

text \<open>A string as C sees it: the bytes before the first zero byte.\<close>

definition c_text :: "cstring \<Rightarrow> cstring" where
  "c_text s = takeWhile (\<lambda>c. c \<noteq> 0) s"

definition wf_cstr :: "cstring \<Rightarrow> bool" where
  "wf_cstr s \<longleftrightarrow> 0 \<notin> set s"

text \<open>Character constants of the source as bytes.\<close>

definition ch :: "char \<Rightarrow> u8" where
  "ch c = of_nat (of_char c)"

definition str :: "string \<Rightarrow> cstring" where
  "str s = map ch s"

section \<open>Named collections\<close>

named_theorems word_nat_simps \<open>moving machine words to natural numbers\<close>
named_theorems frame_simps \<open>fields and cells an operation leaves alone\<close>
named_theorems step_simps \<open>what an operation does to the fields it changes\<close>

section \<open>Lemmas on words\<close>

lemma unat_inc_less [simp]:
  fixes i n :: "'a::len word"
  assumes "i < n"
  shows "unat (i + 1) = Suc (unat i)"
proof -
  have "unat i < unat n" using assms by (simp add: word_less_nat_alt)
  moreover have "unat n < 2 ^ LENGTH('a)" by (rule unsigned_less)
  ultimately have "Suc (unat i) < 2 ^ LENGTH('a)" by linarith
  then show ?thesis by (simp add: unat_word_ariths(1))
qed

lemma word_inc_measure:
  fixes i n :: "'a::len word"
  assumes "i < n"
  shows "unat n - unat (i + 1) < unat n - unat i"
  using assms by (simp add: word_less_nat_alt)

lemma unat_add_no_wrap:
  fixes a b :: "'a::len word"
  assumes "unat a + unat b < 2 ^ LENGTH('a)"
  shows "unat (a + b) = unat a + unat b"
  using assms by (simp add: unat_word_ariths(1))

lemma unat_sub_no_wrap:
  fixes a b :: "'a::len word"
  assumes "b \<le> a"
  shows "unat (a - b) = unat a - unat b"
  using assms by (rule unat_sub)

lemma unat_dec:
  fixes x :: "'a::len word"
  assumes "x \<noteq> 0"
  shows "unat x = Suc (unat (x - 1))"
proof -
  have "0 < unat x" using assms by (metis gr0I unat_eq_zero)
  moreover from this have "1 \<le> x" by (simp add: word_le_nat_alt)
  then have "unat (x - 1) = unat x - 1" by (simp add: unat_sub_no_wrap)
  ultimately show ?thesis by simp
qed

lemma unat_u8: "unat (x :: u8) < 256"
  and unat_u16: "unat (y :: u16) < 65536"
  and unat_u32: "unat (z :: u32) < 4294967296"
  and unat_u64: "unat (w :: u64) < 18446744073709551616"
proof -
  have "unat x < 2 ^ LENGTH(8)" "unat y < 2 ^ LENGTH(16)" "unat z < 2 ^ LENGTH(32)"
    "unat w < 2 ^ LENGTH(64)"
    by (rule unsigned_less)+
  then show "unat x < 256" "unat y < 65536" "unat z < 4294967296" "unat w < 18446744073709551616"
    by simp_all
qed

lemma word_and_mask_unat:
  fixes a :: "'a::len word"
  shows "unat (a AND mask n) = unat a mod 2 ^ n"
proof -
  have "unat (a AND mask n) = take_bit n (unat a)"
    by (simp only: take_bit_eq_mask [symmetric] unsigned_take_bit_eq)
  then show ?thesis by (simp only: take_bit_eq_mod)
qed

lemma word_and_not_mask_unat:
  fixes a :: "'a::len word"
  shows "unat (a AND NOT (mask n)) = unat a - unat a mod 2 ^ n"
proof -
  have "(a AND mask n) + (a AND NOT (mask n)) = (a AND mask n) OR (a AND NOT (mask n))"
    by (rule disjunctive_add) (auto simp: bit_simps)
  also have "\<dots> = a" by (rule bit_eqI) (auto simp: bit_simps)
  finally have "a AND NOT (mask n) = a - (a AND mask n)" by (simp add: algebra_simps)
  moreover have "a AND mask n \<le> a" by (rule word_and_le2)
  ultimately show ?thesis by (simp only: unat_sub_no_wrap word_and_mask_unat)
qed

text \<open>The cast \<open>(int)x\<close> of a 64-bit value keeps the value when it is below 2 to the 31.\<close>

lemma sint_ucast_small:
  assumes "unat (x :: u64) < 2 ^ 31"
  shows "sint (ucast x :: u32) = int (unat x)"
proof -
  have "int (unat x) < int (2 ^ 31)" using assms by (simp only: of_nat_less_iff)
  then have x: "uint x < 2 ^ 31" by simp
  have "uint (ucast x :: u32) = uint x"
    using x uint_ge_0 [of x]
    by (simp only: unsigned_ucast_eq) (simp add: take_bit_int_eq_self)
  then have "sint (ucast x :: u32) = signed_take_bit 31 (uint x)" by (simp only: sint_uint) simp
  also have "\<dots> = uint x" using x uint_ge_0 [of x] by (intro signed_take_bit_int_eq_self) linarith+
  finally show ?thesis by simp
qed

lemmas word_nat_lemmas = word_less_nat_alt word_le_nat_alt unat_word_ariths(1)

section \<open>Loops\<close>

text \<open>
  \<open>for (i = 0; i < n; i++)\<close> whose body may leave the loop early: the body returns the new state and
  whether the loop goes on.
\<close>

fun for_range :: "nat \<Rightarrow> nat \<Rightarrow> (nat \<Rightarrow> 's \<Rightarrow> bool \<times> 's) \<Rightarrow> 's \<Rightarrow> bool \<times> 's" where
  "for_range i 0 body s = (True, s)"
| "for_range i (Suc k) body s =
     (case body i s of (True, t) \<Rightarrow> for_range (Suc i) k body t | (False, t) \<Rightarrow> (False, t))"

lemma for_range_invariant:
  assumes "P i s" and "\<And>j s t b. i \<le> j \<Longrightarrow> j < i + k \<Longrightarrow> P j s \<Longrightarrow> body j s = (b, t) \<Longrightarrow> b \<and> P (Suc j) t"
  shows "\<exists>t. for_range i k body s = (True, t) \<and> P (i + k) t"
  using assms
proof (induction k arbitrary: i s)
  case (Suc k)
  obtain b t where b: "body i s = (b, t)" by (cases "body i s")
  then have step: "b" "P (Suc i) t" using Suc.prems(2) [of i s b t] Suc.prems(1) by auto
  have "\<exists>u. for_range (Suc i) k body t = (True, u) \<and> P (Suc i + k) u"
  proof (rule Suc.IH)
    show "b \<and> P (Suc j) u" if "Suc i \<le> j" "j < Suc i + k" "P j s" "body j s = (b, u)" for j s u b
      using Suc.prems(2) [of j s b u] that by simp
  qed (rule step(2))
  then show ?case using b step(1) by auto
qed simp

text \<open>The same for a loop that may stop early: \<open>Q\<close> holds of the state in which it stops.\<close>

lemma for_range_cases:
  assumes "P i s" "for_range i k body s = (b, t)"
    and "\<And>j s t b. i \<le> j \<Longrightarrow> j < i + k \<Longrightarrow> P j s \<Longrightarrow> body j s = (b, t) \<Longrightarrow> if b then P (Suc j) t else Q t"
  shows "if b then P (i + k) t else Q t"
  using assms
proof (induction k arbitrary: i s)
  case (Suc k)
  obtain c u where c: "body i s = (c, u)" by (cases "body i s")
  then have step: "if c then P (Suc i) u else Q u" using Suc.prems(3) [of i s c u] Suc.prems(1) by simp
  show ?case
  proof (cases c)
    case True
    have "if b then P (Suc i + k) t else Q t"
    proof (rule Suc.IH)
      show "if d then P (Suc j) v else Q v" if "Suc i \<le> j" "j < Suc i + k" "P j s" "body j s = (d, v)" for j s v d
        using Suc.prems(3) [of j s d v] that by simp
    qed (use step Suc.prems(2) True c in simp_all)
    then show ?thesis by (cases b) simp_all
  next
    case False
    then show ?thesis using step Suc.prems(2) c by simp
  qed
qed simp

lemma for_range_append:
  "for_range i (a + b) body s = (case for_range i a body s of (True, t) \<Rightarrow> for_range (i + a) b body t | (False, t) \<Rightarrow> (False, t))"
  by (induction a arbitrary: i s) (auto split: prod.splits bool.splits)

lemma for_range_idle: "(\<And>j. i \<le> j \<Longrightarrow> j < i + k \<Longrightarrow> body j s = (True, s)) \<Longrightarrow> for_range i k body s = (True, s)"
  by (induction k arbitrary: i) simp_all

text \<open>A loop of which only one iteration does anything.\<close>

lemma for_range_single:
  assumes "m < k" and "\<And>j. j < m \<Longrightarrow> body j s = (True, s)" and "body m s = (True, t)"
    and "\<And>j. m < j \<Longrightarrow> j < k \<Longrightarrow> body j t = (True, t)"
  shows "for_range 0 k body s = (True, t)"
proof -
  have k: "k = m + Suc (k - Suc m)" using assms(1) by simp
  have "for_range 0 m body s = (True, s)" by (rule for_range_idle) (use assms(2) in simp)
  moreover have "for_range (Suc m) (k - Suc m) body t = (True, t)" by (rule for_range_idle) (use assms(4) in simp)
  ultimately show ?thesis by (subst k) (simp only: for_range_append, simp add: assms(3))
qed

section \<open>Linked lists in a store\<close>

text \<open>
  \<open>chain nx p qs\<close>: following the link function \<open>nx\<close> from the pointer \<open>p\<close> visits exactly the
  nodes \<open>qs\<close> and ends at the null pointer.
\<close>

fun chain :: "('p \<Rightarrow> 'p) \<Rightarrow> 'p :: zero \<Rightarrow> 'p list \<Rightarrow> bool" where
  "chain nx p [] \<longleftrightarrow> p = 0"
| "chain nx p (q # qs) \<longleftrightarrow> p = q \<and> q \<noteq> 0 \<and> chain nx (nx q) qs"

lemma chain_frame [simp]: "r \<notin> set qs \<Longrightarrow> chain (nx(r := x)) p qs \<longleftrightarrow> chain nx p qs"
  by (induction qs arbitrary: p) auto

lemma chain_cong: "(\<And>q. q \<in> set qs \<Longrightarrow> nx q = nx' q) \<Longrightarrow> chain nx p qs \<longleftrightarrow> chain nx' p qs"
  by (induction qs arbitrary: p) auto

lemma chain_snoc:
  assumes "chain nx p qs" "qs \<noteq> []" "distinct qs" "r \<notin> set qs" "r \<noteq> 0"
  shows "chain (nx(r := 0, last qs := r)) p (qs @ [r])"
  using assms
proof (induction qs arbitrary: p)
  case (Cons q qs)
  show ?case
  proof (cases "qs = []")
    case True
    then show ?thesis using Cons.prems by auto
  next
    case False
    have "chain nx (nx q) qs" "distinct qs" "r \<notin> set qs" using Cons.prems by auto
    then have "chain (nx(r := 0, last qs := r)) (nx q) (qs @ [r])"
      using Cons.IH False Cons.prems(5) by blast
    moreover have "q \<noteq> last qs" using Cons.prems(3) False by auto
    ultimately show ?thesis using Cons.prems False by (auto simp: fun_upd_def)
  qed
qed simp

lemma chain_nonzero: "chain nx p qs \<Longrightarrow> 0 \<notin> set qs"
  by (induction qs arbitrary: p) auto

lemma chain_unique: "chain nx p qs \<Longrightarrow> chain nx p rs \<Longrightarrow> qs = rs"
proof (induction qs arbitrary: p rs)
  case Nil
  then show ?case by (cases rs) auto
next
  case (Cons q qs)
  then show ?case by (cases rs) auto
qed

end
