(* ===== verification/Pmm.thy ===== *)
theory Pmm
  imports Prelude
begin

text \<open>
  The physical memory manager, src/src/mm/phys/pmm.c: a bitmap frame allocator with a
  reference count per frame. The record \<open>pmm\<close> holds the file-scope variables;
  every function of the file is one definition over it, at the width of the source
  (\<open>u64\<close> frame numbers and counters, \<open>u8\<close> reference counts). The lemmas relate the
  bitmap to the set of used frames, keep the free counter equal to the number of free
  frames, and give the locale \<open>frame_source\<close>, the contract the paging code relies on.
\<close>

section \<open>State and operations\<close>

record pmm =
  g_bitmap :: "nat \<Rightarrow> u64"
  g_refcount :: "nat \<Rightarrow> u8"
  g_nframes :: u64
  g_free :: u64

definition PAGE_SIZE :: u64 where "PAGE_SIZE = 4096"
definition MAX_FRAMES :: u64 where "MAX_FRAMES = 1048576"
definition BMP_WORDS :: nat where "BMP_WORDS = 16384"
definition RESERVED_END :: u64 where "RESERVED_END = 2097152"

definition mark_used :: "u64 \<Rightarrow> pmm \<Rightarrow> pmm" where
  "mark_used f s = s\<lparr>g_bitmap := (g_bitmap s)(unat (drop_bit 6 f) :=
     g_bitmap s (unat (drop_bit 6 f)) OR push_bit (unat (f AND 63)) 1)\<rparr>"

definition mark_free :: "u64 \<Rightarrow> pmm \<Rightarrow> pmm" where
  "mark_free f s = s\<lparr>g_bitmap := (g_bitmap s)(unat (drop_bit 6 f) :=
     g_bitmap s (unat (drop_bit 6 f)) AND NOT (push_bit (unat (f AND 63)) 1))\<rparr>"

definition is_used :: "u64 \<Rightarrow> pmm \<Rightarrow> bool" where
  "is_used f s \<longleftrightarrow> drop_bit (unat (f AND 63)) (g_bitmap s (unat (drop_bit 6 f))) AND 1 \<noteq> 0"

text \<open>The two marking loops of \<open>pmm_init\<close>.\<close>

function mark_reserved :: "u64 \<Rightarrow> u64 \<Rightarrow> pmm \<Rightarrow> pmm" where
  "mark_reserved f reserved s =
     (if f < reserved \<and> f < g_nframes s then mark_reserved (f + 1) reserved (mark_used f s) else s)"
  by pat_completeness auto
termination
  by (relation "measure (\<lambda>(f, r, s). unat r - unat f)") (auto simp: word_less_nat_alt)

function reserve_heap :: "u64 \<Rightarrow> u64 \<Rightarrow> pmm \<Rightarrow> pmm" where
  "reserve_heap f hend s =
     (if f < hend \<and> f < g_nframes s
      then reserve_heap (f + 1) hend
             (if \<not> is_used f s then (mark_used f s)\<lparr>g_free := g_free s - 1\<rparr> else s)
      else s)"
  by pat_completeness auto
termination
  by (relation "measure (\<lambda>(f, r, s). unat r - unat f)") (auto simp: word_less_nat_alt)

declare mark_reserved.simps [simp del] reserve_heap.simps [simp del]

definition pmm_init :: "u64 \<Rightarrow> pmm \<Rightarrow> os_status \<times> pmm" where
  "pmm_init ram_bytes s =
     (let n0 = ram_bytes div PAGE_SIZE;
          n = (if n0 > MAX_FRAMES then MAX_FRAMES else n0);
          s1 = s\<lparr>g_nframes := n, g_bitmap := (\<lambda>i. if i < BMP_WORDS then 0 else g_bitmap s i)\<rparr>;
          reserved = RESERVED_END div PAGE_SIZE;
          s2 = mark_reserved 0 reserved s1;
          s3 = s2\<lparr>g_free := n - reserved\<rparr>;
          hstart = (16 * 1024 * 1024) div PAGE_SIZE;
          hend = (48 * 1024 * 1024) div PAGE_SIZE
      in (OS_OK, reserve_heap hstart hend s3))"

function pmm_alloc_from :: "u64 \<Rightarrow> pmm \<Rightarrow> u64 \<times> pmm" where
  "pmm_alloc_from f s =
     (if f < g_nframes s
      then if \<not> is_used f s
           then (f * PAGE_SIZE,
                 (mark_used f s)\<lparr>g_free := g_free s - 1,
                                 g_refcount := (g_refcount s)(unat f := 1)\<rparr>)
           else pmm_alloc_from (f + 1) s
      else (0, s))"
  by pat_completeness auto
termination
  by (relation "measure (\<lambda>(f, s). unat (g_nframes s) - unat f)") (auto simp: word_less_nat_alt)

declare pmm_alloc_from.simps [simp del]

definition pmm_alloc_frame :: "pmm \<Rightarrow> u64 \<times> pmm" where
  "pmm_alloc_frame s = pmm_alloc_from 0 s"

definition pmm_free_frame :: "u64 \<Rightarrow> pmm \<Rightarrow> pmm" where
  "pmm_free_frame phys s =
     (let f = phys div PAGE_SIZE in
      if f \<ge> g_nframes s \<or> \<not> is_used f s then s
      else if g_refcount s (unat f) > 1
      then s\<lparr>g_refcount := (g_refcount s)(unat f := g_refcount s (unat f) - 1)\<rparr>
      else (mark_free f (s\<lparr>g_refcount := (g_refcount s)(unat f := 0)\<rparr>))\<lparr>g_free := g_free s + 1\<rparr>)"

definition pmm_addref :: "u64 \<Rightarrow> pmm \<Rightarrow> pmm" where
  "pmm_addref phys s =
     (let f = phys div PAGE_SIZE in
      if f < g_nframes s \<and> g_refcount s (unat f) < 255
      then s\<lparr>g_refcount := (g_refcount s)(unat f := g_refcount s (unat f) + 1)\<rparr>
      else s)"

definition pmm_refcount :: "u64 \<Rightarrow> pmm \<Rightarrow> u8" where
  "pmm_refcount phys s =
     (let f = phys div PAGE_SIZE in if f < g_nframes s then g_refcount s (unat f) else 0)"

definition pmm_free_count :: "pmm \<Rightarrow> u64" where
  "pmm_free_count s = g_free s"

section \<open>The abstract view: which frames are used\<close>

definition used :: "pmm \<Rightarrow> nat \<Rightarrow> bool" where
  "used s n \<longleftrightarrow> bit (g_bitmap s (n div 64)) (n mod 64)"

definition nframes :: "pmm \<Rightarrow> nat" where
  "nframes s = unat (g_nframes s)"

definition free_frames :: "pmm \<Rightarrow> nat set" where
  "free_frames s = {n. n < nframes s \<and> \<not> used s n}"

text \<open>A frame somebody allocated: used and counted. Reserved frames are used and not counted.\<close>

definition owned :: "pmm \<Rightarrow> nat \<Rightarrow> bool" where
  "owned s n \<longleftrightarrow> n < nframes s \<and> used s n \<and> 0 < g_refcount s n"

definition pmm_inv :: "pmm \<Rightarrow> bool" where
  "pmm_inv s \<longleftrightarrow>
     nframes s \<le> 1048576 \<and> unat (g_free s) = card (free_frames s) \<and>
     (\<forall>n < nframes s. \<not> used s n \<longrightarrow> g_refcount s n = 0) \<and>
     used s 0 \<and> g_refcount s 0 = 0"

lemma bmp_index:
  fixes f :: u64
  shows "unat (drop_bit 6 f) = unat f div 64" and "unat (f AND 63) = unat f mod 64"
proof -
  show "unat (drop_bit 6 f) = unat f div 64"
    by (simp only: unat_drop_bit_eq) (simp add: drop_bit_eq_div)
  have "(63::u64) = mask 6" by (simp add: mask_eq_exp_minus_1)
  then show "unat (f AND 63) = unat f mod 64"
    using word_and_mask_unat [of f 6] by simp
qed

lemma is_used_iff: "is_used f s \<longleftrightarrow> used s (unat f)"
proof -
  have "drop_bit k w AND 1 \<noteq> 0 \<longleftrightarrow> bit w k" for k and w :: u64
    by (simp add: and_one_eq bit_iff_odd_drop_bit mod_2_eq_odd)
  then show ?thesis by (simp add: is_used_def used_def bmp_index)
qed

lemma same_bitmap_slot: "(n::nat) div 64 = m div 64 \<Longrightarrow> n mod 64 = m mod 64 \<longleftrightarrow> n = m"
  by (metis div_mult_mod_eq)

lemma used_mark_used [step_simps]: "used (mark_used f s) = (used s)(unat f := True)"
  by (rule ext) (auto simp: used_def mark_used_def bmp_index bit_simps same_bitmap_slot)

lemma used_mark_free [step_simps]: "used (mark_free f s) = (used s)(unat f := False)"
  by (rule ext) (auto simp: used_def mark_free_def bmp_index bit_simps same_bitmap_slot)

lemma mark_frame [frame_simps]:
  "g_refcount (mark_used f s) = g_refcount s" "g_nframes (mark_used f s) = g_nframes s"
  "g_free (mark_used f s) = g_free s" "nframes (mark_used f s) = nframes s"
  "g_refcount (mark_free f s) = g_refcount s" "g_nframes (mark_free f s) = g_nframes s"
  "g_free (mark_free f s) = g_free s" "nframes (mark_free f s) = nframes s"
  by (simp_all add: mark_used_def mark_free_def nframes_def)

lemma used_update [frame_simps]:
  "used (s\<lparr>g_free := x\<rparr>) = used s" "used (s\<lparr>g_refcount := r\<rparr>) = used s"
  "nframes (s\<lparr>g_free := x\<rparr>) = nframes s" "nframes (s\<lparr>g_refcount := r\<rparr>) = nframes s"
  by (auto simp: used_def nframes_def fun_eq_iff)

lemma finite_free_frames [simp]: "finite (free_frames s)"
  by (rule finite_subset [of _ "{..<nframes s}"]) (auto simp: free_frames_def)

section \<open>Allocation\<close>

text \<open>What one successful allocation does to the state, given the frame it picked.\<close>

definition take_frame :: "u64 \<Rightarrow> pmm \<Rightarrow> pmm" where
  "take_frame f s = (mark_used f s)\<lparr>g_free := g_free s - 1,
                                     g_refcount := (g_refcount s)(unat f := 1)\<rparr>"

lemma pmm_alloc_from_cases:
  "(\<exists>g. f \<le> g \<and> g < g_nframes s \<and> \<not> used s (unat g) \<and>
        (\<forall>n. unat f \<le> n \<and> n < unat g \<longrightarrow> used s n) \<and>
        pmm_alloc_from f s = (g * PAGE_SIZE, take_frame g s)) \<or>
   ((\<forall>n. unat f \<le> n \<and> n < nframes s \<longrightarrow> used s n) \<and> pmm_alloc_from f s = (0, s))"
proof (induction f s rule: pmm_alloc_from.induct)
  case (1 f s)
  show ?case
  proof (cases "f < g_nframes s")
    case False
    then show ?thesis
      by (auto simp: pmm_alloc_from.simps [of f] nframes_def word_less_nat_alt)
  next
    case in_range: True
    show ?thesis
    proof (cases "is_used f s")
      case False
      with in_range show ?thesis
        by (intro disjI1 exI [of _ f])
          (auto simp: pmm_alloc_from.simps [of f] is_used_iff take_frame_def)
    next
      case True
      then have step: "pmm_alloc_from f s = pmm_alloc_from (f + 1) s"
        using in_range by (simp add: pmm_alloc_from.simps [of f])
      have here: "used s (unat f)" using True by (simp add: is_used_iff)
      have up: "unat (f + 1) \<le> n" if "unat f \<le> n" "n \<noteq> unat f" for n
        using in_range that by simp
      from 1 [OF in_range] True consider
        (found) g where "f + 1 \<le> g" "g < g_nframes s" "\<not> used s (unat g)"
          "\<forall>n. unat (f + 1) \<le> n \<and> n < unat g \<longrightarrow> used s n"
          "pmm_alloc_from (f + 1) s = (g * PAGE_SIZE, take_frame g s)"
      | (full) "\<forall>n. unat (f + 1) \<le> n \<and> n < nframes s \<longrightarrow> used s n"
          "pmm_alloc_from (f + 1) s = (0, s)"
        by blast
      then show ?thesis
      proof cases
        case found
        have "f \<le> g" using found(1) in_range by (simp add: word_le_nat_alt)
        moreover have "\<forall>n. unat f \<le> n \<and> n < unat g \<longrightarrow> used s n"
          using found(4) here up by metis
        ultimately show ?thesis using found step by auto
      next
        case full
        have "\<forall>n. unat f \<le> n \<and> n < nframes s \<longrightarrow> used s n"
          using full(1) here up by metis
        then show ?thesis using full step by simp
      qed
    qed
  qed
qed

lemma frame_addr:
  assumes "f < g_nframes s" and "nframes s \<le> 1048576"
  shows "unat (f * PAGE_SIZE) = unat f * 4096" and "f * PAGE_SIZE div PAGE_SIZE = f"
proof -
  have small: "unat f < 1048576"
    using assms by (simp add: nframes_def word_less_nat_alt)
  then show *: "unat (f * PAGE_SIZE) = unat f * 4096"
    by (simp add: PAGE_SIZE_def unat_word_ariths)
  have "unat (f * PAGE_SIZE div PAGE_SIZE) = unat f"
    using * by (simp only: unat_div_distrib) (simp add: PAGE_SIZE_def)
  then show "f * PAGE_SIZE div PAGE_SIZE = f"
    by (simp only: word_unat_eq_iff)
qed

lemma take_frame_effect [step_simps]:
  "used (take_frame f s) = (used s)(unat f := True)"
  "g_refcount (take_frame f s) = (g_refcount s)(unat f := 1)"
  "nframes (take_frame f s) = nframes s"
  "g_free (take_frame f s) = g_free s - 1"
  by (simp_all add: take_frame_def step_simps frame_simps)

lemma card_free_frames_take:
  assumes "n < nframes s" and "\<not> used s n" and "used t = (used s)(n := True)"
    and "nframes t = nframes s"
  shows "card (free_frames t) = card (free_frames s) - 1" and "0 < card (free_frames s)"
proof -
  have "free_frames t = free_frames s - {n}" and mem: "n \<in> free_frames s"
    using assms by (auto simp: free_frames_def)
  then show "card (free_frames t) = card (free_frames s) - 1" by simp
  show "0 < card (free_frames s)" using mem by (auto simp: card_gt_0_iff)
qed

lemma take_frame_inv:
  assumes inv: "pmm_inv s" and f: "f < g_nframes s" "\<not> used s (unat f)"
  shows "pmm_inv (take_frame f s)"
proof -
  have n: "unat f < nframes s" using f by (simp add: nframes_def word_less_nat_alt)
  note card = card_free_frames_take [OF n f(2) take_frame_effect(1) take_frame_effect(3)]
  have "1 \<le> g_free s" using inv card(2) by (simp add: pmm_inv_def word_le_nat_alt)
  then have "unat (g_free s - 1) = unat (g_free s) - 1" by (simp add: unat_sub)
  moreover have "unat f \<noteq> 0" using inv f(2) by (metis pmm_inv_def)
  ultimately show ?thesis
    using inv card by (auto simp: pmm_inv_def step_simps)
qed

lemma pmm_alloc_frame_cases:
  assumes "pmm_inv s"
  obtains (found) g where "g < g_nframes s" "\<not> used s (unat g)" "\<forall>n < unat g. used s n"
      "pmm_alloc_frame s = (g * PAGE_SIZE, take_frame g s)"
  | (full) "free_frames s = {}" "pmm_alloc_frame s = (0, s)"
  using pmm_alloc_from_cases [of 0 s]
  by (auto simp: pmm_alloc_frame_def free_frames_def)

text \<open>Under the invariant frame 0 is used, so a zero result means that no frame is free.\<close>

lemma pmm_alloc_frame_nonzero:
  assumes "pmm_inv s" and "g < g_nframes s" and "\<not> used s (unat g)"
  shows "g * PAGE_SIZE \<noteq> 0"
proof
  assume "g * PAGE_SIZE = 0"
  then have "unat g * 4096 = 0"
    using frame_addr(1) [of g s] assms by (simp add: pmm_inv_def)
  then show False using assms by (simp add: pmm_inv_def)
qed

lemma pmm_alloc_frame_inv:
  assumes "pmm_inv s"
  shows "pmm_inv (snd (pmm_alloc_frame s))"
  by (rule pmm_alloc_frame_cases [OF assms]) (simp_all add: assms take_frame_inv)

section \<open>Release and sharing\<close>

lemma pmm_free_frame_effect:
  assumes "unat phys div 4096 = n" and "n < nframes s" and "used s n"
  shows "g_refcount s n > 1 \<Longrightarrow>
      used (pmm_free_frame phys s) = used s \<and> nframes (pmm_free_frame phys s) = nframes s \<and>
      g_free (pmm_free_frame phys s) = g_free s \<and>
      g_refcount (pmm_free_frame phys s) = (g_refcount s)(n := g_refcount s n - 1)"
    and "\<not> g_refcount s n > 1 \<Longrightarrow>
      used (pmm_free_frame phys s) = (used s)(n := False) \<and>
      nframes (pmm_free_frame phys s) = nframes s \<and>
      g_free (pmm_free_frame phys s) = g_free s + 1 \<and>
      g_refcount (pmm_free_frame phys s) = (g_refcount s)(n := 0)"
proof -
  have div: "unat (phys div PAGE_SIZE) = n"
    using assms(1) by (simp only: unat_div_distrib) (simp add: PAGE_SIZE_def)
  have "\<not> (phys div PAGE_SIZE \<ge> g_nframes s \<or> \<not> is_used (phys div PAGE_SIZE) s)"
    using assms(2,3) div by (simp add: is_used_iff word_le_nat_alt nframes_def)
  note unfolded = pmm_free_frame_def Let_def if_not_P [OF this] div
  show "g_refcount s n > 1 \<Longrightarrow>
      used (pmm_free_frame phys s) = used s \<and> nframes (pmm_free_frame phys s) = nframes s \<and>
      g_free (pmm_free_frame phys s) = g_free s \<and>
      g_refcount (pmm_free_frame phys s) = (g_refcount s)(n := g_refcount s n - 1)"
    by (simp add: unfolded frame_simps)
  show "\<not> g_refcount s n > 1 \<Longrightarrow>
      used (pmm_free_frame phys s) = (used s)(n := False) \<and>
      nframes (pmm_free_frame phys s) = nframes s \<and>
      g_free (pmm_free_frame phys s) = g_free s + 1 \<and>
      g_refcount (pmm_free_frame phys s) = (g_refcount s)(n := 0)"
    by (simp add: unfolded frame_simps step_simps)
qed

lemma card_free_frames_give:
  assumes "n < nframes s" and "used s n" and "used t = (used s)(n := False)"
    and "nframes t = nframes s"
  shows "card (free_frames t) = Suc (card (free_frames s))"
proof -
  have "free_frames t = insert n (free_frames s)" and "n \<notin> free_frames s"
    using assms by (auto simp: free_frames_def)
  then show ?thesis by simp
qed

lemma card_free_frames_bound: "card (free_frames s) \<le> nframes s"
proof -
  have "free_frames s \<subseteq> {..<nframes s}" by (auto simp: free_frames_def)
  then show ?thesis using card_mono [of "{..<nframes s}"] by auto
qed

lemma pmm_free_frame_inv:
  assumes inv: "pmm_inv s" and owned: "owned s (unat phys div 4096)"
  shows "pmm_inv (pmm_free_frame phys s)"
proof -
  let ?n = "unat phys div 4096" and ?t = "pmm_free_frame phys s"
  have n: "?n < nframes s" "used s ?n" "0 < g_refcount s ?n" using owned by (auto simp: owned_def)
  have "?n \<noteq> 0" using inv n(3) unfolding pmm_inv_def by (metis less_irrefl)
  note effect = pmm_free_frame_effect [OF refl n(1,2)]
  show ?thesis
  proof (cases "g_refcount s ?n > 1")
    case True
    from effect(1) [OF this] have "free_frames ?t = free_frames s" by (simp add: free_frames_def)
    then show ?thesis using effect(1) [OF True] inv n \<open>?n \<noteq> 0\<close> by (auto simp: pmm_inv_def)
  next
    case False
    have card: "card (free_frames ?t) = Suc (card (free_frames s))"
      using card_free_frames_give [OF n(1,2)] effect(2) [OF False] by blast
    have "unat (g_free s) < 2 ^ 20 + 1"
      using inv card_free_frames_bound [of s] by (simp add: pmm_inv_def)
    then have "unat (g_free s + 1) = Suc (unat (g_free s))"
      by (simp add: unat_word_ariths)
    then show ?thesis using effect(2) [OF False] inv card \<open>?n \<noteq> 0\<close> by (auto simp: pmm_inv_def)
  qed
qed

lemma pmm_addref_effect:
  assumes "unat phys div 4096 = n" and "n < nframes s"
  shows "used (pmm_addref phys s) = used s" and "nframes (pmm_addref phys s) = nframes s"
    and "g_free (pmm_addref phys s) = g_free s"
    and "g_refcount (pmm_addref phys s) =
           (g_refcount s)(n := if g_refcount s n < 255 then g_refcount s n + 1 else g_refcount s n)"
proof -
  have div: "unat (phys div PAGE_SIZE) = n"
    using assms(1) by (simp only: unat_div_distrib) (simp add: PAGE_SIZE_def)
  have "phys div PAGE_SIZE < g_nframes s"
    using assms(2) div by (simp add: word_less_nat_alt nframes_def)
  note unfolded = pmm_addref_def Let_def div this
  show "used (pmm_addref phys s) = used s" "nframes (pmm_addref phys s) = nframes s"
    "g_free (pmm_addref phys s) = g_free s"
    by (simp_all add: unfolded frame_simps)
  show "g_refcount (pmm_addref phys s) =
      (g_refcount s)(n := if g_refcount s n < 255 then g_refcount s n + 1 else g_refcount s n)"
    by (simp add: unfolded)
qed

lemma pmm_addref_inv:
  assumes inv: "pmm_inv s" and owned: "owned s (unat phys div 4096)"
  shows "pmm_inv (pmm_addref phys s)"
proof -
  have n: "unat phys div 4096 < nframes s" "used s (unat phys div 4096)"
    using owned by (auto simp: owned_def)
  have "unat phys div 4096 \<noteq> 0" using inv owned by (auto simp: pmm_inv_def owned_def)
  then show ?thesis
    using inv n pmm_addref_effect [OF refl n(1)] by (auto simp: pmm_inv_def free_frames_def)
qed

section \<open>Initialisation\<close>

lemma mark_reserved_effect [step_simps]:
  "used (mark_reserved f r s) n = (used s n \<or> unat f \<le> n \<and> n < unat r \<and> n < nframes s)"
  "g_refcount (mark_reserved f r s) = g_refcount s"
  "g_nframes (mark_reserved f r s) = g_nframes s"
proof (induction f r s rule: mark_reserved.induct)
  case (1 f r s)
  {
    case 1
    show ?case
    proof (cases "f < r \<and> f < g_nframes s")
      case True
      then have "mark_reserved f r s = mark_reserved (f + 1) r (mark_used f s)"
        by (simp add: mark_reserved.simps [of f r s])
      moreover have "unat (f + 1) = Suc (unat f)" using True by auto
      ultimately show ?thesis
        using True "1.IH"(1) by (auto simp: step_simps frame_simps word_less_nat_alt nframes_def)
    next
      case False
      then have "mark_reserved f r s = s" by (auto simp: mark_reserved.simps [of f r s])
      then show ?thesis using False by (auto simp: word_less_nat_alt nframes_def)
    qed
  next
    case 2
    show ?case using "1.IH"(2) by (simp add: mark_reserved.simps [of f r s] frame_simps)
  next
    case 3
    show ?case using "1.IH"(3) by (simp add: mark_reserved.simps [of f r s] frame_simps)
  }
qed

text \<open>The frames the second loop of \<open>pmm_init\<close> newly marks.\<close>

definition heap_window :: "u64 \<Rightarrow> u64 \<Rightarrow> pmm \<Rightarrow> nat set" where
  "heap_window f h s = {n. unat f \<le> n \<and> n < unat h \<and> n < nframes s \<and> \<not> used s n}"

lemma heap_window_step:
  assumes "f < h" "f < g_nframes s"
  shows "heap_window (f + 1) h (if \<not> is_used f s then (mark_used f s)\<lparr>g_free := x\<rparr> else s) =
           heap_window f h s - {unat f}"
    and "unat f \<in> heap_window f h s \<longleftrightarrow> \<not> is_used f s"
  using assms
  by (auto simp: heap_window_def step_simps frame_simps is_used_iff nframes_def word_less_nat_alt
      le_Suc_eq Suc_le_eq intro: le_neq_implies_less)

lemma finite_heap_window [simp]: "finite (heap_window f h s)"
  by (rule finite_subset [of _ "{..<nframes s}"]) (auto simp: heap_window_def)

lemma reserve_heap_effect [step_simps]:
  "used (reserve_heap f h s) n = (used s n \<or> unat f \<le> n \<and> n < unat h \<and> n < nframes s)"
  "g_refcount (reserve_heap f h s) = g_refcount s"
  "g_nframes (reserve_heap f h s) = g_nframes s"
  "g_free (reserve_heap f h s) = g_free s - of_nat (card (heap_window f h s))"
proof (induction f h s rule: reserve_heap.induct)
  case (1 f h s)
  let ?t = "if \<not> is_used f s then (mark_used f s)\<lparr>g_free := g_free s - 1\<rparr> else s"
  have run: "reserve_heap f h s =
      (if f < h \<and> f < g_nframes s then reserve_heap (f + 1) h ?t else s)"
    by (rule reserve_heap.simps)
  {
    case 1
    show ?case
    proof (cases "f < h \<and> f < g_nframes s")
      case True
      then have "unat (f + 1) = Suc (unat f)" by auto
      with True show ?thesis unfolding run
        using "1.IH"(1) by (auto simp: step_simps frame_simps word_less_nat_alt nframes_def is_used_iff)
    next
      case False
      then show ?thesis unfolding run by (auto simp: word_less_nat_alt nframes_def)
    qed
  next
    case 2
    show ?case unfolding run using "1.IH"(2) by (simp add: frame_simps)
  next
    case 3
    show ?case unfolding run using "1.IH"(3) by (simp add: frame_simps)
  next
    case 4
    show ?case
    proof (cases "f < h \<and> f < g_nframes s")
      case True
      then have window: "heap_window (f + 1) h ?t = heap_window f h s - {unat f}"
        "unat f \<in> heap_window f h s \<longleftrightarrow> \<not> is_used f s"
        by (auto simp only: heap_window_step)
      have "g_free (reserve_heap f h s) = g_free ?t - of_nat (card (heap_window f h s - {unat f}))"
        unfolding run using True "1.IH"(4) window(1) by simp
      then show ?thesis
      proof (cases "is_used f s")
        case used: True
        with window have "unat f \<notin> heap_window f h s" by simp
        then show ?thesis using used \<open>g_free (reserve_heap f h s) = _\<close> by simp
      next
        case False
        with window have "unat f \<in> heap_window f h s" by simp
        then have "card (heap_window f h s) = Suc (card (heap_window f h s - {unat f}))"
          by (metis card_Suc_Diff1 finite_heap_window)
        then show ?thesis
          using False \<open>g_free (reserve_heap f h s) = _\<close> by (simp add: frame_simps)
      qed
    next
      case False
      then have "heap_window f h s = {}" by (auto simp: heap_window_def word_less_nat_alt nframes_def)
      then show ?thesis unfolding run using False by auto
    qed
  }
qed

text \<open>The frames \<open>pmm_init\<close> keeps for the kernel image and for the heap window.\<close>

definition reserved_frame :: "nat \<Rightarrow> bool" where
  "reserved_frame n \<longleftrightarrow> n < 512 \<or> 4096 \<le> n \<and> n < 12288"

definition ram_frames :: "u64 \<Rightarrow> nat" where
  "ram_frames ram_bytes = min (unat ram_bytes div 4096) 1048576"

lemma pmm_init_effect:
  assumes "512 \<le> ram_frames ram"
  shows "nframes (snd (pmm_init ram s)) = ram_frames ram"
    and "n < ram_frames ram \<Longrightarrow> used (snd (pmm_init ram s)) n = reserved_frame n"
    and "g_refcount (snd (pmm_init ram s)) = g_refcount s"
    and "unat (g_free (snd (pmm_init ram s))) =
           card {n. n < ram_frames ram \<and> \<not> reserved_frame n}"
proof -
  let ?n = "if ram div PAGE_SIZE > MAX_FRAMES then MAX_FRAMES else ram div PAGE_SIZE"
  let ?s1 = "s\<lparr>g_nframes := ?n, g_bitmap := (\<lambda>i. if i < BMP_WORDS then 0 else g_bitmap s i)\<rparr>"
  let ?s3 = "(mark_reserved 0 512 ?s1)\<lparr>g_free := ?n - 512\<rparr>"
  have div: "unat (ram div PAGE_SIZE) = unat ram div 4096"
    by (simp only: unat_div_distrib) (simp add: PAGE_SIZE_def)
  have n: "unat ?n = ram_frames ram"
    by (auto simp: ram_frames_def MAX_FRAMES_def word_less_nat_alt div min_def)
  have init: "snd (pmm_init ram s) = reserve_heap 4096 12288 ?s3"
    by (simp add: pmm_init_def Let_def RESERVED_END_def PAGE_SIZE_def)
  have nf: "nframes ?s1 = ram_frames ram" "nframes ?s3 = ram_frames ram"
    using n by (simp_all add: nframes_def step_simps)
  have used1: "\<not> used ?s1 k" if "k < ram_frames ram" for k
  proof -
    have "k div 64 < 16384" using that by (auto simp: ram_frames_def)
    then show ?thesis by (simp add: used_def BMP_WORDS_def)
  qed
  have used3: "used ?s3 k = (k < 512)" if "k < ram_frames ram" for k
    using that used1 [OF that] nf by (simp add: step_simps frame_simps)
  show "nframes (snd (pmm_init ram s)) = ram_frames ram"
    using nf by (simp add: init nframes_def step_simps)
  show "used (snd (pmm_init ram s)) n = reserved_frame n" if "n < ram_frames ram"
    using used3 [OF that] that nf by (auto simp: init step_simps reserved_frame_def)
  show "g_refcount (snd (pmm_init ram s)) = g_refcount s"
    by (simp add: init step_simps)
  define w where "w = heap_window 4096 12288 ?s3"
  have "w = {k. 4096 \<le> k \<and> k < 12288 \<and> k < ram_frames ram}"
    using used3 nf by (auto simp: w_def heap_window_def)
  then have w: "w = {4096..<min 12288 (ram_frames ram)}" by auto
  have free: "{k. k < ram_frames ram \<and> \<not> reserved_frame k} = {512..<ram_frames ram} - w"
    by (auto simp: w reserved_frame_def)
  have "w \<subseteq> {512..<ram_frames ram}" by (auto simp: w)
  then have card: "card {k. k < ram_frames ram \<and> \<not> reserved_frame k} = ram_frames ram - 512 - card w"
    and le: "card w \<le> ram_frames ram - 512"
    unfolding free by (auto simp: card_Diff_subset finite_subset dest: card_mono [rotated])
  have "g_free (snd (pmm_init ram s)) = ?n - 512 - of_nat (card w)"
    by (simp add: init step_simps w_def)
  also have "\<dots> = of_nat (ram_frames ram - 512 - card w)"
    using assms le n [symmetric] by (simp add: of_nat_diff)
  finally show "unat (g_free (snd (pmm_init ram s))) =
      card {n. n < ram_frames ram \<and> \<not> reserved_frame n}"
    unfolding card by (simp add: unat_of_nat ram_frames_def)
qed

section \<open>The frame allocator as an interface\<close>

text \<open>
  What the paging code needs of a frame allocator: a nonzero answer is the address of a
  frame that was not in use and is in use afterwards, nothing else changes hands, and the
  provider's invariant survives.
\<close>

fun frames_n :: "('s \<Rightarrow> u64 \<times> 's) \<Rightarrow> nat \<Rightarrow> 's \<Rightarrow> u64 list \<times> 's" where
  "frames_n alloc 0 s = ([], s)"
| "frames_n alloc (Suc k) s =
     (case alloc s of (p, s1) \<Rightarrow> case frames_n alloc k s1 of (ps, s2) \<Rightarrow> (p # ps, s2))"

lemma frames_n_length:
  "frames_n alloc k s = (ps, t) \<Longrightarrow> length ps = k"
  by (induction k arbitrary: s ps t) (auto split: prod.splits)

locale frame_source =
  fixes alloc :: "'s \<Rightarrow> u64 \<times> 's"
    and in_use :: "'s \<Rightarrow> nat \<Rightarrow> bool"
    and invar :: "'s \<Rightarrow> bool"
  assumes alloc_invar: "invar s \<Longrightarrow> invar (snd (alloc s))"
    and alloc_in_use: "invar s \<Longrightarrow> alloc s = (p, t) \<Longrightarrow> p \<noteq> 0 \<Longrightarrow>
           in_use t = (in_use s)(unat p div 4096 := True)"
    and alloc_fresh: "invar s \<Longrightarrow> alloc s = (p, t) \<Longrightarrow> p \<noteq> 0 \<Longrightarrow> \<not> in_use s (unat p div 4096)"
    and alloc_aligned: "invar s \<Longrightarrow> alloc s = (p, t) \<Longrightarrow> 4096 dvd unat p"
    and alloc_fail: "invar s \<Longrightarrow> alloc s = (0, t) \<Longrightarrow> t = s"
begin

lemma frames_n_fresh:
  assumes "invar s" and "frames_n alloc k s = (ps, t)"
  shows "(\<forall>p \<in> set ps. p = 0 \<or> \<not> in_use s (unat p div 4096) \<and> 4096 dvd unat p) \<and>
         distinct (map (\<lambda>p. unat p div 4096) (filter (\<lambda>p. p \<noteq> 0) ps))"
  using assms
proof (induction k arbitrary: s ps t)
  case 0
  then show ?case by simp
next
  case (Suc k)
  obtain p s1 where a: "alloc s = (p, s1)" by (cases "alloc s")
  obtain qs s2 where r: "frames_n alloc k s1 = (qs, s2)" by (cases "frames_n alloc k s1")
  have ps: "ps = p # qs" using Suc.prems(2) a r by auto
  have inv1: "invar s1" using alloc_invar [OF Suc.prems(1)] a by simp
  note ih = Suc.IH [OF inv1 r]
  show ?case
  proof (cases "p = 0")
    case True
    then show ?thesis using ih ps alloc_fail [OF Suc.prems(1)] a by auto
  next
    case False
    note use = alloc_in_use [OF Suc.prems(1) a False]
    have "\<not> in_use s (unat q div 4096) \<and> unat q div 4096 \<noteq> unat p div 4096"
      if "q \<in> set qs" "q \<noteq> 0" for q
      using ih that use by (auto split: if_splits)
    then show ?thesis
      using ih ps alloc_fresh [OF Suc.prems(1) a False] alloc_aligned [OF Suc.prems(1) a] by force
  qed
qed

end

definition taken :: "pmm \<Rightarrow> nat \<Rightarrow> bool" where
  "taken s n \<longleftrightarrow> n \<notin> free_frames s"

lemma taken_take_frame:
  assumes "g < g_nframes s"
  shows "taken (take_frame g s) = (taken s)(unat g := True)"
  by (auto simp: fun_eq_iff taken_def free_frames_def step_simps)

interpretation pmm_frames: frame_source pmm_alloc_frame taken pmm_inv
proof
  fix s p t
  assume inv: "pmm_inv s"
  show "pmm_inv (snd (pmm_alloc_frame s))" using inv by (rule pmm_alloc_frame_inv)
  assume a: "pmm_alloc_frame s = (p, t)"
  show "4096 dvd unat p"
    using inv a by (rule_tac pmm_alloc_frame_cases [OF inv])
      (auto simp: frame_addr(1) [of _ s] pmm_inv_def)
  show "taken t = (taken s)(unat p div 4096 := True)" if "p \<noteq> 0"
    using inv a that
    by (rule_tac pmm_alloc_frame_cases [OF inv])
      (auto simp: frame_addr(1) [of _ s] pmm_inv_def taken_take_frame)
  show "\<not> taken s (unat p div 4096)" if "p \<noteq> 0"
    using inv a that
    by (rule_tac pmm_alloc_frame_cases [OF inv])
      (auto simp: frame_addr(1) [of _ s] pmm_inv_def taken_def free_frames_def nframes_def
        word_less_nat_alt)
next
  fix s t
  assume inv: "pmm_inv s" and a: "pmm_alloc_frame s = (0, t)"
  show "t = s"
    using inv a pmm_alloc_frame_nonzero [OF inv]
    by (rule_tac pmm_alloc_frame_cases [OF inv]) auto
qed

section \<open>Runs of the allocator\<close>

text \<open>
  The states reachable from boot: callers allocate, and they release or share only frames
  they own. The reserved frames stay used and uncounted in all of them.
\<close>

definition pmm_boot :: pmm where
  "pmm_boot = \<lparr>g_bitmap = (\<lambda>_. 0), g_refcount = (\<lambda>_. 0), g_nframes = 0, g_free = 0\<rparr>"

inductive pmm_reach :: "u64 \<Rightarrow> pmm \<Rightarrow> bool" for ram where
  init: "pmm_reach ram (snd (pmm_init ram pmm_boot))"
| alloc: "pmm_reach ram s \<Longrightarrow> pmm_reach ram (snd (pmm_alloc_frame s))"
| free: "pmm_reach ram s \<Longrightarrow> owned s (unat phys div 4096) \<Longrightarrow> pmm_reach ram (pmm_free_frame phys s)"
| addref: "pmm_reach ram s \<Longrightarrow> owned s (unat phys div 4096) \<Longrightarrow> pmm_reach ram (pmm_addref phys s)"

definition keeps_reserved :: "pmm \<Rightarrow> bool" where
  "keeps_reserved s \<longleftrightarrow> (\<forall>n < nframes s. reserved_frame n \<longrightarrow> used s n \<and> g_refcount s n = 0)"

lemma pmm_init_inv:
  assumes "512 \<le> ram_frames ram" and "g_refcount s = (\<lambda>_. 0)"
  shows "pmm_inv (snd (pmm_init ram s))" and "keeps_reserved (snd (pmm_init ram s))"
    and "free_frames (snd (pmm_init ram s)) = {n. n < ram_frames ram \<and> \<not> reserved_frame n}"
proof -
  note e = pmm_init_effect(1,3,4) [OF assms(1), of s] pmm_init_effect(2) [OF assms(1), of _ s]
  show free: "free_frames (snd (pmm_init ram s)) = {n. n < ram_frames ram \<and> \<not> reserved_frame n}"
    using e by (auto simp: free_frames_def)
  have "0 < ram_frames ram" "reserved_frame 0"
    using assms(1) by (auto simp: reserved_frame_def)
  then show "pmm_inv (snd (pmm_init ram s))"
    using e free assms(2) by (auto simp: pmm_inv_def ram_frames_def)
  show "keeps_reserved (snd (pmm_init ram s))"
    using e assms(2) by (auto simp: keeps_reserved_def)
qed

lemma keeps_reserved_free:
  assumes "keeps_reserved s" and "owned s n"
  shows "\<not> reserved_frame n"
  using assms by (auto simp: keeps_reserved_def owned_def)

lemma pmm_reach_inv:
  assumes ram: "512 \<le> ram_frames ram"
  shows "pmm_reach ram s \<Longrightarrow> pmm_inv s \<and> keeps_reserved s"
proof (induction rule: pmm_reach.induct)
  case init
  show ?case using pmm_init_inv [OF ram] by (simp add: pmm_boot_def)
next
  case (alloc s)
  then have inv: "pmm_inv s" and res: "keeps_reserved s" by auto
  have "keeps_reserved (snd (pmm_alloc_frame s))"
    using inv res
    by (rule_tac pmm_alloc_frame_cases [OF inv])
      (auto simp: keeps_reserved_def step_simps word_less_nat_alt)
  then show ?case using pmm_alloc_frame_inv [OF inv] by simp
next
  case (free s phys)
  let ?n = "unat phys div 4096"
  have n: "?n < nframes s" "used s ?n" "\<not> reserved_frame ?n"
    using free keeps_reserved_free by (auto simp: owned_def)
  have "keeps_reserved (pmm_free_frame phys s)"
    using free.IH n pmm_free_frame_effect [OF refl n(1,2)]
    by (cases "g_refcount s ?n > 1") (auto simp: keeps_reserved_def)
  then show ?case using pmm_free_frame_inv free by simp
next
  case (addref s phys)
  let ?n = "unat phys div 4096"
  have n: "?n < nframes s" "used s ?n" "\<not> reserved_frame ?n"
    using addref keeps_reserved_free by (auto simp: owned_def)
  have "keeps_reserved (pmm_addref phys s)"
    using addref.IH n pmm_addref_effect [OF refl n(1)] by (auto simp: keeps_reserved_def)
  then show ?case using pmm_addref_inv addref by simp
qed

lemma addref_count:
  assumes "n < nframes s" and "unat phys div 4096 = n" and "unat (g_refcount s n) + k \<le> 255"
  shows "(pmm_addref phys ^^ k) s =
           s\<lparr>g_refcount := (g_refcount s)(n := g_refcount s n + of_nat k)\<rparr>"
  using assms(3)
proof (induction k)
  case 0
  then show ?case by simp
next
  case (Suc k)
  let ?t = "s\<lparr>g_refcount := (g_refcount s)(n := g_refcount s n + of_nat k)\<rparr>"
  have div: "unat (phys div PAGE_SIZE) = n"
    using assms(2) by (simp only: unat_div_distrib) (simp add: PAGE_SIZE_def)
  have "unat (g_refcount s n + of_nat k) = unat (g_refcount s n) + k"
    using Suc.prems by (simp add: unat_word_ariths unat_of_nat)
  then have "g_refcount s n + of_nat k < 255"
    using Suc.prems by (simp add: word_less_nat_alt)
  then have "pmm_addref phys ?t = s\<lparr>g_refcount := (g_refcount s)(n := g_refcount s n + of_nat (Suc k))\<rparr>"
    using assms(1) div by (simp add: pmm_addref_def Let_def nframes_def word_less_nat_alt add_ac)
  then show ?case using Suc.IH Suc.prems by (simp del: fun_upd_apply add: fun_upd_def)
qed

lemma free_count:
  assumes "n < nframes s" and "used s n" and "unat phys div 4096 = n"
    and "k < unat (g_refcount s n)"
  shows "(pmm_free_frame phys ^^ k) s =
           s\<lparr>g_refcount := (g_refcount s)(n := g_refcount s n - of_nat k)\<rparr>"
  using assms(4)
proof (induction k)
  case 0
  then show ?case by simp
next
  case (Suc k)
  let ?t = "s\<lparr>g_refcount := (g_refcount s)(n := g_refcount s n - of_nat k)\<rparr>"
  have div: "unat (phys div PAGE_SIZE) = n"
    using assms(3) by (simp only: unat_div_distrib) (simp add: PAGE_SIZE_def)
  have k: "k < 256" using Suc.prems unat_u8 [of "g_refcount s n"] by simp
  then have "of_nat k \<le> g_refcount s n"
    using Suc.prems by (simp add: word_le_nat_alt unat_of_nat)
  then have "unat (g_refcount s n - of_nat k) = unat (g_refcount s n) - k"
    using k by (simp add: unat_sub unat_of_nat)
  then have "g_refcount s n - of_nat k > 1"
    using Suc.prems by (simp add: word_less_nat_alt)
  moreover have "\<not> (phys div PAGE_SIZE \<ge> g_nframes ?t \<or> \<not> is_used (phys div PAGE_SIZE) ?t)"
    using assms(1,2) div by (simp add: is_used_iff word_le_nat_alt nframes_def frame_simps)
  ultimately have "pmm_free_frame phys ?t =
      s\<lparr>g_refcount := (g_refcount s)(n := g_refcount s n - of_nat (Suc k))\<rparr>"
    using div by (simp add: pmm_free_frame_def Let_def algebra_simps)
  then show ?case using Suc.IH Suc.prems by (simp del: fun_upd_apply add: fun_upd_def)
qed

section \<open>Properties\<close>

text \<open>
  C2: boot. On a machine with at least 2 MB of RAM \<open>pmm_init\<close> establishes the allocator
  invariant, and the free frames are exactly the frames of RAM outside the first 2 MB
  and outside the kernel heap window; \<open>pmm_free_count\<close> is their number.
\<close>

theorem pmm_init_free_set:
  assumes "512 \<le> ram_frames ram"
  shows "fst (pmm_init ram pmm_boot) = OS_OK \<and> pmm_inv (snd (pmm_init ram pmm_boot)) \<and>
         free_frames (snd (pmm_init ram pmm_boot)) = {n. n < ram_frames ram \<and> \<not> reserved_frame n} \<and>
         unat (pmm_free_count (snd (pmm_init ram pmm_boot))) =
           card {n. n < ram_frames ram \<and> \<not> reserved_frame n}"
  using pmm_init_inv [OF assms, of pmm_boot] pmm_init_effect(4) [OF assms, of pmm_boot]
  by (simp add: pmm_boot_def pmm_free_count_def) (simp add: pmm_init_def Let_def)

theorem pmm_init_free_set_witness:
  "512 \<le> ram_frames 0x8000000 \<and> pmm_inv (snd (pmm_init 0x8000000 pmm_boot))"
  using pmm_init_free_set [of "0x8000000"] by (simp add: ram_frames_def)

text \<open>
  C3: allocation. In a state that satisfies the invariant \<open>pmm_alloc_frame\<close> returns the
  address of the lowest free frame, marks exactly that frame used with one owner, and
  decrements the free counter; it returns 0, changing nothing, exactly when no frame is
  free. The address is page aligned and never 0.
\<close>

theorem pmm_alloc_lowest:
  assumes "pmm_inv s"
  shows "if free_frames s = {} then pmm_alloc_frame s = (0, s)
         else \<exists>p t. pmm_alloc_frame s = (p, t) \<and> p \<noteq> 0 \<and>
                unat p = 4096 * Min (free_frames s) \<and>
                free_frames t = free_frames s - {Min (free_frames s)} \<and>
                g_refcount t = (g_refcount s)(Min (free_frames s) := 1) \<and>
                g_free t = g_free s - 1 \<and> pmm_inv t"
proof (rule pmm_alloc_frame_cases [OF assms])
  fix g assume g: "g < g_nframes s" "\<not> used s (unat g)" "\<forall>n < unat g. used s n"
    and eq: "pmm_alloc_frame s = (g * PAGE_SIZE, take_frame g s)"
  have mem: "unat g \<in> free_frames s"
    using g by (simp add: free_frames_def nframes_def word_less_nat_alt)
  have "Min (free_frames s) = unat g"
    using g(3) mem finite_free_frames
    by (intro Min_eqI) (auto simp: free_frames_def not_less [symmetric])
  moreover have "free_frames (take_frame g s) = free_frames s - {unat g}"
    by (auto simp: free_frames_def step_simps)
  moreover have "unat (g * PAGE_SIZE) = unat g * 4096"
    using frame_addr(1) [OF g(1)] assms by (simp add: pmm_inv_def)
  ultimately show ?thesis
    using mem eq pmm_alloc_frame_inv [OF assms] pmm_alloc_frame_nonzero [OF assms g(1,2)]
    by (auto simp: step_simps)
next
  assume "free_frames s = {}" and "pmm_alloc_frame s = (0, s)"
  then show ?thesis by simp
qed

definition pmm_small :: pmm where
  "pmm_small = \<lparr>g_bitmap = (\<lambda>_. 1), g_refcount = (\<lambda>_. 0), g_nframes = 3, g_free = 2\<rparr>"

lemma pmm_small_free: "free_frames pmm_small = {1, 2}"
proof -
  have "used pmm_small 0" "\<not> used pmm_small 1" "\<not> used pmm_small 2"
    by (simp_all add: used_def pmm_small_def)
  moreover have "free_frames pmm_small = Set.filter (\<lambda>n. \<not> used pmm_small n) {..< 3}"
    by (auto simp: free_frames_def nframes_def pmm_small_def)
  moreover have "{..< 3} = {0, 1, 2 :: nat}" by auto
  ultimately show ?thesis by auto
qed

lemma pmm_small_inv: "pmm_inv pmm_small"
  unfolding pmm_inv_def pmm_small_free by (simp add: pmm_small_def used_def nframes_def)

theorem pmm_alloc_lowest_witness:
  "pmm_inv pmm_small \<and> unat (fst (pmm_alloc_frame pmm_small)) = 4096 \<and>
   free_frames (snd (pmm_alloc_frame pmm_small)) = {2}"
proof -
  have ne: "free_frames pmm_small \<noteq> {}" and min: "Min (free_frames pmm_small) = 1"
    and rest: "free_frames pmm_small - {1} = {2}"
    unfolding pmm_small_free by simp_all
  obtain p t where "pmm_alloc_frame pmm_small = (p, t)" "unat p = 4096 * 1" "free_frames t = {2}"
    using pmm_alloc_lowest [OF pmm_small_inv] unfolding if_not_P [OF ne] min rest by blast
  then show ?thesis using pmm_small_inv by simp
qed

text \<open>
  C1: safety of every run. In every state reached from boot by allocating, and by
  releasing and sharing frames that are owned, the invariant holds (the counter equals the
  number of clear bitmap bits); however many frames are then requested, the nonzero
  answers are pairwise distinct page-aligned frames, none of them in use before and none
  of them in the reserved low 2 MB or in the kernel heap window.
\<close>

theorem pmm_reach_safe:
  assumes "512 \<le> ram_frames ram" and "pmm_reach ram s"
    and "frames_n pmm_alloc_frame k s = (ps, t)"
  shows "unat (pmm_free_count s) = card (free_frames s) \<and>
         distinct (map (\<lambda>p. unat p div 4096) (filter (\<lambda>p. p \<noteq> 0) ps)) \<and>
         (\<forall>p \<in> set ps. p = 0 \<or> 4096 dvd unat p \<and> unat p div 4096 \<in> free_frames s \<and>
            \<not> reserved_frame (unat p div 4096))"
proof -
  have inv: "pmm_inv s" and res: "keeps_reserved s" using pmm_reach_inv [OF assms(1,2)] by auto
  have "\<not> reserved_frame n" if "n \<in> free_frames s" for n
    using that res by (auto simp: keeps_reserved_def free_frames_def)
  then show ?thesis
    using pmm_frames.frames_n_fresh [OF inv assms(3)] inv
    by (auto simp: pmm_free_count_def pmm_inv_def taken_def)
qed

theorem pmm_reach_safe_witness:
  "\<exists>ps t. frames_n pmm_alloc_frame 3 (snd (pmm_init 0x8000000 pmm_boot)) = (ps, t) \<and>
     length ps = 3 \<and> distinct (map (\<lambda>p. unat p div 4096) (filter (\<lambda>p. p \<noteq> 0) ps))"
proof -
  obtain ps t where e: "frames_n pmm_alloc_frame 3 (snd (pmm_init 0x8000000 pmm_boot)) = (ps, t)"
    by (cases "frames_n pmm_alloc_frame 3 (snd (pmm_init 0x8000000 pmm_boot))")
  have "length ps = 3" using frames_n_length [OF e] .
  then show ?thesis
    using pmm_reach_safe [OF _ pmm_reach.init e] e by (simp add: ram_frames_def)
qed

text \<open>
  C4: sharing. A frame that is shared k times by \<open>pmm_addref\<close> and then released k times is
  exactly as before, as long as the count stays within the 8-bit counter; one release more
  by a sole owner makes the frame free again.
\<close>

theorem share_release_roundtrip:
  assumes "unat phys div 4096 = n" and "n < nframes s" and "used s n" and "0 < g_refcount s n"
    and "unat (g_refcount s n) + k \<le> 255"
  shows "(pmm_free_frame phys ^^ k) ((pmm_addref phys ^^ k) s) = s \<and>
         (g_refcount s n = 1 \<longrightarrow>
            free_frames (pmm_free_frame phys s) = insert n (free_frames s))"
proof
  let ?t = "s\<lparr>g_refcount := (g_refcount s)(n := g_refcount s n + of_nat k)\<rparr>"
  have "unat (g_refcount s n + of_nat k) = unat (g_refcount s n) + k"
    using assms(5) by (simp add: unat_word_ariths unat_of_nat)
  then have "k < unat (g_refcount ?t n)"
    using assms(4) by (simp add: word_less_nat_alt)
  then have "(pmm_free_frame phys ^^ k) ?t = s"
    using free_count [of n ?t phys k] assms by (simp add: nframes_def used_def)
  then show "(pmm_free_frame phys ^^ k) ((pmm_addref phys ^^ k) s) = s"
    using addref_count [OF assms(2,1,5)] by simp
  show "g_refcount s n = 1 \<longrightarrow> free_frames (pmm_free_frame phys s) = insert n (free_frames s)"
    using pmm_free_frame_effect [OF assms(1-3)] assms(2) by (auto simp: free_frames_def)
qed

definition pmm_shared :: "u8 \<Rightarrow> pmm" where
  "pmm_shared c = \<lparr>g_bitmap = (\<lambda>_. 3), g_refcount = (\<lambda>_. 0)(1 := c), g_nframes = 3, g_free = 1\<rparr>"

lemma pmm_shared_frame:
  "nframes (pmm_shared c) = 3" "used (pmm_shared c) 1" "g_refcount (pmm_shared c) 1 = c"
  by (simp_all add: pmm_shared_def nframes_def used_def)

theorem share_release_roundtrip_witness:
  "(pmm_free_frame 0x1000 ^^ 254) ((pmm_addref 0x1000 ^^ 254) (pmm_shared 1)) = pmm_shared 1"
  using share_release_roundtrip [of "0x1000" 1 "pmm_shared 1" 254] pmm_shared_frame [of 1] by simp

text \<open>
  C5: the counter saturates. \<open>pmm_addref\<close> is a silent no-op on a frame that 255 owners
  share, so that with one more owner 255 releases already free the frame although one
  owner is left.
\<close>

theorem pmm_addref_saturates:
  assumes "unat phys div 4096 = n" and "n < nframes s" and "used s n" and "g_refcount s n = 255"
  shows "pmm_addref phys s = s \<and>
         n \<in> free_frames ((pmm_free_frame phys ^^ 255) (pmm_addref phys s))"
proof -
  have div: "unat (phys div PAGE_SIZE) = n"
    using assms(1) by (simp only: unat_div_distrib) (simp add: PAGE_SIZE_def)
  then have same: "pmm_addref phys s = s"
    using assms(4) by (simp add: pmm_addref_def Let_def)
  let ?t = "s\<lparr>g_refcount := (g_refcount s)(n := 1)\<rparr>"
  have "(pmm_free_frame phys ^^ 254) s = ?t"
    using free_count [OF assms(2,3,1), of 254] assms(4) by simp
  then have "(pmm_free_frame phys ^^ Suc 254) s = pmm_free_frame phys ?t"
    by (simp only: funpow.simps o_apply)
  moreover have "n \<in> free_frames (pmm_free_frame phys ?t)"
    using pmm_free_frame_effect(2) [of phys n ?t] assms
    by (simp add: free_frames_def nframes_def used_def)
  ultimately show ?thesis using same by simp
qed

theorem pmm_addref_saturates_witness:
  "1 \<in> free_frames ((pmm_free_frame 0x1000 ^^ 255) (pmm_addref 0x1000 (pmm_shared 255)))"
  using pmm_addref_saturates [of "0x1000" 1 "pmm_shared 255"] pmm_shared_frame [of 255] by auto

end
