(* ===== verification/Heap.thy ===== *)
theory Heap
  imports Prelude
begin

text \<open>
  The kernel heap of src/src/mm/virt/heap.c: first fit with splitting and coalescing.

  Memory is a function from byte addresses to the 64-bit cells at these addresses (the code
  accesses aligned 64-bit cells only). A block header is four cells: \<open>magic\<close> at offset 0,
  \<open>size\<close> at 8, \<open>next\<close> at 16 (bit 0 is the free flag) and \<open>prev\<close> at 24; the payload follows.
  The second half relates this representation to the list of the block sizes and free flags
  in address order, on which allocation is first fit and release is merging of neighbours.
\<close>

section \<open>The code\<close>

type_synonym cells = "nat \<Rightarrow> u64"

record heap =
  cells :: cells
  g_head :: u64

definition HEAP_BASE :: u64 where
  "HEAP_BASE = 0xFFFF800000000000 + 16 * 1024 * 1024"

definition HEAP_SIZE :: u64 where
  "HEAP_SIZE = 32 * 1024 * 1024"

definition ALIGN16 :: "u64 \<Rightarrow> u64" where
  "ALIGN16 n = (n + 15) AND NOT 15"

definition MAGIC :: u64 where
  "MAGIC = 0xB10C600DB10C600D"

definition POISON :: u64 where
  "POISON = 0xDEADC0DEDEADC0DE"

definition blk_magic :: "u64 \<Rightarrow> nat" where
  "blk_magic b = unat b"

definition blk_size :: "u64 \<Rightarrow> nat" where
  "blk_size b = unat b + 8"

definition blk_link :: "u64 \<Rightarrow> nat" where
  "blk_link b = unat b + 16"

definition blk_prev :: "u64 \<Rightarrow> nat" where
  "blk_prev b = unat b + 24"

lemmas blk_fields = blk_magic_def blk_size_def blk_link_def blk_prev_def

definition sizeof_block :: u64 where
  "sizeof_block = 32"

definition blk_next :: "cells \<Rightarrow> u64 \<Rightarrow> u64" where
  "blk_next m b = m (blk_link b) AND NOT 1"

definition blk_is_free :: "cells \<Rightarrow> u64 \<Rightarrow> bool" where
  "blk_is_free m b \<longleftrightarrow> m (blk_link b) AND 1 \<noteq> 0"

definition blk_set_free :: "u64 \<Rightarrow> cells \<Rightarrow> cells" where
  "blk_set_free b m = m(blk_link b := m (blk_link b) OR 1)"

definition blk_set_used :: "u64 \<Rightarrow> cells \<Rightarrow> cells" where
  "blk_set_used b m = m(blk_link b := m (blk_link b) AND NOT 1)"

definition heap_init :: "heap \<Rightarrow> os_status \<times> heap" where
  "heap_init h =
     (let b = HEAP_BASE;
          m = (cells h)(blk_magic b := MAGIC, blk_size b := HEAP_SIZE - sizeof_block,
                        blk_link b := 0, blk_prev b := 0)
      in (OS_OK, \<lparr>cells = blk_set_free b m, g_head = b\<rparr>))"

text \<open>The body of the search loop once a block fits, and the loop.\<close>

definition kmalloc_split :: "u64 \<Rightarrow> u64 \<Rightarrow> cells \<Rightarrow> cells" where
  "kmalloc_split want b m =
     (let nb = b + sizeof_block + want;
          m = m(blk_magic nb := MAGIC);
          m = m(blk_size nb := m (blk_size b) - want - sizeof_block);
          b_old_next = blk_next m b;
          m = m(blk_link nb := b_old_next);
          m = m(blk_prev nb := b);
          m = blk_set_free nb m;
          m = (if b_old_next \<noteq> 0 then m(blk_prev b_old_next := nb) else m);
          m = m(blk_link b := nb)
      in m(blk_size b := want))"

definition kmalloc_take :: "u64 \<Rightarrow> u64 \<Rightarrow> cells \<Rightarrow> u64 \<times> cells" where
  "kmalloc_take want b m =
     (let m = (if m (blk_size b) \<ge> want + sizeof_block + 16 then kmalloc_split want b m else m)
      in (b + sizeof_block, blk_set_used b m))"

partial_function (option) kmalloc_from :: "u64 \<Rightarrow> u64 \<Rightarrow> cells \<Rightarrow> (u64 \<times> cells) option" where
  "kmalloc_from want b m =
     (if b = 0 then Some (0, m)
      else if \<not> blk_is_free m b \<or> m (blk_size b) < want
      then kmalloc_from want (blk_next m b) m
      else Some (kmalloc_take want b m))"

definition kmalloc :: "u64 \<Rightarrow> heap \<Rightarrow> (u64 \<times> heap) option" where
  "kmalloc want h =
     (if want = 0 then Some (0, h)
      else case kmalloc_from (ALIGN16 want) (g_head h) (cells h) of
             None \<Rightarrow> None
           | Some (p, m) \<Rightarrow> Some (p, h\<lparr>cells := m\<rparr>))"

text \<open>
  The poison loop reads \<open>b->size\<close> once: its stores go to the payload, behind the header.
\<close>

function poison :: "u64 \<Rightarrow> u64 \<Rightarrow> u64 \<Rightarrow> cells \<Rightarrow> cells" where
  "poison i n q m = (if i < n then poison (i + 1) n q (m(unat q + 8 * unat i := POISON)) else m)"
  by pat_completeness auto
termination
  by (relation "measure (\<lambda>(i, n, q, m). unat n - unat i)") (auto simp: word_less_nat_alt)

declare poison.simps [simp del]

definition kfree_next :: "u64 \<Rightarrow> cells \<Rightarrow> cells" where
  "kfree_next b m =
     (let bn = blk_next m b in
      if bn \<noteq> 0 \<and> blk_is_free m bn
      then let m = m(blk_size b := m (blk_size b) + (sizeof_block + m (blk_size bn)));
               m = m(blk_link b := blk_next m bn OR 1)
           in if blk_next m bn \<noteq> 0 then m(blk_prev (blk_next m bn) := b) else m
      else m)"

definition kfree_prev :: "u64 \<Rightarrow> cells \<Rightarrow> cells" where
  "kfree_prev b m =
     (if m (blk_prev b) \<noteq> 0 \<and> blk_is_free m (m (blk_prev b))
      then let bp = m (blk_prev b);
               m = m(blk_size bp := m (blk_size bp) + (sizeof_block + m (blk_size b)));
               m = m(blk_link bp := blk_next m b OR 1)
           in if blk_next m b \<noteq> 0 then m(blk_prev (blk_next m b) := bp) else m
      else m)"

definition kfree :: "u64 \<Rightarrow> heap \<Rightarrow> heap" where
  "kfree p h =
     (if p = 0 then h
      else let b = p - sizeof_block in
           if cells h (blk_magic b) \<noteq> MAGIC then h
           else let m = blk_set_free b (cells h);
                    m = poison 0 (m (blk_size b) div 8) p m;
                    m = kfree_next b m
                in h\<lparr>cells := kfree_prev b m\<rparr>)"

partial_function (option) free_sum :: "u64 \<Rightarrow> cells \<Rightarrow> u64 \<Rightarrow> u64 option" where
  "free_sum b m f =
     (if b = 0 then Some f
      else free_sum (blk_next m b) m (if blk_is_free m b then f + m (blk_size b) else f))"

definition heap_get_free :: "heap \<Rightarrow> u64 option" where
  "heap_get_free h = free_sum (g_head h) (cells h) 0"

section \<open>The block list\<close>

type_synonym blk = "nat \<times> bool"

text \<open>
  \<open>span bs\<close> is the number of bytes the blocks \<open>bs\<close> occupy with their headers. \<open>heap_at m p a bs r\<close>
  says that they are laid out from address \<open>a\<close> on with \<open>p\<close> as the first \<open>prev\<close> link; \<open>r\<close> tells
  whether another block follows the last one.
\<close>

fun span :: "blk list \<Rightarrow> nat" where
  "span [] = 0"
| "span ((sz, fr) # bs) = 32 + sz + span bs"

definition link_of :: "nat \<Rightarrow> bool \<Rightarrow> bool \<Rightarrow> u64" where
  "link_of nxt foll fr = (if foll then of_nat nxt else 0) OR (if fr then 1 else 0)"

fun heap_at :: "cells \<Rightarrow> u64 \<Rightarrow> nat \<Rightarrow> blk list \<Rightarrow> bool \<Rightarrow> bool" where
  "heap_at m p a [] r \<longleftrightarrow> True"
| "heap_at m p a ((sz, fr) # bs) r \<longleftrightarrow>
     m a = MAGIC \<and> m (a + 8) = of_nat sz \<and>
     m (a + 16) = link_of (a + 32 + sz) (bs \<noteq> [] \<or> r) fr \<and> m (a + 24) = p \<and>
     heap_at m (of_nat a) (a + 32 + sz) bs r"

definition last_addr :: "u64 \<Rightarrow> nat \<Rightarrow> blk list \<Rightarrow> u64" where
  "last_addr p a bs = (if bs = [] then p else of_nat (a + span (butlast bs)))"

definition sizes_ok :: "blk list \<Rightarrow> bool" where
  "sizes_ok bs \<longleftrightarrow> (\<forall>(sz, fr) \<in> set bs. 16 dvd sz)"

fun coalesced :: "blk list \<Rightarrow> bool" where
  "coalesced ((_, f) # (s, g) # bs) \<longleftrightarrow> \<not> (f \<and> g) \<and> coalesced ((s, g) # bs)"
| "coalesced _ \<longleftrightarrow> True"

definition heap_rep :: "heap \<Rightarrow> blk list \<Rightarrow> bool" where
  "heap_rep h bs \<longleftrightarrow>
     g_head h = HEAP_BASE \<and> bs \<noteq> [] \<and> heap_at (cells h) 0 (unat HEAP_BASE) bs False \<and>
     span bs = unat HEAP_SIZE \<and> sizes_ok bs \<and> coalesced bs"

text \<open>The specification of allocation and of release on the block list.\<close>

fun first_fit :: "nat \<Rightarrow> nat \<Rightarrow> blk list \<Rightarrow> (nat \<times> blk list) option" where
  "first_fit w a [] = None"
| "first_fit w a ((sz, fr) # bs) =
     (if fr \<and> w \<le> sz
      then Some (a + 32, (if w + 48 \<le> sz then (w, False) # (sz - w - 32, True) # bs
                          else (sz, False) # bs))
      else map_option (map_prod id ((#) (sz, fr))) (first_fit w (a + 32 + sz) bs))"

fun merge_right :: "nat \<Rightarrow> blk list \<Rightarrow> blk list" where
  "merge_right sz ((s, True) # bs) = (sz + 32 + s, True) # bs"
| "merge_right sz bs = (sz, True) # bs"

fun merge_left :: "blk list \<Rightarrow> blk list \<Rightarrow> blk list" where
  "merge_left [] ys = ys"
| "merge_left [(s, True)] ((sz, _) # ys) = (s + 32 + sz, True) # ys"
| "merge_left (x # xs) ys = x # merge_left xs ys"

text \<open>The bytes of the payloads that are in use.\<close>

fun live :: "nat \<Rightarrow> blk list \<Rightarrow> nat set" where
  "live a [] = {}"
| "live a ((sz, fr) # bs) = (if fr then {} else {a + 32 ..< a + 32 + sz}) \<union> live (a + 32 + sz) bs"

section \<open>Lemmas on the layout\<close>

lemma even_bit0:
  fixes x :: u64
  assumes "even (unat x)"
  shows "x AND 1 = 0" "x AND NOT 1 = x" "(x OR 1) AND NOT 1 = x" "(x OR 1) AND 1 = 1"
proof -
  have "\<not> bit (unat x) 0" using assms by (simp add: bit_0)
  then have b0: "\<not> bit x 0" unfolding bit_unsigned_iff by simp
  show "x AND 1 = 0" "x AND NOT 1 = x" "(x OR 1) AND NOT 1 = x" "(x OR 1) AND 1 = 1"
    using b0 by (auto intro!: bit_eqI gr0I simp: bit_simps)
qed

lemma span_append [simp]: "span (xs @ ys) = span xs + span ys"
  by (induction xs rule: span.induct) auto

lemma sizes_ok_simps [simp]:
  "sizes_ok []" "sizes_ok ((sz, fr) # bs) \<longleftrightarrow> 16 dvd sz \<and> sizes_ok bs"
  "sizes_ok (xs @ ys) \<longleftrightarrow> sizes_ok xs \<and> sizes_ok ys"
  by (auto simp: sizes_ok_def)

lemma span_dvd: "sizes_ok bs \<Longrightarrow> 16 dvd span bs"
  by (induction bs rule: span.induct) auto

lemma heap_at_append:
  "heap_at m p a (xs @ ys) r \<longleftrightarrow>
     heap_at m p a xs (ys \<noteq> [] \<or> r) \<and> heap_at m (last_addr p a xs) (a + span xs) ys r"
proof (induction xs arbitrary: p a)
  case Nil
  then show ?case by (simp add: last_addr_def)
next
  case (Cons x xs)
  then show ?case
    by (cases x, cases xs rule: rev_cases) (auto simp: last_addr_def add.assoc butlast_append)
qed

text \<open>Only header cells matter, and the first \<open>prev\<close> link can be set independently.\<close>

lemma heap_at_frame:
  assumes "heap_at m p a bs r"
    and "\<And>x. a \<le> x \<Longrightarrow> x < a + span bs \<Longrightarrow> x \<noteq> a + 24 \<Longrightarrow> m' x = m x"
    and "bs \<noteq> [] \<Longrightarrow> m' (a + 24) = p'"
  shows "heap_at m' p' a bs r"
  using assms
proof (induction bs arbitrary: p p' a)
  case Nil
  then show ?case by simp
next
  case (Cons b bs)
  obtain sz fr where b: "b = (sz, fr)" by (cases b)
  have "heap_at m' (of_nat a) (a + 32 + sz) bs r"
  proof (rule Cons.IH)
    show "heap_at m (of_nat a) (a + 32 + sz) bs r" using Cons.prems(1) b by simp
    show "m' x = m x" if "a + 32 + sz \<le> x" "x < a + 32 + sz + span bs" for x
      using Cons.prems(2) [of x] that b by simp
    assume "bs \<noteq> []"
    then obtain s f bs' where bs: "bs = (s, f) # bs'" by (cases bs) auto
    then have "m' (a + 32 + sz + 24) = m (a + 32 + sz + 24)"
      using Cons.prems(2) [of "a + 32 + sz + 24"] b by simp
    then show "m' (a + 32 + sz + 24) = of_nat a" using Cons.prems(1) b bs by simp
  qed
  then show ?case using Cons.prems b by simp
qed

lemma heap_at_more:
  "heap_at m p a bs r \<Longrightarrow> bs = [] \<or> r = r' \<Longrightarrow> heap_at m p a bs r'"
  by auto

text \<open>The links of a header, as the macros read them.\<close>

lemma link_of_macros:
  assumes "even nxt" and "nxt < 2 ^ 64"
  shows "link_of nxt r fr AND NOT 1 = (if r then of_nat nxt else 0)"
    and "link_of nxt r fr AND 1 \<noteq> 0 \<longleftrightarrow> fr"
    and "link_of nxt r fr OR 1 = link_of nxt r True"
proof -
  let ?x = "if r then of_nat nxt else 0 :: u64"
  have "even (unat ?x)" using assms by (simp add: unat_of_nat take_bit_nat_eq_self)
  note e = even_bit0 [OF this]
  show "link_of nxt r fr AND NOT 1 = ?x" "link_of nxt r fr AND 1 \<noteq> 0 \<longleftrightarrow> fr"
    unfolding link_of_def using e by auto
  show "link_of nxt r fr OR 1 = link_of nxt r True"
    unfolding link_of_def by (auto simp: or.assoc)
qed

lemma live_bounds: "x \<in> live a bs \<Longrightarrow> a + 32 \<le> x \<and> x < a + span bs"
proof (induction bs arbitrary: a)
  case (Cons b bs)
  obtain sz fr where b: "b = (sz, fr)" by (cases b)
  show ?case
    using Cons.IH [of "a + 32 + sz"] Cons.prems by (force simp: b split: if_splits)
qed simp

lemma unat_word_of_nat: "n < 2 ^ 64 \<Longrightarrow> unat (of_nat n :: u64) = n"
  by (simp add: unat_of_nat take_bit_nat_eq_self)

lemma kmalloc_split_rep:
  assumes at: "heap_at m p a ((sz, True) # bs) False"
    and ok: "16 dvd a" "sizes_ok ((sz, True) # bs)" "a + 32 + sz + span bs < 2 ^ 64"
    and w: "unat w + 48 \<le> sz" "16 dvd unat w"
  defines "m' \<equiv> kmalloc_split w (of_nat a) m"
  shows "heap_at m' p a ((unat w, False) # (sz - unat w - 32, True) # bs) False"
    and "x < a \<or> x \<in> live (a + 32 + sz) bs \<Longrightarrow> m' x = m x"
proof -
  let ?nb = "a + 32 + unat w" and ?e = "a + 32 + sz"
  have nb: "of_nat a + sizeof_block + w = of_nat ?nb" "unat (of_nat ?nb :: u64) = ?nb"
    using ok w by (simp add: sizeof_block_def, intro unat_word_of_nat) simp
  have ua: "unat (of_nat a :: u64) = a" "unat (of_nat ?e :: u64) = ?e"
    using ok by (intro unat_word_of_nat; simp)+
  have ev: "even ?e" "even ?nb" using ok w by (auto dest: dvd_trans [of 2 16])
  have nz: "of_nat ?e \<noteq> (0 :: u64)" using ua(2) by auto
  have nxt: "link_of ?e (bs \<noteq> []) True AND NOT 1 = (if bs \<noteq> [] then of_nat ?e else 0)"
    using link_of_macros(1) [OF ev(1)] ok by simp
  have sz: "of_nat sz - w - 32 = (of_nat (sz - unat w - 32) :: u64)"
    using w by (simp add: of_nat_diff)
  have lk: "of_nat ?nb = link_of ?nb True False" by (simp add: link_of_def)
  have lk2: "(if bs \<noteq> [] then of_nat ?e else 0) OR 1 = link_of ?e (bs \<noteq> []) True"
    by (simp add: link_of_def)
  have m': "m' = (let m1 = m(?nb := MAGIC, ?nb + 8 := of_nat (sz - unat w - 32),
                       ?nb + 16 := link_of ?e (bs \<noteq> []) True, ?nb + 24 := of_nat a);
                      m2 = (if bs \<noteq> [] then m1(?e + 24 := of_nat ?nb) else m1)
                  in m2(a + 16 := of_nat ?nb, a + 8 := w))"
    unfolding m'_def kmalloc_split_def Let_def nb
    using at nb ua nz nxt sz lk2 w
    by (auto simp: blk_fields blk_next_def blk_set_free_def sizeof_block_def fun_eq_iff)
  show "x < a \<or> x \<in> live (a + 32 + sz) bs \<Longrightarrow> m' x = m x"
    unfolding m' using w live_bounds [of x "a + 32 + sz" bs] by (auto simp: Let_def)
  have head: "m' a = MAGIC" "m' (a + 8) = w" "m' (a + 16) = of_nat ?nb" "m' (a + 24) = p"
    using at w by (simp_all add: m' Let_def)
  have new: "m' ?nb = MAGIC" "m' (?nb + 8) = of_nat (sz - unat w - 32)"
    "m' (?nb + 16) = link_of ?e (bs \<noteq> []) True" "m' (?nb + 24) = of_nat a"
    using w unfolding m' by (simp_all add: Let_def)
  have tail: "bs \<noteq> [] \<Longrightarrow> m' (?e + 24) = of_nat ?nb"
    "\<And>x. ?e \<le> x \<Longrightarrow> x \<noteq> ?e + 24 \<Longrightarrow> m' x = m x"
    using w unfolding m' by (simp_all add: Let_def del: of_nat_add)
  have "heap_at m' (of_nat ?nb) ?e bs False"
  proof (rule heap_at_frame)
    show "heap_at m (of_nat a) ?e bs False" using at by simp
  qed (use tail in blast)+
  moreover have "?nb + 32 + (sz - unat w - 32) = ?e" using w by simp
  ultimately show "heap_at m' p a ((unat w, False) # (sz - unat w - 32, True) # bs) False"
    using head new lk by (simp add: ac_simps del: of_nat_add)
qed

lemma heap_at_start:
  assumes "heap_at m p a ((sz, fr) # bs) r" and "16 dvd a" "16 dvd sz" "a + 32 + sz < 2 ^ 64"
  shows "unat (of_nat a :: u64) = a"
    and "m (blk_size (of_nat a)) = of_nat sz" and "blk_is_free m (of_nat a) \<longleftrightarrow> fr"
    and "blk_next m (of_nat a) = (if bs \<noteq> [] \<or> r then of_nat (a + 32 + sz) else 0)"
    and "m (blk_prev (of_nat a)) = p" and "m (blk_magic (of_nat a)) = MAGIC"
    and "unat (of_nat sz :: u64) = sz"
proof -
  have ev: "even (a + 32 + sz)" using assms by (auto dest: dvd_trans [of 2 16])
  show u: "unat (of_nat a :: u64) = a" "unat (of_nat sz :: u64) = sz"
    using assms by (intro unat_word_of_nat; simp)+
  show "m (blk_size (of_nat a)) = of_nat sz" "m (blk_prev (of_nat a)) = p"
    "m (blk_magic (of_nat a)) = MAGIC"
    using assms(1) u by (simp_all add: blk_fields)
  show "blk_is_free m (of_nat a) \<longleftrightarrow> fr"
    "blk_next m (of_nat a) = (if bs \<noteq> [] \<or> r then of_nat (a + 32 + sz) else 0)"
    using assms(1) u link_of_macros(1,2) [OF ev assms(4)]
    by (simp_all add: blk_is_free_def blk_next_def blk_link_def)
qed

lemma kmalloc_take_rep:
  assumes at: "heap_at m p a ((sz, True) # bs) False"
    and ok: "16 dvd a" "sizes_ok ((sz, True) # bs)" "a + 32 + sz + span bs < 2 ^ 64"
    and w: "unat w \<le> sz" "16 dvd unat w" and pos: "16 \<le> a"
  shows "\<exists>m'. kmalloc_take w (of_nat a) m = (of_nat (a + 32), m') \<and>
           heap_at m' p a (if unat w + 48 \<le> sz
             then (unat w, False) # (sz - unat w - 32, True) # bs else (sz, False) # bs) False \<and>
           (\<forall>x. x < a \<or> x \<in> live (a + 32 + sz) bs \<longrightarrow> m' x = m x)"
proof -
  have start: "unat (of_nat a :: u64) = a" "m (blk_size (of_nat a)) = of_nat sz" "unat (of_nat sz :: u64) = sz"
    using heap_at_start [OF at] ok by simp_all
  have fits: "m (blk_size (of_nat a)) \<ge> w + sizeof_block + 16 \<longleftrightarrow> unat w + 48 \<le> sz"
  proof -
    have "unat (w + sizeof_block + 16) = unat w + 48"
      using w ok pos by (simp add: unat_word_ariths sizeof_block_def)
    then show ?thesis using start by (simp add: word_le_nat_alt)
  qed
  show ?thesis
  proof (cases "unat w + 48 \<le> sz")
    case True
    let ?m = "kmalloc_split w (of_nat a) m"
    note split = kmalloc_split_rep [OF at ok True w(2)]
    have "?m (a + 16) AND NOT 1 = ?m (a + 16)"
      using heap_at_start(4) [OF split(1)] ok w True start(1) split(1)
      by (simp add: blk_next_def blk_link_def link_of_def)
    then have "blk_set_used (of_nat a) ?m = ?m"
      using start(1) by (simp add: blk_set_used_def blk_link_def)
    then have "kmalloc_take w (of_nat a) m = (of_nat (a + 32), ?m)"
      using True fits by (simp add: kmalloc_take_def sizeof_block_def add.commute)
    then show ?thesis
      unfolding if_P [OF True]
      by (rule_tac exI [of _ ?m], intro conjI allI impI) (use split in blast)+
  next
    case False
    have nx: "m (a + 16) AND NOT 1 = link_of (a + 32 + sz) (bs \<noteq> []) False"
      using heap_at_start(4) [OF at] ok start(1) by (simp add: blk_next_def blk_link_def link_of_def)
    let ?m = "m(a + 16 := link_of (a + 32 + sz) (bs \<noteq> []) False)"
    have "heap_at ?m (of_nat a) (a + 32 + sz) bs False"
    proof (rule heap_at_frame)
      show "heap_at m (of_nat a) (a + 32 + sz) bs False" using at by simp
      then show "bs \<noteq> [] \<Longrightarrow> ?m (a + 32 + sz + 24) = of_nat a" by (cases bs) auto
    qed simp
    then have "heap_at ?m p a ((sz, False) # bs) False" using at by simp
    moreover have "\<forall>x. x < a \<or> x \<in> live (a + 32 + sz) bs \<longrightarrow> ?m x = m x"
      by (auto dest!: live_bounds)
    moreover have "kmalloc_take w (of_nat a) m = (of_nat (a + 32), ?m)"
      using False fits start(1) nx
      by (simp add: kmalloc_take_def sizeof_block_def blk_set_used_def blk_link_def add.commute)
    ultimately show ?thesis using False by simp
  qed
qed

lemma first_fit_nonempty: "first_fit w a bs = Some (q, bs') \<Longrightarrow> bs' \<noteq> []"
  by (cases bs) (auto split: if_splits)

lemma kmalloc_from_rep:
  assumes "heap_at m p a bs False" "bs \<noteq> []" "16 dvd a" "16 \<le> a" "sizes_ok bs"
    and "a + span bs < 2 ^ 64" and w: "16 dvd unat w"
  shows "case first_fit (unat w) a bs of
           None \<Rightarrow> kmalloc_from w (of_nat a) m = Some (0, m)
         | Some (q, bs') \<Rightarrow>
             \<exists>m'. kmalloc_from w (of_nat a) m = Some (of_nat q, m') \<and> heap_at m' p a bs' False \<and>
                  (\<forall>x. x < a \<or> x \<in> live a bs \<longrightarrow> m' x = m x)"
  using assms(1-6)
proof (induction bs arbitrary: p a)
  case Nil
  then show ?case by simp
next
  case (Cons b bs)
  obtain sz fr where b: "b = (sz, fr)" by (cases b)
  let ?a = "a + 32 + sz"
  have ok: "16 dvd a" "sizes_ok ((sz, fr) # bs)" "a + 32 + sz + span bs < 2 ^ 64"
    and at: "heap_at m p a ((sz, fr) # bs) False" using Cons.prems b by simp_all
  note start = heap_at_start [OF at]
  have nz: "of_nat a \<noteq> (0 :: u64)" and szw: "m (blk_size (of_nat a)) < w \<longleftrightarrow> \<not> unat w \<le> sz"
    using start ok Cons.prems(4) by (auto simp: word_less_nat_alt)
  show ?case
  proof (cases "fr \<and> unat w \<le> sz")
    case True
    then have "kmalloc_from w (of_nat a) m = Some (kmalloc_take w (of_nat a) m)"
      using nz szw start ok by (subst kmalloc_from.simps) simp
    then show ?thesis
      using kmalloc_take_rep [of m p a sz bs w] True at ok w b Cons.prems(4) by auto
  next
    case False
    have step: "kmalloc_from w (of_nat a) m = kmalloc_from w (blk_next m (of_nat a)) m"
      using False nz szw start ok by (subst kmalloc_from.simps) auto
    show ?thesis
    proof (cases "bs = []")
      case True
      have "kmalloc_from w 0 m = Some (0, m)" by (subst kmalloc_from.simps) simp
      then show ?thesis using step False b True start(4) ok by auto
    next
      case ne: False
      have next_: "blk_next m (of_nat a) = of_nat ?a" using ne start(4) ok by simp
      have "16 dvd ?a" "16 \<le> ?a" "sizes_ok bs" "?a + span bs < 2 ^ 64"
        "heap_at m (of_nat a) ?a bs False"
        using ok at by simp_all
      note ih = Cons.IH [OF this(5) ne this(1-4)]
      show ?thesis
      proof (cases "first_fit (unat w) ?a bs")
        case None
        then show ?thesis using ih step next_ b False by auto
      next
        case (Some r)
        obtain q bs' where r: "r = (q, bs')" by (cases r)
        obtain m' where m': "kmalloc_from w (of_nat ?a) m = Some (of_nat q, m')"
          "heap_at m' (of_nat a) ?a bs' False" "\<forall>x. x < ?a \<or> x \<in> live ?a bs \<longrightarrow> m' x = m x"
          using ih Some r by auto
        have "heap_at m' p a ((sz, fr) # bs') False"
          using m' at ne first_fit_nonempty [of "unat w" ?a bs q bs'] Some r by simp
        moreover have "\<forall>x. x < a \<or> x \<in> live a ((sz, fr) # bs) \<longrightarrow> m' x = m x"
          using m'(3) by auto
        ultimately show ?thesis using Some r step next_ b False m'(1) by auto
      qed
    qed
  qed
qed

section \<open>Release\<close>

lemma kfree_next_eq:
  assumes "blk_next m b = bn" "bn \<noteq> 0" "blk_is_free m bn" "blk_next m bn = be"
    and "blk_link bn \<noteq> blk_size b" "blk_link bn \<noteq> blk_link b"
  shows "kfree_next b m =
           (let m1 = m(blk_size b := m (blk_size b) + (sizeof_block + m (blk_size bn)),
                       blk_link b := be OR 1)
            in if be \<noteq> 0 then m1(blk_prev be := b) else m1)"
  using assms by (auto simp: kfree_next_def blk_next_def Let_def)

lemma kfree_next_rep:
  assumes at: "heap_at m p a ((sz, True) # ys) False"
    and ok: "16 dvd a" "sizes_ok ((sz, True) # ys)" "a + 32 + sz + span ys < 2 ^ 64" "0 < a"
  defines "m' \<equiv> kfree_next (of_nat a) m"
  shows "heap_at m' p a (merge_right sz ys) False"
    and "x < a \<or> x \<in> live (a + 32 + sz) ys \<Longrightarrow> m' x = m x"
proof -
  have start: "unat (of_nat a :: u64) = a" "m (blk_size (of_nat a)) = of_nat sz"
    "blk_next m (of_nat a) = (if ys \<noteq> [] then of_nat (a + 32 + sz) else 0)"
    using heap_at_start [OF at] ok by auto
  have "heap_at m' p a (merge_right sz ys) False \<and>
        (\<forall>x. x < a \<or> x \<in> live (a + 32 + sz) ys \<longrightarrow> m' x = m x)"
  proof (cases "\<exists>s zs. ys = (s, True) # zs")
    case False
    have "m' = m"
    proof (cases ys)
      case Nil
      then show ?thesis using start by (simp add: m'_def kfree_next_def)
    next
      case (Cons y zs)
      then obtain s where y: "ys = (s, False) # zs" using False by (cases y) auto
      have "\<not> blk_is_free m (of_nat (a + 32 + sz))"
        using heap_at_start(3) [of m "of_nat a" "a + 32 + sz" s False zs False] at ok y by auto
      then show ?thesis using start y unfolding m'_def kfree_next_def Let_def by simp
    qed
    moreover have "merge_right sz ys = (sz, True) # ys"
      using False by (cases "(sz, ys)" rule: merge_right.cases) auto
    ultimately show ?thesis using at by simp
  next
    case True
    then obtain s zs where ys: "ys = (s, True) # zs" by blast
    let ?n = "a + 32 + sz" and ?e = "a + 32 + sz + 32 + s"
    let ?m1 = "m(a + 8 := of_nat (sz + 32 + s), a + 16 := link_of ?e (zs \<noteq> []) True)"
    let ?m2 = "if zs \<noteq> [] then ?m1(?e + 24 := of_nat a) else ?m1"
    have at2: "heap_at m (of_nat a) ?n ((s, True) # zs) False" using at ys by simp
    have nxt: "unat (of_nat ?n :: u64) = ?n" "m (blk_size (of_nat ?n)) = of_nat s"
      "blk_is_free m (of_nat ?n)" "blk_next m (of_nat ?n) = (if zs \<noteq> [] then of_nat ?e else 0)"
      using heap_at_start [OF at2] ok ys by auto
    have nz: "of_nat ?n \<noteq> (0 :: u64)" using nxt(1) by auto
    have e: "unat (of_nat ?e :: u64) = ?e" using ok ys by (intro unat_word_of_nat) simp
    have ez: "of_nat ?e \<noteq> (0 :: u64)" using e by auto
    have lk: "(if zs \<noteq> [] then of_nat ?e else 0) OR 1 = link_of ?e (zs \<noteq> []) True"
      by (simp add: link_of_def)
    have "kfree_next (of_nat a) m =
        (let m1 = m(blk_size (of_nat a) := m (blk_size (of_nat a)) + (sizeof_block + m (blk_size (of_nat ?n))),
                    blk_link (of_nat a) := (if zs \<noteq> [] then of_nat ?e else 0) OR 1)
         in if (if zs \<noteq> [] then of_nat ?e else 0) \<noteq> (0 :: u64)
            then m1(blk_prev (if zs \<noteq> [] then of_nat ?e else 0) := of_nat a) else m1)"
      using start ys nxt nz by (intro kfree_next_eq) (auto simp: blk_fields)
    then have m': "m' = ?m2"
      unfolding m'_def lk start(2) nxt(2) Let_def using e ez start(1)
      by (auto simp: blk_fields sizeof_block_def add.assoc)
    have head: "m' a = MAGIC" "m' (a + 8) = of_nat (sz + 32 + s)"
      "m' (a + 16) = link_of ?e (zs \<noteq> []) True" "m' (a + 24) = p"
      using at unfolding m' by simp_all
    have tail: "zs \<noteq> [] \<Longrightarrow> m' (?e + 24) = of_nat a" "\<And>x. ?e \<le> x \<Longrightarrow> x \<noteq> ?e + 24 \<Longrightarrow> m' x = m x"
      "\<And>x. x < a \<Longrightarrow> m' x = m x"
      unfolding m' by simp_all
    have "heap_at m' (of_nat a) ?e zs False"
    proof (rule heap_at_frame)
      show "heap_at m (of_nat ?n) ?e zs False" using at2 by simp
    qed (use tail in blast)+
    then have "heap_at m' p a (merge_right sz ys) False"
      using head ys by (simp add: ac_simps del: of_nat_add)
    moreover have "\<forall>x. x < a \<or> x \<in> live ?n ys \<longrightarrow> m' x = m x"
      using tail ys by (auto dest!: live_bounds)
    ultimately show ?thesis by blast
  qed
  then show "heap_at m' p a (merge_right sz ys) False"
    and "x < a \<or> x \<in> live (a + 32 + sz) ys \<Longrightarrow> m' x = m x" by blast+
qed

lemma kfree_prev_eq:
  assumes "m (blk_prev b) = bp" "bp \<noteq> 0" "blk_is_free m bp" "blk_next m bp = b" "b \<noteq> 0"
    "blk_is_free m b"
  shows "kfree_prev b m = kfree_next bp m"
  using assms by (simp add: kfree_prev_def kfree_next_def Let_def)

lemma poison_frame: "x < unat q \<or> unat q + 8 * unat n \<le> x \<Longrightarrow> poison i n q m x = m x"
proof (induction i n q m rule: poison.induct)
  case (1 i n q m)
  show ?case
  proof (cases "i < n")
    case True
    then have "unat i < unat n" by (simp add: word_less_nat_alt)
    then have "x \<noteq> unat q + 8 * unat i" using "1.prems" by auto
    then show ?thesis using 1 True by (subst poison.simps) (simp add: fun_upd_def)
  next
    case False
    then show ?thesis by (subst poison.simps) simp
  qed
qed

lemma heap_at_below:
  assumes "heap_at m p a xs r" and "\<And>x. x < a + span xs \<Longrightarrow> m' x = m x"
  shows "heap_at m' p a xs r"
proof (rule heap_at_frame [OF assms(1)])
  show "xs \<noteq> [] \<Longrightarrow> m' (a + 24) = p" using assms by (cases xs) auto
qed (use assms(2) in blast)

lemma merge_right_Cons: "\<exists>s zs. merge_right sz ys = (s, True) # zs"
  by (cases "(sz, ys)" rule: merge_right.cases) auto

lemma merge_right_facts:
  "span (merge_right sz ys) = 32 + sz + span ys"
  "live a (merge_right sz ys) = live (a + 32 + sz) ys"
  by (cases "(sz, ys)" rule: merge_right.cases; auto simp: ac_simps)+

lemma merge_right_sizes: "sizes_ok ((sz, True) # ys) \<Longrightarrow> sizes_ok (merge_right sz ys)"
  by (cases "(sz, ys)" rule: merge_right.cases) auto

lemma merge_left_snoc:
  "merge_left (xs @ [(s, f)]) ((sz, True) # ys) =
     (if f then xs @ (s + 32 + sz, True) # ys else xs @ (s, f) # (sz, True) # ys)"
proof (induction xs)
  case Nil
  then show ?case by (cases f) auto
next
  case (Cons x xs)
  then show ?case by (cases xs; cases x rule: prod.exhaust; auto)
qed

lemma live_append: "live a (xs @ ys) = live a xs \<union> live (a + span xs) ys"
  by (induction xs arbitrary: a rule: span.induct) (auto simp: add.assoc)

lemma merge_left_facts:
  "span (merge_left xs ((sz, True) # ys)) = span xs + 32 + sz + span ys"
  "sizes_ok xs \<Longrightarrow> sizes_ok ((sz, True) # ys) \<Longrightarrow> sizes_ok (merge_left xs ((sz, True) # ys))"
  "live a (merge_left xs ((sz, True) # ys)) = live a xs \<union> live (a + span xs + 32 + sz) ys"
  by (cases xs rule: rev_cases; auto simp: merge_left_snoc live_append ac_simps)+

text \<open>Marking a block free and poisoning its payload.\<close>

lemma kfree_mark_rep:
  assumes at: "heap_at m p a ((sz, False) # ys) False"
    and ok: "16 dvd a" "sizes_ok ((sz, False) # ys)" "a + 32 + sz + span ys < 2 ^ 64"
  defines "m1 \<equiv> blk_set_free (of_nat a) m"
  defines "m2 \<equiv> poison 0 (m1 (blk_size (of_nat a)) div 8) (of_nat (a + 32)) m1"
  shows "heap_at m2 p a ((sz, True) # ys) False"
    and "x < a \<or> x \<in> live (a + 32 + sz) ys \<Longrightarrow> m2 x = m x"
proof -
  let ?e = "a + 32 + sz"
  have start: "unat (of_nat a :: u64) = a" "m (blk_size (of_nat a)) = of_nat sz" "unat (of_nat sz :: u64) = sz"
    using heap_at_start [OF at] ok by auto
  have ev: "even ?e" using ok by (auto dest: dvd_trans [of 2 16])
  have m1: "m1 = m(a + 16 := link_of ?e (ys \<noteq> []) True)"
    using at start(1) link_of_macros(3) [OF ev] ok
    by (simp add: m1_def blk_set_free_def blk_link_def)
  have q: "unat (of_nat (a + 32) :: u64) = a + 32" using ok by (intro unat_word_of_nat) simp
  have n: "8 * unat (m1 (blk_size (of_nat a)) div 8) \<le> sz"
    using start m1 by (simp add: blk_size_def unat_div)
  have frame: "m2 x = m1 x" if "x < a + 32 \<or> ?e \<le> x" for x
    unfolding m2_def by (rule poison_frame) (use q n that in auto)
  have tail: "m2 x = m x" if "?e \<le> x" for x using frame [of x] that m1 by simp
  have "heap_at m2 (of_nat a) ?e ys False"
  proof (rule heap_at_frame)
    show "heap_at m (of_nat a) ?e ys False" using at by simp
    then show "ys \<noteq> [] \<Longrightarrow> m2 (?e + 24) = of_nat a" using tail by (cases ys) auto
  qed (use tail in blast)
  then show "heap_at m2 p a ((sz, True) # ys) False"
    using at frame m1 by simp
  show "m2 x = m x" if "x < a \<or> x \<in> live (a + 32 + sz) ys"
    using that frame [of x] m1 by (auto dest!: live_bounds)
qed

lemma kfree_prev_rep:
  assumes at: "heap_at m 0 B (xs @ (sz, True) # ys) False"
    and ok: "16 dvd B" "0 < B" "sizes_ok (xs @ (sz, True) # ys)" "B + span (xs @ (sz, True) # ys) < 2 ^ 64"
  defines "m' \<equiv> kfree_prev (of_nat (B + span xs)) m"
  shows "heap_at m' 0 B (merge_left xs ((sz, True) # ys)) False"
    and "x \<in> live B xs \<or> x \<in> live (B + span xs + 32 + sz) ys \<Longrightarrow> m' x = m x"
proof -
  let ?a = "B + span xs"
  have ata: "heap_at m (last_addr 0 B xs) ?a ((sz, True) # ys) False"
    using at by (simp add: heap_at_append)
  have oka: "16 dvd ?a" "16 dvd sz" "?a + 32 + sz < 2 ^ 64"
    using ok span_dvd [of xs] by auto
  note start = heap_at_start [OF ata oka]
  have "heap_at m' 0 B (merge_left xs ((sz, True) # ys)) False \<and>
    (\<forall>x. x \<in> live B xs \<or> x \<in> live (?a + 32 + sz) ys \<longrightarrow> m' x = m x)"
  proof (cases xs rule: rev_cases)
    case Nil
    then have "m' = m" using start(5) unfolding m'_def by (simp add: kfree_prev_def last_addr_def)
    then show ?thesis using at Nil by simp
  next
    case (snoc zs z)
    obtain s f where z: "z = (s, f)" by (cases z)
    let ?p = "B + span zs"
    have atp: "heap_at m (last_addr 0 B zs) ?p ((s, f) # (sz, True) # ys) False"
      and atz: "heap_at m 0 B zs True"
      using at snoc z by (simp_all add: heap_at_append)
    have okp: "16 dvd ?p" "16 dvd s" "?p + 32 + s < 2 ^ 64"
      using ok span_dvd [of zs] snoc z by auto
    note startp = heap_at_start [OF atp okp]
    have prev: "m (blk_prev (of_nat ?a)) = of_nat ?p"
      using start(5) snoc by (simp add: last_addr_def)
    have pa: "?p + 32 + s = ?a" using snoc z by simp
    have nz: "of_nat ?p \<noteq> (0 :: u64)" "of_nat ?a \<noteq> (0 :: u64)" using startp(1) start(1) ok(2) by auto
    show ?thesis
    proof (cases f)
      case False
      then have "m' = m" using prev startp(3) unfolding m'_def kfree_prev_def by simp
      then show ?thesis using at snoc z False by (simp add: merge_left_snoc)
    next
      case True
      have m': "m' = kfree_next (of_nat ?p) m"
        unfolding m'_def using prev startp(3,4) start(3) nz True pa by (intro kfree_prev_eq) simp_all
      have okn: "sizes_ok ((s, True) # (sz, True) # ys)" "?p + 32 + s + span ((sz, True) # ys) < 2 ^ 64"
        "0 < ?p" using ok snoc z by simp_all
      have "f = True" using True by simp
      note nxt = kfree_next_rep [OF atp [unfolded this] okp(1) okn, folded m']
      have "heap_at m' 0 B zs True" using atz nxt(2) by (rule heap_at_below) blast
      then have "heap_at m' 0 B (merge_left xs ((sz, True) # ys)) False"
        using nxt(1) snoc z True by (simp add: merge_left_snoc heap_at_append)
      moreover have "m' x = m x" if "x \<in> live B xs \<or> x \<in> live (?a + 32 + sz) ys" for x
        using that snoc z True by (intro nxt(2)) (auto simp: live_append pa dest!: live_bounds)
      ultimately show ?thesis by blast
    qed
  qed
  then show "heap_at m' 0 B (merge_left xs ((sz, True) # ys)) False"
    and "x \<in> live B xs \<or> x \<in> live (B + span xs + 32 + sz) ys \<Longrightarrow> m' x = m x" by blast+
qed

section \<open>The specification keeps the heap well formed\<close>

fun ptrs :: "nat \<Rightarrow> blk list \<Rightarrow> nat set" where
  "ptrs a [] = {}"
| "ptrs a ((sz, fr) # bs) = (if fr then {} else {a + 32}) \<union> ptrs (a + 32 + sz) bs"

lemma ptrs_bounds: "x \<in> ptrs a bs \<Longrightarrow> a + 32 \<le> x \<and> x \<le> a + span bs"
proof (induction bs arbitrary: a)
  case (Cons b bs)
  obtain sz fr where b: "b = (sz, fr)" by (cases b)
  show ?case using Cons.IH [of "a + 32 + sz"] Cons.prems by (force simp: b split: if_splits)
qed simp

lemma ptrs_append: "ptrs a (xs @ ys) = ptrs a xs \<union> ptrs (a + span xs) ys"
  by (induction xs arbitrary: a rule: span.induct) (auto simp: add.assoc)

lemma ptrs_split:
  assumes "x \<in> ptrs a bs"
  obtains xs sz ys where "bs = xs @ (sz, False) # ys" "x = a + span xs + 32"
proof -
  have "\<exists>xs sz ys. bs = xs @ (sz, False) # ys \<and> x = a + span xs + 32"
    using assms
  proof (induction bs arbitrary: a)
    case (Cons b bs)
    obtain sz fr where b: "b = (sz, fr)" by (cases b)
    show ?case
    proof (cases "x \<in> ptrs (a + 32 + sz) bs")
      case True
      then obtain xs s ys where "bs = xs @ (s, False) # ys" "x = a + 32 + sz + span xs + 32"
        using Cons.IH by blast
      then have "b # bs = (b # xs) @ (s, False) # ys \<and> x = a + span (b # xs) + 32" by (simp add: b)
      then show ?thesis by blast
    next
      case False
      then have "b # bs = [] @ (sz, False) # bs \<and> x = a + span [] + 32"
        using Cons.prems b by (auto split: if_splits)
      then show ?thesis by blast
    qed
  qed simp
  then show thesis using that by blast
qed

lemma first_fit_spec:
  assumes "first_fit w a bs = Some (q, bs')" "16 dvd w" "sizes_ok bs" "16 dvd a"
  shows "span bs' = span bs \<and> sizes_ok bs' \<and> 16 dvd q \<and> a < q \<and> q + w \<le> a + span bs \<and>
         ptrs a bs' = insert q (ptrs a bs) \<and> q \<notin> ptrs a bs \<and>
         (\<exists>n \<ge> w. live a bs' = live a bs \<union> {q ..< q + n} \<and> live a bs \<inter> {q ..< q + n} = {})"
  using assms
proof (induction bs arbitrary: a bs')
  case (Cons b bs)
  obtain sz fr where b: "b = (sz, fr)" by (cases b)
  let ?a = "a + 32 + sz"
  show ?case
  proof (cases "fr \<and> w \<le> sz")
    case True
    let ?n = "if w + 48 \<le> sz then w else sz"
    have "live a bs' = live a (b # bs) \<union> {q ..< q + ?n}"
      using Cons.prems True b by (auto simp: ac_simps split: if_splits)
    moreover have "live a (b # bs) \<inter> {q ..< q + ?n} = {}" "q \<notin> ptrs a (b # bs)"
      using Cons.prems True b by (auto dest!: live_bounds ptrs_bounds split: if_splits)
    moreover have "ptrs a bs' = insert q (ptrs a (b # bs))"
      using Cons.prems True b by (auto simp: ac_simps split: if_splits)
    ultimately show ?thesis
      using Cons.prems True b by (auto intro!: exI [of _ ?n] dvd_diff_nat)
  next
    case False
    then obtain cs where cs: "first_fit w ?a bs = Some (q, cs)" "bs' = b # cs"
      using Cons.prems b by auto
    have "16 dvd ?a" "sizes_ok bs" using Cons.prems b by auto
    note ih = Cons.IH [OF cs(1) Cons.prems(2) this(2,1)]
    then obtain n where n: "w \<le> n" "live ?a cs = live ?a bs \<union> {q ..< q + n}"
      "live ?a bs \<inter> {q ..< q + n} = {}" by blast
    have "q \<noteq> a + 32" "{a + 32 ..< ?a} \<inter> {q ..< q + n} = {}" using ih by auto
    then show ?thesis using ih n cs b Cons.prems by auto
  qed
qed simp

lemma first_fit_coalesced:
  assumes "first_fit w a bs = Some (q, bs')" "coalesced bs"
  shows "coalesced bs' \<and> (snd (hd bs') \<longrightarrow> snd (hd bs))"
  using assms
proof (induction bs arbitrary: a bs')
  case (Cons b bs)
  obtain sz fr where b: "b = (sz, fr)" by (cases b)
  show ?case
  proof (cases "fr \<and> w \<le> sz")
    case True
    then show ?thesis using Cons.prems b by (cases bs) (auto split: if_splits)
  next
    case False
    then obtain cs where cs: "first_fit w (a + 32 + sz) bs = Some (q, cs)" "bs' = b # cs"
      using Cons.prems b by auto
    have co: "coalesced bs" using Cons.prems(2) b by (cases bs) auto
    obtain c ds e es where "cs = c # ds" "bs = e # es"
      using cs(1) first_fit_nonempty [OF cs(1)] by (cases cs; cases bs) auto
    then show ?thesis using Cons.IH [OF cs(1) co] Cons.prems(2) cs(2) b by (cases c; cases e) auto
  qed
qed simp

lemma merge_right_coalesced:
  "coalesced ((sz, False) # ys) \<Longrightarrow> coalesced (merge_right sz ys)"
  by (cases "(sz, ys)" rule: merge_right.cases) (auto elim: coalesced.elims)

lemma coalesced_append:
  "coalesced (xs @ y # ys) \<longleftrightarrow>
     coalesced xs \<and> coalesced (y # ys) \<and> (xs \<noteq> [] \<longrightarrow> \<not> (snd (last xs) \<and> snd y))"
proof (induction xs)
  case (Cons x xs)
  then show ?case by (cases xs; cases x; cases y) auto
qed simp

lemma merge_left_coalesced:
  assumes "coalesced (xs @ (sz, False) # ys)"
  shows "coalesced (merge_left xs (merge_right sz ys))"
proof -
  have c: "coalesced (merge_right sz ys)"
    using assms by (simp add: coalesced_append merge_right_coalesced)
  obtain s zs where m: "merge_right sz ys = (s, True) # zs" using merge_right_Cons by blast
  have "coalesced ((t, True) # zs)" for t using c m by (cases zs) auto
  then show ?thesis
    using assms c unfolding m
    by (cases xs rule: rev_cases)
      (auto simp: merge_left_snoc coalesced_append neq_Nil_conv split: if_splits)
qed

lemma merge_ptrs:
  "ptrs a (merge_left xs (merge_right sz ys)) = ptrs a xs \<union> ptrs (a + span xs + 32 + sz) ys"
proof -
  have r: "ptrs b (merge_right sz ys) = ptrs (b + 32 + sz) ys" for b
    by (cases "(sz, ys)" rule: merge_right.cases) (auto simp: ac_simps)
  obtain s zs where m: "merge_right sz ys = (s, True) # zs" using merge_right_Cons by blast
  have "ptrs a (merge_left xs ((s, True) # zs)) = ptrs a xs \<union> ptrs (a + span xs) ((s, True) # zs)"
    by (cases xs rule: rev_cases) (auto simp: merge_left_snoc ptrs_append ac_simps)
  then show ?thesis using r unfolding m by metis
qed

section \<open>The interface of the heap\<close>

definition heap_pointers :: "blk list \<Rightarrow> u64 set" where
  "heap_pointers bs = of_nat ` ptrs (unat HEAP_BASE) bs"

lemma heap_base_facts:
  "unat HEAP_BASE = 18446603336237973504" "16 dvd unat HEAP_BASE" "16 \<le> unat HEAP_BASE"
  "unat HEAP_SIZE = 33554432"
  by (simp_all add: HEAP_BASE_def HEAP_SIZE_def)

lemma align16_unat:
  "16 dvd unat (ALIGN16 w)"
  "unat w + 15 < 2 ^ 64 \<Longrightarrow> unat w \<le> unat (ALIGN16 w) \<and> unat (ALIGN16 w) < unat w + 16"
proof -
  have "(15 :: u64) = mask 4" by (simp add: mask_eq_exp_minus_1)
  then have a: "unat (ALIGN16 w) = unat (w + 15) - unat (w + 15) mod 16"
    unfolding ALIGN16_def by (simp only: word_and_not_mask_unat) simp
  then show "16 dvd unat (ALIGN16 w)" by (simp add: dvd_minus_mod)
  show "unat w \<le> unat (ALIGN16 w) \<and> unat (ALIGN16 w) < unat w + 16" if "unat w + 15 < 2 ^ 64"
  proof -
    have "unat (w + 15) = unat w + 15" using that by (simp add: unat_word_ariths)
    then show ?thesis using a by presburger
  qed
qed

lemma heap_rep_init: "heap_rep (snd (heap_init h)) [(unat HEAP_SIZE - 32, True)]"
proof -
  have "(1 :: u64) = link_of n False True" for n by (simp add: link_of_def)
  then show ?thesis
    by (simp add: heap_rep_def heap_init_def Let_def blk_fields blk_set_free_def heap_base_facts
        sizeof_block_def) (simp add: HEAP_SIZE_def)
qed

lemma kmalloc_rep:
  assumes rep: "heap_rep h bs" and w: "want \<noteq> 0"
  shows "case first_fit (unat (ALIGN16 want)) (unat HEAP_BASE) bs of
           None \<Rightarrow> kmalloc want h = Some (0, h)
         | Some (q, bs') \<Rightarrow> \<exists>h'. kmalloc want h = Some (of_nat q, h') \<and> heap_rep h' bs' \<and>
             (\<forall>x \<in> live (unat HEAP_BASE) bs. cells h' x = cells h x)"
proof -
  let ?w = "ALIGN16 want" and ?B = "unat HEAP_BASE"
  have at: "heap_at (cells h) 0 ?B bs False" and bs: "bs \<noteq> []" "sizes_ok bs" "coalesced bs"
    "span bs = unat HEAP_SIZE" "g_head h = of_nat ?B"
    using rep by (simp_all add: heap_rep_def)
  have lim: "?B + span bs < 2 ^ 64" using bs by (simp add: heap_base_facts)
  note walk = kmalloc_from_rep [OF at bs(1) heap_base_facts(2,3) bs(2) lim align16_unat(1) [of want]]
  show ?thesis
  proof (cases "first_fit (unat ?w) ?B bs")
    case None
    then show ?thesis using walk w bs(5) by (simp add: kmalloc_def)
  next
    case (Some r)
    obtain q bs' where r: "r = (q, bs')" by (cases r)
    note ff = Some [unfolded r]
    obtain m' where m': "kmalloc_from ?w (of_nat ?B) (cells h) = Some (of_nat q, m')"
      "heap_at m' 0 ?B bs' False" "\<forall>x. x < ?B \<or> x \<in> live ?B bs \<longrightarrow> m' x = cells h x"
      using walk ff by auto
    have "kmalloc want h = Some (of_nat q, h\<lparr>cells := m'\<rparr>)"
      using m'(1) w bs(5) by (simp add: kmalloc_def)
    moreover have "heap_rep (h\<lparr>cells := m'\<rparr>) bs'"
      using rep m'(2) first_fit_nonempty [OF ff] first_fit_coalesced [OF ff bs(3)]
        first_fit_spec [OF ff align16_unat(1) bs(2) heap_base_facts(2)]
      by (simp add: heap_rep_def)
    ultimately show ?thesis using ff m'(3) by simp
  qed
qed

lemma kfree_rep:
  assumes rep: "heap_rep h bs" and bs: "bs = xs @ (sz, False) # ys"
  defines "h' \<equiv> kfree (of_nat (unat HEAP_BASE + span xs + 32)) h"
  shows "heap_rep h' (merge_left xs (merge_right sz ys)) \<and>
         (\<forall>x \<in> live (unat HEAP_BASE) (merge_left xs (merge_right sz ys)). cells h' x = cells h x)"
proof -
  let ?B = "unat HEAP_BASE" let ?a = "?B + span xs" let ?p = "of_nat (?a + 32) :: u64"
  let ?m = "cells h"
  have r: "heap_at ?m 0 ?B bs False" "sizes_ok bs" "coalesced bs" "span bs = unat HEAP_SIZE"
    "g_head h = HEAP_BASE"
    using rep by (simp_all add: heap_rep_def)
  have atx: "heap_at ?m 0 ?B xs True" and at: "heap_at ?m (last_addr 0 ?B xs) ?a ((sz, False) # ys) False"
    using r(1) bs by (simp_all add: heap_at_append)
  have lim: "?a + 32 + sz + span ys < 2 ^ 64"
    using r(4) bs by (simp add: heap_base_facts)
  have ok: "16 dvd ?a" "sizes_ok ((sz, False) # ys)" "16 dvd sz" "sizes_ok xs" "sizes_ok ((sz, True) # ys)"
    using r(2) bs heap_base_facts(2) span_dvd [of xs] by auto
  have b: "?p - sizeof_block = of_nat ?a" by (simp add: sizeof_block_def)
  have "unat ?p = ?a + 32" using lim by (intro unat_word_of_nat) simp
  then have nz: "?p \<noteq> 0" by auto
  have magic: "?m (blk_magic (of_nat ?a)) = MAGIC"
    using heap_at_start(6) [OF at] ok lim by simp
  define m2 where "m2 = poison 0 (blk_set_free (of_nat ?a) ?m (blk_size (of_nat ?a)) div 8) ?p
    (blk_set_free (of_nat ?a) ?m)"
  define m3 where "m3 = kfree_next (of_nat ?a) m2"
  define m4 where "m4 = kfree_prev (of_nat ?a) m3"
  have h': "h' = h\<lparr>cells := m4\<rparr>"
    unfolding h'_def kfree_def Let_def b using nz magic by (simp add: m2_def m3_def m4_def)
  note k2 = kfree_mark_rep [OF at ok(1,2) lim, folded m2_def]
  have "0 < ?a" using heap_base_facts(3) by simp
  note k3 = kfree_next_rep [OF k2(1) ok(1,5) lim this, folded m3_def]
  obtain s zs where m: "merge_right sz ys = (s, True) # zs" using merge_right_Cons by blast
  have "\<And>x. x < ?a \<Longrightarrow> m3 x = ?m x" using k2(2) k3(2) by metis
  then have "heap_at m3 0 ?B xs True" by (rule heap_at_below [OF atx])
  then have at3: "heap_at m3 0 ?B (xs @ (s, True) # zs) False"
    using k3(1) m by (simp add: heap_at_append)
  have ok3: "sizes_ok (xs @ (s, True) # zs)" "span (xs @ (s, True) # zs) = span bs"
    using merge_right_sizes [OF ok(5)] merge_right_facts(1) [of sz ys] ok(4) m bs by simp_all
  have "?B + span (xs @ (s, True) # zs) < 2 ^ 64" "0 < ?B"
    unfolding ok3(2) r(4) by (simp_all add: heap_base_facts)
  note k4 = kfree_prev_rep [OF at3 heap_base_facts(2) this(2) ok3(1) this(1), folded m4_def]
  have l: "live ?B (merge_left xs ((s, True) # zs)) = live ?B xs \<union> live (?a + 32 + s) zs"
    "live (?a + 32 + s) zs = live (?a + 32 + sz) ys"
    using merge_left_facts(3) merge_right_facts(2) [of ?a sz ys] m by simp_all
  have "m4 x = ?m x" if "x \<in> live ?B (merge_left xs ((s, True) # zs))" for x
    using that l k4(2) [of x] k3(2) [of x] k2(2) [of x] by (auto dest: live_bounds)
  moreover have "merge_left xs ((s, True) # zs) \<noteq> []"
    by (cases xs rule: rev_cases) (auto simp: merge_left_snoc split: if_splits)
  moreover have "sizes_ok (merge_left xs ((s, True) # zs))" "span (merge_left xs ((s, True) # zs)) = span bs"
    using merge_left_facts(1,2) ok3 by simp_all
  ultimately show ?thesis
    using k4(1) merge_left_coalesced [of xs sz ys] r(3-5) bs h' m by (simp add: heap_rep_def)
qed

text \<open>The block list is determined by the memory.\<close>

lemma link_of_inj:
  assumes "link_of n r f = link_of n r' f'" "even n" "0 < n" "n < 2 ^ 64"
  shows "r = r' \<and> f = f'"
proof -
  have "of_nat n \<noteq> (0 :: u64)" using assms(3,4) unat_word_of_nat [of n] by auto
  then show ?thesis
    using link_of_macros [OF assms(2,4), of r f] link_of_macros [OF assms(2,4), of r' f'] assms(1)
    by (metis (full_types))
qed

lemma heap_at_unique:
  assumes "heap_at m p a bs False" "heap_at m q a cs False" "16 dvd a" "sizes_ok bs" "sizes_ok cs"
    and "a + span bs < 2 ^ 64" "a + span cs < 2 ^ 64" "bs \<noteq> [] \<longleftrightarrow> cs \<noteq> []"
  shows "bs = cs"
  using assms
proof (induction bs arbitrary: cs a p q)
  case Nil
  then show ?case by simp
next
  case (Cons b bs)
  then obtain c cs' where cs: "cs = c # cs'" by (cases cs) auto
  obtain sz f tz g where bc: "b = (sz, f)" "c = (tz, g)" by (cases b; cases c)
  have "of_nat sz = (of_nat tz :: u64)" using Cons.prems(1,2) cs bc by simp
  moreover have "sz < 2 ^ 64" "tz < 2 ^ 64" using Cons.prems(6,7) cs bc by simp_all
  ultimately have sz: "tz = sz" by (metis unat_word_of_nat)
  have ev: "even (a + 32 + sz)" using Cons.prems(3,4) bc by (auto dest: dvd_trans [of 2 16])
  have "link_of (a + 32 + sz) (bs \<noteq> []) f = link_of (a + 32 + sz) (cs' \<noteq> []) g"
    using Cons.prems(1,2) cs bc sz by simp
  then have same: "(bs \<noteq> []) = (cs' \<noteq> []) \<and> f = g"
    by (rule link_of_inj) (use Cons.prems(6) bc ev in simp_all)
  have "bs = cs'"
  proof (rule Cons.IH)
    show "heap_at m (of_nat a) (a + 32 + sz) bs False" "heap_at m (of_nat a) (a + 32 + sz) cs' False"
      using Cons.prems(1,2) cs bc sz by simp_all
  qed (use Cons.prems(3-7) cs bc sz same in auto)
  then show ?case using cs bc sz same by simp
qed

lemma heap_rep_unique: "heap_rep h bs \<Longrightarrow> heap_rep h cs \<Longrightarrow> bs = cs"
  by (rule heap_at_unique [of "cells h" 0 "unat HEAP_BASE" bs 0 cs])
    (auto simp: heap_rep_def heap_base_facts)

definition heap_ok :: "heap \<Rightarrow> bool" where
  "heap_ok h \<longleftrightarrow> (\<exists>bs. heap_rep h bs)"

definition heap_owned :: "heap \<Rightarrow> u64 set" where
  "heap_owned h = {p. \<exists>bs. heap_rep h bs \<and> p \<in> heap_pointers bs}"

lemma heap_owned_rep: "heap_rep h bs \<Longrightarrow> heap_owned h = heap_pointers bs"
  using heap_rep_unique by (auto simp: heap_owned_def)

text \<open>
  What the clients of the heap (the slab and arena allocators) rely on: an allocation always
  returns; a null answer changes nothing; any other answer is a pointer that is not owned yet
  and is owned afterwards; releasing an owned pointer takes it out of the owned ones.
\<close>

locale allocator =
  fixes alloc :: "u64 \<Rightarrow> 'h \<Rightarrow> (u64 \<times> 'h) option"
    and release :: "u64 \<Rightarrow> 'h \<Rightarrow> 'h"
    and invar :: "'h \<Rightarrow> bool"
    and own :: "'h \<Rightarrow> u64 set"
  assumes alloc_total: "invar h \<Longrightarrow> \<exists>p h'. alloc w h = Some (p, h')"
    and alloc_null: "invar h \<Longrightarrow> alloc w h = Some (0, h') \<Longrightarrow> h' = h"
    and alloc_invar: "invar h \<Longrightarrow> alloc w h = Some (p, h') \<Longrightarrow> invar h'"
    and alloc_fresh: "invar h \<Longrightarrow> alloc w h = Some (p, h') \<Longrightarrow> p \<noteq> 0 \<Longrightarrow>
           p \<notin> own h \<and> own h' = insert p (own h)"
    and release_invar: "invar h \<Longrightarrow> p \<in> own h \<Longrightarrow> invar (release p h)"
    and release_own: "invar h \<Longrightarrow> p \<in> own h \<Longrightarrow> own (release p h) = own h - {p}"
    and null_not_owned: "invar h \<Longrightarrow> 0 \<notin> own h"
begin

lemma alloc_release:
  assumes "invar h" "alloc w h = Some (p, h')" "p \<noteq> 0"
  shows "invar (release p h') \<and> own (release p h') = own h"
  using assms alloc_invar alloc_fresh release_invar release_own by auto

lemma release_all:
  assumes "invar h" "set ps \<subseteq> own h" "distinct ps"
  shows "invar (fold release ps h) \<and> own (fold release ps h) = own h - set ps"
  using assms
proof (induction ps arbitrary: h)
  case (Cons p ps)
  then have "invar (release p h)" "own (release p h) = own h - {p}"
    using release_invar release_own by auto
  then show ?case using Cons.IH [of "release p h"] Cons.prems by auto
qed simp

end

lemma kmalloc_owned:
  assumes rep: "heap_rep h bs" and k: "kmalloc w h = Some (p, h')" and p: "p \<noteq> 0"
  shows "\<exists>bs'. heap_rep h' bs' \<and> heap_pointers bs' = insert p (heap_pointers bs) \<and>
           p \<notin> heap_pointers bs \<and> 16 dvd unat p"
proof -
  let ?B = "unat HEAP_BASE"
  have w: "w \<noteq> 0" using k p by (auto simp: kmalloc_def)
  obtain q bs' where ff: "first_fit (unat (ALIGN16 w)) ?B bs = Some (q, bs')"
    and pq: "p = of_nat q" and rep': "heap_rep h' bs'"
    using kmalloc_rep [OF rep w] k p by (auto split: option.splits)
  have r: "sizes_ok bs" "span bs = unat HEAP_SIZE" using rep by (simp_all add: heap_rep_def)
  note spec = first_fit_spec [OF ff align16_unat(1) r(1) heap_base_facts(2)]
  have lim: "x < 2 ^ 64" if "x \<le> ?B + span bs" for x
    using that r(2) by (simp add: heap_base_facts)
  have q: "unat (of_nat q :: u64) = q" using spec lim [of q] by (intro unat_word_of_nat) simp
  have "of_nat q \<notin> (of_nat ` ptrs ?B bs :: u64 set)"
  proof
    assume "of_nat q \<in> (of_nat ` ptrs ?B bs :: u64 set)"
    then obtain x where x: "x \<in> ptrs ?B bs" "of_nat q = (of_nat x :: u64)" by auto
    then have "q = x" using q unat_word_of_nat [of x] lim [of x] ptrs_bounds [of x] by metis
    then show False using x(1) spec by simp
  qed
  then show ?thesis
    using rep' spec pq q by (intro exI [of _ bs']) (auto simp: heap_pointers_def)
qed

lemma kfree_owned:
  assumes rep: "heap_rep h bs" and p: "p \<in> heap_pointers bs"
  shows "\<exists>bs'. heap_rep (kfree p h) bs' \<and> heap_pointers bs' = heap_pointers bs - {p}"
proof -
  let ?B = "unat HEAP_BASE"
  obtain x where x: "x \<in> ptrs ?B bs" "p = of_nat x" using p by (auto simp: heap_pointers_def)
  obtain xs sz ys where bs: "bs = xs @ (sz, False) # ys" and xe: "x = ?B + span xs + 32"
    using x(1) by (rule ptrs_split)
  have "span bs = unat HEAP_SIZE" using rep by (simp add: heap_rep_def)
  then have lim: "y < 2 ^ 64" if "y \<in> ptrs ?B bs" for y
    using ptrs_bounds [OF that] by (simp add: heap_base_facts)
  let ?bs = "merge_left xs (merge_right sz ys)"
  have "ptrs ?B ?bs = ptrs ?B bs - {x}"
    unfolding merge_ptrs bs ptrs_append xe by (auto dest: ptrs_bounds)
  moreover have "of_nat ` (ptrs ?B bs - {x}) = of_nat ` ptrs ?B bs - {of_nat x :: u64}"
  proof (rule inj_on_image_set_diff [of _ "ptrs ?B bs" _ "{x}", simplified])
    show "inj_on (of_nat :: nat \<Rightarrow> u64) (ptrs ?B bs)"
      using lim unat_word_of_nat by (metis inj_onI)
  qed (use x in auto)
  ultimately have "heap_pointers ?bs = heap_pointers bs - {p}"
    using x(2) by (simp add: heap_pointers_def)
  then show ?thesis using kfree_rep [OF rep bs] xe x(2) by blast
qed

lemma heap_pointers_nonzero: "heap_rep h bs \<Longrightarrow> 0 \<notin> heap_pointers bs"
proof
  assume rep: "heap_rep h bs" and "0 \<in> heap_pointers bs"
  then obtain x where x: "x \<in> ptrs (unat HEAP_BASE) bs" "0 = (of_nat x :: u64)"
    by (auto simp: heap_pointers_def)
  then have "unat HEAP_BASE < x" "x \<le> unat HEAP_BASE + unat HEAP_SIZE"
    using ptrs_bounds [OF x(1)] rep by (simp_all add: heap_rep_def)
  then show False
    using x(2) unat_word_of_nat [of x] by (simp add: heap_base_facts)
qed

lemma kmalloc_null:
  assumes rep: "heap_rep h bs" and k: "kmalloc w h = Some (0, h')"
  shows "h' = h"
proof (cases "w = 0")
  case True
  then show ?thesis using k by (simp add: kmalloc_def)
next
  case False
  let ?B = "unat HEAP_BASE"
  show ?thesis
  proof (cases "first_fit (unat (ALIGN16 w)) ?B bs")
    case None
    then show ?thesis using kmalloc_rep [OF rep False] k by simp
  next
    case (Some r)
    obtain q bs' where ff: "first_fit (unat (ALIGN16 w)) ?B bs = Some (q, bs')"
      using Some by (cases r) simp
    have r: "sizes_ok bs" "span bs = unat HEAP_SIZE" using rep by (simp_all add: heap_rep_def)
    have q0: "of_nat q = (0 :: u64)" using kmalloc_rep [OF rep False] ff k by auto
    have "?B < q \<and> q + unat (ALIGN16 w) \<le> ?B + unat HEAP_SIZE"
      using first_fit_spec [OF ff align16_unat(1) r(1) heap_base_facts(2)] r(2) by simp
    then have "q < 2 ^ 64" "0 < q" using heap_base_facts(1,4) by simp_all
    moreover have "unat (of_nat q :: u64) = q" using calculation(1) by (rule unat_word_of_nat)
    ultimately show ?thesis using q0 by simp
  qed
qed

interpretation kheap: allocator kmalloc kfree heap_ok heap_owned
proof
  fix h w p h'
  assume "heap_ok h"
  then obtain bs where rep: "heap_rep h bs" by (auto simp: heap_ok_def)
  show "\<exists>p h'. kmalloc w h = Some (p, h')"
    using kmalloc_rep [OF rep, of w] by (cases "w = 0") (auto simp: kmalloc_def split: option.splits)
  show "0 \<notin> heap_owned h" using heap_pointers_nonzero [OF rep] heap_owned_rep [OF rep] by simp
  assume k: "kmalloc w h = Some (p, h')"
  have null: "h' = h" if "p = 0" using kmalloc_null [OF rep] k that by simp
  show "heap_ok h'"
    using kmalloc_owned [OF rep k] null rep by (cases "p = 0") (auto simp: heap_ok_def)
  show "p \<notin> heap_owned h \<and> heap_owned h' = insert p (heap_owned h)" if "p \<noteq> 0"
    using kmalloc_owned [OF rep k that] heap_owned_rep rep by metis
next
  fix h w h'
  assume "heap_ok h" and "kmalloc w h = Some (0, h')"
  then show "h' = h" using kmalloc_null by (auto simp: heap_ok_def)
next
  fix h p
  assume "heap_ok h" and p: "p \<in> heap_owned h"
  then obtain bs where rep: "heap_rep h bs" by (auto simp: heap_ok_def)
  then obtain bs' where "heap_rep (kfree p h) bs'" "heap_pointers bs' = heap_pointers bs - {p}"
    using kfree_owned p heap_owned_rep by metis
  then show "heap_ok (kfree p h)" "heap_owned (kfree p h) = heap_owned h - {p}"
    using heap_owned_rep rep by (auto simp: heap_ok_def)
qed

section \<open>Runs and properties\<close>

text \<open>
  Runs of the heap from \<open>heap_init\<close> on: clients allocate any size and release pointers they got
  and have not released yet; \<open>L\<close> is the set of these pointers.
\<close>

inductive heap_run :: "heap \<Rightarrow> u64 set \<Rightarrow> bool" where
  init: "heap_run (snd (heap_init h)) {}"
| alloc: "heap_run h L \<Longrightarrow> kmalloc w h = Some (p, h') \<Longrightarrow>
    heap_run h' (if p = 0 then L else insert p L)"
| free: "heap_run h L \<Longrightarrow> p \<in> L \<Longrightarrow> heap_run (kfree p h) (L - {p})"
| free_null: "heap_run h L \<Longrightarrow> heap_run (kfree 0 h) L"

lemma heap_run_rep: "heap_run h L \<Longrightarrow> heap_ok h \<and> heap_owned h = L"
proof (induction rule: heap_run.induct)
  case (init h)
  have "heap_pointers [(unat HEAP_SIZE - 32, True)] = {}" by (simp add: heap_pointers_def)
  then show ?case
    unfolding heap_ok_def heap_owned_rep [OF heap_rep_init] using heap_rep_init by blast
next
  case (alloc h L w p h')
  then show ?case
    using kheap.alloc_invar [of h w p h'] kheap.alloc_fresh [of h w p h'] kheap.alloc_null [of h w h']
    by auto
next
  case (free h L p)
  then show ?case using kheap.release_invar kheap.release_own by auto
qed (simp add: kfree_def)

fun free_bytes :: "blk list \<Rightarrow> nat" where
  "free_bytes [] = 0"
| "free_bytes ((sz, fr) # bs) = (if fr then sz else 0) + free_bytes bs"

lemma free_sum_rep:
  assumes "heap_at m p a bs False" "bs \<noteq> []" "16 dvd a" "0 < a" "sizes_ok bs" "a + span bs < 2 ^ 64"
  shows "free_sum (of_nat a) m f = Some (f + of_nat (free_bytes bs))"
  using assms
proof (induction bs arbitrary: p a f)
  case (Cons b bs)
  obtain sz fr where b: "b = (sz, fr)" by (cases b)
  have at: "heap_at m p a ((sz, fr) # bs) False" and ok: "16 dvd a" "16 dvd sz" "a + 32 + sz < 2 ^ 64"
    using Cons.prems b by simp_all
  note start = heap_at_start [OF at ok]
  have nz: "of_nat a \<noteq> (0 :: u64)" using start(1) Cons.prems(4) by auto
  have z: "free_sum 0 m g = Some g" for g by (subst free_sum.simps) simp
  have step: "free_sum (of_nat a) m f =
      free_sum (if bs \<noteq> [] then of_nat (a + 32 + sz) else 0) m (f + (if fr then of_nat sz else 0))"
    using nz start by (subst free_sum.simps) simp
  show ?case
  proof (cases "bs = []")
    case True
    then show ?thesis using step z b by simp
  next
    case False
    have "free_sum (of_nat (a + 32 + sz)) m (f + (if fr then of_nat sz else 0)) =
        Some (f + (if fr then of_nat sz else 0) + of_nat (free_bytes bs))"
      using Cons.prems at b False by (intro Cons.IH [of "of_nat a"]) simp_all
    then show ?thesis using step b False by simp
  qed
qed simp

text \<open>
  C6: safety of every run of the heap. Whatever the clients allocated and released before, the
  next \<open>kmalloc\<close> returns; a nonzero answer is 16-byte aligned and is not one of the pointers
  in use, the blocks still tile the 32 MB region exactly with no two adjacent free blocks, and
  the payload bytes of the new block are disjoint from all payloads in use.
\<close>

theorem heap_run_safe:
  assumes "heap_run h L" and "unat w + 15 < 2 ^ 64"
  shows "\<exists>p h' bs bs'. kmalloc w h = Some (p, h') \<and> heap_rep h bs \<and> heap_pointers bs = L \<and>
           heap_rep h' bs' \<and>
           (p \<noteq> 0 \<longrightarrow> p \<notin> L \<and> 16 dvd unat p \<and> heap_pointers bs' = insert p L \<and>
              live (unat HEAP_BASE) bs \<inter> {unat p ..< unat p + unat w} = {} \<and>
              {unat p ..< unat p + unat w} \<subseteq> live (unat HEAP_BASE) bs')"
proof -
  let ?B = "unat HEAP_BASE"
  have ok: "heap_ok h" "heap_owned h = L" using heap_run_rep [OF assms(1)] by auto
  then obtain bs where rep: "heap_rep h bs" by (auto simp: heap_ok_def)
  have L: "heap_pointers bs = L" using heap_owned_rep [OF rep] ok(2) by simp
  obtain p h' where k: "kmalloc w h = Some (p, h')" using kheap.alloc_total [OF ok(1)] by blast
  show ?thesis
  proof (cases "p = 0")
    case True
    then have "h' = h" using kmalloc_null [OF rep] k by simp
    then show ?thesis using k rep L True by blast
  next
    case False
    have w: "w \<noteq> 0" using k False by (auto simp: kmalloc_def)
    obtain q bs' where ff: "first_fit (unat (ALIGN16 w)) ?B bs = Some (q, bs')"
      and pq: "p = of_nat q" and rep': "heap_rep h' bs'"
      using kmalloc_rep [OF rep w] k False by (auto split: option.splits)
    have r: "sizes_ok bs" "span bs = unat HEAP_SIZE" using rep by (simp_all add: heap_rep_def)
    note spec = first_fit_spec [OF ff align16_unat(1) r(1) heap_base_facts(2)]
    then have "q < 2 ^ 64" using r(2) heap_base_facts(1,4) by simp
    then have up: "unat p = q" using pq unat_word_of_nat by simp
    obtain n where n: "unat (ALIGN16 w) \<le> n" "live ?B bs' = live ?B bs \<union> {q ..< q + n}"
      "live ?B bs \<inter> {q ..< q + n} = {}" using spec by blast
    have "{q ..< q + unat w} \<subseteq> {q ..< q + n}" using n(1) align16_unat(2) [OF assms(2)] by auto
    then have "live ?B bs \<inter> {q ..< q + unat w} = {}" "{q ..< q + unat w} \<subseteq> live ?B bs'"
      using n by blast+
    moreover have "p \<notin> L" "16 dvd unat p" "heap_pointers bs' = insert p L"
      using kmalloc_owned [OF rep k False] heap_rep_unique [OF rep'] L by auto
    ultimately show ?thesis using k rep L rep' up by blast
  qed
qed

theorem heap_run_safe_witness:
  "\<exists>p h'. kmalloc 100 (snd (heap_init \<lparr>cells = (\<lambda>_. 0), g_head = 0\<rparr>)) = Some (p, h')"
  using heap_run_safe [OF heap_run.init, of 100 "\<lparr>cells = (\<lambda>_. 0), g_head = 0\<rparr>"] by fastforce

text \<open>
  C7: \<open>kmalloc\<close> refines first fit on the block list. A request is rounded up to 16 bytes; the
  answer is the payload of the first free block that is large enough, split when 48 bytes
  remain; the answer is null, with no change, exactly when no free block is large enough; the
  payloads in use keep their contents.
\<close>

theorem kmalloc_first_fit:
  assumes "heap_rep h bs" and "want \<noteq> 0"
  shows "(first_fit (unat (ALIGN16 want)) (unat HEAP_BASE) bs = None \<longleftrightarrow>
            (\<forall>(sz, fr) \<in> set bs. fr \<longrightarrow> sz < unat (ALIGN16 want))) \<and>
         (case first_fit (unat (ALIGN16 want)) (unat HEAP_BASE) bs of
            None \<Rightarrow> kmalloc want h = Some (0, h)
          | Some (q, bs') \<Rightarrow> \<exists>h'. kmalloc want h = Some (of_nat q, h') \<and> heap_rep h' bs' \<and>
              (\<forall>x \<in> live (unat HEAP_BASE) bs. cells h' x = cells h x))"
proof -
  have "first_fit w a bs = None \<longleftrightarrow> (\<forall>(sz, fr) \<in> set bs. fr \<longrightarrow> sz < w)" for w a
    by (induction bs arbitrary: a) (auto split: if_splits)
  then show ?thesis using kmalloc_rep [OF assms] by simp
qed

theorem kmalloc_first_fit_witness:
  "\<exists>h'. kmalloc 100 (snd (heap_init \<lparr>cells = (\<lambda>_. 0), g_head = 0\<rparr>)) =
          Some (HEAP_BASE + 32, h') \<and> heap_rep h' [(112, False), (33554256, True)]"
proof -
  have "ALIGN16 100 = 112" by (simp add: ALIGN16_def)
  then show ?thesis
    using kmalloc_first_fit [OF heap_rep_init, of 100 "\<lparr>cells = (\<lambda>_. 0), g_head = 0\<rparr>"]
    by (auto simp: heap_base_facts(4))
qed

text \<open>
  C8: \<open>kfree\<close> refines release on the block list: the block becomes free and is merged with a
  free successor and with a free predecessor, so that no two free blocks are adjacent, and
  the payloads that stay in use keep their contents.
\<close>

theorem kfree_merges:
  assumes "heap_rep h (xs @ (sz, False) # ys)"
  shows "heap_rep (kfree (of_nat (unat HEAP_BASE + span xs + 32)) h) (merge_left xs (merge_right sz ys)) \<and>
         (\<forall>x \<in> live (unat HEAP_BASE) (merge_left xs (merge_right sz ys)).
            cells (kfree (of_nat (unat HEAP_BASE + span xs + 32)) h) x = cells h x)"
  using kfree_rep [OF assms refl] .

theorem kfree_merges_witness:
  "\<exists>h. heap_rep h [(112, False), (33554256, True)] \<and> heap_rep (kfree (HEAP_BASE + 32) h) [(33554400, True)]"
proof -
  have "ALIGN16 100 = 112" by (simp add: ALIGN16_def)
  then obtain h where h: "heap_rep h [(112, False), (33554256, True)]"
    using kmalloc_rep [OF heap_rep_init, of 100] by (auto simp: heap_base_facts(4))
  then have "heap_rep (kfree (HEAP_BASE + 32) h) [(33554400, True)]"
    using kfree_merges [of h "[]" 112 "[(33554256, True)]"] by simp
  then show ?thesis using h by blast
qed

text \<open>
  \<open>heap_get_free\<close> returns, on every well-formed heap, the sum of the sizes of the free blocks.
\<close>

theorem heap_get_free_exact:
  assumes "heap_rep h bs"
  shows "heap_get_free h = Some (of_nat (free_bytes bs))"
  using assms free_sum_rep [of "cells h" 0 "unat HEAP_BASE" bs 0]
  by (simp add: heap_get_free_def heap_rep_def heap_base_facts(2-4))
    (simp add: heap_base_facts(1))

theorem heap_get_free_exact_witness:
  "heap_get_free (snd (heap_init \<lparr>cells = (\<lambda>_. 0), g_head = 0\<rparr>)) = Some (0x2000000 - 32)"
  using heap_get_free_exact [OF heap_rep_init] by (simp add: heap_base_facts(4))

text \<open>
  The rounding wraps around for a request within 15 bytes of the end of the address space:
  \<open>kmalloc\<close> then answers with a block that has no payload, instead of null.
\<close>

lemma kmalloc_huge_request:
  "\<exists>h'. kmalloc (- 1) (snd (heap_init h)) = Some (HEAP_BASE + 32, h') \<and>
        heap_rep h' [(0, False), (33554368, True)]"
proof -
  have "ALIGN16 (- 1) = 0" by (simp add: ALIGN16_def)
  then show ?thesis
    using kmalloc_rep [OF heap_rep_init, of "- 1" h] by (auto simp: heap_base_facts(4))
qed

end
