(* ===== verification/Process.thy ===== *)
theory Process
  imports Heap
begin

text \<open>
  Processes: the process structure of src/src/proc/process.h, its creation in
  src/src/proc/process.c and the context switch of src/src/proc/kthread_switch.asm.

  Process structures are objects that the kernel heap hands out; the model keeps them in a
  store \<open>procs\<close> indexed by their address, while their kernel stacks are cells of the heap
  memory. A \<open>void*\<close> in a file descriptor is the typed pointer \<open>fptr\<close>.
\<close>

section \<open>Data\<close>

datatype fd_kind =
    FD_CLOSED | FD_CON_IN | FD_CON_OUT | FD_FILE | FD_PIPE_R | FD_PIPE_W
  | FD_DEV_NULL | FD_DEV_ZERO | FD_DEV_RANDOM | FD_DEV_TTY

text \<open>A \<open>vfs_file_t*\<close> points into the file table of NoxFS, that of ramfs, or the pools of procfs and devfs.\<close>

datatype vfile = NOX_FILE nat | RAM_FILE nat | PROC_FILE nat | DEV_FILE nat

datatype fptr = NULL | PIPE nat | VFS_FILE vfile

record fd =
  kind :: fd_kind
  ffile :: fptr
  offset :: u32

datatype proc_state = PROC_READY | PROC_RUNNING | PROC_BLOCKED | PROC_ZOMBIE

record process =
  pid :: u64
  pname :: "nat \<Rightarrow> u8"
  pstate :: proc_state
  kctx_rsp :: u64
  kstack_base :: u64
  kstack_top :: u64
  pml4 :: u64
  uentry :: u64
  ursp :: u64
  stack_low :: u64
  brk :: u64
  cwd_ino :: u32
  cwd_path :: "nat \<Rightarrow> u8"
  parent :: u64
  exit_code :: u32
  quantum_remaining :: u32
  priority :: u32
  rq_next :: u64
  all_next :: u64
  fds :: "nat \<Rightarrow> fd"
  sig_pending :: u32
  sig_handler :: "nat \<Rightarrow> u64"
  env :: "nat \<Rightarrow> nat \<Rightarrow> u8"
  envc :: int

text \<open>The registers a context switch saves, and the kernel state that processes live in.\<close>

record cpu =
  rip :: u64
  rsp :: u64
  rbx :: u64
  rbp :: u64
  r12 :: u64
  r13 :: u64
  r14 :: u64
  r15 :: u64

record kern =
  kheap :: heap
  procs :: "u64 \<Rightarrow> process"
  regs :: cpu
  g_next_pid :: u64
  g_current :: u64
  g_ready_head :: u64
  g_ready_tail :: u64
  g_all_head :: u64
  idle_at :: u64
  g_fg_pid :: u64
  cr3 :: u64
  g_pml4_kernel :: u64
  tss_rsp0 :: u64
  g_cur_kstack :: u64

definition PROC_NAME_MAX :: nat where "PROC_NAME_MAX = 32"
definition PROC_QUANTUM :: u32 where "PROC_QUANTUM = 10"
definition PROC_KSTACK_SIZE :: u64 where "PROC_KSTACK_SIZE = 16384"
definition PROC_MAX_FDS :: nat where "PROC_MAX_FDS = 16"
definition ENV_MAX :: nat where "ENV_MAX = 32"
definition ENV_SLOT :: nat where "ENV_SLOT = 160"

definition sizeof_process :: u64 where
  "sizeof_process = 6064"

definition upd_proc :: "u64 \<Rightarrow> (process \<Rightarrow> process) \<Rightarrow> kern \<Rightarrow> kern" where
  "upd_proc p f s = s\<lparr>procs := (procs s)(p := f (procs s p))\<rparr>"

section \<open>Creation\<close>

fun copy_name :: "nat \<Rightarrow> (nat \<Rightarrow> u8) \<Rightarrow> nat \<Rightarrow> (nat \<Rightarrow> u8) \<Rightarrow> nat \<Rightarrow> u8" where
  "copy_name 0 name i dst = dst"
| "copy_name (Suc k) name i dst =
     (if name i \<noteq> 0 then copy_name k name (Suc i) (dst(i := name i)) else dst)"

definition closed_fd :: fd where
  "closed_fd = \<lparr>kind = FD_CLOSED, ffile = NULL, offset = 0\<rparr>"

definition std_fds :: "(nat \<Rightarrow> fd) \<Rightarrow> nat \<Rightarrow> fd" where
  "std_fds old =
     (let f = (\<lambda>i. if i < PROC_MAX_FDS then closed_fd else old i)
      in f(0 := (f 0)\<lparr>kind := FD_CON_IN\<rparr>, 1 := (f 1)\<lparr>kind := FD_CON_OUT\<rparr>,
           2 := (f 2)\<lparr>kind := FD_CON_OUT\<rparr>))"

text \<open>
  The stores of \<open>proc_alloc\<close> to a structure that holds \<open>old\<close>: the name keeps the old bytes
  behind the copied ones.
\<close>

definition proc_fill :: "u64 \<Rightarrow> u64 \<Rightarrow> (nat \<Rightarrow> u8) \<Rightarrow> process \<Rightarrow> process" where
  "proc_fill new_pid stack name old = old\<lparr>
     pid := new_pid, pstate := PROC_READY, quantum_remaining := PROC_QUANTUM, priority := 1,
     kstack_base := stack, kstack_top := stack + PROC_KSTACK_SIZE,
     pml4 := 0, uentry := 0, ursp := 0, stack_low := 0, brk := 0, cwd_ino := 0,
     cwd_path := (\<lambda>i. if i = 0 then ch (CHR ''/'') else if i < 128 then 0 else cwd_path old i),
     parent := 0, exit_code := 0, kctx_rsp := 0, rq_next := 0, all_next := 0,
     pname := (copy_name (PROC_NAME_MAX - 1) name 0 (pname old))(PROC_NAME_MAX - 1 := 0),
     fds := std_fds (fds old),
     sig_pending := 0, sig_handler := (\<lambda>i. if i < 32 then 0 else sig_handler old i),
     envc := 0, env := (\<lambda>i. if i < ENV_MAX then (env old i)(0 := 0) else env old i)\<rparr>"

definition proc_alloc :: "(nat \<Rightarrow> u8) \<Rightarrow> kern \<Rightarrow> (u64 \<times> kern) option" where
  "proc_alloc name s =
     (case kmalloc sizeof_process (kheap s) of
        None \<Rightarrow> None
      | Some (p, h) \<Rightarrow>
          if p = 0 then Some (0, s\<lparr>kheap := h\<rparr>)
          else case kmalloc PROC_KSTACK_SIZE h of
                 None \<Rightarrow> None
               | Some (stack, h2) \<Rightarrow>
                   if stack = 0 then Some (0, s\<lparr>kheap := kfree p h2\<rparr>)
                   else Some (p, upd_proc p (proc_fill (g_next_pid s) stack name)
                                   (s\<lparr>kheap := h2, g_next_pid := g_next_pid s + 1\<rparr>)))"

text \<open>\<open>*--sp = v\<close> on a stack in kernel memory.\<close>

definition push_cell :: "u64 \<Rightarrow> u64 \<times> cells \<Rightarrow> u64 \<times> cells" where
  "push_cell v sm = (case sm of (sp, m) \<Rightarrow> (sp - 8, m(unat (sp - 8) := v)))"

definition spawn_stack :: "u64 \<Rightarrow> u64 \<Rightarrow> u64 \<Rightarrow> cells \<Rightarrow> u64 \<times> cells" where
  "spawn_stack trampoline entry stack m =
     fold push_cell [trampoline, entry, 0, 0, 0, 0, 0] (stack + PROC_KSTACK_SIZE, m)"

definition proc_spawn :: "u64 \<Rightarrow> (nat \<Rightarrow> u8) \<Rightarrow> u64 \<Rightarrow> u32 \<Rightarrow> kern \<Rightarrow> (u64 \<times> kern) option" where
  "proc_spawn trampoline name entry prio s =
     (case proc_alloc name s of
        None \<Rightarrow> None
      | Some (p, s) \<Rightarrow>
          if p = 0 then Some (0, s)
          else let s = upd_proc p (priority_update (\<lambda>_. prio)) s;
                   (sp, m) = spawn_stack trampoline entry (kstack_base (procs s p)) (cells (kheap s))
               in Some (p, upd_proc p (kctx_rsp_update (\<lambda>_. sp)) (s\<lparr>kheap := (kheap s)\<lparr>cells := m\<rparr>\<rparr>)))"

definition proc_spawn_user ::
    "u64 \<Rightarrow> u64 \<Rightarrow> (nat \<Rightarrow> u8) \<Rightarrow> u64 \<Rightarrow> u64 \<Rightarrow> u64 \<Rightarrow> u32 \<Rightarrow> kern \<Rightarrow> (u64 \<times> kern) option" where
  "proc_spawn_user trampoline user_thread_main name as ue us prio s =
     (case proc_spawn trampoline name user_thread_main prio s of
        None \<Rightarrow> None
      | Some (p, s) \<Rightarrow>
          if p = 0 then Some (0, s)
          else Some (p, upd_proc p (\<lambda>q. q\<lparr>pml4 := as, uentry := ue, ursp := us\<rparr>) s))"

section \<open>The context switch\<close>

text \<open>
  \<open>kthread_switch\<close> with the call that enters it: the return address and the callee-saved
  registers go onto the outgoing stack, whose pointer is stored through \<open>save_old_rsp\<close> (here
  the \<open>kctx_rsp\<close> of process \<open>prev\<close>); then the incoming stack is unwound.
\<close>

definition switch_save :: "cpu \<Rightarrow> cells \<Rightarrow> u64 \<times> cells" where
  "switch_save c m = fold push_cell [rip c, rbx c, rbp c, r12 c, r13 c, r14 c, r15 c] (rsp c, m)"

definition switch_load :: "u64 \<Rightarrow> cells \<Rightarrow> cpu" where
  "switch_load sp m =
     \<lparr>rip = m (unat (sp + 48)), rsp = sp + 56, rbx = m (unat (sp + 40)), rbp = m (unat (sp + 32)),
      r12 = m (unat (sp + 24)), r13 = m (unat (sp + 16)), r14 = m (unat (sp + 8)), r15 = m (unat sp)\<rparr>"

definition kthread_switch :: "u64 \<Rightarrow> u64 \<Rightarrow> kern \<Rightarrow> kern" where
  "kthread_switch prev new_rsp s =
     (let (sp, m) = switch_save (regs s) (cells (kheap s));
          s = upd_proc prev (kctx_rsp_update (\<lambda>_. sp)) (s\<lparr>kheap := (kheap s)\<lparr>cells := m\<rparr>\<rparr>)
      in s\<lparr>regs := switch_load new_rsp m\<rparr>)"

section \<open>Lemmas\<close>

lemma upd_proc_simps [frame_simps]:
  "procs (upd_proc p f s) = (procs s)(p := f (procs s p))"
  "kheap (upd_proc p f s) = kheap s" "regs (upd_proc p f s) = regs s"
  "g_next_pid (upd_proc p f s) = g_next_pid s" "g_current (upd_proc p f s) = g_current s"
  "g_ready_head (upd_proc p f s) = g_ready_head s" "g_ready_tail (upd_proc p f s) = g_ready_tail s"
  "g_all_head (upd_proc p f s) = g_all_head s" "g_fg_pid (upd_proc p f s) = g_fg_pid s"
  "idle_at (upd_proc p f s) = idle_at s" "cr3 (upd_proc p f s) = cr3 s"
  "g_pml4_kernel (upd_proc p f s) = g_pml4_kernel s" "tss_rsp0 (upd_proc p f s) = tss_rsp0 s"
  "g_cur_kstack (upd_proc p f s) = g_cur_kstack s"
  by (simp_all add: upd_proc_def)

lemma push_cells:
  "fold push_cell [a, b, c, d, e, f, g] (sp, m) =
     (sp - 56, m(unat (sp - 8) := a, unat (sp - 16) := b, unat (sp - 24) := c, unat (sp - 32) := d,
                 unat (sp - 40) := e, unat (sp - 48) := f, unat (sp - 56) := g))"
  by (simp add: push_cell_def)

lemma stack_slots: "unat (sp - x :: u64) = unat (sp - y) \<longleftrightarrow> x = y"
  by (simp only: word_unat_eq_iff [symmetric]) simp

lemma switch_load_pushed:
  "switch_load (sp - 56) (m(unat (sp - 8) := a, unat (sp - 16) := b, unat (sp - 24) := c,
      unat (sp - 32) := d, unat (sp - 40) := e, unat (sp - 48) := f, unat (sp - 56) := g)) =
     \<lparr>rip = a, rsp = sp, rbx = b, rbp = c, r12 = d, r13 = e, r14 = f, r15 = g\<rparr>"
proof -
  have "sp - 56 + 48 = sp - 8" "sp - 56 + 40 = sp - 16" "sp - 56 + 32 = sp - 24"
    "sp - 56 + 24 = sp - 32" "sp - 56 + 16 = sp - 40" "sp - 56 + 8 = sp - 48" "sp - 56 + 56 = sp"
    by simp_all
  then show ?thesis unfolding switch_load_def by (simp only: fun_upd_apply stack_slots) simp
qed

lemma switch_roundtrip: "switch_save c m = (sp, m') \<Longrightarrow> switch_load sp m' = c"
  unfolding switch_save_def push_cells by (cases c) (auto simp: switch_load_pushed)

lemma spawn_stack_load:
  "spawn_stack tr en stack m = (sp, m') \<Longrightarrow>
     switch_load sp m' =
       \<lparr>rip = tr, rsp = stack + PROC_KSTACK_SIZE, rbx = en, rbp = 0, r12 = 0, r13 = 0, r14 = 0, r15 = 0\<rparr>"
  unfolding spawn_stack_def push_cells
  using switch_load_pushed [of "stack + PROC_KSTACK_SIZE" m tr en 0 0 0 0 0] by auto

lemma proc_alloc_some:
  assumes "proc_alloc name s = Some (p, t)" "p \<noteq> 0"
  obtains h stack h2 where "kmalloc sizeof_process (kheap s) = Some (p, h)"
    "kmalloc PROC_KSTACK_SIZE h = Some (stack, h2)" "stack \<noteq> 0"
    "t = upd_proc p (proc_fill (g_next_pid s) stack name) (s\<lparr>kheap := h2, g_next_pid := g_next_pid s + 1\<rparr>)"
  using assms by (auto simp: proc_alloc_def split: option.splits prod.splits if_splits)

text \<open>The cells a context switch stores below a stack pointer.\<close>

definition save_area :: "u64 \<Rightarrow> nat set" where
  "save_area sp = {unat (sp - 8), unat (sp - 16), unat (sp - 24), unat (sp - 32), unat (sp - 40),
     unat (sp - 48), unat (sp - 56)}"

definition blank_process :: process where
  "blank_process = \<lparr>pid = 0, pname = (\<lambda>_. 0), pstate = PROC_READY, kctx_rsp = 0, kstack_base = 0,
     kstack_top = 0, pml4 = 0, uentry = 0, ursp = 0, stack_low = 0, brk = 0, cwd_ino = 0,
     cwd_path = (\<lambda>_. 0), parent = 0, exit_code = 0, quantum_remaining = 0, priority = 0, rq_next = 0,
     all_next = 0, fds = (\<lambda>_. closed_fd), sig_pending = 0, sig_handler = (\<lambda>_. 0),
     env = (\<lambda>_ _. 0), envc = 0\<rparr>"

definition demo_regs :: cpu where
  "demo_regs = \<lparr>rip = 1, rsp = 0x1000, rbx = 2, rbp = 3, r12 = 4, r13 = 5, r14 = 6, r15 = 7\<rparr>"

section \<open>Properties\<close>

text \<open>
  C11: resources of process creation. \<open>proc_alloc\<close> always returns. When it fails, the heap owns
  exactly what it owned before and no process changed: the structure is released again when
  the kernel stack cannot be allocated. When it succeeds, exactly two new heap pointers are
  owned, the structure and its kernel stack, and the new process has the next pid.
\<close>

theorem proc_alloc_resources:
  assumes ok: "heap_ok (kheap s)"
  shows "\<exists>p t. proc_alloc name s = Some (p, t) \<and> heap_ok (kheap t) \<and>
           (if p = 0 then heap_owned (kheap t) = heap_owned (kheap s) \<and> procs t = procs s \<and>
                          g_next_pid t = g_next_pid s
            else let st = kstack_base (procs t p) in
                 heap_owned (kheap t) = heap_owned (kheap s) \<union> {p, st} \<and>
                 p \<notin> heap_owned (kheap s) \<and> st \<notin> heap_owned (kheap s) \<and> p \<noteq> st \<and>
                 pid (procs t p) = g_next_pid s \<and> g_next_pid t = g_next_pid s + 1 \<and>
                 (\<forall>q. q \<noteq> p \<longrightarrow> procs t q = procs s q))"
proof -
  obtain p h where p: "kmalloc sizeof_process (kheap s) = Some (p, h)"
    using kheap.alloc_total [OF ok] by blast
  have okh: "heap_ok h" using kheap.alloc_invar [OF ok p] .
  show ?thesis
  proof (cases "p = 0")
    case True
    then have "h = kheap s" using kheap.alloc_null [OF ok] p by simp
    then show ?thesis using p True ok by (simp add: proc_alloc_def)
  next
    case False
    note fp = kheap.alloc_fresh [OF ok p False]
    obtain st h2 where st: "kmalloc PROC_KSTACK_SIZE h = Some (st, h2)"
      using kheap.alloc_total [OF okh] by blast
    have okh2: "heap_ok h2" using kheap.alloc_invar [OF okh st] .
    show ?thesis
    proof (cases "st = 0")
      case True
      then have "h2 = h" using kheap.alloc_null [OF okh] st by simp
      then show ?thesis
        using p st True False kheap.alloc_release [OF ok p False] by (simp add: proc_alloc_def)
    next
      case nz: False
      show ?thesis
        using p st nz False fp kheap.alloc_fresh [OF okh st nz] okh2
        by (auto simp: proc_alloc_def proc_fill_def Let_def frame_simps)
    qed
  qed
qed

definition boot_kern :: kern where
  "boot_kern = \<lparr>kheap = snd (heap_init \<lparr>cells = (\<lambda>_. 0), g_head = 0\<rparr>), procs = (\<lambda>_. blank_process),
     regs = demo_regs, g_next_pid = 1, g_current = 0, g_ready_head = 0, g_ready_tail = 0,
     g_all_head = 0, idle_at = 0x1000, g_fg_pid = 0, cr3 = 0, g_pml4_kernel = 0, tss_rsp0 = 0,
     g_cur_kstack = 0\<rparr>"

theorem proc_alloc_resources_witness:
  "\<exists>p t. proc_alloc (\<lambda>_. 0) boot_kern = Some (p, t) \<and> heap_ok (kheap t)"
proof -
  have "heap_ok (kheap boot_kern)"
    using heap_rep_init by (auto simp: boot_kern_def heap_ok_def)
  then show ?thesis using proc_alloc_resources [of boot_kern "\<lambda>_. 0"] by blast
qed

text \<open>
  C12: the first switch to a new thread. After \<open>proc_spawn\<close> the saved context of the new process
  is such that the context switch resumes in the trampoline with the entry point in RBX,
  the other callee-saved registers zero and the stack empty; the process is ready with the
  console on descriptors 0 to 2 and everything else closed.
\<close>

theorem spawned_thread_context:
  assumes "proc_spawn tramp name entry prio s = Some (p, t)" and "p \<noteq> 0"
  shows "switch_load (kctx_rsp (procs t p)) (cells (kheap t)) =
           \<lparr>rip = tramp, rsp = kstack_top (procs t p), rbx = entry, rbp = 0, r12 = 0, r13 = 0,
            r14 = 0, r15 = 0\<rparr> \<and>
         pid (procs t p) = g_next_pid s \<and> pstate (procs t p) = PROC_READY \<and>
         priority (procs t p) = prio \<and> pml4 (procs t p) = 0 \<and>
         (\<forall>i < PROC_MAX_FDS. kind (fds (procs t p) i) =
            (if i = 0 then FD_CON_IN else if i < 3 then FD_CON_OUT else FD_CLOSED))"
proof -
  obtain u where u: "proc_alloc name s = Some (p, u)"
    using assms by (auto simp: proc_spawn_def Let_def split: option.splits prod.splits if_splits)
  obtain h stack h2 where a: "kmalloc PROC_KSTACK_SIZE h = Some (stack, h2)"
    and ue: "u = upd_proc p (proc_fill (g_next_pid s) stack name) (s\<lparr>kheap := h2, g_next_pid := g_next_pid s + 1\<rparr>)"
    using proc_alloc_some [OF u assms(2)] by metis
  obtain sp m where sm: "spawn_stack tramp entry stack (cells h2) = (sp, m)"
    by (cases "spawn_stack tramp entry stack (cells h2)")
  have t: "t = upd_proc p (kctx_rsp_update (\<lambda>_. sp))
      ((upd_proc p (priority_update (\<lambda>_. prio)) u)\<lparr>kheap := h2\<lparr>cells := m\<rparr>\<rparr>)"
    using assms u sm by (simp add: proc_spawn_def ue proc_fill_def frame_simps)
  have "kctx_rsp (procs t p) = sp" "cells (kheap t) = m" "kstack_top (procs t p) = stack + PROC_KSTACK_SIZE"
    unfolding t ue by (simp_all add: proc_fill_def frame_simps)
  then show ?thesis
    using spawn_stack_load [OF sm]
    unfolding t ue by (auto simp: proc_fill_def std_fds_def closed_fd_def PROC_MAX_FDS_def Let_def frame_simps)
qed

lemma boot_allocs:
  obtains h h2 where "kmalloc sizeof_process (kheap boot_kern) = Some (HEAP_BASE + 32, h)"
    "kmalloc PROC_KSTACK_SIZE h = Some (HEAP_BASE + 6128, h2)"
proof -
  let ?h0 = "kheap boot_kern"
  have a: "ALIGN16 sizeof_process = 6064" "ALIGN16 PROC_KSTACK_SIZE = 16384"
    "sizeof_process \<noteq> 0" "PROC_KSTACK_SIZE \<noteq> 0"
    by (simp_all add: ALIGN16_def sizeof_process_def PROC_KSTACK_SIZE_def)
  have r0: "heap_rep ?h0 [(unat HEAP_SIZE - 32, True)]" using heap_rep_init by (simp add: boot_kern_def)
  obtain h where h: "kmalloc sizeof_process ?h0 = Some (of_nat (unat HEAP_BASE + 32), h)"
    "heap_rep h [(6064, False), (33548304, True)]"
    using kmalloc_rep [OF r0 a(3)] a by (auto simp: heap_base_facts(4))
  obtain h2 where h2: "kmalloc PROC_KSTACK_SIZE h = Some (of_nat (unat HEAP_BASE + 6128), h2)"
    using kmalloc_rep [OF h(2) a(4)] a by (auto simp: add.assoc)
  show thesis using that h(1) h2 by simp
qed

theorem spawned_thread_context_witness:
  "\<exists>p t. proc_spawn 0xA000 (\<lambda>_. 0) 0xB000 1 boot_kern = Some (p, t) \<and> p \<noteq> 0 \<and>
         rip (switch_load (kctx_rsp (procs t p)) (cells (kheap t))) = 0xA000 \<and>
         rbx (switch_load (kctx_rsp (procs t p)) (cells (kheap t))) = 0xB000"
proof -
  obtain h h2 where h: "kmalloc sizeof_process (kheap boot_kern) = Some (HEAP_BASE + 32, h)"
    "kmalloc PROC_KSTACK_SIZE h = Some (HEAP_BASE + 6128, h2)" by (rule boot_allocs)
  have nz: "HEAP_BASE + 32 \<noteq> 0" "HEAP_BASE + 6128 \<noteq> 0" by (simp_all add: HEAP_BASE_def)
  obtain u where "proc_alloc (\<lambda>_. 0) boot_kern = Some (HEAP_BASE + 32, u)"
    using h nz by (simp add: proc_alloc_def)
  then obtain t where "proc_spawn 0xA000 (\<lambda>_. 0) 0xB000 1 boot_kern = Some (HEAP_BASE + 32, t)"
    using nz by (cases "spawn_stack 0xA000 0xB000 (kstack_base (procs u (HEAP_BASE + 32))) (cells (kheap u))")
      (simp add: proc_spawn_def Let_def frame_simps)
  then show ?thesis using spawned_thread_context [OF _ nz(1)] nz(1) by fastforce
qed

text \<open>
  C13: a context switch is transparent to the thread that is switched out. When the thread is
  switched in again from its saved stack pointer, and the seven cells below its stack
  pointer still hold what the switch stored and the other thread's own save area does not
  overlap them, all its callee-saved registers, its stack pointer and its return address are
  as they were.
\<close>

theorem context_switch_roundtrip:
  assumes "switch_save (regs s) (cells (kheap s)) = (sp, m)"
    and "\<forall>x \<in> save_area (rsp (regs s)). cells (kheap t) x = m x"
    and "save_area (rsp (regs s)) \<inter> save_area (rsp (regs t)) = {}"
  shows "kctx_rsp (procs (kthread_switch p new_rsp s) p) = sp \<and>
         regs (kthread_switch q sp t) = regs s"
proof
  show "kctx_rsp (procs (kthread_switch p new_rsp s) p) = sp"
    using assms(1) by (simp add: kthread_switch_def Let_def frame_simps)
  obtain sp' m' where st: "switch_save (regs t) (cells (kheap t)) = (sp', m')"
    by (cases "switch_save (regs t) (cells (kheap t))")
  have "m' x = cells (kheap t) x" if "x \<notin> save_area (rsp (regs t))" for x
    using st that unfolding switch_save_def push_cells save_area_def by auto
  then have keep: "m' x = m x" if "x \<in> save_area (rsp (regs s))" for x
    using that assms(2,3) by (metis disjoint_iff)
  have "sp = rsp (regs s) - 56"
    using assms(1) unfolding switch_save_def push_cells by simp
  then have "switch_load sp m' = switch_load sp m"
    using keep unfolding switch_load_def save_area_def by simp
  then show "regs (kthread_switch q sp t) = regs s"
    using st switch_roundtrip [OF assms(1)] by (simp add: kthread_switch_def Let_def)
qed

theorem context_switch_roundtrip_witness:
  "\<exists>sp. kctx_rsp (procs (kthread_switch 1 0 (boot_kern\<lparr>regs := demo_regs\<rparr>)) 1) = sp \<and>
     regs (kthread_switch 2 sp (kthread_switch 1 0x2000 (boot_kern\<lparr>regs := demo_regs\<rparr>)\<lparr>regs := demo_regs\<lparr>rsp := 0x2038\<rparr>\<rparr>)) = demo_regs"
proof -
  let ?s = "boot_kern\<lparr>regs := demo_regs\<rparr>"
  let ?t = "kthread_switch 1 0x2000 ?s\<lparr>regs := demo_regs\<lparr>rsp := 0x2038\<rparr>\<rparr>"
  obtain sp m where sv: "switch_save demo_regs (cells (kheap ?s)) = (sp, m)"
    by (cases "switch_save demo_regs (cells (kheap ?s))")
  have "save_area (rsp demo_regs) \<inter> save_area (0x2038) = {}"
    by (simp add: save_area_def demo_regs_def)
  then show ?thesis
    using context_switch_roundtrip [of ?s sp m ?t 1 0 2] sv
    by (simp add: kthread_switch_def Let_def frame_simps)
qed

end
