(* ===== verification/Env.thy ===== *)
theory Env
  imports Process "HOL-Library.Sublist"
begin

text \<open>
  The environment syscalls of src/src/proc/syscalls.c on the flat table of KEY=VALUE strings in the
  process structure. A C string argument is its list of bytes before the terminating zero.
  The table refines a list of strings, on which lookup is the first string with the prefix
  KEY=.
\<close>

section \<open>The code\<close>

definition eq_char :: u8 where
  "eq_char = ch (CHR ''='')"

definition env_match :: "(nat \<Rightarrow> u8) \<Rightarrow> cstring \<Rightarrow> bool" where
  "env_match slot key \<longleftrightarrow>
     list_all (\<lambda>j. slot j = key ! j) [0 ..< length key] \<and> slot (length key) = eq_char"

fun env_find :: "(nat \<Rightarrow> nat \<Rightarrow> u8) \<Rightarrow> cstring \<Rightarrow> nat \<Rightarrow> nat \<Rightarrow> nat option" where
  "env_find e key 0 i = None"
| "env_find e key (Suc n) i = (if env_match (e i) key then Some i else env_find e key n (Suc i))"

partial_function (option) strlen_from :: "(nat \<Rightarrow> u8) \<Rightarrow> nat \<Rightarrow> nat \<Rightarrow> nat option" where
  "strlen_from s j n = (if s (j + n) \<noteq> 0 then strlen_from s j (Suc n) else Some n)"

fun copy_out :: "(nat \<Rightarrow> u8) \<Rightarrow> nat \<Rightarrow> nat \<Rightarrow> nat \<Rightarrow> (int \<Rightarrow> u8) \<Rightarrow> int \<Rightarrow> u8" where
  "copy_out s j 0 i buf = buf"
| "copy_out s j (Suc n) i buf = copy_out s j n (Suc i) (buf(int i := s (j + i)))"

text \<open>
  The copy to the caller's buffer: \<open>(int)bufsz\<close> keeps the low 32 bits, read as a signed number.
\<close>

definition env_copy :: "(nat \<Rightarrow> u8) \<Rightarrow> nat \<Rightarrow> nat \<Rightarrow> (int \<Rightarrow> u8) option \<Rightarrow> u64 \<Rightarrow> (int \<Rightarrow> u8) option" where
  "env_copy s j len buf bufsz =
     (case buf of
        None \<Rightarrow> None
      | Some b \<Rightarrow>
          if bufsz > 0
          then let lim = sint (ucast bufsz :: u32) - 1;
                   cp = (if int len < lim then int len else lim)
               in Some ((copy_out s j (nat cp) 0 b)(cp := 0))
          else Some b)"

definition sys_getenv ::
    "process \<Rightarrow> cstring \<Rightarrow> (int \<Rightarrow> u8) option \<Rightarrow> u64 \<Rightarrow> (int \<times> (int \<Rightarrow> u8) option) option" where
  "sys_getenv p key buf bufsz =
     (case env_find (env p) key (nat (envc p)) 0 of
        None \<Rightarrow> Some (- 1, buf)
      | Some i \<Rightarrow>
          (case strlen_from (env p i) (length key + 1) 0 of
             None \<Rightarrow> None
           | Some vlen \<Rightarrow> Some (int vlen, env_copy (env p i) (length key + 1) vlen buf bufsz)))"

definition env_store :: "cstring \<Rightarrow> cstring \<Rightarrow> (nat \<Rightarrow> u8) \<Rightarrow> nat \<Rightarrow> u8" where
  "env_store key val slot =
     (\<lambda>j. if j < length key then key ! j
          else if j = length key then eq_char
          else if j \<le> length key + 1 + length val then cstr val (j - length key - 1)
          else slot j)"

definition sys_setenv :: "process \<Rightarrow> cstring \<Rightarrow> cstring \<Rightarrow> int \<times> process" where
  "sys_setenv p key val =
     (if length key + 1 + length val + 1 > ENV_SLOT then (- 1, p)
      else case env_find (env p) key (nat (envc p)) 0 of
             Some i \<Rightarrow> (0, p\<lparr>env := (env p)(i := env_store key val (env p i))\<rparr>)
           | None \<Rightarrow>
               if envc p \<ge> int ENV_MAX then (- 1, p)
               else (0, p\<lparr>env := (env p)(nat (envc p) := env_store key val (env p (nat (envc p)))),
                          envc := envc p + 1\<rparr>))"

definition sys_unsetenv :: "process \<Rightarrow> cstring \<Rightarrow> int \<times> process" where
  "sys_unsetenv p key =
     (case env_find (env p) key (nat (envc p)) 0 of
        None \<Rightarrow> (- 1, p)
      | Some i \<Rightarrow>
          (0, p\<lparr>env := (\<lambda>j. if i \<le> j \<and> int j < envc p - 1
                            then (\<lambda>k. if k < ENV_SLOT then env p (j + 1) k else env p j k)
                            else env p j),
                envc := envc p - 1\<rparr>))"

definition sys_getenv_at ::
    "process \<Rightarrow> u64 \<Rightarrow> (int \<Rightarrow> u8) option \<Rightarrow> u64 \<Rightarrow> (int \<times> (int \<Rightarrow> u8) option) option" where
  "sys_getenv_at p idx buf bufsz =
     (if sint (ucast idx :: u32) \<ge> envc p then Some (- 1, buf)
      else case strlen_from (env p (unat idx)) 0 0 of
             None \<Rightarrow> None
           | Some len \<Rightarrow> Some (int len, env_copy (env p (unat idx)) 0 len buf bufsz))"

section \<open>The table as a list of strings\<close>

definition holds :: "(nat \<Rightarrow> u8) \<Rightarrow> cstring \<Rightarrow> bool" where
  "holds slot s \<longleftrightarrow> (\<forall>j < length s. slot j = s ! j) \<and> slot (length s) = 0 \<and> wf_cstr s \<and> length s < ENV_SLOT"

definition env_rep :: "process \<Rightarrow> cstring list \<Rightarrow> bool" where
  "env_rep p es \<longleftrightarrow> envc p = int (length es) \<and> length es \<le> ENV_MAX \<and> (\<forall>i < length es. holds (env p i) (es ! i))"

fun env_index :: "cstring \<Rightarrow> cstring list \<Rightarrow> nat \<Rightarrow> nat option" where
  "env_index key [] i = None"
| "env_index key (s # ss) i = (if prefix (key @ [eq_char]) s then Some i else env_index key ss (Suc i))"

fun env_lookup :: "cstring \<Rightarrow> cstring list \<Rightarrow> cstring option" where
  "env_lookup key [] = None"
| "env_lookup key (s # ss) =
     (if prefix (key @ [eq_char]) s then Some (drop (length key + 1) s) else env_lookup key ss)"

fun env_set :: "cstring \<Rightarrow> cstring \<Rightarrow> cstring list \<Rightarrow> cstring list" where
  "env_set key val [] = [key @ eq_char # val]"
| "env_set key val (s # ss) =
     (if prefix (key @ [eq_char]) s then (key @ eq_char # val) # ss else s # env_set key val ss)"

fun env_delete :: "cstring \<Rightarrow> cstring list \<Rightarrow> cstring list" where
  "env_delete key [] = []"
| "env_delete key (s # ss) = (if prefix (key @ [eq_char]) s then ss else s # env_delete key ss)"

lemma eq_char_nonzero [simp]: "eq_char \<noteq> 0"
  by (simp add: eq_char_def ch_def)

lemma env_match_prefix:
  assumes "holds slot s" "wf_cstr key"
  shows "env_match slot key \<longleftrightarrow> prefix (key @ [eq_char]) s"
proof
  assume m: "env_match slot key"
  have slot: "slot j = s ! j" if "j < length s" for j using assms(1) that by (simp add: holds_def)
  have key: "slot j = key ! j" if "j < length key" for j
    using m that by (auto simp: env_match_def list_all_iff)
  have "length key < length s"
  proof (rule ccontr)
    assume "\<not> length key < length s"
    moreover have "slot (length s) = 0" using assms(1) by (simp add: holds_def)
    moreover have "slot (length key) = eq_char" using m by (simp add: env_match_def)
    ultimately have "length s < length key" using eq_char_nonzero by (metis linorder_neqE_nat)
    then have "key ! length s = 0" using key [of "length s"] \<open>slot (length s) = 0\<close> by simp
    then show False using assms(2) \<open>length s < length key\<close> by (metis nth_mem wf_cstr_def)
  qed
  moreover from this have "take (length key) s = key"
    using slot key by (intro nth_equalityI) auto
  moreover have "s ! length key = eq_char"
    using m slot [of "length key"] calculation(1) by (simp add: env_match_def)
  ultimately have "s = (key @ [eq_char]) @ drop (Suc (length key)) s"
    by (metis append.assoc append_Cons append_Nil append_take_drop_id Cons_nth_drop_Suc)
  then show "prefix (key @ [eq_char]) s" by (metis prefixI)
next
  assume "prefix (key @ [eq_char]) s"
  then obtain r where "s = key @ eq_char # r" by (auto simp: prefix_def)
  then show "env_match slot key"
    using assms(1) by (auto simp: env_match_def holds_def list_all_iff nth_append)
qed

lemma env_find_index:
  assumes "\<forall>j < length ss. holds (e (i + j)) (ss ! j)" "wf_cstr key"
  shows "env_find e key (length ss) i = env_index key ss i"
  using assms(1)
proof (induction ss arbitrary: i)
  case (Cons s ss)
  have "holds (e i) s" using Cons.prems by force
  moreover have "\<forall>j < length ss. holds (e (Suc i + j)) (ss ! j)" using Cons.prems by force
  ultimately show ?case using Cons.IH [of "Suc i"] env_match_prefix assms(2) by simp
qed simp

lemma env_index_some:
  assumes "env_index key ss i = Some k"
  shows "i \<le> k \<and> k - i < length ss \<and> prefix (key @ [eq_char]) (ss ! (k - i)) \<and>
         env_lookup key ss = Some (drop (length key + 1) (ss ! (k - i))) \<and>
         env_set key val ss = ss[k - i := key @ eq_char # val] \<and>
         env_delete key ss = take (k - i) ss @ drop (Suc (k - i)) ss"
  using assms
proof (induction ss arbitrary: i)
  case (Cons s ss)
  show ?case
  proof (cases "prefix (key @ [eq_char]) s")
    case True
    then show ?thesis using Cons.prems by simp
  next
    case False
    then have ih: "env_index key ss (Suc i) = Some k" using Cons.prems by simp
    then have "k - i = Suc (k - Suc i)" using Cons.IH by (metis Suc_diff_le diff_Suc_Suc)
    then show ?thesis using Cons.IH [OF ih] False by simp
  qed
qed simp

lemma env_index_none:
  "env_index key ss i = None \<Longrightarrow>
     env_lookup key ss = None \<and> env_set key val ss = ss @ [key @ eq_char # val] \<and> env_delete key ss = ss"
  by (induction ss arbitrary: i) (auto split: if_splits)

lemma env_find_rep:
  assumes "env_rep p es" "wf_cstr key"
  shows "env_find (env p) key (nat (envc p)) 0 = env_index key es 0"
  using assms env_find_index [of es "env p" 0 key] by (simp add: env_rep_def)

lemma holds_store:
  assumes "wf_cstr key" "wf_cstr val" "length key + 1 + length val + 1 \<le> ENV_SLOT"
  shows "holds (env_store key val slot) (key @ eq_char # val)"
  using assms
  by (auto simp: holds_def env_store_def cstr_def wf_cstr_def nth_append nth_Cons' less_Suc_eq)

lemma strlen_holds:
  assumes "holds slot s" "j + n \<le> length s"
  shows "strlen_from slot j n = Some (length s - j)"
  using assms(2)
proof (induction "length s - (j + n)" arbitrary: n)
  case 0
  then have "slot (j + n) = 0" "n = length s - j" using assms(1) by (auto simp: holds_def)
  then show ?case by (subst strlen_from.simps) simp
next
  case (Suc d)
  then have lt: "j + n < length s" by simp
  then have "slot (j + n) \<noteq> 0" using assms(1) by (metis holds_def nth_mem wf_cstr_def)
  moreover have "strlen_from slot j (Suc n) = Some (length s - j)" using Suc lt by (intro Suc.hyps(1)) auto
  ultimately show ?case by (subst strlen_from.simps) simp
qed

text \<open>The caller's buffer after a copy of \<open>v\<close> with room for it and its terminator.\<close>

lemma copy_out_apply:
  "copy_out s j n i buf x = (if int i \<le> x \<and> x < int (i + n) then s (j + nat x) else buf x)"
proof (induction n arbitrary: i buf)
  case (Suc n)
  show ?case unfolding copy_out.simps Suc.IH by auto
qed auto

lemma env_copy_holds:
  assumes "holds slot s" "j \<le> length s" "length s - j < unat bufsz" "unat bufsz < 2 ^ 31"
  shows "env_copy slot j (length s - j) (Some b) bufsz =
           Some (\<lambda>x. if 0 \<le> x \<and> x \<le> int (length s - j) then cstr (drop j s) (nat x) else b x)"
proof -
  have lim: "sint (ucast bufsz :: u32) = int (unat bufsz)" by (rule sint_ucast_small) (rule assms(4))
  have pos: "bufsz > 0" using assms(3) by (simp add: word_less_nat_alt)
  let ?n = "length s - j"
  have cp: "(if int ?n < int (unat bufsz) - 1 then int ?n else int (unat bufsz) - 1) = int ?n"
    using assms(3) by (auto simp del: of_nat_unat)
  have "env_copy slot j ?n (Some b) bufsz = Some ((copy_out slot j (nat (int ?n)) 0 b)(int ?n := 0))"
    unfolding env_copy_def lim Let_def cp using pos by simp
  also have "(copy_out slot j (nat (int ?n)) 0 b)(int ?n := 0) =
      (\<lambda>x. if 0 \<le> x \<and> x \<le> int ?n then cstr (drop j s) (nat x) else b x)"
    using assms(1,2) by (auto simp: fun_eq_iff copy_out_apply cstr_def holds_def)
  finally show ?thesis .
qed

lemma sys_getenv_rep:
  assumes "env_rep p es" "wf_cstr key"
  shows "env_lookup key es = None \<Longrightarrow> sys_getenv p key buf n = Some (- 1, buf)"
    and "env_lookup key es = Some v \<Longrightarrow> length v < unat n \<Longrightarrow> unat n < 2 ^ 31 \<Longrightarrow>
      sys_getenv p key (Some b) n =
        Some (int (length v), Some (\<lambda>x. if 0 \<le> x \<and> x \<le> int (length v) then cstr v (nat x) else b x))"
proof -
  note f = env_find_rep [OF assms]
  show "sys_getenv p key buf n = Some (- 1, buf)" if "env_lookup key es = None"
    using f that env_index_some [of key es 0] by (cases "env_index key es 0") (auto simp: sys_getenv_def)
  show "sys_getenv p key (Some b) n =
        Some (int (length v), Some (\<lambda>x. if 0 \<le> x \<and> x \<le> int (length v) then cstr v (nat x) else b x))"
    if v: "env_lookup key es = Some v" and n: "length v < unat n" "unat n < 2 ^ 31"
  proof (cases "env_index key es 0")
    case None
    then show ?thesis using v env_index_none [of key es 0] by simp
  next
    case (Some k)
    note k = env_index_some [OF Some, of "[]"]
    have h: "holds (env p k) (es ! k)" using assms(1) k by (simp add: env_rep_def)
    have vd: "v = drop (length key + 1) (es ! k)" using v k by simp
    have le: "length key + 1 \<le> length (es ! k)"
      using prefix_length_le [of "key @ [eq_char]" "es ! k"] k by simp
    have "strlen_from (env p k) (length key + 1) 0 = Some (length v)"
      using strlen_holds [OF h, of "length key + 1" 0] le vd by simp
    moreover have "env_copy (env p k) (length key + 1) (length v) (Some b) n =
        Some (\<lambda>x. if 0 \<le> x \<and> x \<le> int (length v) then cstr v (nat x) else b x)"
      using env_copy_holds [OF h le, of n b] n unfolding vd length_drop by blast
    ultimately show ?thesis using f Some by (simp add: sys_getenv_def)
  qed
qed

lemma sys_setenv_rep:
  assumes rep: "env_rep p es" and wf: "wf_cstr key" "wf_cstr val"
    and len: "length key + 1 + length val + 1 \<le> ENV_SLOT"
    and room: "env_lookup key es \<noteq> None \<or> length es < ENV_MAX"
  shows "\<exists>q. sys_setenv p key val = (0, q) \<and> env_rep q (env_set key val es) \<and>
           q = p\<lparr>env := env q, envc := envc q\<rparr>"
proof (cases "env_index key es 0")
  case None
  let ?n = "length es"
  have n: "envc p = int ?n" "?n < ENV_MAX" using rep room None env_index_none by (auto simp: env_rep_def)
  let ?q = "p\<lparr>env := (env p)(?n := env_store key val (env p ?n)), envc := int ?n + 1\<rparr>"
  have "sys_setenv p key val = (0, ?q)"
    using None n len env_find_rep [OF rep wf(1)] by (auto simp: sys_setenv_def)
  moreover have "env_rep ?q (es @ [key @ eq_char # val])"
    using rep n holds_store [OF wf len, of "env p ?n"]
    by (auto simp: env_rep_def nth_append less_Suc_eq)
  ultimately show ?thesis using env_index_none [OF None] by auto
next
  case (Some k)
  note k = env_index_some [OF Some, of val]
  let ?q = "p\<lparr>env := (env p)(k := env_store key val (env p k))\<rparr>"
  have "sys_setenv p key val = (0, ?q)"
    using Some len env_find_rep [OF rep wf(1)] by (auto simp: sys_setenv_def)
  moreover have "env_rep ?q (es[k := key @ eq_char # val])"
    using rep k holds_store [OF wf len, of "env p k"]
    by (auto simp: env_rep_def nth_list_update)
  ultimately show ?thesis using k by auto
qed

lemma sys_unsetenv_rep:
  assumes rep: "env_rep p es" and wf: "wf_cstr key"
  shows "env_lookup key es = None \<Longrightarrow> sys_unsetenv p key = (- 1, p)"
    and "env_lookup key es \<noteq> None \<Longrightarrow> \<exists>q. sys_unsetenv p key = (0, q) \<and> env_rep q (env_delete key es)"
proof -
  note f = env_find_rep [OF rep wf]
  show "sys_unsetenv p key = (- 1, p)" if "env_lookup key es = None"
    using f that env_index_some [of key es 0] by (cases "env_index key es 0") (auto simp: sys_unsetenv_def)
  assume "env_lookup key es \<noteq> None"
  then obtain k where ki: "env_index key es 0 = Some k"
    using env_index_none [of key es 0] by (cases "env_index key es 0") auto
  note k = env_index_some [OF ki, of "[]"]
  let ?n = "length es" let ?ds = "take k es @ drop (Suc k) es"
  have n: "envc p = int ?n" "?n \<le> ENV_MAX" using rep by (auto simp: env_rep_def)
  let ?e = "\<lambda>j. if k \<le> j \<and> int j < envc p - 1
      then (\<lambda>i. if i < ENV_SLOT then env p (j + 1) i else env p j i) else env p j"
  have "sys_unsetenv p key = (0, p\<lparr>env := ?e, envc := envc p - 1\<rparr>)"
    using f ki by (simp add: sys_unsetenv_def)
  moreover have "holds (?e j) (?ds ! j)" if "j < ?n - 1" for j
  proof (cases "j < k")
    case True
    then have "?ds ! j = es ! j" "?e j = env p j" using k by (simp_all add: nth_append)
    then show ?thesis using rep that by (simp add: env_rep_def)
  next
    case False
    then have "?ds ! j = es ! Suc j" using k that by (simp add: nth_append)
    moreover have "holds (env p (Suc j)) (es ! Suc j)" using rep that by (simp add: env_rep_def)
    ultimately show ?thesis using False that n by (auto simp: holds_def)
  qed
  moreover have "length ?ds = ?n - 1" using k by simp
  ultimately show "\<exists>q. sys_unsetenv p key = (0, q) \<and> env_rep q (env_delete key es)"
    using k n by (auto simp: env_rep_def of_nat_diff)
qed

section \<open>Properties\<close>

lemma env_lookup_set_same: "env_lookup key (env_set key val es) = Some val"
  by (induction es) auto

lemma prefix_keys:
  assumes "eq_char \<notin> set k" "eq_char \<notin> set k'" "k \<noteq> k'" "prefix (k @ [eq_char]) s"
  shows "\<not> prefix (k' @ [eq_char]) s"
proof
  assume p: "prefix (k' @ [eq_char]) s"
  obtain a where a: "s = k @ eq_char # a" using assms(4) by (auto simp: prefix_def)
  obtain b where "s = k' @ eq_char # b" using p by (auto simp: prefix_def)
  with a have "takeWhile (\<lambda>c. c \<noteq> eq_char) (k @ eq_char # a) = takeWhile (\<lambda>c. c \<noteq> eq_char) (k' @ eq_char # b)"
    by simp
  moreover have "takeWhile (\<lambda>c. c \<noteq> eq_char) (k @ eq_char # a) = k" "takeWhile (\<lambda>c. c \<noteq> eq_char) (k' @ eq_char # b) = k'"
    using assms(1,2) by (subst takeWhile_append2; auto)+
  ultimately show False using assms(3) by simp
qed

lemma env_lookup_set_other:
  assumes "eq_char \<notin> set k" "eq_char \<notin> set k'" "k \<noteq> k'"
  shows "env_lookup k' (env_set k val es) = env_lookup k' es"
  using prefix_keys [OF assms] prefix_keys [OF assms, of "k @ eq_char # val"] by (induction es) auto

text \<open>
  C17: environment round trip. On a well-formed table with room, \<open>setenv\<close> succeeds, the table stays
  well formed, \<open>getenv\<close> of the same key then returns the length of the value and stores the value
  and its terminator in a buffer that is large enough, nothing else in the buffer changes, and
  the values of all other keys are unchanged.
\<close>

theorem setenv_getenv:
  assumes "env_rep p es" and "wf_cstr key" "wf_cstr val" "eq_char \<notin> set key"
    and "length key + 1 + length val + 1 \<le> ENV_SLOT"
    and "env_lookup key es \<noteq> None \<or> length es < ENV_MAX"
    and "length val < unat n" "unat n < 2 ^ 31"
  shows "\<exists>q fs. sys_setenv p key val = (0, q) \<and> env_rep q fs \<and>
           sys_getenv q key (Some b) n =
             Some (int (length val), Some (\<lambda>x. if 0 \<le> x \<and> x \<le> int (length val) then cstr val (nat x) else b x)) \<and>
           (\<forall>k. eq_char \<notin> set k \<and> k \<noteq> key \<longrightarrow> env_lookup k fs = env_lookup k es)"
proof -
  obtain q where q: "sys_setenv p key val = (0, q)" "env_rep q (env_set key val es)"
    using sys_setenv_rep [OF assms(1-3,5,6)] by blast
  have "sys_getenv q key (Some b) n =
      Some (int (length val), Some (\<lambda>x. if 0 \<le> x \<and> x \<le> int (length val) then cstr val (nat x) else b x))"
    using sys_getenv_rep(2) [OF q(2) assms(2) env_lookup_set_same assms(7,8)] .
  moreover have "\<forall>k. eq_char \<notin> set k \<and> k \<noteq> key \<longrightarrow> env_lookup k (env_set key val es) = env_lookup k es"
    using env_lookup_set_other assms(4) by blast
  ultimately show ?thesis using q by blast
qed

lemma empty_env: "env_rep (blank_process\<lparr>envc := 0\<rparr>) []"
  by (simp add: env_rep_def)

theorem setenv_getenv_witness:
  "\<exists>q. sys_setenv (blank_process\<lparr>envc := 0\<rparr>) (str ''HOME'') (str ''/root'') = (0, q) \<and>
       (\<exists>b. sys_getenv q (str ''HOME'') (Some (\<lambda>_. 0)) 64 = Some (5, Some b) \<and> b 0 = ch (CHR ''/'') \<and> b 5 = 0)"
proof -
  have "wf_cstr (str ''HOME'')" "wf_cstr (str ''/root'')" "eq_char \<notin> set (str ''HOME'')"
    by (simp_all add: wf_cstr_def str_def ch_def eq_char_def)
  then show ?thesis
    using setenv_getenv [OF empty_env, of "str ''HOME''" "str ''/root''" 64 "\<lambda>_. 0"]
    by (auto simp: str_def ENV_SLOT_def ENV_MAX_def cstr_def)
qed

text \<open>
  \<open>unsetenv\<close> of a key that is set removes its entry, the first one with that key, closing
  the gap and keeping the table well formed; of a key that is not set it returns -1 and
  changes nothing; \<open>getenv\<close> of a key that is not set returns -1.
\<close>

theorem unsetenv_removes:
  assumes "env_rep p es" and "wf_cstr key"
  shows "(env_lookup key es \<noteq> None \<longrightarrow>
            (\<exists>q. sys_unsetenv p key = (0, q) \<and> env_rep q (env_delete key es))) \<and>
         (env_lookup key es = None \<longrightarrow>
            sys_unsetenv p key = (- 1, p) \<and> sys_getenv p key buf n = Some (- 1, buf))"
  using sys_unsetenv_rep [OF assms] sys_getenv_rep(1) [OF assms] by blast

theorem unsetenv_removes_witness:
  "\<exists>p q. env_rep p [str ''A=1'', str ''B=2''] \<and> sys_unsetenv p (str ''A'') = (0, q) \<and> env_rep q [str ''B=2'']"
proof -
  have wf: "wf_cstr (str ''A'')" "wf_cstr (str ''1'')" "wf_cstr (str ''B'')" "wf_cstr (str ''2'')"
    by (simp_all add: wf_cstr_def str_def ch_def)
  have len: "length (str ''A'') + 1 + length (str ''1'') + 1 \<le> ENV_SLOT"
    "length (str ''B'') + 1 + length (str ''2'') + 1 \<le> ENV_SLOT"
    by (simp_all add: str_def ENV_SLOT_def)
  obtain p where p: "env_rep p [str ''A=1'']"
    using sys_setenv_rep [OF empty_env wf(1,2) len(1)] by (auto simp: str_def eq_char_def ENV_MAX_def)
  have ne: "ch (CHR ''A'') \<noteq> ch (CHR ''B'')" by (simp add: ch_def)
  then obtain r where r: "env_rep r [str ''A=1'', str ''B=2'']"
    using sys_setenv_rep [OF p wf(3,4) len(2)] by (auto simp: str_def eq_char_def ENV_MAX_def)
  have "env_lookup (str ''A'') [str ''A=1'', str ''B=2''] = Some (str ''1'')"
    "env_delete (str ''A'') [str ''A=1'', str ''B=2''] = [str ''B=2'']"
    by (simp_all add: str_def eq_char_def)
  then show ?thesis using unsetenv_removes [OF r wf(1)] r by auto
qed

end
