(* ===== verification/Path.thy ===== *)
theory Path
  imports Prelude
begin

text \<open>
  The path helpers of src/src/proc/syscalls.c: \<open>path_split\<close> and \<open>path_resolve_str\<close>, which keeps the
  working directory canonical. Strings are lists of bytes before the terminating zero; the
  scratch arrays of the code are the lists of the bytes written to them. The meaning of a path
  is given independently of the code, by its names and the rules that remove dot and dot-dot.
\<close>

section \<open>The code\<close>

definition slash :: u8 where
  "slash = ch (CHR ''/'')"

definition dot :: u8 where
  "dot = ch (CHR ''.'')"

text \<open>The loop \<open>while (i < n && s[i]) { d[i] = s[i]; i++; }\<close>.\<close>

definition c_copy :: "nat \<Rightarrow> cstring \<Rightarrow> cstring" where
  "c_copy n s = takeWhile (\<lambda>c. c \<noteq> 0) (take n s)"

fun last_slash :: "cstring \<Rightarrow> nat \<Rightarrow> nat option" where
  "last_slash path 0 = None"
| "last_slash path (Suc i) = (if path ! i = slash then Some i else last_slash path i)"

definition path_split :: "cstring \<Rightarrow> cstring \<times> cstring" where
  "path_split path =
     (case last_slash path (length path) of
        None \<Rightarrow> ([dot], c_copy 31 path)
      | Some k \<Rightarrow>
          if k = 0 then ([slash], c_copy 31 (drop 1 path))
          else (take (min 127 k) path, c_copy 31 (drop (k + 1) path)))"

text \<open>The concatenation of \<open>base\<close> and \<open>rel\<close> in \<open>tmp\<close>.\<close>

definition path_concat :: "cstring \<Rightarrow> cstring \<Rightarrow> cstring" where
  "path_concat base rel =
     (if cstr rel 0 = slash then c_copy 255 rel
      else let tmp = c_copy 255 base;
               tmp = (if tmp \<noteq> [] \<and> last tmp \<noteq> slash then tmp @ [slash] else tmp)
           in tmp @ c_copy (255 - length tmp) rel)"

text \<open>What the tokeniser does with one component.\<close>

definition push_comp :: "cstring \<Rightarrow> cstring list \<Rightarrow> cstring list" where
  "push_comp c cs =
     (if length c = 1 \<and> c ! 0 = dot then cs
      else if length c = 2 \<and> c ! 0 = dot \<and> c ! 1 = dot then (if cs \<noteq> [] then butlast cs else cs)
      else if length cs < 16 \<and> length c < 32 then cs @ [c] else cs)"

function tokenise :: "cstring \<Rightarrow> cstring list \<Rightarrow> cstring list" where
  "tokenise p cs =
     (let start = dropWhile (\<lambda>c. c = slash) p in
      if start = [] then cs
      else tokenise (dropWhile (\<lambda>c. c \<noteq> slash) start)
             (push_comp (takeWhile (\<lambda>c. c \<noteq> slash) start) cs))"
  by pat_completeness auto
termination
proof (relation "measure (\<lambda>(p, cs). length p)")
  fix p cs start
  assume s: "start = dropWhile (\<lambda>c. c = slash) p" and ne: "start \<noteq> ([] :: cstring)"
  have "hd start \<noteq> slash" using hd_dropWhile [of "\<lambda>c. c = slash" p] s ne by simp
  then have "length (dropWhile (\<lambda>c. c \<noteq> slash) start) < length start"
    using ne by (cases start) (auto simp: le_imp_less_Suc length_dropWhile_le)
  also have "\<dots> \<le> length p" unfolding s by (rule length_dropWhile_le)
  finally show "((dropWhile (\<lambda>c. c \<noteq> slash) start, push_comp (takeWhile (\<lambda>c. c \<noteq> slash) start) cs), p, cs)
      \<in> measure (\<lambda>(p, cs). length p)" by simp
qed auto

declare tokenise.simps [simp del]

lemma tokenise_Nil [simp]: "tokenise [] cs = cs"
  by (subst tokenise.simps) simp

fun rebuild :: "u32 \<Rightarrow> bool \<Rightarrow> cstring \<Rightarrow> cstring list \<Rightarrow> cstring" where
  "rebuild dst_size fst_comp dst [] = dst"
| "rebuild dst_size fst_comp dst (c # cs) =
     (if length dst < unat (dst_size - 2)
      then let dst = (if fst_comp then dst else dst @ [slash]);
               dst = dst @ take (unat (dst_size - 1) - length dst) c
           in rebuild dst_size False dst cs
      else dst)"

definition path_resolve_str :: "u32 \<Rightarrow> cstring \<Rightarrow> cstring \<Rightarrow> cstring" where
  "path_resolve_str dst_size base rel =
     rebuild dst_size True [slash] (tokenise (path_concat base rel) [])"

section \<open>Components\<close>

definition is_comp :: "cstring \<Rightarrow> bool" where
  "is_comp c \<longleftrightarrow> c \<noteq> [] \<and> slash \<notin> set c"

definition plain :: "cstring \<Rightarrow> bool" where
  "plain c \<longleftrightarrow> is_comp c \<and> c \<noteq> [dot] \<and> c \<noteq> [dot, dot] \<and> length c < 32"

fun join :: "cstring list \<Rightarrow> cstring" where
  "join [] = []"
| "join (c # cs) = slash # c @ join cs"

definition canonical :: "cstring list \<Rightarrow> cstring" where
  "canonical cs = (if cs = [] then [slash] else join cs)"

lemma push_comp_plain: "plain c \<Longrightarrow> push_comp c cs = (if length cs < 16 then cs @ [c] else cs)"
  by (auto simp: push_comp_def plain_def is_comp_def length_Suc_conv numeral_2_eq_2)

lemma push_comp_stack:
  assumes "is_comp c" "\<forall>c \<in> set cs. plain c" "length cs \<le> 16"
  shows "(\<forall>c \<in> set (push_comp c cs). plain c) \<and> length (push_comp c cs) \<le> 16"
proof -
  have "plain c" if "\<not> (length c = 1 \<and> c ! 0 = dot)" "\<not> (length c = 2 \<and> c ! 0 = dot \<and> c ! 1 = dot)" "length c < 32"
    using that assms(1) by (auto simp: plain_def)
  then show ?thesis using assms(2,3) by (auto simp: push_comp_def dest: in_set_butlastD)
qed

lemma tokenise_stack:
  "\<forall>c \<in> set cs. plain c \<Longrightarrow> length cs \<le> 16 \<Longrightarrow>
     (\<forall>c \<in> set (tokenise p cs). plain c) \<and> length (tokenise p cs) \<le> 16"
proof (induction p cs rule: tokenise.induct)
  case (1 p cs)
  let ?start = "dropWhile (\<lambda>c. c = slash) p"
  show ?case
  proof (cases "?start = []")
    case True
    then have "tokenise p cs = cs" by (subst tokenise.simps) simp
    then show ?thesis using "1.prems" by simp
  next
    case False
    have "hd ?start \<noteq> slash" using hd_dropWhile [of "\<lambda>c. c = slash" p] False by simp
    then have "is_comp (takeWhile (\<lambda>c. c \<noteq> slash) ?start)"
      using False by (cases ?start) (auto simp: is_comp_def dest: set_takeWhileD)
    note st = push_comp_stack [OF this "1.prems"]
    have "tokenise p cs = tokenise (dropWhile (\<lambda>c. c \<noteq> slash) ?start)
        (push_comp (takeWhile (\<lambda>c. c \<noteq> slash) ?start) cs)"
      unfolding tokenise.simps [of p cs] Let_def if_not_P [OF False] ..
    then show ?thesis using "1.IH" [OF refl False] st by simp
  qed
qed

text \<open>Tokenising a canonical path gives its components back.\<close>

lemma comp_split:
  assumes "slash \<notin> set c" "r = [] \<or> hd r = slash"
  shows "takeWhile (\<lambda>x. x \<noteq> slash) (c @ r) = c" and "dropWhile (\<lambda>x. x \<noteq> slash) (c @ r) = r"
proof -
  have "\<And>x. x \<in> set c \<Longrightarrow> x \<noteq> slash" using assms(1) by auto
  then have "takeWhile (\<lambda>x. x \<noteq> slash) (c @ r) = c @ takeWhile (\<lambda>x. x \<noteq> slash) r"
    "dropWhile (\<lambda>x. x \<noteq> slash) (c @ r) = dropWhile (\<lambda>x. x \<noteq> slash) r"
    by (simp_all add: takeWhile_append2 dropWhile_append2)
  moreover have "takeWhile (\<lambda>x. x \<noteq> slash) r = []" "dropWhile (\<lambda>x. x \<noteq> slash) r = r"
    using assms(2) by (cases r; simp)+
  ultimately show "takeWhile (\<lambda>x. x \<noteq> slash) (c @ r) = c" "dropWhile (\<lambda>x. x \<noteq> slash) (c @ r) = r"
    by simp_all
qed

lemma tokenise_join_append:
  assumes "rest = [] \<or> hd rest = slash"
  shows "\<forall>c \<in> set cs. plain c \<Longrightarrow> length ds + length cs \<le> 16 \<Longrightarrow>
           tokenise (join cs @ rest) ds = tokenise rest (ds @ cs)"
proof (induction cs arbitrary: ds)
  case (Cons c cs)
  have c: "c \<noteq> []" "slash \<notin> set c" "plain c" using Cons.prems by (auto simp: plain_def is_comp_def)
  let ?r = "join cs @ rest"
  have r: "?r = [] \<or> hd ?r = slash" using assms by (cases cs) auto
  have start: "dropWhile (\<lambda>x. x = slash) (slash # c @ ?r) = c @ ?r" using c by (cases c) auto
  have "tokenise (slash # c @ ?r) ds = tokenise ?r (push_comp c ds)"
    using c(1) by (subst tokenise.simps) (simp only: Let_def start comp_split [OF c(2) r], simp)
  then have "tokenise (slash # c @ ?r) ds = tokenise ?r (ds @ [c])"
    using push_comp_plain [OF c(3), of ds] Cons.prems by simp
  then show ?case using Cons.IH [of "ds @ [c]"] Cons.prems by simp
qed simp

lemma tokenise_join:
  "\<forall>c \<in> set cs. plain c \<Longrightarrow> length ds + length cs \<le> 16 \<Longrightarrow> tokenise (join cs) ds = ds @ cs"
  using tokenise_join_append [of "[]" cs ds] by simp

lemma rebuild_join:
  assumes "\<forall>c \<in> set cs. c \<noteq> []" "length dst + length (join cs) < unat (n - 1)"
    and "unat (n - 2) + 1 = unat (n - 1)"
  shows "rebuild n False dst cs = dst @ join cs"
  using assms(1,2)
proof (induction cs arbitrary: dst)
  case (Cons c cs)
  have "c \<noteq> []" using Cons.prems by simp
  then have "length dst < unat (n - 2)" using Cons.prems(2) assms(3) by (cases c) auto
  moreover have "take (unat (n - 1) - length (dst @ [slash])) c = c" using Cons.prems(2) by simp
  ultimately show ?case using Cons.IH [of "dst @ [slash] @ c"] Cons.prems by (simp add: Let_def)
qed simp

lemma rebuild_canonical:
  assumes "\<forall>c \<in> set cs. c \<noteq> []" "length (canonical cs) < unat (n - 1)" "unat (n - 2) + 1 = unat (n - 1)"
  shows "rebuild n True [slash] cs = canonical cs"
proof (cases cs)
  case Nil
  then show ?thesis by (simp add: canonical_def)
next
  case (Cons c ds)
  have len: "Suc (length c + length (join ds)) < unat (n - 1)" using assms(2) Cons by (simp add: canonical_def)
  have "c \<noteq> []" using assms(1) Cons by simp
  then have "Suc 0 < unat (n - 2)" using len assms(3) by (cases c) auto
  moreover have "take (unat (n - 1) - Suc 0) c = c" using len by simp
  ultimately show ?thesis
    using rebuild_join [of ds "slash # c" n] assms Cons len by (simp add: canonical_def Let_def)
qed

lemma last_join: "cs \<noteq> [] \<Longrightarrow> \<forall>c \<in> set cs. plain c \<Longrightarrow> join cs \<noteq> [] \<and> last (join cs) \<noteq> slash"
proof (induction cs)
  case (Cons c cs)
  have c: "c \<noteq> []" "slash \<notin> set c" using Cons.prems(2) by (simp_all add: plain_def is_comp_def)
  then have "last c \<noteq> slash" by (metis last_in_set)
  then show ?case using c(1) Cons.IH Cons.prems(2) by (cases "cs = []") simp_all
qed simp

lemma join_no_zero: "\<forall>c \<in> set cs. wf_cstr c \<Longrightarrow> wf_cstr (join cs)"
  by (induction cs) (auto simp: wf_cstr_def slash_def ch_def)

lemma c_copy_id: "wf_cstr s \<Longrightarrow> length s \<le> n \<Longrightarrow> c_copy n s = s"
  by (auto simp: c_copy_def wf_cstr_def takeWhile_eq_all_conv)

lemma canonical_concat:
  assumes "wf_cstr (canonical cs)" "length (canonical cs) \<le> 255"
  shows "path_concat base (canonical cs) = canonical cs"
proof -
  have "cstr (canonical cs) 0 = slash" by (cases cs) (auto simp: canonical_def cstr_def)
  then show ?thesis using c_copy_id [OF assms] by (simp add: path_concat_def)
qed

lemma tokenise_canonical:
  "\<forall>c \<in> set cs. plain c \<Longrightarrow> length cs \<le> 16 \<Longrightarrow> tokenise (canonical cs) [] = cs"
proof (cases cs)
  case Nil
  have "tokenise [slash] [] = []" by (subst tokenise.simps) simp
  then show ?thesis using Nil by (simp add: canonical_def)
next
  case (Cons c ds)
  assume "\<forall>c \<in> set cs. plain c" "length cs \<le> 16"
  then show ?thesis using tokenise_join [of cs "[]"] Cons by (simp add: canonical_def)
qed

section \<open>What a path means\<close>

text \<open>
  The names of a path are the non-empty pieces between its slashes. The path of \<open>rel\<close> seen from \<open>base\<close> is
  \<open>rel\<close> itself when it starts with a slash, and otherwise \<open>rel\<close> below \<open>base\<close>.
\<close>

fun split_slash :: "cstring \<Rightarrow> cstring list" where
  "split_slash [] = [[]]"
| "split_slash (c # p) =
     (if c = slash then [] # split_slash p else (case split_slash p of [] \<Rightarrow> [[c]] | w # ws \<Rightarrow> (c # w) # ws))"

definition names :: "cstring \<Rightarrow> cstring list" where
  "names p = filter (\<lambda>c. c \<noteq> []) (split_slash p)"

definition seen_from :: "cstring \<Rightarrow> cstring \<Rightarrow> cstring" where
  "seen_from base rel = (if rel \<noteq> [] \<and> hd rel = slash then rel else base @ slash # rel)"

text \<open>
  One step of simplification: a dot goes, a name followed by dot-dot goes together with it, and dot-dot
  at the root goes.
\<close>

inductive simplifies :: "cstring list \<Rightarrow> cstring list \<Rightarrow> bool" where
  here: "simplifies (xs @ [dot] # ys) (xs @ ys)"
| up: "c \<noteq> [dot] \<Longrightarrow> c \<noteq> [dot, dot] \<Longrightarrow> simplifies (xs @ c # [dot, dot] # ys) (xs @ ys)"
| root: "simplifies ([dot, dot] # ys) ys"

definition normal :: "cstring list \<Rightarrow> bool" where
  "normal ns \<longleftrightarrow> [dot] \<notin> set ns \<and> [dot, dot] \<notin> set ns"

text \<open>The same by a stack: every list of names simplifies to exactly one list without dots.\<close>

definition walk1 :: "cstring list \<Rightarrow> cstring \<Rightarrow> cstring list" where
  "walk1 cs c = (if c = [dot] then cs else if c = [dot, dot] then butlast cs else cs @ [c])"

definition walk :: "cstring list \<Rightarrow> cstring list" where
  "walk ns = foldl walk1 [] ns"

lemma walk_normal: "normal ns \<Longrightarrow> walk ns = ns"
proof -
  have "normal ns \<Longrightarrow> foldl walk1 cs ns = cs @ ns" for cs
    by (induction ns arbitrary: cs) (auto simp: normal_def walk1_def)
  then show "normal ns \<Longrightarrow> walk ns = ns" by (simp add: walk_def)
qed

lemma normal_walk: "normal (walk ns)"
proof -
  have "normal cs \<Longrightarrow> normal (foldl walk1 cs ns)" for cs
    by (induction ns arbitrary: cs) (auto simp: normal_def walk1_def dest: in_set_butlastD)
  then show ?thesis by (simp add: walk_def normal_def)
qed

lemma simplifies_walk: "simplifies xs ys \<Longrightarrow> walk xs = walk ys"
  by (induction rule: simplifies.induct) (simp_all add: walk_def walk1_def)

lemma simplifies_walk_star: "simplifies\<^sup>*\<^sup>* xs ys \<Longrightarrow> walk xs = walk ys"
  by (induction rule: rtranclp_induct) (simp_all add: simplifies_walk)

lemma simplifies_append: "simplifies xs ys \<Longrightarrow> simplifies (xs @ zs) (ys @ zs)"
  by (induction rule: simplifies.induct) (simp_all add: simplifies.intros)

lemma simplifies_append_star: "simplifies\<^sup>*\<^sup>* xs ys \<Longrightarrow> simplifies\<^sup>*\<^sup>* (xs @ zs) (ys @ zs)"
  by (induction rule: rtranclp_induct) (auto intro: rtranclp.rtrancl_into_rtrancl simplifies_append)

lemma simplifies_to_walk: "simplifies\<^sup>*\<^sup>* ns (walk ns)"
proof (induction ns rule: rev_induct)
  case Nil
  then show ?case by (simp add: walk_def)
next
  case (snoc c ns)
  let ?w = "walk ns"
  have a: "simplifies\<^sup>*\<^sup>* (ns @ [c]) (?w @ [c])" by (rule simplifies_append_star [OF snoc.IH])
  have w: "walk (ns @ [c]) = walk1 ?w c" by (simp add: walk_def)
  consider "c = [dot]" | "c = [dot, dot]" "?w = []" | cs d where "c = [dot, dot]" "?w = cs @ [d]" | "c \<noteq> [dot]" "c \<noteq> [dot, dot]"
    by (cases "?w" rule: rev_cases) blast+
  then show ?case
  proof cases
    case 1
    then show ?thesis using a w simplifies.here [of ?w "[]"] by (simp add: walk1_def)
  next
    case 2
    then show ?thesis using a w simplifies.root [of "[]"] by (simp add: walk1_def)
  next
    case (3 cs d)
    have "d \<noteq> [dot]" "d \<noteq> [dot, dot]" using normal_walk [of ns] 3(2) by (auto simp: normal_def)
    then show ?thesis using a w 3 simplifies.up [of d cs "[]"] by (simp add: walk1_def)
  next
    case 4
    then show ?thesis using a w by (simp add: walk1_def)
  qed
qed

lemma split_slash_ne: "split_slash p \<noteq> []"
  by (cases p) (simp_all split: list.splits)

lemma split_slash_append: "split_slash (p @ slash # q) = split_slash p @ split_slash q"
  by (induction p) (auto simp: split_slash_ne split: list.splits)

lemma split_slash_word: "slash \<notin> set w \<Longrightarrow> split_slash w = [w]"
  by (induction w) auto

lemma names_append: "names (p @ slash # q) = names p @ names q"
  by (simp add: names_def split_slash_append)

lemma names_slash: "names (slash # q) = names q" "names [] = []"
  by (simp_all add: names_def)

lemma names_snoc: "names (p @ [slash]) = names p"
  using names_append [of p "[]"] by (simp add: names_slash)

lemma names_word: "slash \<notin> set w \<Longrightarrow> w \<noteq> [] \<Longrightarrow> names w = [w]"
  by (simp add: names_def split_slash_word)

lemma names_dropWhile: "names (dropWhile (\<lambda>c. c = slash) p) = names p"
  by (induction p) (simp_all add: names_slash)

lemma names_split:
  assumes "p \<noteq> []" "hd p \<noteq> slash"
  shows "names p = takeWhile (\<lambda>c. c \<noteq> slash) p # names (dropWhile (\<lambda>c. c \<noteq> slash) p)"
proof -
  let ?w = "takeWhile (\<lambda>c. c \<noteq> slash) p" and ?r = "dropWhile (\<lambda>c. c \<noteq> slash) p"
  have w: "slash \<notin> set ?w" "?w \<noteq> []" using assms by (auto dest: set_takeWhileD simp: takeWhile_eq_Nil_iff)
  show ?thesis
  proof (cases ?r)
    case Nil
    then have "p = ?w" by (metis append_Nil2 takeWhile_dropWhile_id)
    then show ?thesis using names_word [OF w] Nil by (metis names_slash(2))
  next
    case (Cons x r)
    then have "x = slash" using hd_dropWhile [of "\<lambda>c. c \<noteq> slash" p] by simp
    then have "p = ?w @ slash # r" using Cons by (metis takeWhile_dropWhile_id)
    then have "names p = ?w # names r" using names_append [of ?w r] names_word [OF w] by simp
    then show ?thesis using Cons \<open>x = slash\<close> names_slash(1) by simp
  qed
qed

text \<open>The tokeniser visits the names of the path in order.\<close>

lemma tokenise_names: "tokenise p cs = foldl (\<lambda>cs c. push_comp c cs) cs (names p)"
proof (induction p cs rule: tokenise.induct)
  case (1 p cs)
  let ?s = "dropWhile (\<lambda>c. c = slash) p"
  show ?case
  proof (cases "?s = []")
    case True
    have "names p = []" using names_dropWhile [of p] unfolding True by (simp only: names_slash)
    then show ?thesis unfolding tokenise.simps [of p cs] Let_def if_P [OF True] by simp
  next
    case False
    have "hd ?s \<noteq> slash" using hd_dropWhile [of "\<lambda>c. c = slash" p] False by simp
    note n = names_split [OF False this, unfolded names_dropWhile]
    show ?thesis unfolding tokenise.simps [of p cs] Let_def if_not_P [OF False] n using "1.IH" [OF refl False] by simp
  qed
qed

lemma push_comp_walk1: "length c < 32 \<Longrightarrow> length cs < 16 \<Longrightarrow> push_comp c cs = walk1 cs c"
  by (auto simp: push_comp_def walk1_def length_Suc_conv numeral_2_eq_2)

lemma push_names_walk:
  "(\<forall>c \<in> set ns. length c < 32) \<Longrightarrow> length cs + length ns \<le> 16 \<Longrightarrow> foldl (\<lambda>cs c. push_comp c cs) cs ns = foldl walk1 cs ns"
proof (induction ns arbitrary: cs)
  case (Cons c ns)
  have "length (walk1 cs c) \<le> Suc (length cs)" by (auto simp: walk1_def)
  then show ?case using Cons.IH [of "walk1 cs c"] Cons.prems push_comp_walk1 [of c cs] by simp
qed simp

lemma path_concat_names:
  assumes "wf_cstr base" "wf_cstr rel" "length base + length rel < 255"
  shows "names (path_concat base rel) = names (seen_from base rel)"
proof (cases "rel \<noteq> [] \<and> hd rel = slash")
  case True
  then have "cstr rel 0 = slash" by (cases rel) (simp_all add: cstr_def)
  then show ?thesis using True c_copy_id [OF assms(2), of 255] assms(3) by (simp add: path_concat_def seen_from_def)
next
  case False
  have "cstr rel 0 \<noteq> slash" using False by (cases rel) (auto simp: cstr_def slash_def ch_def)
  then have p: "path_concat base rel = (if base \<noteq> [] \<and> last base \<noteq> slash then base @ slash # rel else base @ rel)"
    using c_copy_id [OF assms(1), of 255] c_copy_id [OF assms(2)] assms(3) by (simp add: path_concat_def Let_def)
  have "names (base @ rel) = names (base @ slash # rel)" if "base = [] \<or> last base = slash"
  proof (cases base rule: rev_cases)
    case (snoc b x)
    then show ?thesis using that names_append [of b rel] names_append [of "b @ [slash]" rel] names_snoc [of b] by simp
  qed (simp add: names_slash)
  then show ?thesis unfolding p seen_from_def if_not_P [OF False] by auto
qed

section \<open>Properties\<close>

text \<open>
  C19: resolution of paths. Take a path whose names have less than 32 bytes and are at most 16, and that fits
  the scratch buffer. Its names simplify (dot goes, a name goes together with the dot-dot behind it, dot-dot at
  the root goes) to exactly one list without dot and dot-dot, and when the path of that list fits the 128
  bytes of the working directory, it is the result of \<open>path_resolve_str\<close>.
\<close>

theorem path_resolve_canonical:
  assumes "wf_cstr base" "wf_cstr rel" "length base + length rel < 255"
    and "\<forall>c \<in> set (names (seen_from base rel)). length c < 32" "length (names (seen_from base rel)) \<le> 16"
  shows "\<exists>ns. simplifies\<^sup>*\<^sup>* (names (seen_from base rel)) ns \<and> normal ns \<and>
    (\<forall>ms. simplifies\<^sup>*\<^sup>* (names (seen_from base rel)) ms \<and> normal ms \<longrightarrow> ms = ns) \<and>
    (length (canonical ns) < 127 \<longrightarrow> path_resolve_str 128 base rel = canonical ns)"
proof (intro exI conjI allI impI)
  let ?ns = "names (seen_from base rel)"
  show "simplifies\<^sup>*\<^sup>* ?ns (walk ?ns)" by (rule simplifies_to_walk)
  show "normal (walk ?ns)" by (rule normal_walk)
  show "ms = walk ?ns" if "simplifies\<^sup>*\<^sup>* ?ns ms \<and> normal ms" for ms
    using that simplifies_walk_star [of ?ns ms] walk_normal [of ms] by simp
  assume l: "length (canonical (walk ?ns)) < 127"
  have t: "tokenise (path_concat base rel) [] = walk ?ns"
    unfolding tokenise_names path_concat_names [OF assms(1-3)] walk_def using assms(4,5) by (intro push_names_walk) simp_all
  have "\<forall>c \<in> set (walk ?ns). plain c" using tokenise_stack [of "[]" "path_concat base rel"] t by simp
  then have "\<forall>c \<in> set (walk ?ns). c \<noteq> []" by (auto simp: plain_def is_comp_def)
  then show "path_resolve_str 128 base rel = canonical (walk ?ns)"
    unfolding path_resolve_str_def t using l by (intro rebuild_canonical) simp_all
qed

theorem path_resolve_canonical_witness:
  "path_resolve_str 128 (str ''/usr/lib'') (str ''../bin/./x//y'') = str ''/usr/bin/x/y''"
proof -
  let ?n = "[str ''usr'', str ''lib'', str ''..'', str ''bin'', str ''.'', str ''x'', str ''y'']" and ?m = "[str ''usr'', str ''bin'', str ''x'', str ''y'']"
  note st = str_def ch_def slash_def dot_def
  have n: "names (seen_from (str ''/usr/lib'') (str ''../bin/./x//y'')) = ?n" by (simp add: seen_from_def names_def st)
  have "simplifies ?n [str ''usr'', str ''bin'', str ''.'', str ''x'', str ''y'']"
    using simplifies.up [of "str ''lib''" "[str ''usr'']"] by (simp add: st)
  moreover have "simplifies [str ''usr'', str ''bin'', str ''.'', str ''x'', str ''y''] ?m"
    using simplifies.here [of "[str ''usr'', str ''bin'']"] by (simp add: st)
  ultimately have s: "simplifies\<^sup>*\<^sup>* ?n ?m" by (meson rtranclp.rtrancl_into_rtrancl rtranclp.rtrancl_refl)
  have m: "normal ?m" by (simp add: normal_def st)
  have c: "canonical ?m = str ''/usr/bin/x/y''" by (simp add: canonical_def st)
  have w: "wf_cstr (str ''/usr/lib'')" "wf_cstr (str ''../bin/./x//y'')" by (simp_all add: wf_cstr_def st)
  obtain ns where ns: "\<forall>ms. simplifies\<^sup>*\<^sup>* ?n ms \<and> normal ms \<longrightarrow> ms = ns"
    "length (canonical ns) < 127 \<longrightarrow> path_resolve_str 128 (str ''/usr/lib'') (str ''../bin/./x//y'') = canonical ns"
    using path_resolve_canonical [OF w, unfolded n] by (auto simp: st)
  then have "?m = ns" using s m by blast
  then show ?thesis using ns(2) c by (auto simp: str_def)
qed

text \<open>
  Canonical paths are fixed points. Resolving a canonical path that fits, against any base,
  returns it unchanged; resolving the dot component against a canonical base returns the base.
\<close>

theorem path_resolve_idempotent:
  assumes "\<forall>c \<in> set cs. plain c \<and> wf_cstr c" and "length cs \<le> 16" and "length (canonical cs) < 126"
  shows "path_resolve_str 128 base (canonical cs) = canonical cs \<and>
         path_resolve_str 128 (canonical cs) [dot] = canonical cs"
proof
  have pl: "\<forall>c \<in> set cs. plain c" "\<forall>c \<in> set cs. c \<noteq> []" using assms(1) by (auto simp: plain_def is_comp_def)
  have wf: "wf_cstr (canonical cs)"
    using assms(1) join_no_zero by (auto simp: canonical_def wf_cstr_def slash_def ch_def)
  have rb: "rebuild 128 True [slash] cs = canonical cs"
    using assms(3) pl(2) by (intro rebuild_canonical) simp_all
  show "path_resolve_str 128 base (canonical cs) = canonical cs"
    unfolding path_resolve_str_def
    using canonical_concat [OF wf] tokenise_canonical [OF pl(1) assms(2)] rb assms(3) by simp
  have "canonical cs \<noteq> []" "last (canonical cs) \<noteq> slash \<longleftrightarrow> cs \<noteq> []"
    using pl(1) last_join [of cs] by (auto simp: canonical_def)
  then have "path_concat (canonical cs) [dot] = join cs @ [slash, dot]"
    using c_copy_id [OF wf, of 255] assms(3) c_copy_id [of "[dot]"]
    by (auto simp: path_concat_def cstr_def Let_def canonical_def wf_cstr_def slash_def dot_def ch_def)
  moreover have "tokenise [slash, dot] cs = cs"
    by (subst tokenise.simps) (simp add: slash_def dot_def ch_def push_comp_def)
  ultimately have "tokenise (path_concat (canonical cs) [dot]) [] = cs"
    using tokenise_join_append [of "[slash, dot]" cs "[]"] pl(1) assms(2) by simp
  then show "path_resolve_str 128 (canonical cs) [dot] = canonical cs"
    unfolding path_resolve_str_def using rb by simp
qed

theorem path_resolve_idempotent_witness:
  "path_resolve_str 128 [] (canonical [str ''etc'', str ''rc'']) = str ''/etc/rc''"
proof -
  have "plain (str ''etc'') \<and> wf_cstr (str ''etc'') \<and> plain (str ''rc'') \<and> wf_cstr (str ''rc'')"
    by (simp add: plain_def is_comp_def wf_cstr_def str_def ch_def slash_def dot_def)
  moreover have "canonical [str ''etc'', str ''rc''] = str ''/etc/rc''"
    by (simp add: canonical_def str_def slash_def)
  ultimately show ?thesis
    using path_resolve_idempotent [of "[str ''etc'', str ''rc'']" "[]"] by (simp add: str_def)
qed

lemma last_slash_append:
  "slash \<notin> set n \<Longrightarrow> last_slash (d @ slash # n) (length d + 1 + k) = Some (length d)" if "k \<le> length n"
  using that by (induction k) (auto simp: nth_append Suc_le_eq in_set_conv_nth)

lemma last_slash_none: "k \<le> length p \<Longrightarrow> slash \<notin> set p \<Longrightarrow> last_slash p k = None"
  by (induction k) (auto simp: Suc_le_eq in_set_conv_nth)

text \<open>
  \<open>path_split\<close> separates the last component: of a path without slash the parent is the dot
  component, of a path directly under the root the parent is the root, and otherwise the
  parent is everything in front of the last slash; parts that fit the buffers are not cut.
\<close>

theorem path_split_last:
  assumes "wf_cstr n" and "slash \<notin> set n" and "length n \<le> 31" and "length d \<le> 127"
  shows "path_split n = ([dot], n) \<and> path_split (slash # n) = ([slash], n) \<and>
         (d \<noteq> [] \<longrightarrow> path_split (d @ slash # n) = (d, n))"
proof -
  have c: "c_copy 31 n = n" using c_copy_id assms(1,3) by simp
  have "last_slash (d @ slash # n) (length (d @ slash # n)) = Some (length d)" for d
    using last_slash_append [of "length n" n d] assms(2) by simp
  from this [of d] this [of "[]"] show ?thesis
    using last_slash_none [of "length n" n] assms c by (simp add: path_split_def)
qed

theorem path_split_last_witness:
  "path_split (str ''a/b/c'') = (str ''a/b'', str ''c'')"
  using path_split_last [of "str ''c''" "str ''a/b''"]
  by (simp add: wf_cstr_def str_def ch_def slash_def)

end
