(* ===== verification/Vmm.thy ===== *)
theory Vmm
  imports Pmm
begin

text \<open>
  The virtual memory manager, src/src/mm/virt/vmm.c: four-level page tables, address spaces, the
  copy-on-write fork and the copy-on-write fault; the rest of the page fault handler is in Fault.

  Physical memory is a function from physical byte addresses to 64-bit cells. The code reaches
  it through \<open>as_table\<close>, by the boot identity map at first and by the physmap later; both denote
  the physical address itself, which is what the model uses. Byte-wise copying and clearing of
  whole frames acts on their cells.
\<close>

section \<open>The code\<close>

record vm =
  pmem :: "nat \<Rightarrow> u64"
  frames :: pmm
  g_kernel_pml4 :: u64

definition PAGE_PRESENT :: u64 where "PAGE_PRESENT = 0x001"
definition PAGE_RW :: u64 where "PAGE_RW = 0x002"
definition PAGE_USER :: u64 where "PAGE_USER = 0x004"
definition PAGE_PS :: u64 where "PAGE_PS = 0x80"
definition PAGE_COW :: u64 where "PAGE_COW = 0x200"
definition ENTRIES :: nat where "ENTRIES = 512"
definition MAP_2M :: u64 where "MAP_2M = 2 * 1024 * 1024"
definition PML4_PHYSMAP :: nat where "PML4_PHYSMAP = 256"
definition PML4_KERNEL :: nat where "PML4_KERNEL = 511"
definition USTACK_BASE :: u64 where "USTACK_BASE = 0x50000000"
definition USTACK_LIMIT :: u64 where "USTACK_LIMIT = USTACK_BASE - (64 - 1) * 0x1000"
definition USER_HEAP_MAX :: u64 where "USER_HEAP_MAX = 0x40000000"

definition entry :: "vm \<Rightarrow> u64 \<Rightarrow> nat \<Rightarrow> u64" where
  "entry s t i = pmem s (unat t + 8 * i)"

definition set_entry :: "u64 \<Rightarrow> nat \<Rightarrow> u64 \<Rightarrow> vm \<Rightarrow> vm" where
  "set_entry t i v s = s\<lparr>pmem := (pmem s)(unat t + 8 * i := v)\<rparr>"

definition present :: "u64 \<Rightarrow> bool" where
  "present e \<longleftrightarrow> e AND PAGE_PRESENT \<noteq> 0"

definition frame_of :: "u64 \<Rightarrow> u64" where
  "frame_of e = e AND NOT 0xFFF"

definition zero_table :: "u64 \<Rightarrow> vm \<Rightarrow> vm" where
  "zero_table t s = s\<lparr>pmem := (\<lambda>x. if unat t \<le> x \<and> x < unat t + 4096 then 0 else pmem s x)\<rparr>"

definition copy_frame :: "u64 \<Rightarrow> u64 \<Rightarrow> vm \<Rightarrow> vm" where
  "copy_frame d src s =
     s\<lparr>pmem := (\<lambda>x. if unat d \<le> x \<and> x < unat d + 4096 then pmem s (x - unat d + unat src) else pmem s x)\<rparr>"

definition alloc_frame :: "vm \<Rightarrow> u64 \<times> vm" where
  "alloc_frame s = (case pmm_alloc_frame (frames s) of (p, f) \<Rightarrow> (p, s\<lparr>frames := f\<rparr>))"

text \<open>A loop that fills \<open>n\<close> entries with 2 MB pages.\<close>

definition map_2m :: "u64 \<Rightarrow> nat \<Rightarrow> vm \<Rightarrow> vm" where
  "map_2m pd n s =
     fold (\<lambda>i. set_entry pd i ((of_nat i * MAP_2M) OR PAGE_PRESENT OR PAGE_RW OR PAGE_PS)) [0 ..< n] s"

definition vmm_init :: "vm \<Rightarrow> os_status \<times> vm" where
  "vmm_init s =
     (let (pml4_phys, s) = alloc_frame s; s = zero_table pml4_phys s;
          (pdpt_phys, s) = alloc_frame s; s = zero_table pdpt_phys s;
          s = set_entry pml4_phys 0 (pdpt_phys OR PAGE_PRESENT OR PAGE_RW) s;
          (pd_phys, s) = alloc_frame s; s = zero_table pd_phys s;
          s = set_entry pdpt_phys 0 (pd_phys OR PAGE_PRESENT OR PAGE_RW) s;
          s = map_2m pd_phys 64 s;
          (pmpdpt_phys, s) = alloc_frame s; s = zero_table pmpdpt_phys s;
          s = set_entry pml4_phys PML4_PHYSMAP (pmpdpt_phys OR PAGE_PRESENT OR PAGE_RW) s;
          (pmpd_phys, s) = alloc_frame s; s = zero_table pmpd_phys s;
          s = set_entry pmpdpt_phys 0 (pmpd_phys OR PAGE_PRESENT OR PAGE_RW) s;
          s = map_2m pmpd_phys ENTRIES s;
          s = set_entry pml4_phys PML4_KERNEL (entry s 0x1000 PML4_KERNEL) s
      in (OS_OK, s\<lparr>g_kernel_pml4 := pml4_phys\<rparr>))"

definition pt_index :: "u64 \<Rightarrow> nat \<Rightarrow> nat" where
  "pt_index va sh = unat (drop_bit sh va AND 0x1FF)"

text \<open>One level of \<open>vmm_map_page_into\<close>: the entry of table \<open>t\<close>, created when it is absent.\<close>

definition map_level :: "u64 \<Rightarrow> u64 \<Rightarrow> nat \<Rightarrow> vm \<Rightarrow> bool \<times> vm" where
  "map_level u t i s =
     (if \<not> present (entry s t i)
      then let (f, s) = alloc_frame s in
           if f = 0 then (False, s)
           else (True, set_entry t i (f OR PAGE_PRESENT OR PAGE_RW OR u) (zero_table f s))
      else (True, set_entry t i (entry s t i OR u) s))"

definition vmm_map_page_into :: "u64 \<Rightarrow> u64 \<Rightarrow> u64 \<Rightarrow> u64 \<Rightarrow> vm \<Rightarrow> int \<times> vm" where
  "vmm_map_page_into pml4_phys va pa flags s =
     (let i4 = pt_index va 39; i3 = pt_index va 30; i2 = pt_index va 21; i1 = pt_index va 12;
          u = flags AND PAGE_USER;
          (ok, s) = map_level u pml4_phys i4 s in
      if \<not> ok then (- 1, s)
      else let pdpt = frame_of (entry s pml4_phys i4); (ok, s) = map_level u pdpt i3 s in
      if \<not> ok then (- 1, s)
      else let pd = frame_of (entry s pdpt i3); (ok, s) = map_level u pd i2 s in
      if \<not> ok then (- 1, s)
      else let pt = frame_of (entry s pd i2)
           in (0, set_entry pt i1 (frame_of pa OR (flags AND 0xFFF) OR PAGE_PRESENT) s))"

definition vmm_map_page :: "u64 \<Rightarrow> u64 \<Rightarrow> u64 \<Rightarrow> vm \<Rightarrow> int \<times> vm" where
  "vmm_map_page va pa flags s = vmm_map_page_into (g_kernel_pml4 s) va pa flags s"

text \<open>
  The walk over the user half that \<open>vmm_copy_user_space\<close> and \<open>vmm_cow_user_space\<close> share: \<open>leaf i3 i2 i1 spt\<close>
  is the body for a present leaf entry.
\<close>

definition leaf_va :: "nat \<Rightarrow> nat \<Rightarrow> nat \<Rightarrow> u64" where
  "leaf_va i3 i2 i1 = push_bit 30 (of_nat i3) OR push_bit 21 (of_nat i2) OR push_bit 12 (of_nat i1)"

definition walk_user :: "u64 \<Rightarrow> (u64 \<Rightarrow> u64 \<Rightarrow> nat \<Rightarrow> vm \<Rightarrow> bool \<times> vm) \<Rightarrow> vm \<Rightarrow> bool \<times> vm" where
  "walk_user spml4 leaf s =
     (if \<not> present (entry s spml4 0) then (True, s)
      else let spdpt = frame_of (entry s spml4 0) in
        for_range 0 ENTRIES (\<lambda>i3 s.
          if \<not> present (entry s spdpt i3) then (True, s)
          else let spd = frame_of (entry s spdpt i3) in
            for_range 0 ENTRIES (\<lambda>i2 s.
              if \<not> present (entry s spd i2) \<or> entry s spd i2 AND PAGE_PS \<noteq> 0 then (True, s)
              else let spt = frame_of (entry s spd i2) in
                for_range 0 ENTRIES (\<lambda>i1 s.
                  if \<not> present (entry s spt i1) then (True, s)
                  else leaf (leaf_va i3 i2 i1) spt i1 s) s) s) s)"

definition copy_leaf :: "u64 \<Rightarrow> u64 \<Rightarrow> u64 \<Rightarrow> nat \<Rightarrow> vm \<Rightarrow> bool \<times> vm" where
  "copy_leaf dst_pml4 va spt i1 s =
     (let sphys = frame_of (entry s spt i1); flags = entry s spt i1 AND 0xFFF;
          (dphys, s) = alloc_frame s in
      if dphys = 0 then (False, s)
      else (True, snd (vmm_map_page_into dst_pml4 va dphys flags (copy_frame dphys sphys s))))"

definition vmm_copy_user_space :: "u64 \<Rightarrow> u64 \<Rightarrow> vm \<Rightarrow> int \<times> vm" where
  "vmm_copy_user_space dst_pml4 src_pml4 s =
     (case walk_user src_pml4 (copy_leaf dst_pml4) s of (ok, s) \<Rightarrow> (if ok then 0 else - 1, s))"

definition cow_leaf :: "u64 \<Rightarrow> u64 \<Rightarrow> u64 \<Rightarrow> nat \<Rightarrow> vm \<Rightarrow> bool \<times> vm" where
  "cow_leaf dst_pml4 va spt i1 s =
     (let phys = frame_of (entry s spt i1);
          flags = ((entry s spt i1 AND 0xFFF) AND NOT PAGE_RW) OR PAGE_COW;
          s = set_entry spt i1 (phys OR flags) s;
          (r, s) = vmm_map_page_into dst_pml4 va phys (flags AND NOT PAGE_PRESENT) s
      in if r \<noteq> 0 then (False, s)
         else (True, s\<lparr>frames := pmm_addref phys (frames s)\<rparr>))"

definition vmm_cow_user_space :: "u64 \<Rightarrow> u64 \<Rightarrow> vm \<Rightarrow> int \<times> vm" where
  "vmm_cow_user_space dst_pml4 src_pml4 s =
     (case walk_user src_pml4 (cow_leaf dst_pml4) s of (ok, s) \<Rightarrow> (if ok then 0 else - 1, s))"

definition free_frame :: "u64 \<Rightarrow> vm \<Rightarrow> vm" where
  "free_frame p s = s\<lparr>frames := pmm_free_frame p (frames s)\<rparr>"

definition vmm_free_user_space :: "u64 \<Rightarrow> vm \<Rightarrow> vm" where
  "vmm_free_user_space pml4_phys s =
     (if pml4_phys = 0 \<or> pml4_phys = g_kernel_pml4 s then s
      else free_frame pml4_phys
        (if \<not> present (entry s pml4_phys 0) then s
         else let pdpt = frame_of (entry s pml4_phys 0) in
           free_frame pdpt (fold (\<lambda>i3 s.
             if \<not> present (entry s pdpt i3) then s
             else let pd = frame_of (entry s pdpt i3) in
               free_frame pd (fold (\<lambda>i2 s.
                 if \<not> present (entry s pd i2) \<or> entry s pd i2 AND PAGE_PS \<noteq> 0 then s
                 else let pt = frame_of (entry s pd i2) in
                   free_frame pt (fold (\<lambda>i1 s.
                     if present (entry s pt i1) then free_frame (frame_of (entry s pt i1)) s else s)
                     [0 ..< ENTRIES] s)) [0 ..< ENTRIES] s)) [0 ..< ENTRIES] s)))"

definition vmm_create_address_space :: "vm \<Rightarrow> u64 \<times> vm" where
  "vmm_create_address_space s =
     (let (pml4_phys, s) = alloc_frame s in
      if pml4_phys = 0 then (0, s)
      else let s = zero_table pml4_phys s;
               s = set_entry pml4_phys PML4_PHYSMAP (entry s (g_kernel_pml4 s) PML4_PHYSMAP) s
           in (pml4_phys, set_entry pml4_phys PML4_KERNEL (entry s (g_kernel_pml4 s) PML4_KERNEL) s))"

text \<open>The copy-on-write branch of the page fault handler; \<open>None\<close> is its panic label.\<close>

definition cow_fault :: "u64 \<Rightarrow> u64 \<Rightarrow> vm \<Rightarrow> vm option" where
  "cow_fault va as s =
     (let i4 = pt_index va 39; i3 = pt_index va 30; i2 = pt_index va 21; i1 = pt_index va 12 in
      if \<not> present (entry s as i4) then None
      else let pdpt = frame_of (entry s as i4) in
      if \<not> present (entry s pdpt i3) then None
      else let pd = frame_of (entry s pdpt i3) in
      if \<not> present (entry s pd i2) \<or> entry s pd i2 AND PAGE_PS \<noteq> 0 then None
      else let pt = frame_of (entry s pd i2); pte = entry s pt i1 in
      if \<not> present pte \<or> pte AND PAGE_COW = 0 then None
      else let old_phys = frame_of pte; flags = (pte AND 0xFFF) AND NOT PAGE_COW in
      if pmm_refcount old_phys (frames s) = 1
      then Some (set_entry pt i1 (old_phys OR flags OR PAGE_RW) s)
      else let (new_phys, s) = alloc_frame s in
      if new_phys = 0 then None
      else Some (set_entry pt i1 (new_phys OR flags OR PAGE_RW)
                   (free_frame old_phys (copy_frame new_phys old_phys s))))"

section \<open>Table trees\<close>

text \<open>
  \<open>tab s r is\<close> is the table reached from the root \<open>r\<close> by following the present entries at the indices
  \<open>is\<close>. The user half is the subtree below entry 0 of the root; \<open>upath\<close> are its table paths.
\<close>

definition nxt :: "vm \<Rightarrow> u64 \<Rightarrow> nat \<Rightarrow> u64 option" where
  "nxt s t i = (if present (entry s t i) then Some (frame_of (entry s t i)) else None)"

fun tab :: "vm \<Rightarrow> u64 \<Rightarrow> nat list \<Rightarrow> u64 option" where
  "tab s t [] = Some t"
| "tab s t (i # is) = (case nxt s t i of None \<Rightarrow> None | Some t' \<Rightarrow> tab s t' is)"

definition upath :: "nat list \<Rightarrow> bool" where
  "upath is \<longleftrightarrow> length is \<le> 3 \<and> (is \<noteq> [] \<longrightarrow> hd is = 0) \<and> (\<forall>i \<in> set is. i < 512)"

definition tree :: "vm \<Rightarrow> u64 \<Rightarrow> u64 set" where
  "tree s r = {t. \<exists>is. upath is \<and> tab s r is = Some t}"

text \<open>
  A well-formed address space: no table is reached on two paths, every table is a page frame
  that the allocator does not consider free, and no entry above the page tables is a large page.
\<close>

definition as_wf :: "vm \<Rightarrow> u64 \<Rightarrow> bool" where
  "as_wf s r \<longleftrightarrow> pmm_inv (frames s) \<and>
     (\<forall>is js t. upath is \<and> upath js \<and> tab s r is = Some t \<and> tab s r js = Some t \<longrightarrow> is = js) \<and>
     (\<forall>t \<in> tree s r. 4096 dvd unat t \<and> taken (frames s) (unat t div 4096)) \<and>
     (\<forall>is t i. upath (is @ [i]) \<and> tab s r is = Some t \<and> present (entry s t i) \<longrightarrow> entry s t i AND PAGE_PS = 0)"

definition lookup :: "vm \<Rightarrow> u64 \<Rightarrow> u64 \<Rightarrow> u64 option" where
  "lookup s r va =
     (case tab s r [pt_index va 39, pt_index va 30, pt_index va 21] of
        None \<Rightarrow> None
      | Some pt \<Rightarrow> (let e = entry s pt (pt_index va 12) in if present e then Some e else None))"

lemma tab_snoc: "tab s t (is @ [j]) = (case tab s t is of None \<Rightarrow> None | Some t' \<Rightarrow> nxt s t' j)"
  by (induction "is" arbitrary: t) (auto split: option.splits)

lemma upath_snoc:
  "upath (is @ [j]) \<longleftrightarrow> upath is \<and> length is < 3 \<and> j < 512 \<and> (is = [] \<longrightarrow> j = 0)"
  by (cases "is") (auto simp: upath_def)

lemma tree_root: "r \<in> tree s r"
  unfolding tree_def by (rule CollectI, rule exI [of _ "[]"]) (simp add: upath_def)

lemma tree_step: "upath is \<Longrightarrow> tab s r is = Some t \<Longrightarrow> t \<in> tree s r"
  by (auto simp: tree_def)

text \<open>Cells of different frames do not overlap.\<close>

lemma cell_in_frame:
  assumes "4096 dvd unat t" "4096 dvd unat t'" "i < 512" "j < 512"
  shows "unat t + 8 * i = unat t' + 8 * j \<longleftrightarrow> t = t' \<and> i = j"
proof
  assume e: "unat t + 8 * i = unat t' + 8 * j"
  have "(unat t + 8 * i) div 4096 = unat t div 4096" "(unat t' + 8 * j) div 4096 = unat t' div 4096"
    using assms by (auto elim!: dvdE)
  then have "unat t = unat t'" using e assms(1,2) by (metis dvd_div_mult_self)
  then show "t = t' \<and> i = j" using e by (simp add: word_unat_eq_iff)
qed simp

lemma frame_disjoint:
  assumes "4096 dvd unat t" "4096 dvd unat f" "t \<noteq> f" "i < 512"
  shows "\<not> (unat f \<le> unat t + 8 * i \<and> unat t + 8 * i < unat f + 4096)"
proof
  assume r: "unat f \<le> unat t + 8 * i \<and> unat t + 8 * i < unat f + 4096"
  have "(unat t + 8 * i) div 4096 = unat t div 4096" using assms by (auto elim!: dvdE)
  moreover have "(unat t + 8 * i) div 4096 = unat f div 4096" using assms(2) r by (auto elim!: dvdE)
  ultimately have "unat t = unat f" using assms(1,2) by (metis dvd_div_mult_self)
  then show False using assms(3) by (simp add: word_unat_eq_iff)
qed

lemma entry_set_entry:
  assumes "4096 dvd unat t" "4096 dvd unat t'" "i < 512" "j < 512"
  shows "entry (set_entry t i v s) t' j = (if t' = t \<and> j = i then v else entry s t' j)"
  using cell_in_frame [OF assms(2,1,4,3)] by (auto simp: entry_def set_entry_def)

lemma entry_zero_table:
  assumes "4096 dvd unat t" "4096 dvd unat t'" "j < 512"
  shows "entry (zero_table t s) t' j = (if t' = t then 0 else entry s t' j)"
  using frame_disjoint [OF assms(2,1) _ assms(3)] assms(3) by (auto simp: entry_def zero_table_def)

text \<open>Adding one empty table below \<open>t\<close> extends the tree by exactly one path.\<close>

lemma tab_extend:
  assumes inj: "\<And>is js t. upath is \<Longrightarrow> upath js \<Longrightarrow> tab s r is = Some t \<Longrightarrow> tab s r js = Some t \<Longrightarrow> is = js"
    and at: "upath is" "tab s r is = Some t" "length is < 3" "upath (is @ [i])"
    and old: "nxt s t i = None"
    and agree: "\<And>x j. x \<in> tree s r \<Longrightarrow> j < 512 \<Longrightarrow> nxt s' x j = (if x = t \<and> j = i then Some f else nxt s x j)"
    and new: "\<And>j. j < 512 \<Longrightarrow> nxt s' f j = None"
  shows "upath js \<Longrightarrow> tab s' r js = (if js = is @ [i] then Some f else tab s r js)"
proof (induction js rule: rev_induct)
  case Nil
  then show ?case by simp
next
  case (snoc j js)
  have up: "upath js" "j < 512" using snoc.prems by (simp_all add: upath_snoc)
  show ?case
  proof (cases "js = is @ [i]")
    case True
    have "tab s r js = None" unfolding True tab_snoc using at old by simp
    then have "tab s r (js @ [j]) = None" unfolding tab_snoc by simp
    moreover have "tab s' r (js @ [j]) = None"
      unfolding tab_snoc [of s' r js] using snoc.IH [OF up(1)] True new up by simp
    ultimately show ?thesis using True by simp
  next
    case False
    show ?thesis
    proof (cases "tab s r js")
      case None
      then have "js \<noteq> is" using at(2) by auto
      then show ?thesis using snoc.IH [OF up(1)] False None by (simp add: tab_snoc)
    next
      case (Some x)
      have "x \<in> tree s r" using tree_step [OF up(1) Some] .
      moreover have "x = t \<longleftrightarrow> js = is" using inj [OF up(1) at(1) Some] at(2) Some by auto
      ultimately show ?thesis
        using snoc.IH [OF up(1)] False Some agree up(2) by (simp add: tab_snoc)
    qed
  qed
qed

lemma tab_same:
  assumes agree: "\<And>is x j. upath is \<Longrightarrow> length is < 3 \<Longrightarrow> tab s r is = Some x \<Longrightarrow> j < 512 \<Longrightarrow> nxt s' x j = nxt s x j"
  shows "upath js \<Longrightarrow> tab s' r js = tab s r js"
proof (induction js rule: rev_induct)
  case (snoc j js)
  have up: "upath js" "length js < 3" "j < 512" using snoc.prems by (simp_all add: upath_snoc)
  show ?case
  proof (cases "tab s r js")
    case None
    then show ?thesis using snoc.IH [OF up(1)] by (simp add: tab_snoc)
  next
    case (Some x)
    then show ?thesis
      using snoc.IH [OF up(1)] agree [OF up(1,2) Some up(3)] by (simp add: tab_snoc)
  qed
qed simp

section \<open>Bits of page table entries\<close>

lemma bit_flags:
  "bit (1 :: u64) n \<longleftrightarrow> n = 0" "bit (2 :: u64) n \<longleftrightarrow> n = 1" "bit (4 :: u64) n \<longleftrightarrow> n = 2"
  "bit (0x200 :: u64) n \<longleftrightarrow> n = 9"
  using bit_exp_iff [of 0 n, where ?'a = "64 word"] bit_exp_iff [of 1 n, where ?'a = "64 word"]
    bit_exp_iff [of 2 n, where ?'a = "64 word"] bit_exp_iff [of 9 n, where ?'a = "64 word"]
  by auto

lemma present_bit: "present e \<longleftrightarrow> bit e 0"
  by (simp add: present_def PAGE_PRESENT_def and_one_eq bit_0 flip: odd_iff_mod_2_eq_one)

lemma bit_low12: "bit (0xFFF :: u64) n \<longleftrightarrow> n < 12"
proof -
  have m: "(0xFFF :: u64) = mask 12" by (simp add: mask_eq_exp_minus_1)
  show ?thesis unfolding m by (auto simp: bit_mask_iff)
qed

lemma bit_frame_of: "bit (frame_of e) n \<longleftrightarrow> bit e n \<and> 12 \<le> n"
  unfolding frame_of_def bit_and_iff bit_not_iff bit_low12
  by (auto dest: bit_imp_le_length)

lemma aligned_bits:
  assumes "4096 dvd unat (f :: u64)" "n < 12"
  shows "\<not> bit f n"
proof -
  obtain k where "unat f = 4096 * k" using assms(1) by (auto elim: dvdE)
  then have "unat f = push_bit 12 k" by (simp add: push_bit_eq_mult)
  then have "\<not> bit (unat f) n" using assms(2) by (simp add: bit_push_bit_iff_nat)
  then show ?thesis unfolding bit_unsigned_iff using assms(2) by simp
qed

lemma frame_of_eqI: "(\<And>n. 12 \<le> n \<Longrightarrow> bit a n = bit b n) \<Longrightarrow> frame_of a = frame_of b"
  by (rule bit_eqI) (auto simp: bit_frame_of)

lemma frame_of_aligned: "4096 dvd unat f \<Longrightarrow> frame_of f = f"
  by (rule bit_eqI) (use aligned_bits in \<open>auto simp: bit_frame_of not_le [symmetric]\<close>)

lemma frame_of_or_low:
  assumes "\<And>n. 12 \<le> n \<Longrightarrow> \<not> bit x n"
  shows "frame_of (e OR x) = frame_of e"
  using assms by (intro frame_of_eqI) (auto simp: bit_or_iff)

lemma frame_of_flags:
  assumes "4096 dvd unat f" "\<And>n. 12 \<le> n \<Longrightarrow> \<not> bit x n"
  shows "frame_of (f OR x) = f"
  using frame_of_or_low [OF assms(2)] frame_of_aligned [OF assms(1)] by simp

lemma bit_user: "bit (flags AND PAGE_USER) n \<longleftrightarrow> n = 2 \<and> bit flags 2"
  unfolding PAGE_USER_def bit_and_iff bit_flags by auto

lemma frame_of_dvd: "4096 dvd unat (frame_of e)"
proof -
  have "frame_of e = e AND NOT (mask 12)" by (simp add: frame_of_def mask_eq_exp_minus_1)
  then have "unat (frame_of e) = unat e - unat e mod 4096"
    by (simp only: word_and_not_mask_unat) simp
  then show ?thesis by (simp add: dvd_minus_mod)
qed

section \<open>Mapping a page\<close>

text \<open>
  \<open>ext r s s'\<close>: the step from \<open>s\<close> to \<open>s'\<close> may only add tables to the address space \<open>r\<close>, made of frames
  that were free, and changes no cell outside the tables of \<open>r\<close>.
\<close>

definition in_frame :: "nat \<Rightarrow> u64 \<Rightarrow> bool" where
  "in_frame c t \<longleftrightarrow> unat t \<le> c \<and> c < unat t + 4096"

definition ext :: "u64 \<Rightarrow> vm \<Rightarrow> vm \<Rightarrow> bool" where
  "ext r s s' \<longleftrightarrow> as_wf s' r \<and>
     (\<forall>js t. upath js \<and> tab s r js = Some t \<longrightarrow> tab s' r js = Some t) \<and>
     (\<forall>t \<in> tree s' r. t \<in> tree s r \<or> \<not> taken (frames s) (unat t div 4096)) \<and>
     (\<forall>n. taken (frames s) n \<longrightarrow> taken (frames s') n \<and> g_refcount (frames s') n = g_refcount (frames s) n) \<and>
     (\<forall>c. pmem s' c \<noteq> pmem s c \<longrightarrow> (\<exists>t \<in> tree s' r. in_frame c t)) \<and>
     nframes (frames s') = nframes (frames s) \<and> g_kernel_pml4 s' = g_kernel_pml4 s"

lemma ext_trans: "ext r s s' \<Longrightarrow> ext r s' s'' \<Longrightarrow> ext r s s''"
proof -
  assume a: "ext r s s'" and b: "ext r s' s''"
  have tr: "tree s' r \<subseteq> tree s'' r" using b unfolding ext_def tree_def by blast
  have "t \<in> tree s r \<or> \<not> taken (frames s) (unat t div 4096)" if "t \<in> tree s'' r" for t
    using a b that unfolding ext_def by metis
  moreover have "\<exists>t \<in> tree s'' r. in_frame c t" if "pmem s'' c \<noteq> pmem s c" for c
    using a b that tr unfolding ext_def by (metis subsetD)
  ultimately show ?thesis using a b unfolding ext_def by simp
qed

lemma ext_refl: "as_wf s r \<Longrightarrow> ext r s s"
  by (simp add: ext_def)

lemma alloc_frame_cases:
  assumes "pmm_inv (frames s)"
  obtains (oom) "alloc_frame s = (0, s)"
  | (ok) f fr where "alloc_frame s = (f, s\<lparr>frames := fr\<rparr>)" "f \<noteq> 0" "4096 dvd unat f"
      "\<not> taken (frames s) (unat f div 4096)" "taken fr = (taken (frames s))(unat f div 4096 := True)"
      "pmm_inv fr" "g_refcount fr = (g_refcount (frames s))(unat f div 4096 := 1)" "nframes fr = nframes (frames s)"
proof -
  obtain f fr where a: "pmm_alloc_frame (frames s) = (f, fr)" by (cases "pmm_alloc_frame (frames s)")
  show thesis
  proof (cases "f = 0")
    case True
    then have "fr = frames s" using pmm_frames.alloc_fail [OF assms] a by simp
    then show thesis using oom a True by (simp add: alloc_frame_def)
  next
    case False
    have "g_refcount fr = (g_refcount (frames s))(unat f div 4096 := 1)"
      using a False by (rule_tac pmm_alloc_frame_cases [OF assms])
        (use assms in \<open>auto simp: step_simps frame_addr(1) [of _ "frames s"] pmm_inv_def\<close>)
    moreover have "nframes fr = nframes (frames s)"
      using a by (rule_tac pmm_alloc_frame_cases [OF assms]) (auto simp: step_simps)
    ultimately show thesis
      using ok [of f fr] False a pmm_frames.alloc_aligned [OF assms a] pmm_frames.alloc_fresh [OF assms a False]
        pmm_frames.alloc_in_use [OF assms a False] pmm_frames.alloc_invar [OF assms]
      by (simp add: alloc_frame_def)
  qed
qed

definition user_bit :: "u64 \<Rightarrow> bool" where
  "user_bit u \<longleftrightarrow> (\<forall>n. bit u n \<longrightarrow> n = 2)"

lemma user_bit_flag: "user_bit (flags AND PAGE_USER)"
  by (simp add: user_bit_def bit_user)

lemma nxt_or_user: "user_bit u \<Longrightarrow> present (e OR u) = present e \<and> frame_of (e OR u) = frame_of e"
  unfolding user_bit_def present_bit bit_or_iff by (auto intro!: frame_of_or_low)

lemma new_table_entry:
  assumes "4096 dvd unat f" "user_bit u"
  shows "present (f OR PAGE_PRESENT OR PAGE_RW OR u)" "frame_of (f OR PAGE_PRESENT OR PAGE_RW OR u) = f"
proof -
  show "present (f OR PAGE_PRESENT OR PAGE_RW OR u)"
    unfolding present_bit bit_or_iff PAGE_PRESENT_def bit_flags by simp
  have "\<not> bit (PAGE_PRESENT OR PAGE_RW OR u) n" if "12 \<le> n" for n
    using that assms(2) unfolding bit_or_iff PAGE_PRESENT_def PAGE_RW_def bit_flags user_bit_def by auto
  then show "frame_of (f OR PAGE_PRESENT OR PAGE_RW OR u) = f"
    using frame_of_flags [OF assms(1), of "PAGE_PRESENT OR PAGE_RW OR u"] by (simp add: or.assoc)
qed

lemma flag_clear:
  assumes "\<And>n. bit (x :: u64) n \<longleftrightarrow> n = k" shows "e AND x = 0 \<longleftrightarrow> \<not> bit e k"
proof
  assume "e AND x = 0"
  then have "\<not> bit (e AND x) k" by simp
  then show "\<not> bit e k" using assms by (simp add: bit_and_iff)
next
  assume "\<not> bit e k"
  then show "e AND x = 0" by (intro bit_eqI) (auto simp: bit_and_iff assms)
qed

lemma page_ps_bit: "e AND PAGE_PS = 0 \<longleftrightarrow> \<not> bit e 7"
proof (rule flag_clear)
  have p: "PAGE_PS = 2 ^ 7" by (simp add: PAGE_PS_def)
  show "bit PAGE_PS n \<longleftrightarrow> n = 7" for n unfolding p bit_exp_iff by auto
qed

lemma new_table_small: "4096 dvd unat f \<Longrightarrow> user_bit u \<Longrightarrow> (f OR PAGE_PRESENT OR PAGE_RW OR u) AND PAGE_PS = 0"
  unfolding page_ps_bit bit_or_iff PAGE_PRESENT_def PAGE_RW_def bit_flags user_bit_def
  using aligned_bits [of f 7] by auto

lemma or_user_small: "user_bit u \<Longrightarrow> e AND PAGE_PS = 0 \<Longrightarrow> (e OR u) AND PAGE_PS = 0"
  unfolding page_ps_bit bit_or_iff user_bit_def by auto

lemma not_present_zero: "\<not> present 0"
  by (simp add: present_def)

lemma as_wf_tree: "as_wf s r \<Longrightarrow> t \<in> tree s r \<Longrightarrow> 4096 dvd unat t \<and> taken (frames s) (unat t div 4096)"
  by (simp add: as_wf_def)

lemma as_wf_inj:
  "as_wf s r \<Longrightarrow> upath is \<Longrightarrow> upath js \<Longrightarrow> tab s r is = Some t \<Longrightarrow> tab s r js = Some t \<Longrightarrow> is = js"
  unfolding as_wf_def by blast

lemma as_wfI:
  assumes "pmm_inv (frames s)"
    and "\<And>is js t. upath is \<Longrightarrow> upath js \<Longrightarrow> tab s r is = Some t \<Longrightarrow> tab s r js = Some t \<Longrightarrow> is = js"
    and "\<And>t. t \<in> tree s r \<Longrightarrow> 4096 dvd unat t \<and> taken (frames s) (unat t div 4096)"
    and "\<And>is t i. upath (is @ [i]) \<Longrightarrow> tab s r is = Some t \<Longrightarrow> present (entry s t i) \<Longrightarrow> entry s t i AND PAGE_PS = 0"
  shows "as_wf s r"
proof -
  have "\<forall>is js t. upath is \<and> upath js \<and> tab s r is = Some t \<and> tab s r js = Some t \<longrightarrow> is = js"
    using assms(2) by blast
  moreover have "\<forall>is t i. upath (is @ [i]) \<and> tab s r is = Some t \<and> present (entry s t i) \<longrightarrow> entry s t i AND PAGE_PS = 0"
    using assms(4) by blast
  ultimately show ?thesis unfolding as_wf_def using assms(1,3) by simp
qed

lemma as_wf_small:
  "as_wf s r \<Longrightarrow> upath (is @ [i]) \<Longrightarrow> tab s r is = Some t \<Longrightarrow> present (entry s t i) \<Longrightarrow> entry s t i AND PAGE_PS = 0"
  unfolding as_wf_def by blast

lemma set_entry_frame [frame_simps]:
  "frames (set_entry t i v s) = frames s" "g_kernel_pml4 (set_entry t i v s) = g_kernel_pml4 s"
  "frames (zero_table t s) = frames s" "g_kernel_pml4 (zero_table t s) = g_kernel_pml4 s"
  by (simp_all add: set_entry_def zero_table_def)

lemma set_entry_cell: "i < 512 \<Longrightarrow> pmem (set_entry t i v s) c \<noteq> pmem s c \<Longrightarrow> in_frame c t"
  by (auto simp: set_entry_def in_frame_def split: if_splits)

lemma zero_table_cell: "pmem (zero_table t s) c \<noteq> pmem s c \<Longrightarrow> in_frame c t"
  by (auto simp: zero_table_def in_frame_def split: if_splits)

text \<open>
  Changing an entry of a page table, or an entry of another table without changing what it points
  to, keeps the tree.
\<close>

lemma set_entry_same_next:
  assumes wf: "as_wf s r" and t: "upath is" "tab s r is = Some t" "i < 512"
    and same: "length is < 3 \<Longrightarrow> (if present v then Some (frame_of v) else None) = nxt s t i \<and> (present v \<longrightarrow> v AND PAGE_PS = 0)"
  shows "ext r s (set_entry t i v s)" and "upath js \<Longrightarrow> tab (set_entry t i v s) r js = tab s r js"
    and "x \<in> tree s r \<Longrightarrow> j < 512 \<Longrightarrow> entry (set_entry t i v s) x j = (if x = t \<and> j = i then v else entry s x j)"
proof -
  let ?s = "set_entry t i v s"
  have tt: "t \<in> tree s r" using tree_step [OF t(1,2)] .
  have al: "4096 dvd unat x" if "x \<in> tree s r" for x using as_wf_tree [OF wf that] by simp
  show ent: "entry ?s x j = (if x = t \<and> j = i then v else entry s x j)" if "x \<in> tree s r" "j < 512" for x j
    using entry_set_entry [OF al [OF tt] al [OF that(1)] t(3) that(2)] by simp
  have "nxt ?s x j = nxt s x j" if "upath js" "length js < 3" "tab s r js = Some x" "j < 512" for js x j
    using ent [OF tree_step [OF that(1,3)] that(4)] same that as_wf_inj [OF wf t(1) that(1) t(2)]
    by (auto simp: nxt_def split: if_splits)
  then show tb: "tab ?s r js = tab s r js" if "upath js" for js
    using tab_same [of s r ?s js] that by blast
  have tr: "tree ?s r = tree s r" using tb by (auto simp: tree_def)
  have inj: "js = ks" if "upath js" "upath ks" "tab ?s r js = Some x" "tab ?s r ks = Some x" for js ks x
    using as_wf_inj [OF wf that(1,2)] that tb by simp
  have ps: "entry ?s x j AND PAGE_PS = 0"
    if a: "upath (js @ [j])" "tab ?s r js = Some x" "present (entry ?s x j)" for js x j
  proof -
    have b: "upath js" "length js < 3" "j < 512" using a(1) by (auto simp: upath_snoc)
    have c: "tab s r js = Some x" using a(2) tb [OF b(1)] by simp
    have "x = t \<Longrightarrow> js = is" using as_wf_inj [OF wf b(1) t(1) c] t(2) by simp
    then show ?thesis
      using ent [OF tree_step [OF b(1) c] b(3)] a(1,3) c same b(2) as_wf_small [OF wf] by (auto split: if_splits)
  qed
  have "as_wf ?s r"
    by (rule as_wfI; (rule inj ps; assumption)?) (use wf tr in \<open>simp_all add: as_wf_def frame_simps\<close>)
  moreover have "\<exists>x \<in> tree ?s r. in_frame c x" if "pmem ?s c \<noteq> pmem s c" for c
    using set_entry_cell [OF t(3) that] tt tr by blast
  ultimately show "ext r s ?s"
    using tb tr by (auto simp: ext_def frame_simps)
qed

lemma new_table:
  assumes wf: "as_wf s r" and at: "upath is" "tab s r is = Some t" "upath (is @ [i])"
    and old: "\<not> present (entry s t i)"
    and f: "4096 dvd unat f" "\<not> taken (frames s) (unat f div 4096)" "taken fr = (taken (frames s))(unat f div 4096 := True)"
      "pmm_inv fr" "g_refcount fr = (g_refcount (frames s))(unat f div 4096 := 1)" "nframes fr = nframes (frames s)"
    and u: "user_bit u"
  defines "s' \<equiv> set_entry t i (f OR PAGE_PRESENT OR PAGE_RW OR u) (zero_table f (s\<lparr>frames := fr\<rparr>))"
  shows "ext r s s'" and "upath js \<Longrightarrow> tab s' r js = (if js = is @ [i] then Some f else tab s r js)"
    and "x \<in> tree s r \<Longrightarrow> j < 512 \<Longrightarrow> x \<noteq> t \<or> j \<noteq> i \<Longrightarrow> entry s' x j = entry s x j"
    and "j < 512 \<Longrightarrow> entry s' f j = 0" and "frame_of (entry s' t i) = f"
proof -
  have t: "t \<in> tree s r" using tree_step at by blast
  have il: "i < 512" "length is < 3" using at(3) by (auto simp: upath_snoc)
  have al: "4096 dvd unat x" "x \<noteq> f" if "x \<in> tree s r" for x
    using as_wf_tree [OF wf that] f(2) by auto
  let ?v = "f OR PAGE_PRESENT OR PAGE_RW OR u"
  have ent: "entry s' x j = (if x = t \<and> j = i then ?v else entry s x j)" if "x \<in> tree s r" "j < 512" for x j
    unfolding s'_def
    using entry_set_entry [OF al(1) [OF t] al(1) [OF that(1)] il(1) that(2)]
      entry_zero_table [OF f(1) al(1) [OF that(1)] that(2)] al(2) [OF that(1)]
    by (simp add: entry_def)
  then show "x \<in> tree s r \<Longrightarrow> j < 512 \<Longrightarrow> x \<noteq> t \<or> j \<noteq> i \<Longrightarrow> entry s' x j = entry s x j" by auto
  show ef: "entry s' f j = 0" if "j < 512" for j
    unfolding s'_def
    using entry_set_entry [OF al(1) [OF t] f(1) il(1) that] entry_zero_table [OF f(1) f(1) that] al(2) [OF t]
    by auto
  show "frame_of (entry s' t i) = f" using ent [OF t il(1)] new_table_entry(2) [OF f(1) u] by simp
  have nx: "nxt s' x j = (if x = t \<and> j = i then Some f else nxt s x j)" if "x \<in> tree s r" "j < 512" for x j
    using ent [OF that] new_table_entry [OF f(1) u] by (cases "x = t \<and> j = i") (auto simp: nxt_def)
  have nf: "nxt s' f j = None" if "j < 512" for j using ef [OF that] by (simp add: nxt_def not_present_zero)
  have none: "nxt s t i = None" using old by (simp add: nxt_def)
  show tb: "tab s' r js = (if js = is @ [i] then Some f else tab s r js)" if "upath js" for js
    using tab_extend [OF as_wf_inj [OF wf] at(1,2) il(2) at(3) none nx nf that] .
  have old_none: "tab s r (is @ [i]) = None" using at none by (simp add: tab_snoc)
  have tr: "tree s' r = insert f (tree s r)"
  proof
    show "tree s' r \<subseteq> insert f (tree s r)" using tb by (auto simp: tree_def split: if_splits)
    have "f \<in> tree s' r" using tb [OF at(3)] tree_step [OF at(3), of s' r f] by simp
    moreover have "x \<in> tree s' r" if x: "x \<in> tree s r" for x
    proof -
      obtain js where js: "upath js" "tab s r js = Some x" using x unfolding tree_def by blast
      then have "tab s' r js = Some x" using tb [of js] old_none by auto
      then show ?thesis using tree_step js(1) by blast
    qed
    ultimately show "insert f (tree s r) \<subseteq> tree s' r" by blast
  qed
  have fr: "frames s' = fr" "g_kernel_pml4 s' = g_kernel_pml4 s"
    by (simp_all add: s'_def frame_simps)
  have inj: "js = ks" if "upath js" "upath ks" "tab s' r js = Some x" "tab s' r ks = Some x" for js ks x
    using that tb al(2) as_wf_inj [OF wf that(1,2)] tree_step [of js s r] tree_step [of ks s r]
    by (auto split: if_splits)
  have tk: "4096 dvd unat x \<and> taken fr (unat x div 4096)" if "x \<in> tree s' r" for x
    using that tr f(1,3) as_wf_tree [OF wf] by auto
  have ps: "entry s' x j AND PAGE_PS = 0"
    if a: "upath (js @ [j])" "tab s' r js = Some x" "present (entry s' x j)" for js x j
  proof (cases "x = f")
    case True
    then show ?thesis using ef [of j] a by (simp add: upath_snoc)
  next
    case False
    have b: "upath js" "j < 512" using a(1) by (auto simp: upath_snoc)
    have c: "tab s r js = Some x" using a(2) tb [OF b(1)] False by (auto split: if_splits)
    show ?thesis
      using ent [OF tree_step [OF b(1) c] b(2)] a(1,3) c as_wf_small [OF wf] new_table_small [OF f(1) u]
      by (auto split: if_splits)
  qed
  have wf': "as_wf s' r"
    by (rule as_wfI; (rule inj ps tk [folded fr(1)]; assumption)?) (simp add: f(4) fr)
  have cells: "\<exists>x \<in> tree s' r. in_frame c x" if "pmem s' c \<noteq> pmem s c" for c
    using that set_entry_cell [OF il(1), of t ?v "zero_table f (s\<lparr>frames := fr\<rparr>)" c]
      zero_table_cell [of f "s\<lparr>frames := fr\<rparr>" c] t tr unfolding s'_def by fastforce
  have keep: "tab s' r js = Some x" if "upath js" "tab s r js = Some x" for js x
    using that tb old_none by (auto split: if_splits)
  have fresh: "\<forall>x \<in> tree s' r. x \<in> tree s r \<or> \<not> taken (frames s) (unat x div 4096)"
    using tr f(2) by simp
  have count: "\<forall>n. taken (frames s) n \<longrightarrow> taken (frames s') n \<and> g_refcount (frames s') n = g_refcount (frames s) n"
    using f(2,3,5) fr by auto
  have "\<forall>js x. upath js \<and> tab s r js = Some x \<longrightarrow> tab s' r js = Some x"
    and "\<forall>c. pmem s' c \<noteq> pmem s c \<longrightarrow> (\<exists>x \<in> tree s' r. in_frame c x)"
    using keep cells by blast+
  then show "ext r s s'"
    unfolding ext_def using wf' fresh count fr(2) f(6) [folded fr(1)] by (intro conjI)
qed

definition user_va :: "u64 \<Rightarrow> bool" where
  "user_va va \<longleftrightarrow> unat va < 2 ^ 39"

lemma pt_index_less: "pt_index va sh < 512"
proof -
  have "pt_index va sh = unat (drop_bit sh va) mod 512"
    using word_and_mask_unat [of "drop_bit sh va" 9] by (simp add: pt_index_def mask_eq_exp_minus_1)
  then show ?thesis by simp
qed

lemma pt_index_eq_iff:
  "pt_index va sh = pt_index va' sh \<longleftrightarrow> (\<forall>n < 9. bit va (sh + n) = bit va' (sh + n))"
proof -
  have b: "bit (drop_bit sh x AND 0x1FF :: u64) n \<longleftrightarrow> n < 9 \<and> bit x (sh + n)" for x n
  proof -
    have m: "(0x1FF :: u64) = mask 9" by (simp add: mask_eq_exp_minus_1)
    show ?thesis unfolding m by (auto simp: bit_and_iff bit_mask_iff bit_drop_bit_eq)
  qed
  have "pt_index va sh = pt_index va' sh \<longleftrightarrow>
      (\<forall>n. bit (drop_bit sh va AND 0x1FF) n = bit (drop_bit sh va' AND 0x1FF) n)"
    unfolding pt_index_def by (auto intro: bit_eqI simp: word_unat_eq_iff [symmetric])
  then show ?thesis unfolding b by blast
qed

lemma user_va_bits: "user_va va \<Longrightarrow> 39 \<le> n \<Longrightarrow> \<not> bit va n"
proof -
  assume "user_va va" "39 \<le> n"
  then have "unat va < 2 ^ n" unfolding user_va_def by (meson order_less_le_trans one_le_numeral power_increasing)
  then have "\<not> bit (unat va) n" by (simp add: bit_iff_odd)
  then show "\<not> bit va n" by (auto simp: bit_unsigned_iff dest: bit_imp_le_length)
qed

lemma user_va_top: "user_va va \<Longrightarrow> pt_index va 39 = 0"
  using pt_index_eq_iff [of va 39 0] user_va_bits [of va] by (simp add: pt_index_def)

lemma user_page_eq:
  assumes "user_va va" "user_va va'"
  shows "frame_of va = frame_of va' \<longleftrightarrow>
    pt_index va 30 = pt_index va' 30 \<and> pt_index va 21 = pt_index va' 21 \<and> pt_index va 12 = pt_index va' 12"
proof -
  have "frame_of va = frame_of va' \<longleftrightarrow> (\<forall>n. 12 \<le> n \<and> n < 39 \<longrightarrow> bit va n = bit va' n)"
  proof -
    have "frame_of va = frame_of va' \<longleftrightarrow> (\<forall>n. bit (frame_of va) n = bit (frame_of va') n)"
      by (auto intro: bit_eqI)
    then show ?thesis unfolding bit_frame_of using user_va_bits assms by (metis not_le)
  qed
  also have "\<dots> \<longleftrightarrow> (\<forall>n < 9. bit va (30 + n) = bit va' (30 + n)) \<and> (\<forall>n < 9. bit va (21 + n) = bit va' (21 + n)) \<and>
      (\<forall>n < 9. bit va (12 + n) = bit va' (12 + n))" (is "?L \<longleftrightarrow> ?R")
  proof
    assume r: ?R
    show ?L
    proof (intro allI impI)
      fix n :: nat assume n: "12 \<le> n \<and> n < 39"
      then consider "n < 21" | "21 \<le> n" "n < 30" | "30 \<le> n" by linarith
      then show "bit va n = bit va' n"
      proof cases
        case 1
        then show ?thesis using r [THEN conjunct2, THEN conjunct2, rule_format, of "n - 12"] n by simp
      next
        case 2
        then show ?thesis using r [THEN conjunct2, THEN conjunct1, rule_format, of "n - 21"] n by simp
      next
        case 3
        then show ?thesis using r [THEN conjunct1, rule_format, of "n - 30"] n by simp
      qed
    qed
  qed auto
  finally show ?thesis unfolding pt_index_eq_iff .
qed

definition leaf_path :: "u64 \<Rightarrow> nat list" where
  "leaf_path va = [pt_index va 39, pt_index va 30, pt_index va 21]"

lemma leaf_path: "user_va va \<Longrightarrow> upath (leaf_path va)" "length (leaf_path va) = 3"
  using pt_index_less by (auto simp: leaf_path_def upath_def user_va_top)

lemma lookup_leaf:
  "lookup s r va = (case tab s r (leaf_path va) of None \<Rightarrow> None
     | Some pt \<Rightarrow> if present (entry s pt (pt_index va 12)) then Some (entry s pt (pt_index va 12)) else None)"
  by (simp only: lookup_def leaf_path_def Let_def)

text \<open>One level of the descent adds at most one table and leaves every translation as it was.\<close>

lemma map_level_fail: "pmm_inv (frames s) \<Longrightarrow> map_level u t i s = (False, s') \<Longrightarrow> s' = s"
  by (erule alloc_frame_cases) (auto simp: map_level_def split: if_splits)

lemma map_level_ok:
  assumes wf: "as_wf s r" and at: "upath is" "tab s r is = Some t" "upath (is @ [i])"
    and u: "user_bit u" and run: "map_level u t i s = (True, s')"
  shows "ext r s s'" and "tab s' r (is @ [i]) = Some (frame_of (entry s' t i))"
    and "user_va va \<Longrightarrow> lookup s' r va = lookup s r va"
proof -
  have il: "i < 512" "length is < 3" using at(3) by (auto simp: upath_snoc)
  have inv: "pmm_inv (frames s)" using wf by (simp add: as_wf_def)
  have leaf: "x \<noteq> t" if "user_va va" "tab s r (leaf_path va) = Some x" for x va
    using as_wf_inj [OF wf at(1) leaf_path(1) [OF that(1)] at(2)] that leaf_path(2) [of va] il(2) by auto
  have "ext r s s' \<and> tab s' r (is @ [i]) = Some (frame_of (entry s' t i)) \<and> (user_va va \<longrightarrow> lookup s' r va = lookup s r va)" for va
  proof (cases "present (entry s t i)")
    case True
    then have s': "s' = set_entry t i (entry s t i OR u) s" using run by (simp add: map_level_def)
    have same: "(if present (entry s t i OR u) then Some (frame_of (entry s t i OR u)) else None) = nxt s t i \<and>
        (present (entry s t i OR u) \<longrightarrow> (entry s t i OR u) AND PAGE_PS = 0)"
      using nxt_or_user [OF u] or_user_small [OF u as_wf_small [OF wf at(3,2) True]] by (simp add: nxt_def)
    note k = set_entry_same_next [OF wf at(1,2) il(1) same, folded s']
    have "tab s' r (is @ [i]) = Some (frame_of (entry s' t i))"
      using k(2) [OF at(3)] k(3) [OF tree_step [OF at(1,2)] il(1)] at(2) True nxt_or_user [OF u]
      by (simp add: tab_snoc nxt_def)
    moreover have "lookup s' r va = lookup s r va" if "user_va va"
      using k(2) [OF leaf_path(1) [OF that]] k(3) [OF tree_step [OF leaf_path(1) [OF that]] pt_index_less]
        leaf [OF that] by (auto simp: lookup_leaf split: option.splits)
    ultimately show ?thesis using k(1) by blast
  next
    case False
    obtain f fr where f: "f \<noteq> 0" "4096 dvd unat f" "\<not> taken (frames s) (unat f div 4096)"
        "taken fr = (taken (frames s))(unat f div 4096 := True)" "pmm_inv fr"
        "g_refcount fr = (g_refcount (frames s))(unat f div 4096 := 1)" "nframes fr = nframes (frames s)"
      and s': "s' = set_entry t i (f OR PAGE_PRESENT OR PAGE_RW OR u) (zero_table f (s\<lparr>frames := fr\<rparr>))"
      using run False by (rule_tac alloc_frame_cases [OF inv]) (auto simp: map_level_def)
    note k = new_table [OF wf at False f(2-7) u, folded s']
    have "lookup s' r va = lookup s r va" if v: "user_va va"
    proof (cases "leaf_path va = is @ [i]")
      case True
      then have "tab s r (leaf_path va) = None" using at(2) False by (simp add: tab_snoc nxt_def)
      moreover have "tab s' r (leaf_path va) = Some f" using k(2) [OF leaf_path(1) [OF v]] True by simp
      ultimately show ?thesis using k(4) [OF pt_index_less, of va 12] by (simp add: lookup_leaf not_present_zero)
    next
      case ne: False
      then have tb: "tab s' r (leaf_path va) = tab s r (leaf_path va)" using k(2) [OF leaf_path(1) [OF v]] by simp
      show ?thesis
        using tb k(3) [OF tree_step [OF leaf_path(1) [OF v]] pt_index_less] leaf [OF v]
        by (auto simp: lookup_leaf split: option.splits)
    qed
    then show ?thesis using k(1) k(2) [OF at(3)] k(5) by simp
  qed
  then show "ext r s s'" and "tab s' r (is @ [i]) = Some (frame_of (entry s' t i))"
    and "user_va va \<Longrightarrow> lookup s' r va = lookup s r va" by blast+
qed

lemma same_page:
  assumes "user_va va" "user_va va'"
  shows "frame_of va' = frame_of va \<longleftrightarrow> leaf_path va' = leaf_path va \<and> pt_index va' 12 = pt_index va 12"
  using user_page_eq [OF assms(2,1)] assms by (auto simp: leaf_path_def user_va_top)

lemma set_leaf:
  fixes v :: u64
  assumes wf: "as_wf s r" and va: "user_va va" and pt: "tab s r (leaf_path va) = Some pt"
  defines "s' \<equiv> set_entry pt (pt_index va 12) v s"
  shows "ext r s s'" and "user_va va' \<Longrightarrow>
    lookup s' r va' = (if frame_of va' = frame_of va then if present v then Some v else None else lookup s r va')"
    and "upath js \<Longrightarrow> tab s' r js = tab s r js"
proof -
  show tb: "tab s' r js = tab s r js" if "upath js" for js
    using set_entry_same_next(2) [OF wf leaf_path(1) [OF va] pt pt_index_less _ that, of v va 12]
      leaf_path(2) [of va] by (auto simp: s'_def)
  have k: "ext r s s'" "tab s' r (leaf_path va') = tab s r (leaf_path va')"
    "entry s' x (pt_index va' 12) = (if x = pt \<and> pt_index va' 12 = pt_index va 12 then v else entry s x (pt_index va' 12))"
    if "user_va va'" "tab s r (leaf_path va') = Some x" for va' x
    using set_entry_same_next [OF wf leaf_path(1) [OF va] pt pt_index_less, of v va 12 ]
      leaf_path(1) [OF that(1)] tree_step [OF leaf_path(1) [OF that(1)] that(2)] leaf_path(2) [of va]
    by (auto simp: s'_def pt_index_less)
  then show "ext r s s'" using va pt by blast
  show "lookup s' r va' = (if frame_of va' = frame_of va then if present v then Some v else None else lookup s r va')"
    if v: "user_va va'"
  proof (cases "tab s r (leaf_path va')")
    case None
    then have "tab s' r (leaf_path va') = None" using tb [OF leaf_path(1) [OF v]] by simp
    moreover have "frame_of va' \<noteq> frame_of va" using None pt same_page [OF va v] by auto
    ultimately show ?thesis using None by (simp add: lookup_leaf)
  next
    case (Some x)
    have "x = pt \<longleftrightarrow> leaf_path va' = leaf_path va"
      using as_wf_inj [OF wf leaf_path(1) [OF v] leaf_path(1) [OF va] Some] pt Some by auto
    then show ?thesis
      using k(2,3) [OF v Some] Some same_page [OF va v] by (auto simp: lookup_leaf)
  qed
qed

text \<open>What \<open>vmm_map_page_into\<close> does to the translations of its address space.\<close>

lemma map_page_into_cases:
  assumes wf: "as_wf s r" and va: "user_va va" and run: "vmm_map_page_into r va pa flags s = (rc, s')"
  shows "ext r s s' \<and> (rc = 0 \<or> rc = - 1) \<and> (\<forall>va'. user_va va' \<longrightarrow> lookup s' r va' =
    (if rc = 0 \<and> frame_of va' = frame_of va then Some (frame_of pa OR (flags AND 0xFFF) OR PAGE_PRESENT)
     else lookup s r va'))"
proof -
  let ?u = "flags AND PAGE_USER"
  let ?i3 = "pt_index va 30" and ?i2 = "pt_index va 21"
  have up: "upath ([] @ [0])" "upath ([0] @ [?i3])" "upath ([0, ?i3] @ [?i2])"
    using pt_index_less by (auto simp: upath_def)
  have upn: "upath []" "upath [0]" "upath [0, ?i3]" using pt_index_less by (auto simp: upath_def)
  have inv: "pmm_inv (frames t)" if "ext r s t" for t using that by (simp add: ext_def as_wf_def)
  note lv = map_level_ok [OF _ _ _ _ user_bit_flag]
  obtain a sa where l4: "map_level ?u r 0 s = (a, sa)" by fastforce
  show ?thesis
  proof (cases a)
    case False
    then have "sa = s" using map_level_fail [OF inv [OF ext_refl [OF wf]]] l4 by simp
    then show ?thesis using run l4 False ext_refl [OF wf] by (simp add: vmm_map_page_into_def user_va_top [OF va])
  next
    case True
    have l4t: "map_level ?u r 0 s = (True, sa)" using l4 True by simp
    note ka = lv [OF wf upn(1) tab.simps(1) up(1) l4t, unfolded append.simps]
    have wa: "as_wf sa r" using ka(1) by (simp add: ext_def)
    let ?pdpt = "frame_of (entry sa r 0)"
    obtain b sb where l3: "map_level ?u ?pdpt ?i3 sa = (b, sb)" by fastforce
    show ?thesis
    proof (cases b)
      case False
      then have "sb = sa" using map_level_fail [OF inv [OF ka(1)]] l3 by simp
      then show ?thesis using run l4 l3 \<open>a\<close> False ka by (simp add: vmm_map_page_into_def user_va_top [OF va])
    next
      case True
      have l3t: "map_level ?u ?pdpt ?i3 sa = (True, sb)" using l3 True by simp
      note kb = lv [OF wa upn(2) ka(2) up(2) l3t, unfolded append.simps]
      have wb: "as_wf sb r" using kb(1) by (simp add: ext_def)
      have eb: "ext r s sb" using ext_trans [OF ka(1) kb(1)] .
      let ?pd = "frame_of (entry sb ?pdpt ?i3)"
      obtain c sc where l2: "map_level ?u ?pd ?i2 sb = (c, sc)" by fastforce
      show ?thesis
      proof (cases c)
        case False
        then have "sc = sb" using map_level_fail [OF inv [OF eb]] l2 by simp
        then show ?thesis using run l4 l3 l2 \<open>a\<close> \<open>b\<close> False ka kb eb by (simp add: vmm_map_page_into_def user_va_top [OF va])
      next
        case True
        have l2t: "map_level ?u ?pd ?i2 sb = (True, sc)" using l2 True by simp
        note kc = lv [OF wb upn(3) kb(2) up(3) l2t, unfolded append.simps]
        have wc: "as_wf sc r" using kc(1) by (simp add: ext_def)
        let ?v = "frame_of pa OR (flags AND 0xFFF) OR PAGE_PRESENT"
        have pr: "present ?v" unfolding present_bit bit_or_iff PAGE_PRESENT_def bit_flags by simp
        have pt: "tab sc r (leaf_path va) = Some (frame_of (entry sc ?pd ?i2))"
          using kc(2) by (simp add: leaf_path_def user_va_top [OF va])
        note kd = set_leaf [where v = ?v, OF wc va pt]
        have "rc = 0" "s' = set_entry (frame_of (entry sc ?pd ?i2)) (pt_index va 12) ?v sc"
          using run l4 l3 l2 \<open>a\<close> \<open>b\<close> True by (simp_all add: vmm_map_page_into_def user_va_top [OF va])
        then show ?thesis using ext_trans [OF ext_trans [OF eb kc(1)] kd(1)] kd(2) pr ka(3) kb(3) kc(3) by simp
      qed
    qed
  qed
qed

text \<open>With three free frames the mapping cannot fail.\<close>

lemma map_level_total:
  assumes inv: "pmm_inv (frames s)" and free: "Suc n \<le> card (free_frames (frames s))"
  obtains s' where "map_level u t i s = (True, s')" "pmm_inv (frames s')" "n \<le> card (free_frames (frames s'))"
proof (rule alloc_frame_cases [OF inv])
  assume a: "alloc_frame s = (0, s)"
  then have "free_frames (frames s) = {}"
    using pmm_alloc_frame_nonzero [OF inv] by (rule_tac pmm_alloc_frame_cases [OF inv]) (auto simp: alloc_frame_def)
  then show thesis using free by simp
next
  fix f fr assume f: "alloc_frame s = (f, s\<lparr>frames := fr\<rparr>)" "f \<noteq> 0" "taken fr = (taken (frames s))(unat f div 4096 := True)" "pmm_inv fr"
  have "free_frames fr = {n. \<not> taken fr n}" "free_frames (frames s) = {n. \<not> taken (frames s) n}" by (auto simp: taken_def)
  then have "free_frames fr = free_frames (frames s) - {unat f div 4096}" unfolding f(3) by auto
  then have n: "n \<le> card (free_frames fr)"
    using free diff_card_le_card_Diff [of "{unat f div 4096}" "free_frames (frames s)"] by simp
  show thesis
  proof (cases "present (entry s t i)")
    case True
    then have m: "map_level u t i s = (True, set_entry t i (entry s t i OR u) s)" by (simp add: map_level_def)
    show thesis by (rule that [OF m]) (use inv free in \<open>simp_all add: frame_simps\<close>)
  next
    case False
    then have m: "map_level u t i s =
        (True, set_entry t i (f OR PAGE_PRESENT OR PAGE_RW OR u) (zero_table f (s\<lparr>frames := fr\<rparr>)))"
      using f(1,2) by (simp add: map_level_def)
    show thesis by (rule that [OF m]) (use f(4) n in \<open>simp_all add: frame_simps\<close>)
  qed
qed

lemma map_page_total:
  assumes "pmm_inv (frames s)" "3 \<le> card (free_frames (frames s))"
  shows "fst (vmm_map_page_into r va pa flags s) = 0"
proof -
  let ?u = "flags AND PAGE_USER"
  have "Suc (Suc (Suc 0)) \<le> card (free_frames (frames s))" using assms(2) by simp
  then obtain s1 where a: "map_level ?u r (pt_index va 39) s = (True, s1)" "pmm_inv (frames s1)" "Suc (Suc 0) \<le> card (free_frames (frames s1))"
    by (rule map_level_total [OF assms(1)])
  let ?p = "frame_of (entry s1 r (pt_index va 39))"
  obtain s2 where b: "map_level ?u ?p (pt_index va 30) s1 = (True, s2)" "pmm_inv (frames s2)" "Suc 0 \<le> card (free_frames (frames s2))"
    by (rule map_level_total [OF a(2,3)])
  let ?d = "frame_of (entry s2 ?p (pt_index va 30))"
  obtain s3 where "map_level ?u ?d (pt_index va 21) s2 = (True, s3)" by (rule map_level_total [OF b(2,3)])
  then show ?thesis using a(1) b(1) by (simp add: vmm_map_page_into_def Let_def)
qed

section \<open>Address spaces next to each other\<close>

text \<open>Steps that touch no table of an address space keep it.\<close>

lemma as_frame:
  assumes wf: "as_wf s r" and same: "\<And>t i. t \<in> tree s r \<Longrightarrow> i < 512 \<Longrightarrow> entry s' t i = entry s t i"
    and fr: "pmm_inv (frames s')" "\<And>t. t \<in> tree s r \<Longrightarrow> taken (frames s') (unat t div 4096)"
  shows "as_wf s' r" and "upath js \<Longrightarrow> tab s' r js = tab s r js" and "tree s' r = tree s r"
    and "user_va va \<Longrightarrow> lookup s' r va = lookup s r va"
proof -
  have "nxt s' x j = nxt s x j" if "upath is" "tab s r is = Some x" "j < 512" for "is" x j
    using same [OF tree_step [OF that(1,2)] that(3)] by (simp add: nxt_def)
  then show tb: "tab s' r js = tab s r js" if "upath js" for js
    using tab_same [of s r s' js] that by blast
  then show tr: "tree s' r = tree s r" by (auto simp: tree_def)
  show "as_wf s' r"
  proof (rule as_wfI [OF fr(1)])
    show "is = js" if "upath is" "upath js" "tab s' r is = Some t" "tab s' r js = Some t" for "is" js t
      using as_wf_inj [OF wf that(1,2)] that tb by simp
    show "4096 dvd unat t \<and> taken (frames s') (unat t div 4096)" if "t \<in> tree s' r" for t
      using that as_wf_tree [OF wf] fr(2) tr by blast
    show "entry s' t i AND PAGE_PS = 0" if a: "upath (is @ [i])" "tab s' r is = Some t" "present (entry s' t i)" for "is" t i
    proof -
      have b: "upath is" "i < 512" using a(1) by (simp_all add: upath_snoc)
      have c: "tab s r is = Some t" using a(2) tb [OF b(1)] by simp
      show ?thesis using as_wf_small [OF wf a(1) c] a(3) same [OF tree_step [OF b(1) c] b(2)] by simp
    qed
  qed
  show "lookup s' r va = lookup s r va" if "user_va va"
    using tb [OF leaf_path(1) [OF that]] same [OF tree_step [OF leaf_path(1) [OF that]] pt_index_less]
    by (auto simp: lookup_leaf split: option.splits)
qed

lemma entry_outside:
  assumes "\<And>c. pmem s' c \<noteq> pmem s c \<Longrightarrow> \<not> in_frame c t" "i < 512"
  shows "entry s' t i = entry s t i"
  using assms(1) [of "unat t + 8 * i"] assms(2) by (auto simp: entry_def in_frame_def)

lemma in_frame_unique:
  assumes "4096 dvd unat t" "4096 dvd unat t'" "in_frame c t" "in_frame c t'"
  shows "t = t'"
proof -
  have "unat t div 4096 = c div 4096" "unat t' div 4096 = c div 4096"
    using assms unfolding in_frame_def by (auto elim!: dvdE)
  then show ?thesis using assms(1,2) by (metis dvd_div_mult_self word_unat_eq_iff)
qed

text \<open>A new address space: an empty user half, and the kernel's entries for the shared halves.\<close>

lemma create_cases:
  assumes inv: "pmm_inv (frames s)" and k: "4096 dvd unat (g_kernel_pml4 s)" "taken (frames s) (unat (g_kernel_pml4 s) div 4096)"
    and run: "vmm_create_address_space s = (p, s')" and p: "p \<noteq> 0"
  shows "as_wf s' p \<and> tree s' p = {p} \<and> \<not> taken (frames s) (unat p div 4096) \<and>
    (\<forall>i < 512. entry s' p i = (if i \<in> {256, 511} then entry s (g_kernel_pml4 s) i else 0)) \<and>
    (\<forall>c. \<not> in_frame c p \<longrightarrow> pmem s' c = pmem s c)"
proof (rule alloc_frame_cases [OF inv])
  assume "alloc_frame s = (0, s)"
  then show ?thesis using run p by (simp add: vmm_create_address_space_def)
next
  fix f fr
  assume f: "alloc_frame s = (f, s\<lparr>frames := fr\<rparr>)" "f \<noteq> 0" "4096 dvd unat f" "\<not> taken (frames s) (unat f div 4096)"
    "taken fr = (taken (frames s))(unat f div 4096 := True)" "pmm_inv fr"
  let ?k = "g_kernel_pml4 s" and ?z = "zero_table f (s\<lparr>frames := fr\<rparr>)"
  let ?a = "set_entry f 256 (entry ?z ?k 256) ?z"
  have fp: "f = p" and s': "s' = set_entry f 511 (entry ?a ?k 511) ?a"
    using run p f(1,2) by (auto simp: Let_def vmm_create_address_space_def frame_simps PML4_PHYSMAP_def PML4_KERNEL_def)
  have kf: "?k \<noteq> f" using k(2) f(4) by auto
  have z: "entry ?z ?k i = entry s ?k i" "entry ?z f i = 0" if "i < 512" for i
    using entry_zero_table [OF f(3) k(1) that] entry_zero_table [OF f(3) f(3) that] kf by (simp_all add: entry_def)
  have a: "entry ?a ?k 511 = entry s ?k 511" using entry_set_entry [OF f(3) k(1)] z kf by simp
  have ent: "entry s' f i = (if i \<in> {256, 511} then entry s ?k i else 0)" if "i < 512" for i
    unfolding s' a using entry_set_entry [OF f(3) f(3)] z that by auto
  have fr: "frames s' = fr" by (simp add: s' frame_simps)
  have n0: "nxt s' f 0 = None" using ent [of 0] by (simp add: nxt_def not_present_zero)
  then have tb: "tab s' f js = (if js = [] then Some f else None)" if "upath js" for js
    using that by (cases js) (auto simp: upath_def)
  have upn: "upath []" by (simp add: upath_def)
  then have tr: "tree s' f = {f}" using tb by (auto simp: tree_def split: if_splits)
  have "as_wf s' f"
  proof (rule as_wfI)
    show "is = js" if "upath is" "upath js" "tab s' f is = Some t" "tab s' f js = Some t" for "is" js t
      using that tb by (auto split: if_splits)
    show "entry s' t i AND PAGE_PS = 0" if a: "upath (is @ [i])" "tab s' f is = Some t" "present (entry s' t i)" for "is" t i
      using a tb [of "is"] ent [of 0] by (auto simp: upath_snoc not_present_zero split: if_splits)
  qed (use tr f(3,5,6) fr in auto)
  moreover have "pmem s' c = pmem s c" if "\<not> in_frame c f" for c
    using that by (auto simp: s' set_entry_def zero_table_def in_frame_def)
  ultimately show ?thesis using fp tr ent f(4) by simp
qed

section \<open>The copy-on-write fault\<close>

lemma cow_fault_at:
  assumes wf: "as_wf s r" and va: "user_va va" and e: "lookup s r va = Some e" and cow: "e AND PAGE_COW \<noteq> 0"
  obtains pt where "tab s r (leaf_path va) = Some pt" "pt \<in> tree s r" "present e"
    "cow_fault va r s =
      (if pmm_refcount (frame_of e) (frames s) = 1
       then Some (set_entry pt (pt_index va 12) (frame_of e OR ((e AND 0xFFF) AND NOT PAGE_COW) OR PAGE_RW) s)
       else case alloc_frame s of (f, t) \<Rightarrow>
         if f = 0 then None
         else Some (set_entry pt (pt_index va 12) (f OR ((e AND 0xFFF) AND NOT PAGE_COW) OR PAGE_RW)
                 (free_frame (frame_of e) (copy_frame f (frame_of e) t))))"
proof -
  obtain pt where pt: "tab s r (leaf_path va) = Some pt" "entry s pt (pt_index va 12) = e" "present e"
    using e by (auto simp: lookup_leaf split: option.splits if_splits)
  obtain p3 where p3: "nxt s r (pt_index va 39) = Some p3"
    using pt(1) by (auto simp: leaf_path_def split: option.splits)
  obtain p2 where p2: "nxt s p3 (pt_index va 30) = Some p2" and p1: "nxt s p2 (pt_index va 21) = Some pt"
    using pt(1) p3 by (auto simp: leaf_path_def split: option.splits)
  have up: "upath ([pt_index va 39, pt_index va 30] @ [pt_index va 21])"
    using leaf_path(1) [OF va] by (simp add: leaf_path_def)
  have "tab s r [pt_index va 39, pt_index va 30] = Some p2" using p3 p2 by simp
  then have ps: "entry s p2 (pt_index va 21) AND PAGE_PS = 0"
    using as_wf_small [OF wf up] p1 by (simp add: nxt_def split: if_splits)
  show thesis
  proof (rule that [OF pt(1) tree_step [OF leaf_path(1) [OF va] pt(1)] pt(3)])
    show "cow_fault va r s =
      (if pmm_refcount (frame_of e) (frames s) = 1
       then Some (set_entry pt (pt_index va 12) (frame_of e OR ((e AND 0xFFF) AND NOT PAGE_COW) OR PAGE_RW) s)
       else case alloc_frame s of (f, t) \<Rightarrow>
         if f = 0 then None
         else Some (set_entry pt (pt_index va 12) (f OR ((e AND 0xFFF) AND NOT PAGE_COW) OR PAGE_RW)
                 (free_frame (frame_of e) (copy_frame f (frame_of e) t))))"
      using p3 p2 p1 ps pt(2,3) cow unfolding cow_fault_def Let_def nxt_def
      by (simp split: if_splits prod.splits)
  qed
qed

lemma cow_private_entry:
  assumes "4096 dvd unat f" "present e"
  defines "v \<equiv> f OR ((e AND 0xFFF) AND NOT PAGE_COW) OR PAGE_RW"
  shows "present v" "frame_of v = f" "bit v 1" "\<not> bit v 9" "n < 12 \<Longrightarrow> n \<noteq> 1 \<Longrightarrow> n \<noteq> 9 \<Longrightarrow> bit v n = bit e n"
proof -
  have b: "bit v n \<longleftrightarrow> bit f n \<or> (bit e n \<and> n < 12 \<and> n \<noteq> 9) \<or> n = 1" for n
    unfolding v_def PAGE_COW_def PAGE_RW_def bit_or_iff bit_and_iff bit_not_iff bit_low12 bit_flags
    by (auto dest: bit_imp_le_length)
  show "present v" using assms(2) unfolding present_bit b by simp
  show "frame_of v = f"
    using frame_of_eqI [of v f] frame_of_aligned [OF assms(1)] by (simp add: b)
  show "bit v 1" "\<not> bit v 9" "n < 12 \<Longrightarrow> n \<noteq> 1 \<Longrightarrow> n \<noteq> 9 \<Longrightarrow> bit v n = bit e n"
    using aligned_bits [OF assms(1)] by (auto simp: b)
qed

lemma owned_taken: "owned s n \<Longrightarrow> taken s n"
  by (simp add: owned_def taken_def free_frames_def)

lemma pmm_refcount_owned: "owned s (unat p div 4096) \<Longrightarrow> pmm_refcount p s = g_refcount s (unat p div 4096)"
proof -
  assume o: "owned s (unat p div 4096)"
  have "unat (p div PAGE_SIZE) = unat p div 4096" by (simp only: unat_div_distrib) (simp add: PAGE_SIZE_def)
  then show ?thesis using o by (simp add: pmm_refcount_def owned_def nframes_def word_less_nat_alt)
qed

lemma alloc_frame_owned:
  assumes "pmm_inv (frames s)" "owned (frames s) n" "alloc_frame s = (f, t)"
  shows "owned (frames t) n \<and> g_refcount (frames t) n = g_refcount (frames s) n"
  using assms by (rule_tac pmm_alloc_frame_cases [OF assms(1)])
    (auto simp: alloc_frame_def owned_def step_simps)

lemma alloc_frame_new_owned:
  assumes "pmm_inv (frames s)" "alloc_frame s = (f, t)" "f \<noteq> 0"
  shows "owned (frames t) (unat f div 4096) \<and> g_refcount (frames t) (unat f div 4096) = 1"
proof (rule pmm_alloc_frame_cases [OF assms(1)])
  fix g assume g: "g < g_nframes (frames s)" "pmm_alloc_frame (frames s) = (g * PAGE_SIZE, take_frame g (frames s))"
  have "unat g < nframes (frames s)" using g(1) by (simp add: nframes_def word_less_nat_alt)
  moreover have "unat f div 4096 = unat g" "frames t = take_frame g (frames s)"
    using assms g frame_addr(1) [OF g(1)] by (auto simp: alloc_frame_def pmm_inv_def)
  ultimately show ?thesis by (simp add: owned_def step_simps)
qed (use assms in \<open>simp add: alloc_frame_def\<close>)

lemma alloc_frame_none: "pmm_inv (frames s) \<Longrightarrow> alloc_frame s = (0, t) \<Longrightarrow> free_frames (frames s) = {}"
  using pmm_alloc_frame_nonzero [of "frames s"]
  by (rule_tac pmm_alloc_frame_cases [of "frames s"]) (auto simp: alloc_frame_def)

text \<open>Releasing a frame that others still hold only decrements its count.\<close>

lemma free_shared:
  assumes "pmm_inv s" "owned s (unat p div 4096)" "g_refcount s (unat p div 4096) \<noteq> 1"
  shows "pmm_inv (pmm_free_frame p s)" "taken (pmm_free_frame p s) = taken s"
    "owned s m \<Longrightarrow> owned (pmm_free_frame p s) m"
    "g_refcount (pmm_free_frame p s) = (g_refcount s)(unat p div 4096 := g_refcount s (unat p div 4096) - 1)"
proof -
  have n: "unat p div 4096 < nframes s" "used s (unat p div 4096)" "g_refcount s (unat p div 4096) > 1"
    using assms(2,3) by (auto simp: owned_def word_less_nat_alt word_unat_eq_iff)
  show "pmm_inv (pmm_free_frame p s)" using pmm_free_frame_inv [OF assms(1,2)] .
  show "taken (pmm_free_frame p s) = taken s"
    "g_refcount (pmm_free_frame p s) = (g_refcount s)(unat p div 4096 := g_refcount s (unat p div 4096) - 1)"
    using pmm_free_frame_effect(1) [OF refl n] by (auto simp: fun_eq_iff taken_def free_frames_def)
  have "0 < g_refcount s (unat p div 4096) - 1"
    using n(3) by (simp add: word_less_nat_alt unat_sub word_le_nat_alt)
  then show "owned s m \<Longrightarrow> owned (pmm_free_frame p s) m"
    using pmm_free_frame_effect(1) [OF refl n] by (auto simp: owned_def)
qed

lemma page_cow_bit: "e AND PAGE_COW = 0 \<longleftrightarrow> \<not> bit e 9"
  by (rule flag_clear) (unfold PAGE_COW_def bit_flags, rule refl)

definition page_word :: "vm \<Rightarrow> u64 \<Rightarrow> nat \<Rightarrow> u64" where
  "page_word s f k = pmem s (unat f + k)"

lemma page_word_set_entry:
  assumes "4096 dvd unat t" "4096 dvd unat f" "t \<noteq> f" "i < 512" "k < 4096"
  shows "page_word (set_entry t i v s) f k = page_word s f k"
proof (rule ccontr)
  assume "page_word (set_entry t i v s) f k \<noteq> page_word s f k"
  then have "in_frame (unat f + k) t" using set_entry_cell [OF assms(4)] by (auto simp: page_word_def)
  moreover have "in_frame (unat f + k) f" using assms(5) by (simp add: in_frame_def)
  ultimately show False using in_frame_unique [OF assms(1,2)] assms(3) by blast
qed

text \<open>
  The state just before the new entry is written: the tables are untouched, the new frame holds
  a copy and the old frame has lost one reference.
\<close>

lemma cow_copy_step:
  assumes wf: "as_wf s r" and own: "owned (frames s) (unat p div 4096)" and data: "p \<notin> tree s r" "4096 dvd unat p"
    and shared: "g_refcount (frames s) (unat p div 4096) \<noteq> 1" and f: "alloc_frame s = (f, t)" "f \<noteq> 0"
  defines "c \<equiv> free_frame p (copy_frame f p t)"
  shows "as_wf c r" "upath js \<Longrightarrow> tab c r js = tab s r js" "tree c r = tree s r" "user_va va \<Longrightarrow> lookup c r va = lookup s r va"
    "4096 dvd unat f" "f \<notin> tree s r" "f \<noteq> p" "pmm_refcount f (frames c) = 1"
    "pmm_refcount p (frames c) = pmm_refcount p (frames s) - 1"
    "k < 4096 \<Longrightarrow> page_word c f k = page_word s p k" "k < 4096 \<Longrightarrow> page_word c p k = page_word s p k"
proof -
  have inv: "pmm_inv (frames s)" using wf by (simp add: as_wf_def)
  obtain fr where g: "t = s\<lparr>frames := fr\<rparr>" "4096 dvd unat f" "\<not> taken (frames s) (unat f div 4096)"
      "taken fr = (taken (frames s))(unat f div 4096 := True)" "pmm_inv fr"
    using f by (rule_tac alloc_frame_cases [OF inv]) auto
  show al: "4096 dvd unat f" by fact
  show ft: "f \<notin> tree s r" using as_wf_tree [OF wf] g(3) by blast
  show fp: "f \<noteq> p" using owned_taken [OF own] g(3) by auto
  have ne: "unat f div 4096 \<noteq> unat p div 4096" using owned_taken [OF own] g(3) by auto
  have o: "owned fr (unat p div 4096)" "g_refcount fr (unat p div 4096) = g_refcount (frames s) (unat p div 4096)"
    using alloc_frame_owned [OF inv own f(1)] g(1) by auto
  have o': "owned fr (unat f div 4096)" "g_refcount fr (unat f div 4096) = 1"
    using alloc_frame_new_owned [OF inv f] g(1) by auto
  note k = free_shared [OF g(5) o(1), unfolded o(2), OF shared]
  have fc: "frames c = pmm_free_frame p fr" by (simp add: c_def free_frame_def copy_frame_def g(1))
  have mem: "pmem c x = (if in_frame x f then pmem s (x - unat f + unat p) else pmem s x)" for x
    by (simp add: c_def free_frame_def copy_frame_def g(1) in_frame_def)
  have "entry c x j = entry s x j" if "x \<in> tree s r" "j < 512" for x j
    using that in_frame_unique [OF al, of x] as_wf_tree [OF wf that(1)] ft
    by (intro entry_outside) (auto simp: mem split: if_splits)
  note fm = as_frame [OF wf this, unfolded fc, OF _ _ k(1), unfolded k(2) g(4)]
  show "as_wf c r" "upath js \<Longrightarrow> tab c r js = tab s r js" "tree c r = tree s r" "user_va va \<Longrightarrow> lookup c r va = lookup s r va"
    using fm as_wf_tree [OF wf] by simp_all
  show "pmm_refcount f (frames c) = 1" "pmm_refcount p (frames c) = pmm_refcount p (frames s) - 1"
    unfolding fc using pmm_refcount_owned [OF k(3) [OF o'(1)]] pmm_refcount_owned [OF k(3) [OF o(1)]]
      pmm_refcount_owned [OF own] k(4) ne o' o(2) by simp_all
  show "k < 4096 \<Longrightarrow> page_word c f k = page_word s p k"
    by (simp add: page_word_def mem in_frame_def add.commute)
  have "\<not> in_frame (unat p + k) f" if "k < 4096"
    using in_frame_unique [OF al data(2), of "unat p + k"] fp that by (auto simp: in_frame_def)
  then show "k < 4096 \<Longrightarrow> page_word c p k = page_word s p k" by (simp add: page_word_def mem)
qed

text \<open>
  C22: mapping a page. In a well-formed address space \<open>r\<close>, for a user address \<open>va\<close> below \<open>2 ^ 39\<close>,
  \<open>vmm_map_page_into\<close> returns 0 and makes exactly the page of \<open>va\<close> translate to the given frame with
  the given flags, or returns -1 (possible only with less than three free frames, when there is
  no frame for a table) and changes no translation. In both cases
  the address space stays well-formed, only cells of its own page tables are written, and the
  reference counts of the frames in use do not change.
\<close>

theorem map_page_translates:
  assumes "as_wf s r" and "user_va va" and "vmm_map_page_into r va pa flags s = (rc, s')"
  shows "as_wf s' r \<and> (rc = 0 \<or> rc = - 1 \<and> card (free_frames (frames s)) < 3) \<and>
    (\<forall>va'. user_va va' \<longrightarrow> lookup s' r va' =
      (if rc = 0 \<and> frame_of va' = frame_of va then Some (frame_of pa OR (flags AND 0xFFF) OR PAGE_PRESENT)
       else lookup s r va')) \<and>
    (\<forall>c. pmem s' c \<noteq> pmem s c \<longrightarrow> (\<exists>t \<in> tree s' r. in_frame c t)) \<and>
    (\<forall>n. taken (frames s) n \<longrightarrow> taken (frames s') n \<and> g_refcount (frames s') n = g_refcount (frames s) n)"
proof -
  have "pmm_inv (frames s)" using assms(1) by (simp add: as_wf_def)
  then have "rc \<noteq> 0 \<Longrightarrow> card (free_frames (frames s)) < 3"
    using map_page_total [of s r va pa flags] assms(3) by (metis fst_conv not_less)
  then show ?thesis using map_page_into_cases [OF assms] by (auto simp: ext_def)
qed

text \<open>Eight frames of zeroed memory; frame 5 is in use and shared by two owners.\<close>

definition pmm_eight :: pmm where
  "pmm_eight = \<lparr>g_bitmap = (\<lambda>_. 0x21), g_refcount = (\<lambda>_. 0)(5 := 2), g_nframes = 8, g_free = 6\<rparr>"

definition vm_small :: vm where
  "vm_small = \<lparr>pmem = (\<lambda>_. 0), frames = pmm_eight, g_kernel_pml4 = 0\<rparr>"

lemma vm_small_tab: "upath js \<Longrightarrow> tab vm_small 0 js = (if js = [] then Some 0 else None)"
  by (cases js) (auto simp: nxt_def entry_def vm_small_def not_present_zero)

lemma vm_small_tree: "tree vm_small 0 = {0}"
  using vm_small_tab tree_root [of 0 vm_small] by (auto simp: tree_def split: if_splits)

lemma pmm_eight_free: "free_frames pmm_eight = {1, 2, 3, 4, 6, 7}"
proof -
  have "free_frames pmm_eight = Set.filter (\<lambda>n. \<not> used pmm_eight n) (set [0 ..< 8])"
    by (auto simp: free_frames_def nframes_def pmm_eight_def)
  also have "\<dots> = {1, 2, 3, 4, 6, 7}" by (simp add: used_def pmm_eight_def upt_rec) auto
  finally show ?thesis .
qed

lemma pmm_eight_inv: "pmm_inv pmm_eight"
  unfolding pmm_inv_def pmm_eight_free by (auto simp: pmm_eight_def nframes_def used_def)

lemma vm_small_wf: "as_wf vm_small 0"
proof (rule as_wfI)
  show "4096 dvd unat t \<and> taken (frames vm_small) (unat t div 4096)" if "t \<in> tree vm_small 0" for t
    using that unfolding vm_small_tree by (simp add: vm_small_def taken_def pmm_eight_free)
qed (use vm_small_tab pmm_eight_inv in \<open>auto simp: vm_small_def entry_def not_present_zero split: if_splits\<close>)

lemmas vm_small_eval = Let_def PAGE_RW_def PAGE_USER_def vmm_map_page_into_def map_level_def vm_small_def alloc_frame_def
  pmm_alloc_frame_def pmm_alloc_from.simps pmm_eight_def is_used_def mark_used_def entry_def set_entry_def
  zero_table_def present_def frame_of_def pt_index_def PAGE_PRESENT_def PAGE_SIZE_def

theorem map_page_translates_witness:
  "\<exists>s'. vmm_map_page_into 0 0x400000 0x5000 7 vm_small = (0, s') \<and> as_wf s' 0 \<and>
     lookup s' 0 0x400123 = Some 0x5007 \<and> lookup s' 0 0x401000 = None"
proof -
  obtain rc s' where run: "vmm_map_page_into 0 0x400000 0x5000 7 vm_small = (rc, s')" by fastforce
  have "fst (vmm_map_page_into 0 0x400000 0x5000 7 vm_small) = 0"
    by (simp add: vm_small_eval)
  then have rc: "rc = 0" using run by simp
  have uv: "user_va 0x400000" "user_va 0x400123" "user_va 0x401000" by (simp_all add: user_va_def)
  have "lookup vm_small 0 0x401000 = None"
    using vm_small_tab [OF leaf_path(1) [OF uv(3)]] by (simp add: lookup_leaf leaf_path_def)
  then show ?thesis
    using map_page_translates [OF vm_small_wf uv(1) run] run rc uv(2,3)
    by (simp add: frame_of_def PAGE_PRESENT_def)
qed

text \<open>
  C21: a copy-on-write fault gives the faulting process a private writable page. For a page marked
  copy-on-write, whose frame is owned and is no page table: the fault is fatal only when the frame
  is shared and no frame is free; otherwise the page becomes writable, loses the mark and keeps its
  other flags, its frame has exactly one owner and the contents the old frame had, all other
  translations of the address space stay, and when the frame was shared the old one loses one
  reference and keeps its contents.
\<close>

theorem cow_fault_private:
  assumes "as_wf s r" and "user_va va" and "lookup s r va = Some e" and "e AND PAGE_COW \<noteq> 0"
    and "owned (frames s) (unat (frame_of e) div 4096)" and "frame_of e \<notin> tree s r"
  shows "case cow_fault va r s of
      None \<Rightarrow> pmm_refcount (frame_of e) (frames s) \<noteq> 1 \<and> free_frames (frames s) = {}
    | Some s' \<Rightarrow> as_wf s' r \<and> (\<exists>e'. lookup s' r va = Some e' \<and> bit e' 1 \<and> e' AND PAGE_COW = 0 \<and>
        (\<forall>n < 12. n \<noteq> 1 \<and> n \<noteq> 9 \<longrightarrow> bit e' n = bit e n) \<and>
        pmm_refcount (frame_of e') (frames s') = 1 \<and>
        (\<forall>k < 4096. page_word s' (frame_of e') k = page_word s (frame_of e) k \<and>
                     page_word s' (frame_of e) k = page_word s (frame_of e) k) \<and>
        (frame_of e' \<noteq> frame_of e \<longrightarrow>
           pmm_refcount (frame_of e) (frames s') = pmm_refcount (frame_of e) (frames s) - 1)) \<and>
        (\<forall>va'. user_va va' \<and> frame_of va' \<noteq> frame_of va \<longrightarrow> lookup s' r va' = lookup s r va')"
proof -
  let ?p = "frame_of e" and ?fl = "(e AND 0xFFF) AND NOT PAGE_COW"
  have p: "4096 dvd unat ?p" by (rule frame_of_dvd)
  obtain pt where pt: "tab s r (leaf_path va) = Some pt" "pt \<in> tree s r" "present e"
    "cow_fault va r s =
      (if pmm_refcount ?p (frames s) = 1 then Some (set_entry pt (pt_index va 12) (?p OR ?fl OR PAGE_RW) s)
       else case alloc_frame s of (f, t) \<Rightarrow>
         if f = 0 then None
         else Some (set_entry pt (pt_index va 12) (f OR ?fl OR PAGE_RW) (free_frame ?p (copy_frame f ?p t))))"
    by (rule cow_fault_at [OF assms(1-4)])
  have ptal: "4096 dvd unat pt" using as_wf_tree [OF assms(1) pt(2)] by simp
  note keep = page_word_set_entry [OF ptal _ _ pt_index_less]
  show ?thesis
  proof (cases "pmm_refcount ?p (frames s) = 1")
    case True
    note k = set_leaf [where v = "?p OR ?fl OR PAGE_RW", OF assms(1,2) pt(1)]
    note q = cow_private_entry [OF p pt(3)]
    have "pt \<noteq> ?p" using pt(2) assms(6) by auto
    then show ?thesis
      using True pt(4) k(1) k(2) [OF assms(2)] k(2) q keep [OF p]
      by (simp add: ext_def frame_simps page_cow_bit)
  next
    case False
    have cnt: "g_refcount (frames s) (unat ?p div 4096) \<noteq> 1"
      using False pmm_refcount_owned [OF assms(5)] by simp
    obtain f t where f: "alloc_frame s = (f, t)" by fastforce
    show ?thesis
    proof (cases "f = 0")
      case True
      then show ?thesis using False pt(4) f alloc_frame_none [of s] assms(1) by (simp add: as_wf_def)
    next
      case nz: False
      let ?c = "free_frame ?p (copy_frame f ?p t)"
      note c = cow_copy_step [OF assms(1,5,6) p cnt f nz]
      note q = cow_private_entry [OF c(5) pt(3)]
      have ptc: "tab ?c r (leaf_path va) = Some pt" using c(2) [OF leaf_path(1) [OF assms(2)]] pt(1) by simp
      note k = set_leaf [where v = "f OR ?fl OR PAGE_RW", OF c(1) assms(2) ptc]
      have ne: "pt \<noteq> ?p" "pt \<noteq> f" using pt(2) assms(6) c(6) by auto
      show ?thesis
        using False pt(4) f nz k(1) k(2) [OF assms(2)] k(2) q c(4,8-11) keep [OF p ne(1)] keep [OF c(5) ne(2)]
        by (simp add: ext_def frame_simps page_cow_bit)
    qed
  qed
qed

lemma cow_example:
  assumes "vmm_map_page_into 0 0x400000 0x5000 0x204 vm_small = (rc, s)"
  shows "as_wf s 0" "lookup s 0 0x400123 = Some 0x5205" "owned (frames s) 5" "0x5000 \<notin> tree s 0" "free_frames (frames s) \<noteq> {}"
proof -
  have uv: "user_va 0x400000" "user_va 0x400123" by (simp_all add: user_va_def)
  have "fst (vmm_map_page_into 0 0x400000 0x5000 0x204 vm_small) = 0" by (simp add: vm_small_eval)
  then have rc: "rc = 0" using assms by simp
  have "frames (snd (vmm_map_page_into 0 0x400000 0x5000 0x204 vm_small)) =
    \<lparr>g_bitmap = (\<lambda>_. 0x21)(0 := 0x2F), g_refcount = (\<lambda>_. 0)(5 := 2, 1 := 1, 2 := 1, 3 := 1), g_nframes = 8, g_free = 3\<rparr>"
    by (simp add: vm_small_eval)
  then have fr: "frames s = \<lparr>g_bitmap = (\<lambda>_. 0x21)(0 := 0x2F), g_refcount = (\<lambda>_. 0)(5 := 2, 1 := 1, 2 := 1, 3 := 1), g_nframes = 8, g_free = 3\<rparr>"
    using assms by simp
  note k = map_page_into_cases [OF vm_small_wf uv(1) assms]
  show "as_wf s 0" using k by (simp add: ext_def)
  show "lookup s 0 0x400123 = Some 0x5205" using k rc uv by (simp add: frame_of_def PAGE_PRESENT_def)
  show "owned (frames s) 5" unfolding fr by (simp add: owned_def nframes_def used_def)
  have "taken (frames vm_small) 5" by (simp add: vm_small_def taken_def pmm_eight_free)
  then show "0x5000 \<notin> tree s 0" using k vm_small_tree by (auto simp: ext_def)
  have "4 \<in> free_frames (frames s)" unfolding fr by (simp add: free_frames_def nframes_def used_def)
  then show "free_frames (frames s) \<noteq> {}" by blast
qed

theorem cow_fault_private_witness:
  "\<exists>s s' e. vmm_map_page_into 0 0x400000 0x5000 0x204 vm_small = (0, s) \<and> cow_fault 0x400123 0 s = Some s' \<and>
     lookup s' 0 0x400123 = Some e \<and> bit e 1 \<and> e AND PAGE_COW = 0 \<and> pmm_refcount (frame_of e) (frames s') = 1"
proof -
  obtain rc s where run: "vmm_map_page_into 0 0x400000 0x5000 0x204 vm_small = (rc, s)" by fastforce
  have "fst (vmm_map_page_into 0 0x400000 0x5000 0x204 vm_small) = 0" by (simp add: vm_small_eval)
  then have rc: "rc = 0" using run by simp
  note k = cow_example [OF run]
  have uv: "user_va 0x400123" by (simp add: user_va_def)
  have fo: "frame_of 0x5205 = 0x5000" "(0x5205 :: u64) AND PAGE_COW \<noteq> 0" by (simp_all add: frame_of_def PAGE_COW_def)
  show ?thesis
    using cow_fault_private [OF k(1) uv k(2) fo(2), unfolded fo(1)] k(3-5) run rc
    by (cases "cow_fault 0x400123 0 s") auto
qed

end
