(* ===== verification/Cow.thy ===== *)
theory Cow
  imports Vmm
begin

text \<open>
  What the copy-on-write fork of src/src/mm/virt/vmm.c establishes. \<open>vmm_cow_user_space\<close> walks the
  user half of the parent, page by page in the order of the virtual addresses; the invariant
  \<open>cow_inv\<close> says what parent and child translate to when the pages below a page number are done.
\<close>

section \<open>Page numbers\<close>

definition page_no :: "u64 \<Rightarrow> nat" where
  "page_no va = unat va div 4096"

lemma pt_index_unat: "pt_index va sh = unat va div 2 ^ sh mod 512"
proof -
  have "pt_index va sh = unat (drop_bit sh va) mod 512"
    using word_and_mask_unat [of "drop_bit sh va" 9] by (simp add: pt_index_def mask_eq_exp_minus_1)
  then show ?thesis by (simp only: unat_drop_bit_eq) (simp only: drop_bit_eq_div)
qed

lemma page_no_index:
  assumes "user_va va"
  shows "page_no va = 262144 * pt_index va 30 + 512 * pt_index va 21 + pt_index va 12"
proof -
  have "unat va div 2 ^ 21 = page_no va div 512" "unat va div 2 ^ 30 = page_no va div 262144"
    by (simp_all add: page_no_def flip: div_mult2_eq)
  moreover have "page_no va div 262144 < 512"
    using assms by (simp add: user_va_def page_no_def flip: div_mult2_eq)
  moreover have "page_no va div 262144 = page_no va div 512 div 512" by (simp flip: div_mult2_eq)
  moreover have "n = 262144 * (n div 512 div 512) + 512 * (n div 512 mod 512) + n mod 512" for n :: nat
    using div_mult_mod_eq [of n 512] div_mult_mod_eq [of "n div 512" 512] by linarith
  ultimately show ?thesis by (simp add: pt_index_unat) (simp add: page_no_def)
qed

lemma page_no_frame: "page_no va = page_no va' \<longleftrightarrow> frame_of va = frame_of va'"
proof -
  have "unat (frame_of e) = 4096 * page_no e" for e
  proof -
    have "frame_of e = e AND NOT (mask 12)" by (simp add: frame_of_def mask_eq_exp_minus_1)
    then have "unat (frame_of e) = unat e - unat e mod 4096"
      by (simp only: word_and_not_mask_unat) simp
    then show ?thesis by (simp add: page_no_def minus_mod_eq_mult_div)
  qed
  then show ?thesis by (auto simp: word_unat_eq_iff)
qed

lemma bit_index: "x < 512 \<Longrightarrow> bit (x :: nat) n \<Longrightarrow> n < 9"
proof (rule ccontr)
  assume x: "x < 512" "bit x n" "\<not> n < 9"
  then have "(2 :: nat) ^ 9 \<le> 2 ^ n" by (intro power_increasing) auto
  then show False using x by (simp add: bit_iff_odd)
qed

lemma unat_leaf_va:
  assumes "a < 512" "b < 512" "c < 512"
  shows "unat (leaf_va a b c) = 2 ^ 30 * a + 2 ^ 21 * b + 2 ^ 12 * c"
proof -
  let ?n = "push_bit 30 a OR push_bit 21 b OR push_bit 12 c :: nat"
  have 1: "push_bit 30 a OR push_bit 21 b = push_bit 30 a + push_bit 21 b"
    by (rule disjunctive_add [symmetric]) (use bit_index [OF assms(2)] in \<open>fastforce simp: bit_push_bit_iff_nat\<close>)
  have "(push_bit 30 a OR push_bit 21 b) OR push_bit 12 c = (push_bit 30 a OR push_bit 21 b) + push_bit 12 c"
    by (rule disjunctive_add [symmetric]) (use bit_index [OF assms(3)] in \<open>fastforce simp: bit_push_bit_iff_nat bit_or_iff\<close>)
  then have n: "?n = 2 ^ 30 * a + 2 ^ 21 * b + 2 ^ 12 * c"
    unfolding or.assoc [symmetric] 1 by (simp only: push_bit_eq_mult mult.commute)
  have "leaf_va a b c = of_nat ?n"
    by (simp only: leaf_va_def of_nat_or_eq push_bit_of_nat)
  moreover have "?n < 2 ^ 64" unfolding n using assms by simp
  ultimately have "unat (leaf_va a b c) = ?n" by (simp only: unat_of_nat) simp
  then show ?thesis unfolding n .
qed

lemma leaf_va_index:
  assumes "a < 512" "b < 512" "c < 512"
  shows "user_va (leaf_va a b c)" "pt_index (leaf_va a b c) 30 = a"
    "pt_index (leaf_va a b c) 21 = b" "pt_index (leaf_va a b c) 12 = c"
proof -
  show "user_va (leaf_va a b c)" unfolding user_va_def unat_leaf_va [OF assms] using assms by simp
  have "(2 ^ 30 * a + 2 ^ 21 * b + 2 ^ 12 * c) div 2 ^ 21 = 512 * a + b"
    "(2 ^ 30 * a + 2 ^ 21 * b + 2 ^ 12 * c) div 2 ^ 12 = 512 * (512 * a + b) + c"
    using assms by simp_all
  then show "pt_index (leaf_va a b c) 30 = a" "pt_index (leaf_va a b c) 21 = b" "pt_index (leaf_va a b c) 12 = c"
    unfolding pt_index_unat unat_leaf_va [OF assms] using assms by (simp_all only: mod_mult_self4) simp_all
qed

section \<open>One page\<close>

text \<open>The entry both sides hold for a page that is shared: the same frame, not writable, marked.\<close>

definition cowed :: "u64 \<Rightarrow> u64" where
  "cowed e = frame_of e OR ((e AND 0xFFF) AND NOT PAGE_RW) OR PAGE_COW"

lemma cowed_child:
  assumes "present e"
  shows "frame_of (frame_of e) OR (((((e AND 0xFFF) AND NOT PAGE_RW) OR PAGE_COW) AND NOT PAGE_PRESENT) AND 0xFFF) OR PAGE_PRESENT = cowed e"
  using assms unfolding cowed_def present_bit
  by (intro bit_eqI) (unfold bit_or_iff bit_and_iff bit_not_iff bit_low12 bit_frame_of PAGE_RW_def PAGE_COW_def PAGE_PRESENT_def bit_flags, auto)

lemma bit_cowed: "bit (cowed e) n \<longleftrightarrow> n \<noteq> 1 \<and> bit e n \<or> n = 9"
  unfolding cowed_def bit_or_iff bit_and_iff bit_not_iff bit_low12 bit_frame_of PAGE_RW_def PAGE_COW_def bit_flags
  by (auto dest: bit_imp_le_length)

lemma cowed_simps: "present (cowed e) = present e" "frame_of (cowed e) = frame_of e"
  "cowed e AND PAGE_COW \<noteq> 0" "\<not> bit (cowed e) 1"
  using frame_of_eqI [of "cowed e" e]
  by (auto simp: present_bit bit_cowed page_cow_bit dest: bit_imp_le_length)

lemma owned_keep:
  "(\<And>n. taken s n \<Longrightarrow> taken t n \<and> g_refcount t n = g_refcount s n) \<Longrightarrow> nframes t = nframes s \<Longrightarrow> owned s n \<Longrightarrow> owned t n"
  using owned_taken [of s n] by (auto simp: owned_def taken_def free_frames_def)

lemma ext_cell: "ext r s s' \<Longrightarrow> pmem s' c \<noteq> pmem s c \<Longrightarrow> \<exists>t \<in> tree s' r. in_frame c t"
  unfolding ext_def by blast

text \<open>A step inside one address space keeps every other one that shares no table with it.\<close>

lemma ext_other:
  assumes x: "ext d s s'" and wf: "as_wf s r" "as_wf s d" and dis: "tree s r \<inter> tree s d = {}"
  shows "as_wf s' r" "upath js \<Longrightarrow> tab s' r js = tab s r js" "tree s' r = tree s r"
    "user_va va \<Longrightarrow> lookup s' r va = lookup s r va" "tree s' r \<inter> tree s' d = {}"
proof -
  have wd: "as_wf s' d" using x by (simp add: ext_def)
  have sep: "t \<notin> tree s' d" if "t \<in> tree s r" for t
    using x that dis as_wf_tree [OF wf(1) that] unfolding ext_def by blast
  have "entry s' t i = entry s t i" if t: "t \<in> tree s r" "i < 512" for t i
  proof (rule entry_outside [OF _ t(2)])
    fix c assume "pmem s' c \<noteq> pmem s c"
    then obtain y where y: "y \<in> tree s' d" "in_frame c y" using x unfolding ext_def by blast
    show "\<not> in_frame c t"
      using in_frame_unique [of t y c] y as_wf_tree [OF wf(1) t(1)] as_wf_tree [OF wd y(1)] sep [OF t(1)] by auto
  qed
  note k = as_frame [OF wf(1) this]
  have "pmm_inv (frames s')" "\<And>t. t \<in> tree s r \<Longrightarrow> taken (frames s') (unat t div 4096)"
    using wd x as_wf_tree [OF wf(1)] by (auto simp: as_wf_def ext_def)
  note k = k [OF _ _ this]
  show "as_wf s' r" "upath js \<Longrightarrow> tab s' r js = tab s r js" "tree s' r = tree s r"
    "user_va va \<Longrightarrow> lookup s' r va = lookup s r va" using k by simp_all
  then show "tree s' r \<inter> tree s' d = {}" using sep by auto
qed

text \<open>Taking another reference changes no translation.\<close>

lemma addref_as:
  assumes wf: "as_wf s r" and own: "owned (frames s) (unat p div 4096)"
  defines "s' \<equiv> s\<lparr>frames := pmm_addref p (frames s)\<rparr>"
  shows "as_wf s' r" "upath js \<Longrightarrow> tab s' r js = tab s r js" "tree s' r = tree s r" "user_va va \<Longrightarrow> lookup s' r va = lookup s r va"
    "owned (frames s) n \<Longrightarrow> owned (frames s') n" "taken (frames s') = taken (frames s)"
proof -
  have n: "unat p div 4096 < nframes (frames s)" using own by (simp add: owned_def)
  note e = pmm_addref_effect [OF refl n]
  show tk: "taken (frames s') = taken (frames s)"
    using e by (auto simp: s'_def taken_def free_frames_def fun_eq_iff)
  have "0 < g_refcount (frames s) m \<Longrightarrow> g_refcount (frames s) m < 255 \<Longrightarrow> 0 < g_refcount (frames s) m + 1" for m
    by (simp add: word_less_nat_alt unat_word_ariths)
  then show "owned (frames s) n \<Longrightarrow> owned (frames s') n"
    using e by (auto simp: s'_def owned_def)
  have inv: "pmm_inv (frames s')"
    using pmm_addref_inv [OF _ own] wf by (simp add: s'_def as_wf_def)
  have "\<And>t i. t \<in> tree s r \<Longrightarrow> i < 512 \<Longrightarrow> entry s' t i = entry s t i" by (simp add: s'_def entry_def)
  note k = as_frame [OF wf this inv, unfolded tk]
  show "as_wf s' r" "upath js \<Longrightarrow> tab s' r js = tab s r js" "tree s' r = tree s r" "user_va va \<Longrightarrow> lookup s' r va = lookup s r va"
    using k as_wf_tree [OF wf] by simp_all
qed

section \<open>The walk\<close>

definition pages_owned :: "vm \<Rightarrow> u64 \<Rightarrow> bool" where
  "pages_owned s r \<longleftrightarrow>
     (\<forall>va e. user_va va \<and> lookup s r va = Some e \<longrightarrow> owned (frames s) (unat (frame_of e) div 4096))"

lemma pages_ownedD: "pages_owned s r \<Longrightarrow> user_va va \<Longrightarrow> lookup s r va = Some e \<Longrightarrow> owned (frames s) (unat (frame_of e) div 4096)"
  by (simp add: pages_owned_def)

text \<open>
  When the pages below \<open>k\<close> are done: both address spaces are well-formed and share no table, the
  tables of the parent are those it had, done pages translate alike on both sides and all other
  pages are as before; only table frames were written.
\<close>

definition cow_inv :: "vm \<Rightarrow> u64 \<Rightarrow> u64 \<Rightarrow> nat \<Rightarrow> vm \<Rightarrow> bool" where
  "cow_inv s0 src dst k s \<longleftrightarrow>
     as_wf s src \<and> as_wf s dst \<and> tree s src \<inter> tree s dst = {} \<and>
     (\<forall>js. upath js \<longrightarrow> tab s src js = tab s0 src js) \<and>
     (\<forall>va. user_va va \<longrightarrow>
        lookup s src va = (if page_no va < k then map_option cowed (lookup s0 src va) else lookup s0 src va) \<and>
        lookup s dst va = (if page_no va < k then map_option cowed (lookup s0 src va) else None)) \<and>
     (\<forall>n. owned (frames s0) n \<longrightarrow> owned (frames s) n) \<and>
     (\<forall>n. taken (frames s0) n \<longrightarrow> taken (frames s) n) \<and>
     (\<forall>t \<in> tree s dst. t \<in> tree s0 dst \<or> \<not> taken (frames s0) (unat t div 4096)) \<and>
     (\<forall>c. pmem s c \<noteq> pmem s0 c \<longrightarrow> (\<exists>t \<in> tree s src \<union> tree s dst. in_frame c t))"

lemma cow_inv_tab: "cow_inv s0 src dst k s \<Longrightarrow> upath js \<Longrightarrow> tab s src js = tab s0 src js"
  by (simp add: cow_inv_def)

lemma cow_inv_skip:
  assumes "cow_inv s0 src dst k s" "k \<le> k'"
    and "\<And>va. user_va va \<Longrightarrow> k \<le> page_no va \<Longrightarrow> page_no va < k' \<Longrightarrow> lookup s0 src va = None"
  shows "cow_inv s0 src dst k' s"
proof -
  have "lookup s src va = (if page_no va < k' then map_option cowed (lookup s0 src va) else lookup s0 src va) \<and>
      lookup s dst va = (if page_no va < k' then map_option cowed (lookup s0 src va) else None)" if v: "user_va va" for va
    using assms(1) v assms(3) [OF v] assms(2) unfolding cow_inv_def by (cases "page_no va < k") auto
  then show ?thesis using assms(1) unfolding cow_inv_def by blast
qed

lemma cow_leaf_step:
  assumes I: "cow_inv s0 src dst (page_no va) s" and va: "user_va va"
    and own: "pages_owned s0 src"
    and pt: "tab s src (leaf_path va) = Some spt" "present (entry s spt (pt_index va 12))"
    and run: "cow_leaf dst va spt (pt_index va 12) s = (True, s3)"
  shows "cow_inv s0 src dst (Suc (page_no va)) s3"
proof -
  define e where "e = entry s spt (pt_index va 12)"
  define s1 where "s1 = set_entry spt (pt_index va 12) (cowed e) s"
  have wf: "as_wf s src" "as_wf s dst" "tree s src \<inter> tree s dst = {}" using I by (simp_all add: cow_inv_def)
  have look: "lookup s src va = Some e" using pt by (simp add: lookup_leaf e_def)
  then have e0: "lookup s0 src va = Some e" using I va by (simp add: cow_inv_def)
  have pe: "present e" using pt(2) by (simp add: e_def)
  obtain s2 where map: "vmm_map_page_into dst va (frame_of e)
      (((((e AND 0xFFF) AND NOT PAGE_RW) OR PAGE_COW)) AND NOT PAGE_PRESENT) s1 = (0, s2)"
    and s3: "s3 = s2\<lparr>frames := pmm_addref (frame_of e) (frames s2)\<rparr>"
    using run by (auto simp: cow_leaf_def Let_def e_def [symmetric] s1_def cowed_def or.assoc split: prod.splits if_splits)
  note a = set_leaf [where v = "cowed e", OF wf(1) va pt(1), folded s1_def]
  have "tree s dst \<inter> tree s src = {}" using wf(3) by auto
  note a'' = ext_other [OF a(1) wf(2,1) this]
  have w1: "as_wf s1 src" using a(1) by (simp add: ext_def)
  note b = map_page_into_cases [OF a''(1) va map, unfolded cowed_child [OF pe]]
  have b1: "ext dst s1 s2" using b by blast
  have b2: "lookup s2 dst va' = (if frame_of va' = frame_of va then Some (cowed e) else lookup s dst va')" if "user_va va'" for va'
    using b a''(4) that by auto
  note c = ext_other [OF b1 w1 a''(1)]
  have dis: "tree s1 src \<inter> tree s1 dst = {}" using a''(5) by auto
  note c = c [OF dis]
  have own2: "owned (frames s2) n" if "owned (frames s0) n" for n
  proof -
    have "owned (frames s) n" using I that by (simp add: cow_inv_def)
    then have "owned (frames s1) n" by (simp add: s1_def frame_simps)
    then show ?thesis using owned_keep [of "frames s1" "frames s2"] b1 unfolding ext_def by blast
  qed
  have w2: "as_wf s2 dst" using b1 by (simp add: ext_def)
  have ow: "owned (frames s2) (unat (frame_of e) div 4096)" using own2 pages_ownedD [OF own va e0] by blast
  note d = addref_as [OF c(1) ow, folded s3] and d' = addref_as [OF w2 ow, folded s3]
  have t1: "tree s1 src = tree s src" using a(3) by (auto simp: tree_def)
  have page: "page_no va' < Suc (page_no va) \<longleftrightarrow> frame_of va' = frame_of va \<or> page_no va' < page_no va"
    and ne: "page_no va' < page_no va \<Longrightarrow> frame_of va' \<noteq> frame_of va" for va'
    using page_no_frame [of va' va] by auto
  have "lookup s3 src va' = (if page_no va' < Suc (page_no va) then map_option cowed (lookup s0 src va') else lookup s0 src va') \<and>
      lookup s3 dst va' = (if page_no va' < Suc (page_no va) then map_option cowed (lookup s0 src va') else None)"
    if v: "user_va va'" for va'
  proof -
    have same: "lookup s0 src va' = Some e" if "frame_of va' = frame_of va"
    proof -
      have "leaf_path va' = leaf_path va" "pt_index va' 12 = pt_index va 12" using same_page [OF va v] that by auto
      then show ?thesis using e0 by (simp only: lookup_leaf)
    qed
    have "lookup s3 src va' = (if frame_of va' = frame_of va then Some (cowed e) else lookup s src va')"
      using d(4) [OF v] c(4) [OF v] a(2) [OF v] by (simp add: cowed_simps pe)
    moreover have "lookup s3 dst va' = (if frame_of va' = frame_of va then Some (cowed e) else lookup s dst va')"
      using d'(4) [OF v] b2 [OF v] by simp
    moreover have "lookup s src va' = (if page_no va' < page_no va then map_option cowed (lookup s0 src va') else lookup s0 src va') \<and>
      lookup s dst va' = (if page_no va' < page_no va then map_option cowed (lookup s0 src va') else None)"
      using I v by (simp add: cow_inv_def)
    ultimately show ?thesis using same ne [of va'] unfolding page by auto
  qed
  moreover have "upath js \<longrightarrow> tab s3 src js = tab s0 src js" for js
    using d(2) c(2) a(3) I by (simp add: cow_inv_def)
  moreover have "taken (frames s0) n \<longrightarrow> taken (frames s3) n" for n
    using I b1 d(6) unfolding cow_inv_def ext_def s1_def frame_simps by auto
  moreover have "t \<in> tree s0 dst \<or> \<not> taken (frames s0) (unat t div 4096)" if "t \<in> tree s3 dst" for t
    using that I b1 a''(3) d'(3) unfolding cow_inv_def ext_def s1_def frame_simps by metis
  moreover have "\<exists>t \<in> tree s3 src \<union> tree s3 dst. in_frame x t" if x: "pmem s3 x \<noteq> pmem s0 x" for x
  proof -
    have "pmem s3 x = pmem s2 x" by (simp add: s3)
    then consider "pmem s2 x \<noteq> pmem s1 x" | "pmem s1 x \<noteq> pmem s x" | "pmem s x \<noteq> pmem s0 x" using x by metis
    moreover have "tree s dst \<subseteq> tree s2 dst" using b1 a''(3) unfolding ext_def tree_def by blast
    ultimately show ?thesis
    proof cases
      case 1
      then show ?thesis using ext_cell [OF b1] d'(3) by blast
    next
      case 2
      then show ?thesis using ext_cell [OF a(1)] d(3) c(3) by blast
    next
      case 3
      then have "\<exists>t \<in> tree s src \<union> tree s dst. in_frame x t" using I unfolding cow_inv_def by blast
      then show ?thesis using t1 c(3) d(3) d'(3) \<open>tree s dst \<subseteq> tree s2 dst\<close> by blast
    qed
  qed
  ultimately show ?thesis
    using d(1,5) d'(1) c(5) d(3) d'(3) own2 unfolding cow_inv_def by blast
qed

lemma tab_pair: "tab s r [i, j] = (case tab s r [i] of None \<Rightarrow> None | Some t \<Rightarrow> nxt s t j)"
  using tab_snoc [of s r "[i]" j] by simp

lemma tab_triple: "tab s r [i, j, k] = (case tab s r [i, j] of None \<Rightarrow> None | Some t \<Rightarrow> nxt s t k)"
  using tab_snoc [of s r "[i, j]" k] by simp

lemma no_table:
  assumes "user_va va" shows
    "tab s r [0] = None \<Longrightarrow> lookup s r va = None"
    "tab s r [0, pt_index va 30] = None \<Longrightarrow> lookup s r va = None"
    "tab s r [0, pt_index va 30, pt_index va 21] = None \<Longrightarrow> lookup s r va = None"
  unfolding lookup_leaf leaf_path_def user_va_top [OF assms] tab_triple tab_pair by simp_all

text \<open>The page numbers below one entry of each level.\<close>

lemma page_block:
  assumes "user_va va"
  shows "262144 * a \<le> page_no va \<Longrightarrow> page_no va < 262144 * Suc a \<Longrightarrow> pt_index va 30 = a"
    and "262144 * a + 512 * b \<le> page_no va \<Longrightarrow> page_no va < 262144 * a + 512 * Suc b \<Longrightarrow> b < 512 \<Longrightarrow> pt_index va 30 = a \<and> pt_index va 21 = b"
proof -
  note p = page_no_index [OF assms] and b = pt_index_less [of va 30] pt_index_less [of va 21] pt_index_less [of va 12]
  have lo: "512 * pt_index va 21 + pt_index va 12 < 262144" using b by linarith
  show r: "pt_index va 30 = a" if h: "262144 * a \<le> page_no va" "page_no va < 262144 * Suc a" for a
  proof -
    have "a < Suc (pt_index va 30)" "pt_index va 30 < Suc a" using h p lo by simp_all
    then show ?thesis by simp
  qed
  show "pt_index va 30 = a \<and> pt_index va 21 = b"
    if h: "262144 * a + 512 * b \<le> page_no va" "page_no va < 262144 * a + 512 * Suc b" "b < 512"
  proof -
    have e: "pt_index va 30 = a" using r [of a] h by simp
    have "b < Suc (pt_index va 21)" "pt_index va 21 < Suc b" using h p b(3) unfolding e by simp_all
    then show ?thesis using e by simp
  qed
qed

lemma upaths: "upath [0]" "a < 512 \<Longrightarrow> upath [0, a]" "a < 512 \<Longrightarrow> b < 512 \<Longrightarrow> upath [0, a, b]"
  by (auto simp: upath_def)

lemma cow_pages:
  assumes I: "cow_inv s0 src dst (262144 * a + 512 * b) s" and i: "a < 512" "b < 512"
    and own: "pages_owned s0 src"
    and pt: "tab s0 src [0, a, b] = Some spt"
    and run: "for_range 0 ENTRIES (\<lambda>i1 s. if \<not> present (entry s spt i1) then (True, s)
        else cow_leaf dst (leaf_va a b i1) spt i1 s) s = (ok, t)" and ok
  shows "cow_inv s0 src dst (262144 * a + 512 * Suc b) t"
proof -
  let ?P = "\<lambda>c. cow_inv s0 src dst (262144 * a + 512 * b + c)"
  have "if ok then ?P (0 + ENTRIES) t else True"
  proof (rule for_range_cases [OF _ run])
    fix c u v d
    assume c: "c < 0 + ENTRIES" and P: "?P c u"
      and step: "(if \<not> present (entry u spt c) then (True, u) else cow_leaf dst (leaf_va a b c) spt c u) = (d, v)"
    have cl: "c < 512" using c by (simp add: ENTRIES_def)
    note l = leaf_va_index [OF i cl] and pn = page_no_index [OF leaf_va_index(1) [OF i cl]]
    have lp: "leaf_path (leaf_va a b c) = [0, a, b]" using l by (simp add: leaf_path_def user_va_top)
    have tu: "tab u src [0, a, b] = Some spt" using cow_inv_tab [OF P upaths(3) [OF i]] pt by simp
    show "if d then ?P (Suc c) v else True"
    proof (cases "present (entry u spt c)")
      case True
      have pc: "page_no (leaf_va a b c) = 262144 * a + 512 * b + c" using pn l by simp
      have "?P (Suc c) v" if d
      proof -
        have "cow_leaf dst (leaf_va a b c) spt (pt_index (leaf_va a b c) 12) u = (True, v)"
          using step True that l(4) by simp
        then have "cow_inv s0 src dst (Suc (page_no (leaf_va a b c))) v"
          by (rule cow_leaf_step [rotated 5]) (use P l(1,4) own tu True in \<open>simp_all add: pc lp\<close>)
        then show ?thesis by (simp add: pc)
      qed
      then show ?thesis by simp
    next
      case False
      have "lookup u src va = None" if va: "user_va va" "page_no va = 262144 * a + 512 * b + c" for va
      proof -
        have "frame_of va = frame_of (leaf_va a b c)" using va(2) page_no_frame [of va "leaf_va a b c"] by (simp add: pn l)
        then have "leaf_path va = [0, a, b]" "pt_index va 12 = c" using same_page [OF l(1) va(1)] lp l(4) by auto
        then show ?thesis using tu False by (simp add: lookup_leaf)
      qed
      moreover have "lookup u src va = lookup s0 src va" if "user_va va" "page_no va = 262144 * a + 512 * b + c" for va
        using P that by (simp add: cow_inv_def)
      ultimately have "?P (Suc c) u"
        using cow_inv_skip [OF P, of "262144 * a + 512 * b + Suc c"] by (metis add_Suc_right le_SucI le_refl le_antisym less_Suc_eq_le)
      then show ?thesis using step False by auto
    qed
  qed (use I in simp)
  then show ?thesis using \<open>ok\<close> by (simp add: ENTRIES_def add.commute add.left_commute)
qed

lemma cow_tables:
  assumes I: "cow_inv s0 src dst (262144 * a) s" and i: "a < 512"
    and own: "pages_owned s0 src"
    and pd: "tab s0 src [0, a] = Some spd"
    and run: "for_range 0 ENTRIES (\<lambda>i2 s.
        if \<not> present (entry s spd i2) \<or> entry s spd i2 AND PAGE_PS \<noteq> 0 then (True, s)
        else let spt = frame_of (entry s spd i2) in
          for_range 0 ENTRIES (\<lambda>i1 s. if \<not> present (entry s spt i1) then (True, s)
            else cow_leaf dst (leaf_va a i2 i1) spt i1 s) s) s = (ok, t)" and ok
  shows "cow_inv s0 src dst (262144 * Suc a) t"
proof -
  let ?P = "\<lambda>b. cow_inv s0 src dst (262144 * a + 512 * b)"
  have "if ok then ?P (0 + ENTRIES) t else True"
  proof (rule for_range_cases [OF _ run])
    fix b u v d
    assume b: "b < 0 + ENTRIES" and P: "?P b u"
      and step: "(if \<not> present (entry u spd b) \<or> entry u spd b AND PAGE_PS \<noteq> 0 then (True, u)
        else let spt = frame_of (entry u spd b) in
          for_range 0 ENTRIES (\<lambda>i1 s. if \<not> present (entry s spt i1) then (True, s)
            else cow_leaf dst (leaf_va a b i1) spt i1 s) u) = (d, v)"
    have bl: "b < 512" using b by (simp add: ENTRIES_def)
    have tu: "tab u src [0, a] = Some spd" "tab u src [0, a, b] = tab s0 src [0, a, b]"
      using cow_inv_tab [OF P upaths(2) [OF i]] cow_inv_tab [OF P upaths(3) [OF i bl]] pd by simp_all
    have nx: "tab s0 src [0, a, b] = nxt u spd b" 
      using tab_triple [of u src 0 a b] by (simp only: tu option.case)
    show "if d then ?P (Suc b) v else True"
    proof (cases "present (entry u spd b)")
      case True
      have "as_wf u src" using P by (simp add: cow_inv_def)
      then have "entry u spd b AND PAGE_PS = 0"
        using as_wf_small [of u src "[0, a]" b spd] upaths(3) [OF i bl] tu(1) True by simp
      then show ?thesis
        using step True cow_pages [OF P i bl own, of "frame_of (entry u spd b)" d v] nx
        by (auto simp: Let_def nxt_def)
    next
      case False
      then have "lookup s0 src va = None"
        if "user_va va" "262144 * a + 512 * b \<le> page_no va" "page_no va < 262144 * a + 512 * Suc b" for va
        using no_table(3) [OF that(1), of s0 src] page_block(2) [OF that bl] nx by (simp add: nxt_def)
      then have "?P (Suc b) u" using cow_inv_skip [OF P] by simp
      then show ?thesis using step False by auto
    qed
  qed (use I in simp)
  then show ?thesis using \<open>ok\<close> by (simp add: ENTRIES_def add.commute)
qed

lemma cow_walk:
  assumes I: "cow_inv s0 src dst 0 s0"
    and own: "pages_owned s0 src"
    and run: "walk_user src (cow_leaf dst) s0 = (ok, t)" and ok
  shows "cow_inv s0 src dst (2 ^ 27) t"
proof (cases "present (entry s0 src 0)")
  case False
  then have "tab s0 src [0] = None" by (simp add: nxt_def)
  then have "cow_inv s0 src dst (2 ^ 27) s0" using cow_inv_skip [OF I] no_table(1) by simp
  then show ?thesis using run False by (simp add: walk_user_def)
next
  case True
  let ?p = "frame_of (entry s0 src 0)" and ?P = "\<lambda>a. cow_inv s0 src dst (262144 * a)"
  have pdpt: "tab s0 src [0] = Some ?p" using True by (simp add: nxt_def)
  have loop: "for_range 0 ENTRIES (\<lambda>i3 s.
      if \<not> present (entry s ?p i3) then (True, s)
      else let spd = frame_of (entry s ?p i3) in for_range 0 ENTRIES (\<lambda>i2 s.
        if \<not> present (entry s spd i2) \<or> entry s spd i2 AND PAGE_PS \<noteq> 0 then (True, s)
        else let spt = frame_of (entry s spd i2) in
          for_range 0 ENTRIES (\<lambda>i1 s. if \<not> present (entry s spt i1) then (True, s)
            else cow_leaf dst (leaf_va i3 i2 i1) spt i1 s) s) s) s0 = (ok, t)"
    using run True by (simp add: walk_user_def Let_def)
  have "if ok then ?P (0 + ENTRIES) t else True"
  proof (rule for_range_cases [OF _ loop])
    fix a u v d
    assume a: "a < 0 + ENTRIES" and P: "?P a u"
      and step: "(if \<not> present (entry u ?p a) then (True, u)
        else let spd = frame_of (entry u ?p a) in for_range 0 ENTRIES (\<lambda>i2 s.
          if \<not> present (entry s spd i2) \<or> entry s spd i2 AND PAGE_PS \<noteq> 0 then (True, s)
          else let spt = frame_of (entry s spd i2) in
            for_range 0 ENTRIES (\<lambda>i1 s. if \<not> present (entry s spt i1) then (True, s)
              else cow_leaf dst (leaf_va a i2 i1) spt i1 s) s) u) = (d, v)"
    have al: "a < 512" using a by (simp add: ENTRIES_def)
    have tu: "tab u src [0] = Some ?p" "tab u src [0, a] = tab s0 src [0, a]"
      using cow_inv_tab [OF P upaths(1)] cow_inv_tab [OF P upaths(2) [OF al]] pdpt by simp_all
    have nx: "tab s0 src [0, a] = nxt u ?p a" 
      using tab_pair [of u src 0 a] by (simp only: tu option.case)
    show "if d then ?P (Suc a) v else True"
    proof (cases "present (entry u ?p a)")
      case True
      then show ?thesis
        using step cow_tables [OF P al own, of "frame_of (entry u ?p a)" d v] nx by (auto simp: Let_def nxt_def)
    next
      case False
      then have "lookup s0 src va = None"
        if "user_va va" "262144 * a \<le> page_no va" "page_no va < 262144 * Suc a" for va
        using no_table(2) [OF that(1), of s0 src] page_block(1) [OF that] nx by (simp add: nxt_def)
      then have "?P (Suc a) u" using cow_inv_skip [OF P] by simp
      then show ?thesis using step False by auto
    qed
  qed (use I in simp)
  then show ?thesis using \<open>ok\<close> by (simp add: ENTRIES_def)
qed

section \<open>The fork\<close>

lemma cow_fork:
  assumes wf: "as_wf s src" "as_wf s dst" "tree s src \<inter> tree s dst = {}"
    and new: "\<forall>va. user_va va \<longrightarrow> lookup s dst va = None"
    and own: "pages_owned s src"
    and run: "vmm_cow_user_space dst src s = (0, s')"
  shows "as_wf s' src \<and> as_wf s' dst \<and> tree s' src \<inter> tree s' dst = {} \<and>
    (\<forall>va. user_va va \<longrightarrow> lookup s' src va = map_option cowed (lookup s src va) \<and> lookup s' dst va = lookup s' src va) \<and>
    (\<forall>va e k. user_va va \<and> lookup s src va = Some e \<and> frame_of e \<notin> tree s src \<union> tree s dst \<and> k < 4096 \<longrightarrow>
       page_word s' (frame_of e) k = page_word s (frame_of e) k)"
proof -
  have I0: "cow_inv s src dst 0 s" using wf new by (simp add: cow_inv_def)
  have w: "walk_user src (cow_leaf dst) s = (True, s')"
    using run by (auto simp: vmm_cow_user_space_def split: prod.splits if_splits)
  have I: "cow_inv s src dst (2 ^ 27) s'" by (rule cow_walk [OF I0 own w]) simp
  have "page_no va < 2 ^ 27" if "user_va va" for va
    using that by (simp add: user_va_def page_no_def)
  then have look: "user_va va \<longrightarrow> lookup s' src va = map_option cowed (lookup s src va) \<and> lookup s' dst va = lookup s' src va" for va
    using I by (simp add: cow_inv_def)
  have tr: "tree s' src = tree s src" using I by (auto simp: cow_inv_def tree_def)
  have "page_word s' (frame_of e) k = page_word s (frame_of e) k"
    if h: "user_va va" "lookup s src va = Some e" "frame_of e \<notin> tree s src \<union> tree s dst" "k < 4096" for va e k
  proof (rule ccontr)
    assume ne: "page_word s' (frame_of e) k \<noteq> page_word s (frame_of e) k"
    obtain t where t: "t \<in> tree s' src \<union> tree s' dst" "in_frame (unat (frame_of e) + k) t"
      using I ne unfolding cow_inv_def page_word_def by blast
    have al: "4096 dvd unat t" using t(1) I as_wf_tree by (auto simp: cow_inv_def)
    have "in_frame (unat (frame_of e) + k) (frame_of e)" using h(4) by (simp add: in_frame_def)
    then have "t = frame_of e" using in_frame_unique [OF al frame_of_dvd t(2)] by simp
    then have "frame_of e \<in> tree s' dst" using t(1) h(3) tr by auto
    then have "\<not> taken (frames s) (unat (frame_of e) div 4096)" using I h(3) by (auto simp: cow_inv_def)
    then show False using owned_taken [OF pages_ownedD [OF own h(1,2)]] by simp
  qed
  then show ?thesis using I look by (auto simp: cow_inv_def)
qed

text \<open>
  C20: the copy-on-write fork. Let the parent \<open>src\<close> and the new address space \<open>dst\<close> be well-formed
  without common tables, \<open>dst\<close> without user pages, and every frame the parent maps owned. When
  \<open>vmm_cow_user_space\<close> returns 0, every user address translates in the child exactly as in the
  parent: to the frame the parent had mapped there, no longer writable and marked copy-on-write.
  Both address spaces are well-formed without common tables, and the contents of every mapped page
  that is no table are unchanged.
\<close>

theorem cow_fork_shares:
  assumes wf: "as_wf s src" "as_wf s dst" "tree s src \<inter> tree s dst = {}"
    and new: "\<forall>va. user_va va \<longrightarrow> lookup s dst va = None"
    and own: "pages_owned s src"
    and run: "vmm_cow_user_space dst src s = (0, s')"
  shows "as_wf s' src \<and> as_wf s' dst \<and> tree s' src \<inter> tree s' dst = {} \<and>
    (\<forall>va. user_va va \<longrightarrow> lookup s' src va = map_option cowed (lookup s src va) \<and> lookup s' dst va = lookup s' src va) \<and>
    (\<forall>va e k. user_va va \<and> lookup s src va = Some e \<and> frame_of e \<notin> tree s src \<union> tree s dst \<and> k < 4096 \<longrightarrow>
       page_word s' (frame_of e) k = page_word s (frame_of e) k)"
  by (rule cow_fork [OF assms])

text \<open>
  A parent at frame 0 with one writable page at 0x400000, in frame 5, and an empty child at frame 6.
\<close>

definition vm_fork :: vm where
  "vm_fork = \<lparr>pmem = (\<lambda>_. 0)(0 := 0x1007, 0x1000 := 0x2007, 0x2010 := 0x3007, 0x3000 := 0x5007),
     frames = \<lparr>g_bitmap = (\<lambda>_. 0x6F), g_refcount = (\<lambda>n. if n \<in> {1, 2, 3, 5, 6} then 1 else 0), g_nframes = 16, g_free = 10\<rparr>,
     g_kernel_pml4 = 0\<rparr>"

lemma vm_fork_free: "free_frames (frames vm_fork) = {4, 7, 8, 9, 10, 11, 12, 13, 14, 15}"
proof -
  have "filter (\<lambda>n. \<not> used (frames vm_fork) n) [0 ..< 16] = [4, 7, 8, 9, 10, 11, 12, 13, 14, 15]"
    by (simp add: used_def vm_fork_def upt_rec)
  moreover have "free_frames (frames vm_fork) = set (filter (\<lambda>n. \<not> used (frames vm_fork) n) [0 ..< 16])"
    by (auto simp: free_frames_def nframes_def vm_fork_def)
  ultimately show ?thesis by simp
qed

lemma vm_fork_inv: "pmm_inv (frames vm_fork)"
proof -
  have "n \<in> {4, 7, 8, 9, 10, 11, 12, 13, 14, 15}" if "n < nframes (frames vm_fork)" "\<not> used (frames vm_fork) n" for n
    using that vm_fork_free by (auto simp: free_frames_def)
  then show ?thesis
    unfolding pmm_inv_def vm_fork_free by (auto simp: vm_fork_def nframes_def used_def)
qed

lemma vm_fork_entry:
  assumes "i < 512"
  shows "entry vm_fork 0 i = (if i = 0 then 0x1007 else 0)" "entry vm_fork 0x1000 i = (if i = 0 then 0x2007 else 0)"
    "entry vm_fork 0x2000 i = (if i = 2 then 0x3007 else 0)" "entry vm_fork 0x3000 i = (if i = 0 then 0x5007 else 0)"
    "entry vm_fork 0x6000 i = 0"
  using assms unfolding entry_def vm_fork_def by simp_all

lemma vm_fork_nxt:
  assumes "i < 512"
  shows "nxt vm_fork 0 i = (if i = 0 then Some 0x1000 else None)" "nxt vm_fork 0x1000 i = (if i = 0 then Some 0x2000 else None)"
    "nxt vm_fork 0x2000 i = (if i = 2 then Some 0x3000 else None)" "nxt vm_fork 0x6000 i = None"
  unfolding nxt_def vm_fork_entry [OF assms] by (simp_all add: present_def PAGE_PRESENT_def frame_of_def)

lemma upath_cases:
  assumes "upath js" obtains "js = []" | "js = [0]" | a where "js = [0, a]" "a < 512" | a b where "js = [0, a, b]" "a < 512" "b < 512"
proof -
  consider "js = []" | i where "js = [i]" | i a where "js = [i, a]" | i a b where "js = [i, a, b]" | i a b c ks where "js = i # a # b # c # ks"
    by (metis neq_Nil_conv)
  then show thesis by cases (use assms that in \<open>auto simp: upath_def\<close>)
qed

lemma vm_fork_tab:
  assumes "upath js"
  shows "tab vm_fork 0 js = (if js = [] then Some 0 else if js = [0] then Some 0x1000
    else if js = [0, 0] then Some 0x2000 else if js = [0, 0, 2] then Some 0x3000 else None)"
    and "tab vm_fork 0x6000 js = (if js = [] then Some 0x6000 else None)"
  using assms by (auto elim!: upath_cases simp: vm_fork_nxt split: option.splits if_splits)

lemma vm_fork_wf:
  "tree vm_fork 0 \<subseteq> {0, 0x1000, 0x2000, 0x3000}" "tree vm_fork 0x6000 \<subseteq> {0x6000}" "as_wf vm_fork 0" "as_wf vm_fork 0x6000"
proof -
  show t0: "tree vm_fork 0 \<subseteq> {0, 0x1000, 0x2000, 0x3000}"
  proof
    fix t assume "t \<in> tree vm_fork 0"
    then obtain js where "upath js" "tab vm_fork 0 js = Some t" by (auto simp: tree_def)
    then show "t \<in> {0, 0x1000, 0x2000, 0x3000}" using vm_fork_tab(1) [of js] by (simp split: if_splits)
  qed
  show t6: "tree vm_fork 0x6000 \<subseteq> {0x6000}"
  proof
    fix t assume "t \<in> tree vm_fork 0x6000"
    then obtain js where "upath js" "tab vm_fork 0x6000 js = Some t" by (auto simp: tree_def)
    then show "t \<in> {0x6000}" using vm_fork_tab(2) [of js] by (simp split: if_splits)
  qed
  have tk: "taken (frames vm_fork) 0" "taken (frames vm_fork) 1" "taken (frames vm_fork) 2"
    "taken (frames vm_fork) 3" "taken (frames vm_fork) 6"
    by (simp_all add: taken_def vm_fork_free)
  show "as_wf vm_fork 0"
  proof (rule as_wfI [OF vm_fork_inv])
    show "4096 dvd unat t \<and> taken (frames vm_fork) (unat t div 4096)" if "t \<in> tree vm_fork 0" for t
      using subsetD [OF t0 that] tk by (elim insertE emptyE) simp_all
    show "entry vm_fork t i AND PAGE_PS = 0" if h: "upath (is @ [i])" "tab vm_fork 0 is = Some t" "present (entry vm_fork t i)" for "is" t i
    proof -
      have u: "upath is" "i < 512" using h(1) by (simp_all add: upath_snoc)
      show ?thesis using subsetD [OF t0 tree_step [OF u(1) h(2)]] vm_fork_entry [OF u(2)] by (auto simp: PAGE_PS_def)
    qed
    show "is = js" if h: "upath is" "upath js" "tab vm_fork 0 is = Some t" "tab vm_fork 0 js = Some t" for "is" js t
      using h(3,4) vm_fork_tab(1) [OF h(1)] vm_fork_tab(1) [OF h(2)] by (simp split: if_splits)
  qed
  show "as_wf vm_fork 0x6000"
  proof (rule as_wfI [OF vm_fork_inv])
    show "4096 dvd unat t \<and> taken (frames vm_fork) (unat t div 4096)" if "t \<in> tree vm_fork 0x6000" for t
      using subsetD [OF t6 that] tk by (elim insertE emptyE) simp_all
    show "entry vm_fork t i AND PAGE_PS = 0" if h: "upath (is @ [i])" "tab vm_fork 0x6000 is = Some t" "present (entry vm_fork t i)" for "is" t i
    proof -
      have u: "upath is" "i < 512" using h(1) by (simp_all add: upath_snoc)
      show ?thesis using subsetD [OF t6 tree_step [OF u(1) h(2)]] vm_fork_entry [OF u(2)] by (auto simp: PAGE_PS_def)
    qed
    show "is = js" if h: "upath is" "upath js" "tab vm_fork 0x6000 is = Some t" "tab vm_fork 0x6000 js = Some t" for "is" js t
      using h(3,4) vm_fork_tab(2) [OF h(1)] vm_fork_tab(2) [OF h(2)] by (simp split: if_splits)
  qed
qed

lemma vm_fork_lookup:
  assumes "user_va va"
  shows "lookup vm_fork 0 va = Some e \<Longrightarrow> e = 0x5007" "lookup vm_fork 0x6000 va = None"
  using vm_fork_tab [OF leaf_path(1) [OF assms]] vm_fork_entry(4) [OF pt_index_less, of va 12] leaf_path(2) [of va]
  by (auto simp: lookup_leaf not_present_zero split: if_splits option.splits)

lemma vm_fork_owned: "pages_owned vm_fork 0"
proof -
  have "owned (frames vm_fork) 5" by (simp add: owned_def vm_fork_def nframes_def used_def)
  then have "owned (frames vm_fork) (unat (frame_of 0x5007) div 4096)" by (simp add: frame_of_def)
  then show ?thesis using vm_fork_lookup(1) unfolding pages_owned_def by blast
qed

text \<open>The walk of this parent visits one page.\<close>

lemma vm_fork_leaf: "\<exists>t. cow_leaf 0x6000 (leaf_va 0 2 0) 0x3000 0 vm_fork = (True, t)"
proof -
  have "pmm_inv (frames (set_entry p i v vm_fork))" "3 \<le> card (free_frames (frames (set_entry p i v vm_fork)))" for p i v
    using vm_fork_inv unfolding frame_simps vm_fork_free by simp_all
  note total = map_page_total [OF this]
  show ?thesis using total unfolding cow_leaf_def Let_def by (simp split: prod.splits) (metis fst_conv)
qed

lemma vm_fork_cow_inv:
  assumes "cow_leaf 0x6000 (leaf_va 0 2 0) 0x3000 0 vm_fork = (True, t)"
  shows "cow_inv vm_fork 0 0x6000 1025 t"
proof -
  note l = leaf_va_index [of 0 2 0, simplified]
  have lp: "leaf_path (leaf_va 0 2 0) = [0, 0, 2]" using l by (simp add: leaf_path_def user_va_top)
  have pn: "page_no (leaf_va 0 2 0) = 1024" using page_no_index [OF l(1)] l by simp
  have I: "cow_inv vm_fork 0 0x6000 0 vm_fork"
    using vm_fork_wf vm_fork_lookup(2) by (auto simp: cow_inv_def)
  have none: "lookup vm_fork 0 va = None" if v: "user_va va" "page_no va < 1024" for va
  proof (rule ccontr)
    assume "lookup vm_fork 0 va \<noteq> None"
    then have "leaf_path va = [0, 0, 2]"
      using vm_fork_tab(1) [OF leaf_path(1) [OF v(1)]] leaf_path(2) [of va]
      by (auto simp: lookup_leaf split: if_splits option.splits)
    then show False using page_no_index [OF v(1)] v(2) by (simp add: leaf_path_def)
  qed
  have I': "cow_inv vm_fork 0 0x6000 (page_no (leaf_va 0 2 0)) vm_fork"
    unfolding pn using none by (intro cow_inv_skip [OF I]) auto
  have pt: "tab vm_fork 0 [0, 0, 2] = Some 0x3000" using vm_fork_tab(1) [OF upaths(3)] by simp
  have pr: "present (entry vm_fork 0x3000 0)" by (simp add: entry_def vm_fork_def present_def PAGE_PRESENT_def)
  have "cow_inv vm_fork 0 0x6000 (Suc (page_no (leaf_va 0 2 0))) t"
    by (rule cow_leaf_step [OF I' l(1) vm_fork_owned]) (use assms pt pr in \<open>simp_all only: l lp\<close>)
  then show ?thesis by (simp add: pn)
qed

lemma vm_fork_after:
  assumes I: "cow_inv vm_fork 0 0x6000 1025 t"
  shows "0 < j \<Longrightarrow> j < 512 \<Longrightarrow> \<not> present (entry t 0x1000 j)" "2 < j \<Longrightarrow> j < 512 \<Longrightarrow> \<not> present (entry t 0x2000 j)"
    "0 < j \<Longrightarrow> j < 512 \<Longrightarrow> \<not> present (entry t 0x3000 j)"
proof -
  note tab = trans [OF cow_inv_tab [OF I] vm_fork_tab(1)]
  have t: "tab t 0 [0] = Some 0x1000" "tab t 0 [0, 0] = Some 0x2000" "tab t 0 [0, 0, 2] = Some 0x3000"
    using tab [OF upaths(1) upaths(1)] tab [OF upaths(2) upaths(2), of 0] tab [OF upaths(3) upaths(3), of 0 2]
    by (simp_all only: if_True if_False) simp_all
  show "\<not> present (entry t 0x1000 j)" if j: "0 < j" "j < 512"
  proof -
    have "tab t 0 [0, j] = None" using tab [OF upaths(2) upaths(2), of j] j by (simp only: ) simp
    then have "nxt t 0x1000 j = None" using tab_pair [of t 0 0 j] by (simp only: t(1) option.case)
    then show ?thesis by (simp add: nxt_def split: if_splits)
  qed
  show "\<not> present (entry t 0x2000 j)" if j: "2 < j" "j < 512"
  proof -
    have "tab t 0 [0, 0, j] = None" using tab [OF upaths(3) upaths(3), of 0 j] j by (simp only: ) simp
    then have "nxt t 0x2000 j = None" using tab_triple [of t 0 0 0 j] by (simp only: t(2) option.case)
    then show ?thesis by (simp add: nxt_def split: if_splits)
  qed
  show "\<not> present (entry t 0x3000 j)" if j: "0 < j" "j < 512"
  proof -
    note l = leaf_va_index [of 0 2 j, simplified, OF j(2)]
    have lp: "leaf_path (leaf_va 0 2 j) = [0, 0, 2]" using l by (simp add: leaf_path_def user_va_top)
    have "page_no (leaf_va 0 2 j) = 1024 + j" using page_no_index [OF l(1)] l by simp
    then have "lookup t 0 (leaf_va 0 2 j) = lookup vm_fork 0 (leaf_va 0 2 j)" using I l(1) j by (simp add: cow_inv_def)
    also have "\<dots> = None"
      unfolding lookup_leaf lp l vm_fork_tab(1) [OF upaths(3) [of 0 2, simplified]] using j
      by (simp add: vm_fork_entry not_present_zero)
    finally show ?thesis unfolding lookup_leaf lp l t(3) by (simp split: if_splits)
  qed
qed

lemma vm_fork_run: "\<exists>t. vmm_cow_user_space 0x6000 0 vm_fork = (0, t)"
proof -
  obtain t where leaf: "cow_leaf 0x6000 (leaf_va 0 2 0) 0x3000 0 vm_fork = (True, t)" using vm_fork_leaf by blast
  note after = vm_fork_after [OF vm_fork_cow_inv [OF leaf]]
  have pr: "present 0x1007" "present 0x2007" "present 0x3007" "present 0x5007"
    "frame_of 0x1007 = 0x1000" "frame_of 0x2007 = 0x2000" "frame_of 0x3007 = 0x3000" "(0x3007 :: u64) AND PAGE_PS = 0"
    by (simp_all add: present_def PAGE_PRESENT_def frame_of_def PAGE_PS_def)
  have 1: "for_range 0 ENTRIES (\<lambda>i1 s. if \<not> present (entry s 0x3000 i1) then (True, s)
      else cow_leaf 0x6000 (leaf_va 0 2 i1) 0x3000 i1 s) vm_fork = (True, t)"
    by (rule for_range_single [of 0]) (use leaf after(3) pr in \<open>simp_all add: ENTRIES_def vm_fork_entry\<close>)
  have 2: "for_range 0 ENTRIES (\<lambda>i2 s.
      if \<not> present (entry s 0x2000 i2) \<or> entry s 0x2000 i2 AND PAGE_PS \<noteq> 0 then (True, s)
      else let spt = frame_of (entry s 0x2000 i2) in
        for_range 0 ENTRIES (\<lambda>i1 s. if \<not> present (entry s spt i1) then (True, s)
          else cow_leaf 0x6000 (leaf_va 0 i2 i1) spt i1 s) s) vm_fork = (True, t)"
    by (rule for_range_single [of 2])
      (use 1 after(2) pr in \<open>simp_all add: ENTRIES_def vm_fork_entry Let_def not_present_zero\<close>)
  have 3: "walk_user 0 (cow_leaf 0x6000) vm_fork = (True, t)"
    unfolding walk_user_def vm_fork_entry(1) [of 0, simplified] Let_def [of "frame_of 0x1007"] pr
    by (simp add: pr, rule for_range_single [of 0])
      (use 2 after(1) pr in \<open>simp_all add: ENTRIES_def vm_fork_entry Let_def not_present_zero\<close>)
  then show ?thesis by (simp add: vmm_cow_user_space_def)
qed

theorem cow_fork_shares_witness:
  "\<exists>s'. vmm_cow_user_space 0x6000 0 vm_fork = (0, s') \<and> lookup s' 0 0x400000 = Some 0x5205 \<and>
     lookup s' 0x6000 0x400000 = Some 0x5205 \<and> page_word s' 0x5000 8 = page_word vm_fork 0x5000 8"
proof -
  obtain s' where run: "vmm_cow_user_space 0x6000 0 vm_fork = (0, s')" using vm_fork_run by blast
  have dis: "tree vm_fork 0 \<inter> tree vm_fork 0x6000 = {}" and no: "0x5000 \<notin> tree vm_fork 0 \<union> tree vm_fork 0x6000"
    using vm_fork_wf(1,2) by auto
  have uv: "user_va 0x400000" by (simp add: user_va_def)
  have ix: "leaf_path 0x400000 = [0, 0, 2]" "pt_index 0x400000 12 = 0" by (simp_all add: leaf_path_def pt_index_def)
  have look: "lookup vm_fork 0 0x400000 = Some 0x5007"
    unfolding lookup_leaf ix vm_fork_tab(1) [OF upaths(3) [of 0 2, simplified]]
    by (simp add: vm_fork_entry present_def PAGE_PRESENT_def)
  have c: "cowed 0x5007 = 0x5205" "frame_of 0x5007 = 0x5000" by (simp_all add: cowed_def frame_of_def PAGE_RW_def PAGE_COW_def)
  have new: "\<forall>va. user_va va \<longrightarrow> lookup vm_fork 0x6000 va = None" using vm_fork_lookup(2) by blast
  note k = cow_fork_shares [OF vm_fork_wf(3,4) dis new vm_fork_owned run]
  have pw: "page_word s' (frame_of e) k = page_word vm_fork (frame_of e) k"
    if "user_va va" "lookup vm_fork 0 va = Some e" "frame_of e \<notin> tree vm_fork 0 \<union> tree vm_fork 0x6000" "k < 4096" for va e k
    using k that by blast
  have "page_word s' (frame_of 0x5007) 8 = page_word vm_fork (frame_of 0x5007) 8"
    by (rule pw [OF uv look]) (use no c(2) in simp_all)
  then show ?thesis using k run uv look c by simp
qed

end
