(* ===== verification/Fault.thy ===== *)
theory Fault
  imports Vmm Process
begin

text \<open>
  The page fault handler of src/src/mm/virt/vmm.c: demand-paged growth of the user stack, copy on
  write, and the panic of every other fault.
\<close>

section \<open>The code\<close>

text \<open>
  The page fault handler: the faulting address, CR3, the error code and the current process (if
  there is one) in; either the faulting instruction is resumed, or the machine is halted.
\<close>

datatype fault_outcome = Resume vm "process option" | Panic vm

definition grows_stack :: "u64 \<Rightarrow> u64 \<Rightarrow> process option \<Rightarrow> vm \<Rightarrow> u64 \<Rightarrow> bool" where
  "grows_stack as ec cur s page_va \<longleftrightarrow>
     ec AND 1 = 0 \<and> as \<noteq> 0 \<and> as \<noteq> g_kernel_pml4 s \<and>
     (case cur of None \<Rightarrow> False
      | Some c \<Rightarrow> stack_low c > USTACK_LIMIT \<and> page_va < stack_low c \<and> page_va \<ge> USTACK_LIMIT)"

definition vmm_page_fault_handler :: "u64 \<Rightarrow> u64 \<Rightarrow> u64 \<Rightarrow> process option \<Rightarrow> vm \<Rightarrow> fault_outcome" where
  "vmm_page_fault_handler va cr3_raw ec cur s =
     (let as = frame_of cr3_raw; page_va = frame_of va in
      if grows_stack as ec cur s page_va
      then let (f, s) = alloc_frame s in
           if f = 0 then Panic s
           else Resume (snd (vmm_map_page_into as page_va f (PAGE_RW OR PAGE_USER) (zero_table f s)))
                  (map_option (\<lambda>c. c\<lparr>stack_low := page_va\<rparr>) cur)
      else if ec AND 3 = 3 \<and> as \<noteq> 0 \<and> as \<noteq> g_kernel_pml4 s
      then (case cow_fault va as s of Some t \<Rightarrow> Resume t cur | None \<Rightarrow> Panic s)
      else Panic s)"

end
