(* ===== verification/Scheduler.thy ===== *)
theory Scheduler
  imports Process
begin

text \<open>
  The round-robin scheduler of src/src/proc/scheduler.c: the ready queue linked through
  \<open>next\<close>, the global process list linked through \<open>all_next\<close>, and the switch to the next
  thread. The timer entry \<open>scheduler_tick\<close>, which delivers signals first, is in Signal.
\<close>

section \<open>The code\<close>

definition scheduler_init :: "kern \<Rightarrow> os_status \<times> kern" where
  "scheduler_init s =
     (let s = s\<lparr>g_ready_head := 0, g_ready_tail := 0\<rparr>;
          s = upd_proc (idle_at s) (\<lambda>q. q\<lparr>
                pname := (\<lambda>i. if i < PROC_NAME_MAX then 0 else pname q i), pid := 0,
                pstate := PROC_RUNNING, quantum_remaining := PROC_QUANTUM, rq_next := 0\<rparr>) s
      in (OS_OK, s\<lparr>g_current := idle_at s\<rparr>))"

definition scheduler_add :: "u64 \<Rightarrow> kern \<Rightarrow> kern" where
  "scheduler_add p s =
     (let s = upd_proc p (rq_next_update (\<lambda>_. 0)) s;
          s = (if g_ready_tail s \<noteq> 0
               then upd_proc (g_ready_tail s) (rq_next_update (\<lambda>_. p)) s
               else s\<lparr>g_ready_head := p\<rparr>)
      in s\<lparr>g_ready_tail := p\<rparr>)"

definition scheduler_register :: "u64 \<Rightarrow> kern \<Rightarrow> kern" where
  "scheduler_register p s =
     (let s = upd_proc p (all_next_update (\<lambda>_. g_all_head s)) s
      in scheduler_add p (s\<lparr>g_all_head := p\<rparr>))"

partial_function (option) find_from :: "u64 \<Rightarrow> kern \<Rightarrow> u64 \<Rightarrow> u64 option" where
  "find_from want s p =
     (if p = 0 then Some 0
      else if pid (procs s p) = want then Some p
      else find_from want s (all_next (procs s p)))"

definition scheduler_find :: "u64 \<Rightarrow> kern \<Rightarrow> u64 option" where
  "scheduler_find want s = find_from want s (g_all_head s)"

partial_function (option) at_from :: "u32 \<Rightarrow> kern \<Rightarrow> u64 \<Rightarrow> u64 option" where
  "at_from idx s p =
     (if p = 0 then Some 0
      else if idx = 0 then Some p
      else at_from (idx - 1) s (all_next (procs s p)))"

definition scheduler_at :: "u32 \<Rightarrow> kern \<Rightarrow> u64 option" where
  "scheduler_at idx s = at_from idx s (g_all_head s)"

text \<open>\<open>process_t** pp\<close> points to the list head or to a link field.\<close>

datatype slot = Head | Link u64

fun slot_get :: "slot \<Rightarrow> kern \<Rightarrow> u64" where
  "slot_get Head s = g_all_head s"
| "slot_get (Link q) s = all_next (procs s q)"

fun slot_set :: "slot \<Rightarrow> u64 \<Rightarrow> kern \<Rightarrow> kern" where
  "slot_set Head v s = s\<lparr>g_all_head := v\<rparr>"
| "slot_set (Link q) v s = upd_proc q (all_next_update (\<lambda>_. v)) s"

partial_function (option) remove_from :: "u64 \<Rightarrow> kern \<Rightarrow> slot \<Rightarrow> kern option" where
  "remove_from p s pp =
     (if slot_get pp s = 0 then Some s
      else if slot_get pp s = p then Some (slot_set pp (all_next (procs s p)) s)
      else remove_from p s (Link (slot_get pp s)))"

definition scheduler_remove :: "u64 \<Rightarrow> kern \<Rightarrow> kern option" where
  "scheduler_remove p s = remove_from p s Head"

partial_function (option) reap_from :: "u64 \<Rightarrow> int \<Rightarrow> kern \<Rightarrow> u64 \<Rightarrow> u64 option" where
  "reap_from par want s p =
     (if p = 0 then Some 0
      else if pstate (procs s p) \<noteq> PROC_ZOMBIE \<or> parent (procs s p) \<noteq> par
      then reap_from par want s (all_next (procs s p))
      else if want > 0 \<and> pid (procs s p) \<noteq> of_int want
      then reap_from par want s (all_next (procs s p))
      else Some p)"

definition scheduler_reap :: "u64 \<Rightarrow> int \<Rightarrow> kern \<Rightarrow> u64 option" where
  "scheduler_reap par want s = reap_from par want s (g_all_head s)"

definition scheduler_spawn ::
    "u64 \<Rightarrow> (nat \<Rightarrow> u8) \<Rightarrow> u64 \<Rightarrow> u32 \<Rightarrow> kern \<Rightarrow> (os_status \<times> kern) option" where
  "scheduler_spawn trampoline name entry prio s =
     (case proc_spawn trampoline name entry prio s of
        None \<Rightarrow> None
      | Some (p, s) \<Rightarrow> Some (if p = 0 then (OS_ERR_OOM, s) else (OS_OK, scheduler_add p s)))"

definition runnable :: "process \<Rightarrow> bool" where
  "runnable q \<longleftrightarrow> pstate q = PROC_RUNNING \<or> pstate q = PROC_READY"

text \<open>The choice of the next thread, and the switch to it.\<close>

definition yield_dequeue :: "kern \<Rightarrow> kern" where
  "yield_dequeue s =
     (let h = rq_next (procs s (g_ready_head s)); s = s\<lparr>g_ready_head := h\<rparr>
      in if h = 0 then s\<lparr>g_ready_tail := 0\<rparr> else s)"

definition yield_requeue :: "u64 \<Rightarrow> kern \<Rightarrow> kern" where
  "yield_requeue prev s =
     (if runnable (procs s prev)
      then scheduler_add prev (upd_proc prev (pstate_update (\<lambda>_. PROC_READY)) s)
      else s)"

definition yield_switch :: "u64 \<Rightarrow> u64 \<Rightarrow> kern \<Rightarrow> kern" where
  "yield_switch prev nxt s =
     (let s = upd_proc nxt (\<lambda>q. q\<lparr>pstate := PROC_RUNNING, quantum_remaining := PROC_QUANTUM\<rparr>) s;
          s = s\<lparr>g_current := nxt\<rparr>;
          as = pml4 (procs s nxt);
          s = (if as \<noteq> pml4 (procs s prev)
               then s\<lparr>cr3 := (if as \<noteq> 0 then as else g_pml4_kernel s)\<rparr> else s);
          top = kstack_top (procs s nxt);
          s = (if top \<noteq> 0 then s\<lparr>tss_rsp0 := top, g_cur_kstack := top\<rparr> else s)
      in kthread_switch prev (kctx_rsp (procs s nxt)) s)"

definition scheduler_yield :: "kern \<Rightarrow> kern" where
  "scheduler_yield s =
     (if g_ready_head s = 0 then s
      else let prev = g_current s; nxt = g_ready_head s
           in yield_switch prev nxt (yield_requeue prev (yield_dequeue s)))"

text \<open>
  \<open>scheduler_exit\<close> never returns to its caller: either another thread runs, in the state after the
  switch, or the CPU halts because nothing else is ready.
\<close>

datatype exit_outcome = Switched kern | Halted kern

definition scheduler_exit :: "u32 \<Rightarrow> kern \<Rightarrow> exit_outcome" where
  "scheduler_exit code s =
     (let s = upd_proc (g_current s) (\<lambda>q. q\<lparr>exit_code := code, pstate := PROC_ZOMBIE\<rparr>) s
      in if g_ready_head s = 0 then Halted s else Switched (scheduler_yield s))"

definition scheduler_set_fg :: "u64 \<Rightarrow> kern \<Rightarrow> kern" where
  "scheduler_set_fg p s = s\<lparr>g_fg_pid := p\<rparr>"

definition scheduler_sigint_fg :: "kern \<Rightarrow> kern option" where
  "scheduler_sigint_fg s =
     (if g_fg_pid s = 0 then Some s
      else case scheduler_find (g_fg_pid s) s of
             None \<Rightarrow> None
           | Some p \<Rightarrow>
               Some (if p \<noteq> 0 \<and> pstate (procs s p) \<noteq> PROC_ZOMBIE
                     then upd_proc p (\<lambda>q. q\<lparr>sig_pending := sig_pending q OR push_bit 2 1\<rparr>) s
                     else s))"

section \<open>The ready queue\<close>

definition ready_links :: "kern \<Rightarrow> u64 \<Rightarrow> u64" where
  "ready_links s p = rq_next (procs s p)"

definition ready_queue :: "kern \<Rightarrow> u64 list \<Rightarrow> bool" where
  "ready_queue s ps \<longleftrightarrow>
     chain (ready_links s) (g_ready_head s) ps \<and> distinct ps \<and>
     g_ready_tail s = (if ps = [] then 0 else last ps)"

lemma ready_links_upd: "(\<And>x. rq_next (f x) = rq_next x) \<Longrightarrow> ready_links (upd_proc q f s) = ready_links s"
  by (auto simp: fun_eq_iff ready_links_def frame_simps)

lemma ready_links_procs: "procs t = procs s \<Longrightarrow> ready_links t = ready_links s"
  by (auto simp: fun_eq_iff ready_links_def)

lemma scheduler_add_queue:
  assumes "ready_queue s ps" "p \<noteq> 0" "p \<notin> set ps"
  shows "ready_queue (scheduler_add p s) (ps @ [p])"
proof (cases "ps = []")
  case True
  then show ?thesis
    using assms by (auto simp: ready_queue_def scheduler_add_def ready_links_def Let_def frame_simps)
next
  case False
  have q: "chain (ready_links s) (g_ready_head s) ps" "distinct ps" "g_ready_tail s = last ps"
    "0 \<notin> set ps"
    using assms False chain_nonzero by (auto simp: ready_queue_def)
  have "last ps \<noteq> 0" "last ps \<noteq> p" using q(4) False assms(3) last_in_set by metis+
  then have "ready_links (scheduler_add p s) = (ready_links s)(p := 0, last ps := p)"
    using q(3) by (auto simp: fun_eq_iff ready_links_def scheduler_add_def Let_def frame_simps)
  moreover have "g_ready_head (scheduler_add p s) = g_ready_head s" "g_ready_tail (scheduler_add p s) = p"
    using \<open>last ps \<noteq> 0\<close> q(3) by (auto simp: scheduler_add_def Let_def frame_simps)
  ultimately show ?thesis
    using chain_snoc [OF q(1) False q(2) assms(3,2)] q(2) assms(3) by (simp add: ready_queue_def)
qed

lemma kthread_switch_frame:
  "procs (kthread_switch prev sp s) =
     (procs s)(prev := (procs s prev)\<lparr>kctx_rsp := fst (switch_save (regs s) (cells (kheap s)))\<rparr>)"
  "g_current (kthread_switch prev sp s) = g_current s"
  "g_ready_head (kthread_switch prev sp s) = g_ready_head s"
  "g_ready_tail (kthread_switch prev sp s) = g_ready_tail s"
  "g_all_head (kthread_switch prev sp s) = g_all_head s"
  "cr3 (kthread_switch prev sp s) = cr3 s" "tss_rsp0 (kthread_switch prev sp s) = tss_rsp0 s"
  "g_cur_kstack (kthread_switch prev sp s) = g_cur_kstack s"
  "g_pml4_kernel (kthread_switch prev sp s) = g_pml4_kernel s"
  by (auto simp: kthread_switch_def Let_def frame_simps split: prod.splits)

lemma scheduler_add_frame:
  "g_current (scheduler_add p s) = g_current s" "cr3 (scheduler_add p s) = cr3 s"
  "g_pml4_kernel (scheduler_add p s) = g_pml4_kernel s"
  "pstate (procs (scheduler_add p s) q) = pstate (procs s q)"
  "pml4 (procs (scheduler_add p s) q) = pml4 (procs s q)"
  "kstack_top (procs (scheduler_add p s) q) = kstack_top (procs s q)"
  "kctx_rsp (procs (scheduler_add p s) q) = kctx_rsp (procs s q)"
  "all_next (procs (scheduler_add p s) q) = all_next (procs s q)"
  "g_all_head (scheduler_add p s) = g_all_head s"
  by (auto simp: scheduler_add_def Let_def frame_simps)

text \<open>
  The invariant of the scheduler with ready queue \<open>ps\<close>: the current process runs, is not queued,
  the queued ones are ready, and the loaded address space is that of the current process.
\<close>

definition space_of :: "kern \<Rightarrow> u64 \<Rightarrow> u64" where
  "space_of s p = (if pml4 (procs s p) \<noteq> 0 then pml4 (procs s p) else g_pml4_kernel s)"

definition sched_inv :: "kern \<Rightarrow> u64 list \<Rightarrow> bool" where
  "sched_inv s ps \<longleftrightarrow>
     ready_queue s ps \<and> g_current s \<noteq> 0 \<and> g_current s \<notin> set ps \<and>
     (\<forall>p \<in> set ps. pstate (procs s p) = PROC_READY) \<and> cr3 s = space_of s (g_current s)"

lemma yield_dequeue_queue:
  assumes "ready_queue s (p # ps)"
  shows "ready_queue (yield_dequeue s) ps" and "procs (yield_dequeue s) = procs s"
    and "g_current (yield_dequeue s) = g_current s" and "cr3 (yield_dequeue s) = cr3 s"
    and "g_pml4_kernel (yield_dequeue s) = g_pml4_kernel s"
proof -
  have ps: "chain (ready_links s) (rq_next (procs s p)) ps" "g_ready_head s = p"
    "g_ready_tail s = (if ps = [] then p else last ps)" "distinct ps"
    using assms by (auto simp: ready_queue_def ready_links_def)
  then have "rq_next (procs s p) = 0 \<longleftrightarrow> ps = []" by (cases ps) auto
  moreover show pr: "procs (yield_dequeue s) = procs s" by (simp add: yield_dequeue_def Let_def)
  ultimately show "ready_queue (yield_dequeue s) ps"
    unfolding ready_queue_def ready_links_procs [OF pr]
    using ps by (auto simp: yield_dequeue_def Let_def)
qed (simp_all add: yield_dequeue_def Let_def)

lemma yield_requeue_queue:
  assumes "ready_queue s ps" "q \<noteq> 0" "q \<notin> set ps"
  shows "ready_queue (yield_requeue q s) (if runnable (procs s q) then ps @ [q] else ps)"
proof -
  have "ready_queue (upd_proc q (pstate_update (\<lambda>_. PROC_READY)) s) ps"
    using assms(1) by (simp add: ready_queue_def ready_links_upd frame_simps)
  then show ?thesis using scheduler_add_queue [OF _ assms(2,3)] assms(1) by (simp add: yield_requeue_def)
qed

lemma yield_requeue_frame:
  "g_current (yield_requeue q s) = g_current s" "cr3 (yield_requeue q s) = cr3 s"
  "g_pml4_kernel (yield_requeue q s) = g_pml4_kernel s"
  "pstate (procs (yield_requeue q s) p) =
     (if p = q \<and> runnable (procs s q) then PROC_READY else pstate (procs s p))"
  "pml4 (procs (yield_requeue q s) p) = pml4 (procs s p)"
  "kstack_top (procs (yield_requeue q s) p) = kstack_top (procs s p)"
  "kctx_rsp (procs (yield_requeue q s) p) = kctx_rsp (procs s p)"
  by (auto simp: yield_requeue_def scheduler_add_frame frame_simps)

lemma yield_switch_queue:
  assumes "ready_queue s ps"
  shows "ready_queue (yield_switch q p s) ps"
proof -
  have "ready_links (yield_switch q p s) = ready_links s"
    by (auto simp: fun_eq_iff yield_switch_def ready_links_def kthread_switch_frame Let_def frame_simps)
  moreover have "g_ready_head (yield_switch q p s) = g_ready_head s"
    "g_ready_tail (yield_switch q p s) = g_ready_tail s"
    by (auto simp: yield_switch_def kthread_switch_frame Let_def frame_simps)
  ultimately show ?thesis using assms by (simp add: ready_queue_def)
qed

lemma yield_switch_frame:
  assumes "q \<noteq> p"
  shows "g_current (yield_switch q p s) = p"
    and "cr3 s = space_of s q \<Longrightarrow> cr3 (yield_switch q p s) = space_of (yield_switch q p s) p"
    and "pstate (procs (yield_switch q p s) r) = (if r = p then PROC_RUNNING else pstate (procs s r))"
    and "quantum_remaining (procs (yield_switch q p s) p) = PROC_QUANTUM"
    and "kstack_top (procs s p) \<noteq> 0 \<Longrightarrow>
           tss_rsp0 (yield_switch q p s) = kstack_top (procs s p) \<and>
           g_cur_kstack (yield_switch q p s) = kstack_top (procs s p)"
  using assms
  by (auto simp: yield_switch_def kthread_switch_frame space_of_def Let_def frame_simps)

lemma scheduler_yield_step:
  assumes inv: "sched_inv s (p # ps)"
  defines "q \<equiv> g_current s" and "t \<equiv> scheduler_yield s"
  shows "sched_inv t (if runnable (procs s q) then ps @ [q] else ps)"
    and "g_current t = p" and "pstate (procs t p) = PROC_RUNNING"
    and "quantum_remaining (procs t p) = PROC_QUANTUM"
    and "kstack_top (procs s p) \<noteq> 0 \<Longrightarrow>
           tss_rsp0 t = kstack_top (procs s p) \<and> g_cur_kstack t = kstack_top (procs s p)"
proof -
  let ?d = "yield_dequeue s" let ?r = "yield_requeue q ?d"
  have rq: "ready_queue s (p # ps)" and q: "q \<noteq> 0" "q \<notin> set ps" "q \<noteq> p"
    and rd: "\<forall>r \<in> set (p # ps). pstate (procs s r) = PROC_READY" and as: "cr3 s = space_of s q"
    using inv by (auto simp: sched_inv_def q_def)
  have p: "g_ready_head s = p" "p \<noteq> 0" "p \<notin> set ps" using rq by (auto simp: ready_queue_def)
  note d = yield_dequeue_queue [OF rq]
  have t: "t = yield_switch q p ?r" using p by (simp add: t_def q_def scheduler_yield_def Let_def)
  let ?ps = "if runnable (procs s q) then ps @ [q] else ps"
  have rq': "ready_queue t ?ps"
    unfolding t using yield_switch_queue [OF yield_requeue_queue [OF d(1) q(1,2)]] d(2) by simp
  show cur: "g_current t = p" "pstate (procs t p) = PROC_RUNNING"
    "quantum_remaining (procs t p) = PROC_QUANTUM"
    using yield_switch_frame(1,3,4) [OF q(3)] unfolding t by simp_all
  have "cr3 ?r = space_of ?r q" using as d by (simp add: space_of_def yield_requeue_frame)
  then have "cr3 t = space_of t p" unfolding t by (rule yield_switch_frame(2) [OF q(3)])
  moreover have "pstate (procs t r) = PROC_READY" if "r \<in> set ?ps" for r
    using that rd p(3) q d(2) yield_switch_frame(3) [OF q(3), of ?r r]
    unfolding t by (auto simp: yield_requeue_frame split: if_splits)
  moreover have "p \<notin> set ?ps" using p q by auto
  ultimately show "sched_inv t ?ps" using rq' cur(1) p by (simp add: sched_inv_def)
  show "tss_rsp0 t = kstack_top (procs s p) \<and> g_cur_kstack t = kstack_top (procs s p)"
    if "kstack_top (procs s p) \<noteq> 0"
    using yield_switch_frame(5) [OF q(3), of ?r] that d(2) unfolding t
    by (simp add: yield_requeue_frame)
qed

section \<open>The global process list\<close>

definition all_links :: "kern \<Rightarrow> u64 \<Rightarrow> u64" where
  "all_links s p = all_next (procs s p)"

definition all_list :: "kern \<Rightarrow> u64 list \<Rightarrow> bool" where
  "all_list s qs \<longleftrightarrow> chain (all_links s) (g_all_head s) qs \<and> distinct qs"

definition or_null :: "u64 option \<Rightarrow> u64" where
  "or_null x = (case x of None \<Rightarrow> 0 | Some p \<Rightarrow> p)"

lemma find_from_chain:
  "chain (all_links s) p qs \<Longrightarrow>
     find_from want s p = Some (or_null (List.find (\<lambda>q. pid (procs s q) = want) qs))"
  by (induction qs arbitrary: p)
    (subst find_from.simps, simp add: or_null_def all_links_def)+

lemma at_from_chain:
  "chain (all_links s) p qs \<Longrightarrow>
     at_from idx s p = Some (if unat idx < length qs then qs ! unat idx else 0)"
proof (induction qs arbitrary: p idx)
  case Nil
  then show ?case by (subst at_from.simps) simp
next
  case (Cons q qs)
  show ?case
  proof (cases "idx = 0")
    case True
    then show ?thesis using Cons.prems by (subst at_from.simps) simp
  next
    case False
    then have "unat idx = Suc (unat (idx - 1))" by (rule unat_dec)
    then show ?thesis
      using Cons.IH [of "all_links s q" "idx - 1"] Cons.prems False
      by (subst at_from.simps) (simp add: all_links_def)
  qed
qed

definition reapable :: "u64 \<Rightarrow> int \<Rightarrow> kern \<Rightarrow> u64 \<Rightarrow> bool" where
  "reapable par want s q \<longleftrightarrow>
     pstate (procs s q) = PROC_ZOMBIE \<and> parent (procs s q) = par \<and>
     (want > 0 \<longrightarrow> pid (procs s q) = of_int want)"

lemma reap_from_chain:
  "chain (all_links s) p qs \<Longrightarrow> reap_from par want s p = Some (or_null (List.find (reapable par want s) qs))"
proof (induction qs arbitrary: p)
  case Nil
  then show ?case by (subst reap_from.simps) (simp add: or_null_def)
next
  case (Cons q qs)
  have "reap_from par want s p =
      (if reapable par want s q then Some q else reap_from par want s (all_links s q))"
    using Cons.prems by (subst reap_from.simps) (auto simp: reapable_def all_links_def)
  then show ?case using Cons by (simp add: or_null_def)
qed

lemma remove_from_chain:
  assumes "chain (all_links s) (slot_get pp s) qs" "distinct qs" "p \<noteq> 0"
    and "\<And>r. pp = Link r \<Longrightarrow> r \<notin> set qs"
  shows "\<exists>t. remove_from p s pp = Some t \<and>
           chain (all_links t) (slot_get pp t) (remove1 p qs) \<and>
           (\<forall>r. pp \<noteq> Link r \<and> r \<notin> set qs \<longrightarrow> all_links t r = all_links s r) \<and>
           (pp \<noteq> Head \<longrightarrow> g_all_head t = g_all_head s) \<and>
           (\<forall>r. procs t r = (procs s r)\<lparr>all_next := all_links t r\<rparr>)"
  using assms
proof (induction qs arbitrary: pp)
  case Nil
  then show ?case
    by (intro exI [of _ s]) (subst remove_from.simps, simp add: all_links_def)
next
  case (Cons q qs)
  have q: "slot_get pp s = q" "q \<noteq> 0" "chain (all_links s) (all_links s q) qs" "q \<notin> set qs" "distinct qs"
    using Cons.prems by auto
  show ?case
  proof (cases "q = p")
    case True
    let ?t = "slot_set pp (all_links s p) s"
    have "remove_from p s pp = Some ?t"
      using q True by (subst remove_from.simps) (simp add: all_links_def)
    moreover have "chain (all_links ?t) (slot_get pp ?t) qs"
    proof (cases pp)
      case Head
      then have "all_links ?t = all_links s" by (auto simp: fun_eq_iff all_links_def)
      then show ?thesis using q True Head by simp
    next
      case (Link r)
      then have "all_links ?t = (all_links s)(r := all_links s p)"
        by (auto simp: fun_eq_iff all_links_def frame_simps)
      moreover have "r \<notin> set qs" using Cons.prems(4) Link by simp
      ultimately show ?thesis using q True Link by (simp add: all_links_def frame_simps)
    qed
    moreover have "\<forall>r. pp \<noteq> Link r \<longrightarrow> all_links ?t r = all_links s r"
      "pp \<noteq> Head \<longrightarrow> g_all_head ?t = g_all_head s"
      "\<forall>r. procs ?t r = (procs s r)\<lparr>all_next := all_links ?t r\<rparr>"
      by (cases pp; auto simp: all_links_def frame_simps)+
    moreover have "remove1 p (q # qs) = qs" using True by simp
    ultimately show ?thesis by metis
  next
    case False
    have "chain (all_links s) (slot_get (Link q) s) qs" using q by (simp add: all_links_def)
    then obtain t where t: "remove_from p s (Link q) = Some t"
      "chain (all_links t) (slot_get (Link q) t) (remove1 p qs)"
      "\<forall>r. Link q \<noteq> Link r \<and> r \<notin> set qs \<longrightarrow> all_links t r = all_links s r"
      "g_all_head t = g_all_head s" "\<forall>r. procs t r = (procs s r)\<lparr>all_next := all_links t r\<rparr>"
      using Cons.IH [of "Link q"] q Cons.prems(3) by auto
    have "remove_from p s pp = Some t"
      using t(1) q False by (subst remove_from.simps) simp
    moreover have "slot_get pp t = q"
      using t(3,4) q Cons.prems(4) by (cases pp) (auto simp: all_links_def)
    moreover have "slot_get (Link q) t = all_links t q" by (simp add: all_links_def)
    then have "chain (all_links t) q (remove1 p (q # qs))" using t(2) q(2) False by simp
    moreover have "\<forall>r. pp \<noteq> Link r \<and> r \<notin> set (q # qs) \<longrightarrow> all_links t r = all_links s r"
      using t(3) by auto
    ultimately show ?thesis using t(4,5) by blast
  qed
qed

section \<open>Properties\<close>

text \<open>A small kernel state for the witnesses: three processes, the first one running.\<close>

definition demo_kern :: kern where
  "demo_kern = \<lparr>kheap = \<lparr>cells = (\<lambda>_. 0), g_head = 0\<rparr>,
     procs = (\<lambda>_. blank_process)
       (0x1000 := blank_process\<lparr>pid := 1, pstate := PROC_RUNNING\<rparr>,
        0x2000 := blank_process\<lparr>pid := 2, rq_next := 0x3000, all_next := 0x1000\<rparr>,
        0x3000 := blank_process\<lparr>pid := 3, all_next := 0x2000\<rparr>),
     regs = \<lparr>rip = 0, rsp = 0x8000, rbx = 0, rbp = 0, r12 = 0, r13 = 0, r14 = 0, r15 = 0\<rparr>,
     g_next_pid = 4, g_current = 0x1000, g_ready_head = 0x2000, g_ready_tail = 0x3000,
     g_all_head = 0x3000, idle_at = 0x9000, g_fg_pid = 0, cr3 = 0x5000, g_pml4_kernel = 0x5000,
     tss_rsp0 = 0, g_cur_kstack = 0\<rparr>"

lemma demo_kern_inv: "sched_inv demo_kern [0x2000, 0x3000]"
  and demo_kern_list: "all_list demo_kern [0x3000, 0x2000, 0x1000]"
  by (simp_all add: demo_kern_def blank_process_def sched_inv_def ready_queue_def ready_links_def
      space_of_def all_list_def all_links_def)

lemma scheduler_yield_empty: "sched_inv s [] \<Longrightarrow> scheduler_yield s = s"
  by (simp add: sched_inv_def ready_queue_def scheduler_yield_def)

text \<open>
  C9: round robin. When the current process runs, \<open>n\<close> yields rotate the sequence of the current
  process followed by the ready queue by \<open>n\<close> places, so that every ready process runs once in
  each round; the scheduler invariant (queue well linked, current process not queued, its
  address space loaded) holds throughout.
\<close>

theorem scheduler_round_robin:
  assumes "sched_inv s ps" and "pstate (procs s (g_current s)) = PROC_RUNNING"
  shows "\<exists>qs. sched_inv ((scheduler_yield ^^ n) s) qs \<and>
           pstate (procs ((scheduler_yield ^^ n) s) (g_current ((scheduler_yield ^^ n) s))) = PROC_RUNNING \<and>
           g_current ((scheduler_yield ^^ n) s) # qs = rotate n (g_current s # ps)"
proof (induction n)
  case 0
  then show ?case using assms by auto
next
  case (Suc n)
  let ?s = "(scheduler_yield ^^ n) s"
  obtain qs where qs: "sched_inv ?s qs" "pstate (procs ?s (g_current ?s)) = PROC_RUNNING"
    "g_current ?s # qs = rotate n (g_current s # ps)" using Suc by blast
  show ?case
  proof (cases qs)
    case Nil
    then show ?thesis
      using qs scheduler_yield_empty [of ?s] by (auto simp: rotate_Suc qs(3) [symmetric])
  next
    case (Cons r rs)
    note step = scheduler_yield_step [OF qs(1) [unfolded Cons]]
    have "runnable (procs ?s (g_current ?s))" using qs(2) by (simp add: runnable_def)
    then have "sched_inv (scheduler_yield ?s) (rs @ [g_current ?s])" using step(1) by simp
    moreover have "r # rs @ [g_current ?s] = rotate (Suc n) (g_current s # ps)"
      using Cons by (simp add: rotate_Suc qs(3) [symmetric])
    ultimately show ?thesis using step(2,3) by auto
  qed
qed

theorem scheduler_round_robin_witness:
  "g_current ((scheduler_yield ^^ 2) demo_kern) = 0x3000"
proof -
  have "pstate (procs demo_kern (g_current demo_kern)) = PROC_RUNNING"
    and cur: "g_current demo_kern = 0x1000"
    by (simp_all add: demo_kern_def)
  from scheduler_round_robin [OF demo_kern_inv this(1), of 2]
  obtain qs where "g_current ((scheduler_yield ^^ 2) demo_kern) # qs = rotate 2 [0x1000, 0x2000, 0x3000]"
    unfolding cur by blast
  then show ?thesis by (simp add: numeral_2_eq_2 rotate_Suc)
qed

text \<open>
  C10: exit. When another process is ready, \<open>scheduler_exit\<close> switches to the head of the queue
  and never puts the exiting process back: it is a zombie with its exit code recorded; with
  an empty queue the CPU halts with the zombie recorded.
\<close>

theorem scheduler_exit_zombie:
  assumes "sched_inv s ps"
  shows "case ps of
           [] \<Rightarrow> \<exists>t. scheduler_exit code s = Halted t \<and>
                  pstate (procs t (g_current s)) = PROC_ZOMBIE \<and> exit_code (procs t (g_current s)) = code
         | p # qs \<Rightarrow> \<exists>t. scheduler_exit code s = Switched t \<and> sched_inv t qs \<and> g_current t = p \<and>
                  pstate (procs t (g_current s)) = PROC_ZOMBIE \<and> exit_code (procs t (g_current s)) = code"
proof -
  let ?c = "g_current s"
  let ?s = "upd_proc ?c (\<lambda>q. q\<lparr>exit_code := code, pstate := PROC_ZOMBIE\<rparr>) s"
  have inv: "sched_inv ?s ps"
    using assms by (auto simp: sched_inv_def ready_queue_def ready_links_upd space_of_def frame_simps)
  have z: "\<not> runnable (procs ?s ?c)" "g_current ?s = ?c" by (simp_all add: runnable_def frame_simps)
  show ?thesis
  proof (cases ps)
    case Nil
    then have "g_ready_head ?s = 0" using inv by (simp add: sched_inv_def ready_queue_def)
    then show ?thesis using Nil by (auto simp: scheduler_exit_def Let_def frame_simps)
  next
    case (Cons p qs)
    have h: "g_ready_head ?s \<noteq> 0" "g_ready_head ?s = p" "?c \<noteq> p"
      using inv Cons by (auto simp: sched_inv_def ready_queue_def frame_simps)
    note step = scheduler_yield_step [OF inv [unfolded Cons]]
    have "pstate (procs (scheduler_yield ?s) ?c) = PROC_ZOMBIE \<and>
          exit_code (procs (scheduler_yield ?s) ?c) = code"
      using h z by (simp add: scheduler_yield_def yield_requeue_def yield_dequeue_def yield_switch_def
          kthread_switch_frame Let_def frame_simps)
    moreover have "scheduler_exit code s = Switched (scheduler_yield ?s)"
      using h by (simp add: scheduler_exit_def Let_def)
    ultimately show ?thesis using step z Cons by auto
  qed
qed

theorem scheduler_exit_zombie_witness:
  "\<exists>t. scheduler_exit 7 demo_kern = Switched t \<and> g_current t = 0x2000 \<and>
       pstate (procs t 0x1000) = PROC_ZOMBIE \<and> exit_code (procs t 0x1000) = 7"
proof -
  have cur: "g_current demo_kern = 0x1000" by (simp add: demo_kern_def)
  show ?thesis using scheduler_exit_zombie [OF demo_kern_inv, of 7] unfolding cur by auto
qed

text \<open>
  The process list. On a well-linked global list \<open>scheduler_find\<close> returns the first process
  with the given pid, \<open>scheduler_at\<close> the one at the given position, \<open>scheduler_reap\<close> the first zombie child
  of the given parent (with the given pid when it is positive), each null when there is
  none; \<open>scheduler_remove\<close> unlinks exactly its argument and changes no other field. All of
  them terminate.
\<close>

theorem process_list_operations:
  assumes "all_list s qs" and "p \<noteq> 0"
  shows "scheduler_find i s = Some (or_null (List.find (\<lambda>q. pid (procs s q) = i) qs)) \<and>
         scheduler_at k s = Some (if unat k < length qs then qs ! unat k else 0) \<and>
         scheduler_reap par w s = Some (or_null (List.find (reapable par w s) qs)) \<and>
         (\<exists>t. scheduler_remove p s = Some t \<and> all_list t (remove1 p qs) \<and>
              (\<forall>r. procs t r = (procs s r)\<lparr>all_next := all_links t r\<rparr>))"
proof -
  have c: "chain (all_links s) (g_all_head s) qs" and d: "distinct qs"
    using assms(1) by (auto simp: all_list_def)
  have "chain (all_links s) (slot_get Head s) qs" using c by simp
  then obtain t where "remove_from p s Head = Some t"
      "chain (all_links t) (slot_get Head t) (remove1 p qs)"
      "\<forall>r. procs t r = (procs s r)\<lparr>all_next := all_links t r\<rparr>"
    using remove_from_chain [of s Head qs p] d assms(2) by auto
  then show ?thesis
    using find_from_chain [OF c] at_from_chain [OF c] reap_from_chain [OF c] d
    by (simp add: scheduler_find_def scheduler_at_def scheduler_reap_def scheduler_remove_def
        all_list_def)
qed

theorem process_list_operations_witness:
  "scheduler_find 2 demo_kern = Some 0x2000 \<and> scheduler_at 2 demo_kern = Some 0x1000 \<and>
   (\<exists>t. scheduler_remove 0x2000 demo_kern = Some t \<and> all_list t [0x3000, 0x1000])"
proof -
  have "pid (procs demo_kern 0x3000) = 3" "pid (procs demo_kern 0x2000) = 2"
    by (simp_all add: demo_kern_def)
  then show ?thesis
    using process_list_operations [OF demo_kern_list, of "0x2000" 2 2 0 0]
    by (auto simp: or_null_def)
qed

end
