(* ===== verification/Fifo.thy ===== *)
theory Fifo
  imports Prelude
begin

text \<open>
  The contract of the bounded byte queues of the kernel (the pipes and the keyboard buffer): the
  operations on the representation act on a list, and the runs of a queue under any sequence
  of insertions and removals.
\<close>

datatype 'a queue_event = Put 'a | Get

text \<open>
  A run keeps the bytes that were accepted and the bytes that were taken out; an event the
  queue cannot serve leaves the state as it is.
\<close>

fun queue_step ::
    "('a \<Rightarrow> 'q \<Rightarrow> 'q) \<Rightarrow> ('q \<Rightarrow> 'a \<times> 'q) \<Rightarrow> ('q \<Rightarrow> bool) \<Rightarrow> ('q \<Rightarrow> bool) \<Rightarrow>
     'a queue_event \<Rightarrow> 'q \<times> 'a list \<times> 'a list \<Rightarrow> 'q \<times> 'a list \<times> 'a list" where
  "queue_step enq deq full isempty (Put c) (q, ins, outs) =
     (if full q then (q, ins, outs) else (enq c q, ins @ [c], outs))"
| "queue_step enq deq full isempty Get (q, ins, outs) =
     (if isempty q then (q, ins, outs) else case deq q of (c, q') \<Rightarrow> (q', ins, outs @ [c]))"

fun queue_run ::
    "('a \<Rightarrow> 'q \<Rightarrow> 'q) \<Rightarrow> ('q \<Rightarrow> 'a \<times> 'q) \<Rightarrow> ('q \<Rightarrow> bool) \<Rightarrow> ('q \<Rightarrow> bool) \<Rightarrow>
     'a queue_event list \<Rightarrow> 'q \<times> 'a list \<times> 'a list \<Rightarrow> 'q \<times> 'a list \<times> 'a list" where
  "queue_run enq deq full isempty [] s = s"
| "queue_run enq deq full isempty (e # es) s =
     queue_run enq deq full isempty es (queue_step enq deq full isempty e s)"

locale fifo =
  fixes enq :: "'a \<Rightarrow> 'q \<Rightarrow> 'q"
    and deq :: "'q \<Rightarrow> 'a \<times> 'q"
    and full :: "'q \<Rightarrow> bool"
    and isempty :: "'q \<Rightarrow> bool"
    and invar :: "'q \<Rightarrow> bool"
    and elems :: "'q \<Rightarrow> 'a list"
  assumes isempty_iff: "invar q \<Longrightarrow> isempty q \<longleftrightarrow> elems q = []"
    and enq_invar: "invar q \<Longrightarrow> \<not> full q \<Longrightarrow> invar (enq c q)"
    and enq_abs: "invar q \<Longrightarrow> \<not> full q \<Longrightarrow> elems (enq c q) = elems q @ [c]"
    and deq_invar: "invar q \<Longrightarrow> \<not> isempty q \<Longrightarrow> deq q = (c, q') \<Longrightarrow> invar q'"
    and deq_abs: "invar q \<Longrightarrow> \<not> isempty q \<Longrightarrow> deq q = (c, q') \<Longrightarrow> elems q = c # elems q'"
begin

lemma step_fifo:
  assumes "invar q" "ins = outs @ elems q"
    and "queue_step enq deq full isempty e (q, ins, outs) = (q', ins', outs')"
  shows "invar q' \<and> ins' = outs' @ elems q'"
proof (cases e)
  case (Put c)
  then show ?thesis
    using assms enq_invar [of q c] enq_abs [of q c] by (auto split: if_splits)
next
  case Get
  obtain c r where d: "deq q = (c, r)" by (cases "deq q")
  show ?thesis
    using assms Get d deq_invar [of q c r] deq_abs [of q c r] by (auto split: if_splits)
qed

lemma run_invar:
  assumes "invar q" "ins = outs @ elems q"
    and "queue_run enq deq full isempty es (q, ins, outs) = (q', ins', outs')"
  shows "invar q' \<and> ins' = outs' @ elems q'"
  using assms
proof (induction es arbitrary: q ins outs)
  case (Cons e es)
  obtain r i j where s: "queue_step enq deq full isempty e (q, ins, outs) = (r, i, j)"
    by (cases "queue_step enq deq full isempty e (q, ins, outs)")
  then show ?case
    using Cons.IH [of r i j] step_fifo [OF Cons.prems(1,2) s] Cons.prems(3) by simp
qed simp

lemma run_fifo:
  assumes "invar q" "elems q = []"
    and "queue_run enq deq full isempty es (q, [], []) = (q', ins, outs)"
  shows "ins = outs @ elems q' \<and> invar q'"
  using run_invar [OF assms(1) _ assms(3)] assms(2) by simp

end

end
