(* ===== verification/Pipe.thy ===== *)
theory Pipe
  imports Process Fifo
begin

text \<open>
  Anonymous pipes, src/src/proc/pipe.c: a pool of ring buffers with reader and writer counts.
  A blocked reader or writer calls \<open>scheduler_yield\<close>; what the other processes do to the pipe
  until the caller runs again is the parameter \<open>others\<close> of the model, indexed by the number of
  the yield. The ring buffer refines the list of the bytes that are in flight.
\<close>

section \<open>The code\<close>

definition PIPE_CAP :: u32 where "PIPE_CAP = 4096"
definition NPIPES :: nat where "NPIPES = 16"

record pipe =
  pbuf :: "nat \<Rightarrow> u8"
  head :: u32
  tail :: u32
  count :: u32
  readers :: int
  writers :: int
  pused :: bool

function scan_fds :: "(nat \<Rightarrow> fd) \<Rightarrow> nat \<Rightarrow> int \<Rightarrow> int \<times> int" where
  "scan_fds f i rfd =
     (if i < PROC_MAX_FDS
      then if kind (f i) \<noteq> FD_CLOSED then scan_fds f (i + 1) rfd
           else if rfd < 0 then scan_fds f (i + 1) (int i)
           else (rfd, int i)
      else (rfd, - 1))"
  by pat_completeness auto
termination
  by (relation "measure (\<lambda>(f, i, r). PROC_MAX_FDS - i)") auto

function free_pipe :: "(nat \<Rightarrow> pipe) \<Rightarrow> nat \<Rightarrow> nat option" where
  "free_pipe g i =
     (if i < NPIPES then if \<not> pused (g i) then Some i else free_pipe g (i + 1) else None)"
  by pat_completeness auto
termination
  by (relation "measure (\<lambda>(g, i). NPIPES - i)") auto

declare scan_fds.simps [simp del] free_pipe.simps [simp del]

text \<open>\<open>sys_pipe\<close>: the result, the two descriptors, the caller and the pool.\<close>

definition sys_pipe ::
    "process \<Rightarrow> (nat \<Rightarrow> pipe) \<Rightarrow> int \<times> (int \<times> int) option \<times> process \<times> (nat \<Rightarrow> pipe)" where
  "sys_pipe p g =
     (let (rfd, wfd) = scan_fds (fds p) 0 (- 1) in
      if rfd < 0 \<or> wfd < 0 then (- 1, None, p, g)
      else case free_pipe g 0 of
             None \<Rightarrow> (- 1, None, p, g)
           | Some i \<Rightarrow>
               (0, Some (rfd, wfd),
                p\<lparr>fds := (fds p)(nat rfd := \<lparr>kind = FD_PIPE_R, ffile = PIPE i, offset = 0\<rparr>,
                                 nat wfd := \<lparr>kind = FD_PIPE_W, ffile = PIPE i, offset = 0\<rparr>)\<rparr>,
                g(i := (g i)\<lparr>head := 0, tail := 0, count := 0, readers := 1, writers := 1, pused := True\<rparr>)))"

definition pipe_addref :: "fd_kind \<Rightarrow> fptr \<Rightarrow> (nat \<Rightarrow> pipe) \<Rightarrow> nat \<Rightarrow> pipe" where
  "pipe_addref k f g =
     (case f of
        PIPE i \<Rightarrow>
          if k = FD_PIPE_R then g(i := (g i)\<lparr>readers := readers (g i) + 1\<rparr>)
          else if k = FD_PIPE_W then g(i := (g i)\<lparr>writers := writers (g i) + 1\<rparr>)
          else g
      | _ \<Rightarrow> g)"

definition pipe_drop :: "fd_kind \<Rightarrow> pipe \<Rightarrow> pipe" where
  "pipe_drop k pp =
     (let pp = (if k = FD_PIPE_R \<and> readers pp > 0 then pp\<lparr>readers := readers pp - 1\<rparr>
                else if k = FD_PIPE_W \<and> writers pp > 0 then pp\<lparr>writers := writers pp - 1\<rparr>
                else pp)
      in if readers pp = 0 \<and> writers pp = 0 then pp\<lparr>pused := False\<rparr> else pp)"

definition pipe_close :: "fd_kind \<Rightarrow> fptr \<Rightarrow> (nat \<Rightarrow> pipe) \<Rightarrow> nat \<Rightarrow> pipe" where
  "pipe_close k f g = (case f of PIPE i \<Rightarrow> g(i := pipe_drop k (g i)) | _ \<Rightarrow> g)"

text \<open>The transfer of one byte out of and into the ring.\<close>

definition pipe_get :: "pipe \<Rightarrow> u8 \<times> pipe" where
  "pipe_get pp =
     (pbuf pp (unat (head pp)),
      pp\<lparr>head := (head pp + 1) mod PIPE_CAP, count := count pp - 1\<rparr>)"

definition pipe_put :: "u8 \<Rightarrow> pipe \<Rightarrow> pipe" where
  "pipe_put c pp =
     pp\<lparr>pbuf := (pbuf pp)(unat (tail pp) := c), tail := (tail pp + 1) mod PIPE_CAP,
        count := count pp + 1\<rparr>"

partial_function (option) read_loop ::
    "(nat \<Rightarrow> pipe \<Rightarrow> pipe) \<Rightarrow> nat \<Rightarrow> u64 \<Rightarrow> u64 \<Rightarrow> (nat \<Rightarrow> u8) \<Rightarrow> pipe \<Rightarrow> (u64 \<times> (nat \<Rightarrow> u8) \<times> pipe) option" where
  "read_loop others k len got buf pp =
     (if got < len
      then if count pp = 0
           then if writers pp = 0 then Some (got, buf, pp)
                else read_loop others (Suc k) len got buf (others k pp)
           else let (c, pp) = pipe_get pp
                in read_loop others k len (got + 1) (buf(unat got := c)) pp
      else Some (got, buf, pp))"

definition pipe_read ::
    "(nat \<Rightarrow> pipe \<Rightarrow> pipe) \<Rightarrow> pipe \<Rightarrow> (nat \<Rightarrow> u8) \<Rightarrow> u64 \<Rightarrow> (u64 \<times> (nat \<Rightarrow> u8) \<times> pipe) option" where
  "pipe_read others pp buf len = read_loop others 0 len 0 buf pp"

partial_function (option) write_loop ::
    "(nat \<Rightarrow> pipe \<Rightarrow> pipe) \<Rightarrow> nat \<Rightarrow> u64 \<Rightarrow> u64 \<Rightarrow> (nat \<Rightarrow> u8) \<Rightarrow> pipe \<Rightarrow> (u64 \<times> pipe) option" where
  "write_loop others k len put buf pp =
     (if put < len
      then if readers pp = 0 then Some (if put > 0 then put else - 1, pp)
           else if count pp = PIPE_CAP
           then write_loop others (Suc k) len put buf (others k pp)
           else write_loop others k len (put + 1) buf (pipe_put (buf (unat put)) pp)
      else Some (put, pp))"

definition pipe_write ::
    "(nat \<Rightarrow> pipe \<Rightarrow> pipe) \<Rightarrow> pipe \<Rightarrow> (nat \<Rightarrow> u8) \<Rightarrow> u64 \<Rightarrow> (u64 \<times> pipe) option" where
  "pipe_write others pp buf len = write_loop others 0 len 0 buf pp"

section \<open>The bytes in flight\<close>

definition pipe_inv :: "pipe \<Rightarrow> bool" where
  "pipe_inv pp \<longleftrightarrow>
     unat (head pp) < 4096 \<and> unat (count pp) \<le> 4096 \<and>
     unat (tail pp) = (unat (head pp) + unat (count pp)) mod 4096 \<and> readers pp \<ge> 0 \<and> writers pp \<ge> 0"

definition contents :: "pipe \<Rightarrow> u8 list" where
  "contents pp = map (\<lambda>i. pbuf pp ((unat (head pp) + i) mod 4096)) [0 ..< unat (count pp)]"

lemma length_contents [simp]: "length (contents pp) = unat (count pp)"
  by (simp add: contents_def)

lemma ring_inc: "unat (h :: u32) < 4096 \<Longrightarrow> unat ((h + 1) mod PIPE_CAP) = (unat h + 1) mod 4096"
proof -
  assume "unat h < 4096"
  then have "unat (h + 1) = unat h + 1" by (simp add: unat_word_ariths)
  then show ?thesis by (simp add: unat_mod PIPE_CAP_def)
qed

lemma pipe_get_contents:
  assumes "pipe_inv pp" "count pp \<noteq> 0" "pipe_get pp = (c, pp')"
  shows "contents pp = c # contents pp'" and "pipe_inv pp'"
    and "readers pp' = readers pp" and "writers pp' = writers pp"
proof -
  have h: "unat (head pp) < 4096" using assms(1) by (simp add: pipe_inv_def)
  have n: "unat (count pp) = Suc (unat (count pp - 1))" using assms(2) by (rule unat_dec)
  have p: "head pp' = (head pp + 1) mod PIPE_CAP" "count pp' = count pp - 1" "pbuf pp' = pbuf pp"
    "c = pbuf pp (unat (head pp))" "tail pp' = tail pp"
    "readers pp' = readers pp" "writers pp' = writers pp"
    using assms(3) by (auto simp: pipe_get_def)
  have hd': "unat (head pp') = (unat (head pp) + 1) mod 4096" using ring_inc [OF h] p by simp
  have "contents pp' = map (\<lambda>i. pbuf pp ((unat (head pp) + Suc i) mod 4096)) [0 ..< unat (count pp - 1)]"
    unfolding contents_def p(2,3) hd' by (simp add: mod_simps)
  also have "\<dots> = map (\<lambda>i. pbuf pp ((unat (head pp) + i) mod 4096)) (map Suc [0 ..< unat (count pp - 1)])"
    by simp
  finally show "contents pp = c # contents pp'"
    unfolding contents_def [of pp] n map_Suc_upt upt_conv_Cons [OF zero_less_Suc] using h p(4) by simp
  show "pipe_inv pp'"
    using assms(1) p hd' n by (simp add: pipe_inv_def mod_simps)
  show "readers pp' = readers pp" "writers pp' = writers pp" using p by simp_all
qed

lemma pipe_put_contents:
  assumes "pipe_inv pp" "count pp \<noteq> PIPE_CAP"
  shows "contents (pipe_put c pp) = contents pp @ [c]" and "pipe_inv (pipe_put c pp)"
proof -
  let ?h = "unat (head pp)" and ?n = "unat (count pp)" and ?pp = "pipe_put c pp"
  have n: "?n < 4096"
    using assms by (auto simp: pipe_inv_def PIPE_CAP_def le_less word_unat_eq_iff)
  have h: "?h < 4096" and t: "unat (tail pp) = (?h + ?n) mod 4096"
    using assms(1) by (auto simp: pipe_inv_def)
  have cnt: "unat (count ?pp) = Suc ?n" using n by (simp add: pipe_put_def unat_word_ariths)
  have "(?h + i) mod 4096 \<noteq> (?h + ?n) mod 4096" if "i < ?n" for i
  proof
    assume eq: "(?h + i) mod 4096 = (?h + ?n) mod 4096"
    have "?h + i \<le> ?h + ?n" using that by simp
    then have "4096 dvd (?h + ?n) - (?h + i)" using eq by (metis mod_eq_dvd_iff_nat)
    then show False using that n by (auto dest: dvd_imp_le)
  qed
  then show "contents ?pp = contents pp @ [c]"
    unfolding contents_def cnt using t by (simp add: pipe_put_def)
  have "unat (tail pp) < 4096" using t by simp
  then show "pipe_inv ?pp"
    using assms(1) cnt n ring_inc [of "tail pp"] t
    by (simp add: pipe_inv_def pipe_put_def mod_simps)
qed

section \<open>Transfers that need not wait\<close>

text \<open>The bytes \<open>buf[i] .. buf[i+n-1]\<close> of a C buffer.\<close>

definition bytes :: "(nat \<Rightarrow> u8) \<Rightarrow> nat \<Rightarrow> nat \<Rightarrow> u8 list" where
  "bytes buf i n = map buf [i ..< i + n]"

lemma bytes_Suc: "bytes buf i (Suc n) = buf i # bytes buf (Suc i) n"
  by (simp add: bytes_def upt_conv_Cons del: upt_Suc)

lemma read_loop_available:
  assumes "pipe_inv pp" "unat got \<le> unat len"
    and "unat len - unat got \<le> unat (count pp) \<or> writers pp = 0"
  defines "n \<equiv> min (unat len - unat got) (unat (count pp))"
  shows "\<exists>buf' pp'. read_loop others k len got buf pp = Some (got + of_nat n, buf', pp') \<and>
           bytes buf' (unat got) n = take n (contents pp) \<and> contents pp' = drop n (contents pp) \<and>
           pipe_inv pp' \<and> readers pp' = readers pp \<and> writers pp' = writers pp \<and>
           (\<forall>i. i < unat got \<or> unat got + n \<le> i \<longrightarrow> buf' i = buf i)"
  using assms(1-3) unfolding n_def
proof (induction "unat len - unat got" arbitrary: got buf pp)
  case 0
  then have "\<not> got < len" by (simp add: word_less_nat_alt)
  then show ?case using 0 by (subst read_loop.simps) (simp add: bytes_def)
next
  case (Suc d)
  then have lt: "got < len" by (simp add: word_less_nat_alt)
  note inc = unat_inc_less [OF lt]
  show ?case
  proof (cases "count pp = 0")
    case True
    then have "writers pp = 0" using Suc.prems(3) Suc.hyps(2) by auto
    then show ?thesis
      using lt True Suc.prems(1) by (subst read_loop.simps) (simp add: bytes_def)
  next
    case False
    obtain c qq where g: "pipe_get pp = (c, qq)" by (cases "pipe_get pp")
    note cs = pipe_get_contents [OF Suc.prems(1) False g]
    have cnt: "unat (count pp) = Suc (unat (count qq))"
      using arg_cong [OF cs(1), of length] by simp
    let ?n = "min (unat len - unat (got + 1)) (unat (count qq))"
    have n: "min (unat len - unat got) (unat (count pp)) = Suc ?n"
      using cnt inc Suc.hyps(2) by simp
    have "\<exists>buf' pp'. read_loop others k len (got + 1) (buf(unat got := c)) qq = Some (got + 1 + of_nat ?n, buf', pp') \<and>
           bytes buf' (unat (got + 1)) ?n = take ?n (contents qq) \<and> contents pp' = drop ?n (contents qq) \<and>
           pipe_inv pp' \<and> readers pp' = readers qq \<and> writers pp' = writers qq \<and>
           (\<forall>i. i < unat (got + 1) \<or> unat (got + 1) + ?n \<le> i \<longrightarrow> buf' i = (buf(unat got := c)) i)"
      by (rule Suc.hyps(1)) (use Suc.hyps(2) Suc.prems(2,3) cs inc cnt in auto)
    then obtain buf' pp' where r:
      "read_loop others k len (got + 1) (buf(unat got := c)) qq = Some (got + 1 + of_nat ?n, buf', pp')"
      "bytes buf' (Suc (unat got)) ?n = take ?n (contents qq)" "contents pp' = drop ?n (contents qq)"
      "pipe_inv pp'" "readers pp' = readers qq" "writers pp' = writers qq"
      "\<forall>i. i < Suc (unat got) \<or> Suc (unat got) + ?n \<le> i \<longrightarrow> buf' i = (buf(unat got := c)) i"
      unfolding inc by blast
    have "read_loop others k len got buf pp = Some (got + of_nat (Suc ?n), buf', pp')"
      using lt False g r(1) by (subst read_loop.simps) (simp add: add_ac)
    moreover have "bytes buf' (unat got) (Suc ?n) = take (Suc ?n) (contents pp)"
      using r(2,7) cs(1) by (simp add: bytes_Suc)
    moreover have "contents pp' = drop (Suc ?n) (contents pp)" using r(3) cs(1) by simp
    moreover have "\<forall>i. i < unat got \<or> unat got + Suc ?n \<le> i \<longrightarrow> buf' i = buf i" using r(7) by auto
    ultimately show ?thesis unfolding n using r(4-6) cs(3,4) by auto
  qed
qed

lemma write_loop_available:
  assumes "pipe_inv pp" "unat put \<le> unat len" "readers pp \<noteq> 0"
    and "unat (count pp) + (unat len - unat put) \<le> 4096"
  shows "\<exists>pp'. write_loop others k len put buf pp = Some (len, pp') \<and> pipe_inv pp' \<and>
           contents pp' = contents pp @ bytes buf (unat put) (unat len - unat put) \<and>
           readers pp' = readers pp \<and> writers pp' = writers pp"
  using assms
proof (induction "unat len - unat put" arbitrary: put pp)
  case 0
  then have "put = len" by (simp add: word_unat_eq_iff)
  then show ?case using 0 by (subst write_loop.simps) (simp add: bytes_def)
next
  case (Suc d)
  then have lt: "put < len" by (simp add: word_less_nat_alt)
  note inc = unat_inc_less [OF lt]
  have room: "count pp \<noteq> PIPE_CAP" using Suc.prems(4) Suc.hyps(2) by (auto simp: PIPE_CAP_def)
  let ?pp = "pipe_put (buf (unat put)) pp"
  note cs = pipe_put_contents [OF Suc.prems(1) room, of "buf (unat put)"]
  have cnt: "unat (count ?pp) = Suc (unat (count pp))" using arg_cong [OF cs(1), of length] by simp
  have rw: "readers ?pp = readers pp" "writers ?pp = writers pp" by (simp_all add: pipe_put_def)
  have "\<exists>pp'. write_loop others k len (put + 1) buf ?pp = Some (len, pp') \<and> pipe_inv pp' \<and>
           contents pp' = contents ?pp @ bytes buf (unat (put + 1)) (unat len - unat (put + 1)) \<and>
           readers pp' = readers ?pp \<and> writers pp' = writers ?pp"
    by (rule Suc.hyps(1)) (use Suc.hyps(2) Suc.prems cs inc cnt rw in auto)
  moreover have "write_loop others k len put buf pp = write_loop others k len (put + 1) buf ?pp"
    using lt room Suc.prems(3) by (subst write_loop.simps) simp
  moreover have "bytes buf (unat put) (unat len - unat put) =
      buf (unat put) # bytes buf (unat (put + 1)) (unat len - unat (put + 1))"
    using inc Suc.hyps(2) bytes_Suc [of buf "unat put" d] by (metis Suc_diff_Suc diff_Suc_1 diff_diff_left plus_1_eq_Suc add.commute)
  ultimately show ?case using cs(1) rw by auto
qed

section \<open>The pipe as a queue\<close>

definition pipe_full :: "pipe \<Rightarrow> bool" where
  "pipe_full pp \<longleftrightarrow> readers pp = 0 \<or> count pp = PIPE_CAP"

definition pipe_empty :: "pipe \<Rightarrow> bool" where
  "pipe_empty pp \<longleftrightarrow> count pp = 0"

interpretation pipe_fifo: fifo pipe_put pipe_get pipe_full pipe_empty pipe_inv contents
proof
  fix q :: pipe and c q'
  assume inv: "pipe_inv q"
  show "pipe_empty q \<longleftrightarrow> contents q = []"
    by (simp add: pipe_empty_def contents_def unat_eq_zero)
  show "\<not> pipe_full q \<Longrightarrow> pipe_inv (pipe_put c q)" "\<not> pipe_full q \<Longrightarrow> contents (pipe_put c q) = contents q @ [c]"
    using pipe_put_contents [OF inv] by (auto simp: pipe_full_def)
  assume "\<not> pipe_empty q" "pipe_get q = (c, q')"
  then show "pipe_inv q'" "contents q = c # contents q'"
    using pipe_get_contents [OF inv] by (auto simp: pipe_empty_def)
qed

section \<open>Properties\<close>

text \<open>
  C14: a pipe delivers every byte exactly once and in order. Whatever the interleaving of the
  byte transfers of its writers and readers (a transfer that cannot proceed, because the
  ring is full or has no reader, or is empty, is a wait), the bytes written so far are the
  bytes read so far followed by the bytes in flight, of which there are at most 4096.
\<close>

theorem pipe_exactly_once_in_order:
  assumes "pipe_inv pp" and "contents pp = []"
    and "queue_run pipe_put pipe_get pipe_full pipe_empty es (pp, [], []) = (pp', sent, rcvd)"
  shows "sent = rcvd @ contents pp' \<and> length (contents pp') \<le> 4096 \<and> pipe_inv pp'"
  using pipe_fifo.run_fifo [OF assms] by (auto simp: pipe_inv_def)

definition new_pipe :: pipe where
  "new_pipe = \<lparr>pbuf = (\<lambda>_. 0), head = 0, tail = 0, count = 0, readers = 1, writers = 1, pused = True\<rparr>"

lemma new_pipe_inv: "pipe_inv new_pipe" "contents new_pipe = []"
  by (simp_all add: new_pipe_def pipe_inv_def contents_def)

theorem pipe_exactly_once_in_order_witness:
  "\<exists>pp' sent rcvd. queue_run pipe_put pipe_get pipe_full pipe_empty [Put 1, Get, Get, Put 2, Put 3] (new_pipe, [], []) =
     (pp', sent, rcvd) \<and> sent = [1, 2, 3] \<and> rcvd = [1] \<and> contents pp' = [2, 3]"
proof -
  let ?r = "queue_run pipe_put pipe_get pipe_full pipe_empty [Put 1, Get, Get, Put 2, Put 3] (new_pipe, [], [])"
  obtain pp' sent rcvd where r: "?r = (pp', sent, rcvd)" by (cases ?r)
  then have "sent = [1, 2, 3]" "rcvd = [1]"
    by (auto simp: new_pipe_def pipe_put_def pipe_get_def pipe_full_def pipe_empty_def PIPE_CAP_def)
  then show ?thesis using pipe_exactly_once_in_order [OF new_pipe_inv r] r by simp
qed

text \<open>
  C15: a read returns the bytes that are in flight in order, without waiting, when enough of
  them are in flight or when no writer is left; in the second case a short count is the end
  of the stream. It stores exactly the bytes it reports and takes exactly them from the pipe.
\<close>

theorem pipe_read_available:
  assumes "pipe_inv pp" and "unat len \<le> unat (count pp) \<or> writers pp = 0"
  shows "\<exists>buf' pp'. pipe_read others pp buf len =
             Some (of_nat (min (unat len) (unat (count pp))), buf', pp') \<and>
           bytes buf' 0 (min (unat len) (unat (count pp))) = take (unat len) (contents pp) \<and>
           contents pp' = drop (unat len) (contents pp) \<and> pipe_inv pp' \<and>
           (\<forall>i \<ge> min (unat len) (unat (count pp)). buf' i = buf i)"
  using read_loop_available [OF assms(1), of 0 len others 0 buf] assms(2)
  by (auto simp: pipe_read_def min_def split: if_splits)

theorem pipe_read_available_witness:
  "\<exists>buf' pp'. pipe_read (\<lambda>_ p. p) (pipe_put 65 (pipe_put 66 new_pipe)) (\<lambda>_. 0) 2 = Some (2, buf', pp') \<and>
     bytes buf' 0 2 = [66, 65] \<and> contents pp' = []"
proof -
  let ?p = "pipe_put 65 (pipe_put 66 new_pipe)"
  have "pipe_inv ?p" "contents ?p = [66, 65]" "unat (count ?p) = 2"
    using new_pipe_inv pipe_put_contents [of new_pipe 66] pipe_put_contents [of "pipe_put 66 new_pipe" 65]
    by (simp_all add: PIPE_CAP_def) (simp_all add: new_pipe_def pipe_put_def)
  then show ?thesis using pipe_read_available [of ?p 2 "\<lambda>_ p. p" "\<lambda>_. 0"] by auto
qed

text \<open>
  C16: a write to a pipe with a reader and enough room stores all its bytes behind those in
  flight, in order, and returns the full count; a non-empty write to a pipe without readers returns -1
  and changes nothing.
\<close>

theorem pipe_write_available:
  assumes "pipe_inv pp"
  shows "(readers pp \<noteq> 0 \<and> unat (count pp) + unat len \<le> 4096 \<longrightarrow>
            (\<exists>pp'. pipe_write others pp buf len = Some (len, pp') \<and> pipe_inv pp' \<and>
               contents pp' = contents pp @ bytes buf 0 (unat len))) \<and>
         (readers pp = 0 \<and> len \<noteq> 0 \<longrightarrow> pipe_write others pp buf len = Some (- 1, pp))"
proof (intro conjI impI)
  assume "readers pp \<noteq> 0 \<and> unat (count pp) + unat len \<le> 4096"
  then show "\<exists>pp'. pipe_write others pp buf len = Some (len, pp') \<and> pipe_inv pp' \<and>
      contents pp' = contents pp @ bytes buf 0 (unat len)"
    using write_loop_available [OF assms, of 0 len others 0 buf] by (auto simp: pipe_write_def)
next
  assume "readers pp = 0 \<and> len \<noteq> 0"
  then show "pipe_write others pp buf len = Some (- 1, pp)"
    unfolding pipe_write_def by (subst write_loop.simps) (simp add: word_neq_0_conv)
qed

theorem pipe_write_available_witness:
  "\<exists>pp'. pipe_write (\<lambda>_ p. p) new_pipe (\<lambda>i. of_nat i) 3 = Some (3, pp') \<and> contents pp' = [0, 1, 2]"
proof -
  have "bytes (\<lambda>i. of_nat i) 0 3 = [0, 1, 2]" by (simp add: bytes_def upt_rec)
  then show ?thesis
    using pipe_write_available [OF new_pipe_inv(1), of 3 "\<lambda>_ p. p" "\<lambda>i. of_nat i"] new_pipe_inv(2)
    by (auto simp: new_pipe_def)
qed

end
