(* ===== verification/Serial.thy ===== *)
theory Serial
  imports Prelude
begin

text \<open>
  The serial port driver, src/src/drivers/serial.c: the bytes written to the ports of COM1, in order.
  The wait for the transmitter to become ready reads a device register and writes nothing.
\<close>

definition COM1 :: u16 where "COM1 = 0x3F8"

type_synonym port_log = "(u16 \<times> u8) list"

definition serial_init :: "port_log \<Rightarrow> os_status \<times> port_log" where
  "serial_init l =
     (OS_OK, l @ [(COM1 + 1, 0x00), (COM1 + 3, 0x80), (COM1 + 0, 0x03), (COM1 + 1, 0x00),
                  (COM1 + 3, 0x03), (COM1 + 2, 0xC7), (COM1 + 4, 0x0B)])"

definition serial_putc :: "u8 \<Rightarrow> port_log \<Rightarrow> port_log" where
  "serial_putc c l = (let l = (if c = 10 then l @ [(COM1, 13)] else l) in l @ [(COM1, c)])"

definition serial_write :: "cstring \<Rightarrow> port_log \<Rightarrow> port_log" where
  "serial_write s l = fold serial_putc (c_text s) l"

definition serial_write_n :: "u8 list \<Rightarrow> port_log \<Rightarrow> port_log" where
  "serial_write_n xs l = fold serial_putc xs l"

definition hx :: "nat \<Rightarrow> u8" where
  "hx d = str ''0123456789ABCDEF'' ! d"

definition serial_write_hex :: "u32 \<Rightarrow> port_log \<Rightarrow> port_log" where
  "serial_write_hex v l =
     fold (\<lambda>i. serial_putc (hx (unat (drop_bit i v AND 0xF)))) [28, 24, 20, 16, 12, 8, 4, 0]
       (serial_putc (ch CHR ''x'') (serial_putc (ch CHR ''0'') l))"

definition serial_write_hex64 :: "u64 \<Rightarrow> port_log \<Rightarrow> port_log" where
  "serial_write_hex64 v l =
     fold (\<lambda>i. serial_putc (hx (unat (drop_bit i v AND 0xF)))) [60, 56, 52, 48, 44, 40, 36, 32, 28, 24, 20, 16, 12, 8, 4, 0]
       (serial_putc (ch CHR ''x'') (serial_putc (ch CHR ''0'') l))"

end
