(* ===== verification/Signal.thy ===== *)
theory Signal
  imports Scheduler Pipe Serial
begin

text \<open>
  Signals, src/src/proc/signal.c, with \<open>sys_exit\<close> of src/src/proc/syscalls.c and the timer entry
  \<open>scheduler_tick\<close> of src/src/proc/scheduler.c that delivers them. The state adds to the kernel state
  the pipe pool, the bytes sent to the serial port and the memory of the user stack as 64-bit cells.
\<close>

section \<open>The code\<close>

definition SIGINT :: nat where "SIGINT = 2"
definition SIGKILL :: nat where "SIGKILL = 9"
definition SIGTERM :: nat where "SIGTERM = 15"

record isr_frame =
  if_r15 :: u64
  if_r14 :: u64
  if_r13 :: u64
  if_r12 :: u64
  if_r11 :: u64
  if_r10 :: u64
  if_r9 :: u64
  if_r8 :: u64
  if_rbp :: u64
  if_rdi :: u64
  if_rsi :: u64
  if_rdx :: u64
  if_rcx :: u64
  if_rbx :: u64
  if_rax :: u64
  if_vector :: u64
  if_error_code :: u64
  if_rip :: u64
  if_cs :: u64
  if_rflags :: u64
  if_rsp :: u64
  if_ss :: u64

record syscall_frame =
  sf_rax :: u64
  sf_rdi :: u64
  sf_rsi :: u64
  sf_rdx :: u64
  sf_r10 :: u64
  sf_r8 :: u64
  sf_r9 :: u64
  sf_rbx :: u64
  sf_rbp :: u64
  sf_r12 :: u64
  sf_r13 :: u64
  sf_r14 :: u64
  sf_r15 :: u64
  sf_rip :: u64
  sf_rflags :: u64
  sf_ursp :: u64

record sys =
  ks :: kern
  pipes :: "nat \<Rightarrow> pipe"
  com1 :: port_log
  umem :: "u64 \<Rightarrow> u64"

definition on_current :: "(process \<Rightarrow> process) \<Rightarrow> sys \<Rightarrow> sys" where
  "on_current f s = s\<lparr>ks := upd_proc (g_current (ks s)) f (ks s)\<rparr>"

definition current :: "sys \<Rightarrow> process" where
  "current s = procs (ks s) (g_current (ks s))"

definition fd_is_pipe :: "fd_kind \<Rightarrow> bool" where
  "fd_is_pipe k \<longleftrightarrow> k = FD_PIPE_R \<or> k = FD_PIPE_W"

text \<open>\<open>sys_exit\<close> does not return: another thread runs, or nothing is ready and the CPU halts.\<close>

datatype gone = Runs_other sys | Halts sys

definition sys_exit :: "u32 \<Rightarrow> sys \<Rightarrow> gone" where
  "sys_exit code s =
     (let cur = current s;
          s = s\<lparr>pipes := fold (\<lambda>i g. if fd_is_pipe (kind (fds cur i)) then pipe_close (kind (fds cur i)) (ffile (fds cur i)) g else g)
                  [0 ..< PROC_MAX_FDS] (pipes s)\<rparr>;
          l = serial_write (str ''[noxis64] pid '') (com1 s);
          l = serial_write_hex64 (pid cur) l;
          l = serial_write (str '' exit code='') l;
          l = serial_write_hex64 (ucast code) l;
          s = s\<lparr>com1 := serial_write [10] l\<rparr>
      in case scheduler_exit code (ks s) of
           Switched k \<Rightarrow> Runs_other (s\<lparr>ks := k\<rparr>)
         | Halted k \<Rightarrow> Halts (s\<lparr>ks := k\<rparr>))"

text \<open>The loop over the signals that both delivery routines contain: what it decides, and the process after it.\<close>

datatype delivered = Handler nat u64 | Fatal nat | Idle

fun deliver_loop :: "nat \<Rightarrow> nat \<Rightarrow> process \<Rightarrow> delivered \<times> process" where
  "deliver_loop sig 0 p = (Idle, p)"
| "deliver_loop sig (Suc k) p =
     (if sig_pending p AND push_bit sig 1 = 0 then deliver_loop (Suc sig) k p
      else let p = p\<lparr>sig_pending := sig_pending p AND NOT (push_bit sig 1)\<rparr>; h = sig_handler p sig
           in if h \<noteq> 0 then (Handler sig h, p)
              else if sig = SIGKILL \<or> sig = SIGTERM \<or> sig = SIGINT then (Fatal sig, p)
              else deliver_loop (Suc sig) k p)"

datatype 'f delivery = Returns 'f sys | Never gone

definition deliver_signals_isr :: "isr_frame \<Rightarrow> sys \<Rightarrow> isr_frame delivery" where
  "deliver_signals_isr f s =
     (if g_current (ks s) = 0 \<or> sig_pending (current s) = 0 then Returns f s
      else let (d, p) = deliver_loop 1 31 (current s); s = on_current (\<lambda>_. p) s
           in case d of
                Idle \<Rightarrow> Returns f s
              | Handler sig h \<Rightarrow>
                  let f = f\<lparr>if_rsp := if_rsp f - 8\<rparr>; s = s\<lparr>umem := (umem s)(if_rsp f := if_rip f)\<rparr>
                  in Returns (f\<lparr>if_rip := h, if_rdi := of_nat sig\<rparr>) s
              | Fatal sig \<Rightarrow> Never (sys_exit (128 + of_nat sig) s))"

definition sys_signal :: "u32 \<Rightarrow> u64 \<Rightarrow> sys \<Rightarrow> int \<times> sys" where
  "sys_signal sig handler s =
     (if sint sig \<le> 0 \<or> sint sig \<ge> 32 then (- 1, s)
      else (0, on_current (\<lambda>p. p\<lparr>sig_handler := (sig_handler p)(unat sig := handler)\<rparr>) s))"

definition sys_kill :: "u64 \<Rightarrow> u32 \<Rightarrow> sys \<Rightarrow> (int \<times> sys) option" where
  "sys_kill target sig s =
     (if sint sig \<le> 0 \<or> sint sig \<ge> 32 then Some (- 1, s)
      else case scheduler_find target (ks s) of
             None \<Rightarrow> None
           | Some t \<Rightarrow>
               if t = 0 then Some (- 1, s)
               else Some (0, s\<lparr>ks := upd_proc t (\<lambda>p. p\<lparr>sig_pending := sig_pending p OR push_bit (unat sig) 1\<rparr>) (ks s)\<rparr>))"

definition deliver_signals :: "syscall_frame \<Rightarrow> sys \<Rightarrow> syscall_frame delivery" where
  "deliver_signals f s =
     (if sig_pending (current s) = 0 then Returns f s
      else let (d, p) = deliver_loop 1 31 (current s); s = on_current (\<lambda>_. p) s
           in case d of
                Idle \<Rightarrow> Returns f s
              | Handler sig h \<Rightarrow>
                  let f = f\<lparr>sf_ursp := sf_ursp f - 8\<rparr>; s = s\<lparr>umem := (umem s)(sf_ursp f := sf_rip f)\<rparr>
                  in Returns (f\<lparr>sf_rip := h, sf_rdi := of_nat sig\<rparr>) s
              | Fatal sig \<Rightarrow> Never (sys_exit (128 + of_nat sig) s))"

definition scheduler_tick :: "isr_frame \<Rightarrow> sys \<Rightarrow> isr_frame delivery" where
  "scheduler_tick f s =
     (if g_current (ks s) = 0 then Returns f s
      else case (if if_cs f AND 3 = 3 \<and> sig_pending (current s) \<noteq> 0 then deliver_signals_isr f s else Returns f s) of
             Never g \<Rightarrow> Never g
           | Returns f s \<Rightarrow>
               let s = (if quantum_remaining (current s) > 0
                        then on_current (\<lambda>p. p\<lparr>quantum_remaining := quantum_remaining p - 1\<rparr>) s else s)
               in Returns f (if quantum_remaining (current s) = 0 then s\<lparr>ks := scheduler_yield (ks s)\<rparr> else s))"

section \<open>Delivery drains the pending signals\<close>

definition pending :: "process \<Rightarrow> nat \<Rightarrow> bool" where
  "pending p sig \<longleftrightarrow> bit (sig_pending p) sig"

definition fatal :: "nat \<Rightarrow> bool" where
  "fatal sig \<longleftrightarrow> sig = SIGKILL \<or> sig = SIGTERM \<or> sig = SIGINT"

text \<open>The signals a process acts on, and what it does: enter the handler, or die.\<close>

definition acts_on :: "process \<Rightarrow> nat \<Rightarrow> bool" where
  "acts_on p sig \<longleftrightarrow> pending p sig \<and> (sig_handler p sig \<noteq> 0 \<or> fatal sig)"

definition action :: "process \<Rightarrow> nat \<Rightarrow> delivered" where
  "action p sig = (if sig_handler p sig \<noteq> 0 then Handler sig (sig_handler p sig) else Fatal sig)"

text \<open>\<open>cleared p q lo hi\<close>: \<open>q\<close> is \<open>p\<close> without the pending signals from \<open>lo\<close> up to \<open>hi\<close>.\<close>

definition cleared :: "process \<Rightarrow> process \<Rightarrow> nat \<Rightarrow> nat \<Rightarrow> bool" where
  "cleared p q lo hi \<longleftrightarrow> sig_handler q = sig_handler p \<and> (\<forall>i < 32. pending q i \<longleftrightarrow> pending p i \<and> \<not> (lo \<le> i \<and> i \<le> hi))"

lemma pending_test: "sig_pending p AND 2 ^ sig = 0 \<longleftrightarrow> \<not> pending p sig"
  by (simp add: pending_def and_exp_eq_0_iff_not_bit)

lemma pending_clear:
  "i < 32 \<Longrightarrow> pending (p\<lparr>sig_pending := sig_pending p AND NOT (2 ^ sig)\<rparr>) i \<longleftrightarrow> pending p i \<and> i \<noteq> sig"
  by (auto simp: pending_def bit_simps)

lemma cleared_step:
  assumes "cleared (p\<lparr>sig_pending := sig_pending p AND NOT (push_bit sig 1)\<rparr>) q (Suc sig) hi" and "sig \<le> hi"
  shows "cleared p q sig hi"
  using assms by (auto simp: cleared_def pending_clear le_eq_less_or_eq Suc_le_eq)

lemma deliver_loop_spec:
  assumes "sig + k = 32"
  shows "case filter (acts_on p) [sig ..< 32] of
      [] \<Rightarrow> \<exists>q. deliver_loop sig k p = (Idle, q) \<and> cleared p q sig 31
    | s # _ \<Rightarrow> \<exists>q. deliver_loop sig k p = (action p s, q) \<and> cleared p q sig s"
  using assms
proof (induction k arbitrary: sig p)
  case 0
  then show ?case by (auto simp: cleared_def)
next
  case (Suc k)
  let ?q = "p\<lparr>sig_pending := sig_pending p AND NOT (push_bit sig 1)\<rparr>"
  have upt: "[sig ..< 32] = sig # [Suc sig ..< 32]" using Suc.prems by (simp add: upt_conv_Cons)
  have later: "acts_on ?q i \<longleftrightarrow> acts_on p i" "action ?q i = action p i" if "i \<in> set [Suc sig ..< 32]" for i
    using that by (auto simp: acts_on_def pending_clear action_def)
  consider (idle) "\<not> pending p sig" | (act) "acts_on p sig" | (ignore) "pending p sig" "\<not> acts_on p sig"
    by (auto simp: acts_on_def)
  then show ?case
  proof cases
    case idle
    then have "\<not> acts_on p sig" by (simp add: acts_on_def)
    moreover have "cleared p q sig hi" if "cleared p q (Suc sig) hi" for q hi
      using that idle by (auto simp: cleared_def le_eq_less_or_eq Suc_le_eq)
    ultimately show ?thesis
      using Suc.IH [of "Suc sig" p] Suc.prems idle
      by (auto simp: upt pending_test split: list.splits)
  next
    case act
    then have p: "pending p sig" "sig_handler p sig \<noteq> 0 \<or> fatal sig" by (auto simp: acts_on_def)
    then have "deliver_loop sig (Suc k) p = (action p sig, ?q)"
      by (auto simp: pending_test Let_def action_def fatal_def)
    moreover have "cleared p ?q sig sig" by (auto simp: cleared_def pending_clear)
    ultimately show ?thesis using act by (simp add: upt)
  next
    case ignore
    then have h: "sig_handler p sig = 0" "\<not> fatal sig" by (auto simp: acts_on_def)
    then have step: "deliver_loop sig (Suc k) p = deliver_loop (Suc sig) k ?q"
      using ignore by (simp add: pending_test Let_def fatal_def)
    have f: "filter (acts_on ?q) [Suc sig ..< 32] = filter (acts_on p) [Suc sig ..< 32]"
      by (rule filter_cong [OF refl]) (rule later(1))
    show ?thesis
    proof (cases "filter (acts_on p) [Suc sig ..< 32]")
      case Nil
      then show ?thesis using Suc.IH [of "Suc sig" ?q] Suc.prems ignore step f cleared_step [of p sig _ 31] by (auto simp: upt)
    next
      case (Cons s ss)
      then have "s \<in> set [Suc sig ..< 32]" by (metis filter_is_subset list.set_intros(1) subset_code(1))
      then show ?thesis
        using Suc.IH [of "Suc sig" ?q] Suc.prems ignore step f Cons later(2) [of s] cleared_step [of p sig _ s] by (auto simp: upt)
    qed
  qed
qed

text \<open>What happens on successive returns to user mode, up to the first that finds nothing to do or ends the process.\<close>

fun returns :: "nat \<Rightarrow> process \<Rightarrow> delivered list" where
  "returns 0 p = []"
| "returns (Suc n) p =
     (case deliver_loop 1 31 p of (Handler s h, q) \<Rightarrow> Handler s h # returns n q | (d, q) \<Rightarrow> [d])"

fun expected :: "process \<Rightarrow> nat list \<Rightarrow> delivered list" where
  "expected p [] = [Idle]"
| "expected p (s # ss) = (if sig_handler p s \<noteq> 0 then action p s # expected p ss else [Fatal s])"

lemma expected_cong: "sig_handler q = sig_handler p \<Longrightarrow> expected q ss = expected p ss"
  by (induction ss) (simp_all add: action_def)

lemma filter_cleared:
  assumes "filter (acts_on p) [1 ..< 32] = s # ss" and "cleared p q 1 s"
  shows "filter (acts_on q) [1 ..< 32] = ss"
proof -
  have "s \<in> set (filter (acts_on p) [1 ..< 32])" unfolding assms(1) by simp
  then have s: "s \<in> {1 ..< 32}" "acts_on p s" by simp_all
  have split: "[1 ..< 32] = [1 ..< s] @ s # [Suc s ..< 32]"
    using s upt_add_eq_append [of 1 s "32 - s"] by (simp add: upt_conv_Cons)
  have "filter (acts_on p) [1 ..< s] = []"
  proof (cases "filter (acts_on p) [1 ..< s]")
    case (Cons a as)
    then have "a \<in> set [1 ..< s]" by (metis filter_is_subset list.set_intros(1) subset_code(1))
    moreover have "a = s" using assms(1) Cons unfolding split by simp
    ultimately show ?thesis by simp
  qed
  then have ss: "ss = filter (acts_on p) [Suc s ..< 32]" using assms(1) s unfolding split by simp
  have "\<not> acts_on q i" if "i \<in> set ([1 ..< s] @ [s])" for i
    using assms(2) that s by (auto simp: cleared_def acts_on_def)
  moreover have "filter (acts_on q) [Suc s ..< 32] = filter (acts_on p) [Suc s ..< 32]"
    using assms(2) by (intro filter_cong refl) (auto simp: cleared_def acts_on_def)
  ultimately show ?thesis unfolding split ss by (simp add: filter_empty_conv)
qed

lemma returns_expected:
  "length (filter (acts_on p) [1 ..< 32]) < n \<Longrightarrow> returns n p = expected p (filter (acts_on p) [1 ..< 32])"
proof (induction n arbitrary: p)
  case (Suc n)
  show ?case
  proof (cases "filter (acts_on p) [1 ..< 32]")
    case Nil
    then show ?thesis using deliver_loop_spec [of 1 31 p] by auto
  next
    case (Cons s ss)
    then obtain q where q: "deliver_loop 1 31 p = (action p s, q)" "cleared p q 1 s"
      using deliver_loop_spec [of 1 31 p] by auto
    have "returns n q = expected q ss"
      using Suc.IH [of q] Suc.prems filter_cleared [OF Cons q(2)] Cons by simp
    moreover have "sig_handler q = sig_handler p" using q(2) by (simp add: cleared_def)
    ultimately show ?thesis using q(1) Cons expected_cong [of q p] by (simp add: action_def)
  qed
qed simp

text \<open>
  C33: every pending signal is acted on. With \<open>sigs\<close> the pending signals that have a handler or are
  fatal, in ascending order, the returns to user mode enter their handlers one by one, each
  signal once, until all are delivered or the first fatal signal without a handler ends the process;
  after at most 31 returns none is left.
\<close>

theorem signals_all_delivered:
  "returns 32 p = expected p (filter (acts_on p) [1 ..< 32])"
proof (rule returns_expected)
  have "length (filter (acts_on p) [1 ..< 32]) \<le> length [1 ..< 32]" by (rule length_filter_le)
  then show "length (filter (acts_on p) [1 ..< 32]) < 32" by simp
qed

text \<open>
  C34: a handler returns to the interrupted code. When a system call return delivers a signal with a
  handler, the frame continues in the handler with the signal number in RDI, and the cell the new
  stack pointer refers to holds the interrupted instruction, so that the handler's \<open>ret\<close> resumes it
  with the old stack pointer; no other cell of the user stack changes.
\<close>

theorem handler_returns_to_interrupted:
  assumes "deliver_signals f s = Returns g t" and "g \<noteq> f"
  shows "\<exists>sig. acts_on (current s) sig \<and> sf_rip g = sig_handler (current s) sig \<and> sf_rdi g = of_nat sig
    \<and> umem t (sf_ursp g) = sf_rip f \<and> sf_ursp g + 8 = sf_ursp f \<and> (\<forall>a. a \<noteq> sf_ursp g \<longrightarrow> umem t a = umem s a)"
proof -
  have pend: "sig_pending (current s) \<noteq> 0" using assms by (auto simp: deliver_signals_def)
  obtain d p where d: "deliver_loop 1 31 (current s) = (d, p)" by fastforce
  obtain sig h where h: "d = Handler sig h" using assms pend d by (cases d) (auto simp: deliver_signals_def)
  have "sig_handler (current s) sig = h \<and> acts_on (current s) sig"
    using deliver_loop_spec [of 1 31 "current s"] d h
    by (auto simp: action_def split: list.splits if_splits simp: filter_eq_Cons_iff)
  moreover have "g = f\<lparr>sf_ursp := sf_ursp f - 8, sf_rip := h, sf_rdi := of_nat sig\<rparr>"
    "umem t = (umem s)(sf_ursp f - 8 := sf_rip f)"
    using assms(1) pend d h by (auto simp: deliver_signals_def Let_def on_current_def)
  ultimately show ?thesis by auto
qed

definition sig_demo :: sys where
  "sig_demo = \<lparr>ks = demo_kern\<lparr>procs := (\<lambda>_. blank_process\<lparr>sig_pending := 2, sig_handler := (\<lambda>_. 0x1000)\<rparr>)\<rparr>,
     pipes = (\<lambda>_. new_pipe), com1 = [], umem = (\<lambda>_. 0)\<rparr>"

definition frame_demo :: syscall_frame where
  "frame_demo = \<lparr>sf_rax = 0, sf_rdi = 0, sf_rsi = 0, sf_rdx = 0, sf_r10 = 0, sf_r8 = 0, sf_r9 = 0, sf_rbx = 0, sf_rbp = 0,
     sf_r12 = 0, sf_r13 = 0, sf_r14 = 0, sf_r15 = 0, sf_rip = 7, sf_rflags = 0, sf_ursp = 0x5000\<rparr>"

theorem handler_returns_to_interrupted_witness:
  "\<exists>g t. deliver_signals frame_demo sig_demo = Returns g t \<and> sf_rip g = 0x1000 \<and> umem t (sf_ursp g) = 7"
proof -
  have cur: "sig_pending (current sig_demo) = 2" "sig_handler (current sig_demo) = (\<lambda>_. 0x1000)"
    by (simp_all add: current_def sig_demo_def)
  have "\<exists>p. deliver_loop 1 31 (current sig_demo) = (Handler 1 0x1000, p)"
    using deliver_loop.simps(2) [of 1 30 "current sig_demo"] by (simp add: cur Let_def)
  then obtain p where "deliver_loop 1 31 (current sig_demo) = (Handler 1 0x1000, p)" ..
  then obtain g t where r: "deliver_signals frame_demo sig_demo = Returns g t" "sf_rdi g = 1"
    by (auto simp: deliver_signals_def cur Let_def)
  then have "g \<noteq> frame_demo" by (auto simp: frame_demo_def)
  with handler_returns_to_interrupted [OF r(1)] r show ?thesis by (auto simp: cur frame_demo_def)
qed

end
