(* ===== verification/Block.thy ===== *)
theory Block
  imports Prelude
begin

text \<open>
  The block device layer, src/src/drivers/block/block.c and block.h: the device registry, the
  pool of request slots, the elevator queue of each device and synchronous I/O. Request slots are
  pointers \<open>1 .. 16\<close> into the pool (0 is the null pointer), linked through \<open>rq_next\<close>. A driver's transfer
  callback is a function on a state \<open>'w\<close> of disks and memory, \<open>'b\<close> are the buffer addresses it is given;
  the walks along a queue are \<open>None\<close> when the queue is cyclic. Saving and restoring the interrupt flag has no
  effect on this state.
\<close>

section \<open>The code\<close>

definition BLK_MAX_DEVICES :: nat where "BLK_MAX_DEVICES = 4"
definition BLK_NR_REQUEST :: nat where "BLK_NR_REQUEST = 16"

type_synonym ('b, 'w) blk_transfer_fn = "u32 \<Rightarrow> u32 \<Rightarrow> 'b \<Rightarrow> bool \<Rightarrow> 'w \<Rightarrow> os_status \<times> 'w"

record ('b, 'w) block_device =
  dev_name :: cstring
  sectors :: u32
  dev_transfer :: "('b, 'w) blk_transfer_fn option"
  registered :: bool

record 'b blk_request =
  rq_dev :: nat
  rq_write :: bool
  rq_lba :: u32
  rq_count :: u32
  rq_buf :: 'b
  rq_status :: os_status
  rq_next :: nat
  in_use :: bool

record ('b, 'w) blk =
  g_devices :: "nat \<Rightarrow> ('b, 'w) block_device option"
  g_dev_count :: nat
  g_pool :: "nat \<Rightarrow> 'b blk_request"
  g_queue :: "nat \<Rightarrow> nat"
  g_served :: u32
  world :: 'w

definition blk_init :: "('b, 'w) blk \<Rightarrow> ('b, 'w) blk" where
  "blk_init s = s\<lparr>g_dev_count := 0, g_served := 0,
     g_devices := (\<lambda>i. if i < BLK_MAX_DEVICES then None else g_devices s i),
     g_queue := (\<lambda>i. if i < BLK_MAX_DEVICES then 0 else g_queue s i),
     g_pool := (\<lambda>p. if 1 \<le> p \<and> p \<le> BLK_NR_REQUEST then (g_pool s p)\<lparr>in_use := False, rq_next := 0\<rparr> else g_pool s p)\<rparr>"

definition blk_register :: "('b, 'w) block_device option \<Rightarrow> ('b, 'w) blk \<Rightarrow> int \<times> ('b, 'w) blk" where
  "blk_register dev s =
     (case dev of None \<Rightarrow> (- 1, s)
      | Some d \<Rightarrow>
          if dev_transfer d = None \<or> g_dev_count s \<ge> BLK_MAX_DEVICES then (- 1, s)
          else (int (g_dev_count s),
                s\<lparr>g_dev_count := Suc (g_dev_count s),
                  g_devices := (g_devices s)(g_dev_count s := Some (d\<lparr>registered := True\<rparr>))\<rparr>))"

definition blk_get :: "int \<Rightarrow> ('b, 'w) blk \<Rightarrow> ('b, 'w) block_device option" where
  "blk_get devid s = (if devid < 0 \<or> devid \<ge> int (g_dev_count s) then None else g_devices s (nat devid))"

definition blk_device_count :: "('b, 'w) blk \<Rightarrow> nat" where
  "blk_device_count s = g_dev_count s"

definition blk_requests_served :: "('b, 'w) blk \<Rightarrow> u32" where
  "blk_requests_served s = g_served s"

text \<open>The first free slot of the pool, and its release.\<close>

definition request_alloc :: "('b, 'w) blk \<Rightarrow> nat \<times> ('b, 'w) blk" where
  "request_alloc s =
     (case find (\<lambda>p. \<not> in_use (g_pool s p)) [1 ..< Suc BLK_NR_REQUEST] of
        None \<Rightarrow> (0, s)
      | Some p \<Rightarrow> (p, s\<lparr>g_pool := (g_pool s)(p := (g_pool s p)\<lparr>in_use := True, rq_next := 0\<rparr>)\<rparr>))"

definition request_free :: "nat \<Rightarrow> ('b, 'w) blk \<Rightarrow> ('b, 'w) blk" where
  "request_free r s = s\<lparr>g_pool := (g_pool s)(r := (g_pool s r)\<lparr>in_use := False, rq_next := 0\<rparr>)\<rparr>"

text \<open>
  The elevator's walk: \<open>prev\<close> is the slot whose link \<open>pp\<close> points at (0 for the queue head), \<open>cur\<close> is \<open>*pp\<close>.
\<close>

partial_function (option) elevator_pos :: "(nat \<Rightarrow> 'b blk_request) \<Rightarrow> u32 \<Rightarrow> nat \<Rightarrow> nat \<Rightarrow> (nat \<times> nat) option" where
  "elevator_pos pool lba prev cur =
     (if cur \<noteq> 0 \<and> rq_lba (pool cur) \<le> lba then elevator_pos pool lba cur (rq_next (pool cur)) else Some (prev, cur))"

definition elevator_insert :: "nat \<Rightarrow> nat \<Rightarrow> ('b, 'w) blk \<Rightarrow> ('b, 'w) blk option" where
  "elevator_insert devid req s =
     map_option (\<lambda>(prev, cur).
       let s = s\<lparr>g_pool := (g_pool s)(req := (g_pool s req)\<lparr>rq_next := cur\<rparr>)\<rparr>
       in if prev = 0 then s\<lparr>g_queue := (g_queue s)(devid := req)\<rparr>
          else s\<lparr>g_pool := (g_pool s)(prev := (g_pool s prev)\<lparr>rq_next := req\<rparr>)\<rparr>)
       (elevator_pos (g_pool s) (rq_lba (g_pool s req)) 0 (g_queue s devid))"

definition run_request :: "('b, 'w) blk_transfer_fn \<Rightarrow> nat \<Rightarrow> ('b, 'w) blk \<Rightarrow> ('b, 'w) blk" where
  "run_request xfer req s =
     (let r = g_pool s req; (st, w) = xfer (rq_lba r) (rq_count r) (rq_buf r) (rq_write r) (world s)
      in s\<lparr>world := w, g_pool := (g_pool s)(req := r\<lparr>rq_status := st\<rparr>), g_served := g_served s + 1\<rparr>)"

partial_function (option) run_queue :: "('b, 'w) blk_transfer_fn \<Rightarrow> nat \<Rightarrow> ('b, 'w) blk \<Rightarrow> ('b, 'w) blk option" where
  "run_queue xfer devid s =
     (let req = g_queue s devid in
      if req = 0 then Some s
      else run_queue xfer devid (run_request xfer req (s\<lparr>g_queue := (g_queue s)(devid := rq_next (g_pool s req))\<rparr>)))"

definition blk_rw :: "int \<Rightarrow> u32 \<Rightarrow> u32 \<Rightarrow> 'b option \<Rightarrow> bool \<Rightarrow> ('b, 'w) blk \<Rightarrow> (os_status \<times> ('b, 'w) blk) option" where
  "blk_rw devid lba count buf write s =
     (if devid < 0 \<or> devid \<ge> int (g_dev_count s) then Some (OS_ERR_INVALID, s)
      else case buf of None \<Rightarrow> Some (OS_ERR_INVALID, s)
      | Some b \<Rightarrow>
      if count = 0 then Some (OS_ERR_INVALID, s)
      else case g_devices s (nat devid) of None \<Rightarrow> Some (OS_ERR_NOT_FOUND, s)
      | Some dev \<Rightarrow>
      case dev_transfer dev of None \<Rightarrow> Some (OS_ERR_NOT_FOUND, s)
      | Some xfer \<Rightarrow>
      if sectors dev \<noteq> 0 \<and> lba + count > sectors dev then Some (OS_ERR_RANGE, s)
      else let (req, s) = request_alloc s in
      if req = 0 then Some (OS_ERR_BUSY, s)
      else let s = s\<lparr>g_pool := (g_pool s)(req := (g_pool s req)
                    \<lparr>rq_dev := nat devid, rq_write := write, rq_lba := lba, rq_count := count, rq_buf := b, rq_status := OS_ERR_IO\<rparr>)\<rparr>
      in case elevator_insert (nat devid) req s of None \<Rightarrow> None
      | Some s \<Rightarrow>
      case run_queue xfer (nat devid) s of None \<Rightarrow> None
      | Some s \<Rightarrow> Some (rq_status (g_pool s req), request_free req s))"

section \<open>The elevator\<close>

text \<open>The queue of a device as the list of its request slots, and the elevator on lists.\<close>

definition queue :: "('b, 'w) blk \<Rightarrow> nat \<Rightarrow> nat list \<Rightarrow> bool" where
  "queue s devid qs \<longleftrightarrow> chain (\<lambda>p. rq_next (g_pool s p)) (g_queue s devid) qs \<and> distinct qs"

definition lba_of :: "('b, 'w) blk \<Rightarrow> nat \<Rightarrow> u32" where
  "lba_of s p = rq_lba (g_pool s p)"

definition elevator :: "(nat \<Rightarrow> u32) \<Rightarrow> nat \<Rightarrow> nat list \<Rightarrow> nat list" where
  "elevator key r qs = takeWhile (\<lambda>q. key q \<le> key r) qs @ r # dropWhile (\<lambda>q. key q \<le> key r) qs"

lemma elevator_pos_chain:
  assumes "chain (\<lambda>p. rq_next (pool p)) cur qs"
  shows "\<exists>c. elevator_pos pool lba prev cur = Some (last (prev # takeWhile (\<lambda>q. rq_lba (pool q) \<le> lba) qs), c) \<and>
    chain (\<lambda>p. rq_next (pool p)) c (dropWhile (\<lambda>q. rq_lba (pool q) \<le> lba) qs)"
  using assms
proof (induction qs arbitrary: prev cur)
  case Nil
  then show ?case by (simp add: elevator_pos.simps)
next
  case (Cons q qs)
  then have q: "cur = q" "q \<noteq> 0" "chain (\<lambda>p. rq_next (pool p)) (rq_next (pool q)) qs" by auto
  show ?case
  proof (cases "rq_lba (pool q) \<le> lba")
    case True
    then have step: "elevator_pos pool lba prev cur = elevator_pos pool lba q (rq_next (pool q))"
      using q by (subst elevator_pos.simps) simp
    show ?thesis unfolding step using Cons.IH [OF q(3), of q] True by simp
  next
    case False
    then show ?thesis using q Cons.prems by (subst elevator_pos.simps) simp
  qed
qed

lemma distinct_insert_mid: "distinct (as @ bs) \<Longrightarrow> r \<notin> set (as @ bs) \<Longrightarrow> distinct (as @ r # bs)"
  by auto

text \<open>Linking a node behind the last node of a prefix.\<close>

lemma chain_link:
  assumes "chain nx p (as @ bs)" "distinct (as @ bs)" "r \<notin> set (as @ bs)" "r \<noteq> 0" "as \<noteq> []" "chain nx c bs"
  shows "chain (nx(r := c, last as := r)) p (as @ r # bs)"
  using assms
proof (induction as arbitrary: p)
  case (Cons a as)
  show ?case
  proof (cases "as = []")
    case True
    have "chain (nx(r := c, a := r)) c bs"
      by (rule chain_cong [THEN iffD1, OF _ Cons.prems(6)]) (use Cons.prems(2,3) True in auto)
    then show ?thesis using Cons.prems True by (simp add: fun_upd_def del: chain_frame)
  next
    case False
    then have "chain (nx(r := c, last as := r)) (nx a) (as @ r # bs)"
      using Cons.prems by (intro Cons.IH) auto
    moreover have "a \<noteq> last as" "a \<noteq> r" using Cons.prems False by auto
    ultimately show ?thesis using Cons.prems False by (auto simp: fun_upd_def)
  qed
qed simp

lemma elevator_insert_queue:
  assumes q: "queue s devid qs" and r: "r \<noteq> 0" "r \<notin> set qs"
  obtains s' where "elevator_insert devid r s = Some s'" "queue s' devid (elevator (lba_of s) r qs)"
    "g_pool s' = (\<lambda>p. (g_pool s p)\<lparr>rq_next := rq_next (g_pool s' p)\<rparr>)"
    "s' = s\<lparr>g_pool := g_pool s', g_queue := g_queue s'\<rparr>"
proof -
  let ?lba = "rq_lba (g_pool s r)" and ?nx = "\<lambda>p. rq_next (g_pool s p)"
  let ?as = "takeWhile (\<lambda>q. rq_lba (g_pool s q) \<le> ?lba) qs" and ?bs = "dropWhile (\<lambda>q. rq_lba (g_pool s q) \<le> ?lba) qs"
  have ch: "chain ?nx (g_queue s devid) qs" and d: "distinct qs" using q by (simp_all add: queue_def)
  obtain c where pos: "elevator_pos (g_pool s) ?lba 0 (g_queue s devid) = Some (last (0 # ?as), c)" and c: "chain ?nx c ?bs"
    using elevator_pos_chain [OF ch, of ?lba 0] by blast
  have el: "elevator (lba_of s) r qs = ?as @ r # ?bs" by (simp add: elevator_def lba_of_def)
  have dist: "distinct (?as @ r # ?bs)"
    by (rule distinct_insert_mid) (simp_all only: takeWhile_dropWhile_id d r(2) not_False_eq_True)
  show thesis
  proof (cases "?as = []")
    case True
    let ?s = "s\<lparr>g_pool := (g_pool s)(r := (g_pool s r)\<lparr>rq_next := c\<rparr>), g_queue := (g_queue s)(devid := r)\<rparr>"
    have e: "elevator_insert devid r s = Some ?s" using pos True by (simp add: elevator_insert_def Let_def)
    have "chain (?nx(r := c)) c ?bs" 
      by (rule chain_cong [THEN iffD1, OF _ c]) (use dist in auto)
    then have "queue ?s devid (?as @ r # ?bs)"
      using True r(1) dist by (auto simp: queue_def fun_upd_def elim!: chain_cong [THEN iffD1, rotated])
    then show thesis by (intro that [OF e]) (auto simp: el)
  next
    case False
    have m: "last ?as \<in> set qs" using set_takeWhileD [OF last_in_set [OF False]] by blast
    have l: "last (0 # ?as) = last ?as" using False by simp
    have l: "last (0 # ?as) = last ?as" "last ?as \<noteq> 0" "last ?as \<noteq> r"
      by (rule l) (rule notI, use m chain_nonzero [OF ch] r(2) in metis)+
    let ?s = "s\<lparr>g_pool := (g_pool s)(r := (g_pool s r)\<lparr>rq_next := c\<rparr>, last ?as := (g_pool s (last ?as))\<lparr>rq_next := r\<rparr>)\<rparr>"
    have e: "elevator_insert devid r s = Some ?s" using pos l by (simp add: elevator_insert_def Let_def)
    have "chain (?nx(r := c, last ?as := r)) (g_queue s devid) (?as @ r # ?bs)"
      using chain_link [of ?nx "g_queue s devid" ?as ?bs r c] ch d r c False by simp
    moreover have "?nx(r := c, last ?as := r) = (\<lambda>p. rq_next (g_pool ?s p))" by (auto simp: fun_eq_iff)
    ultimately have "queue ?s devid (?as @ r # ?bs)" using dist by (simp add: queue_def)
    then show thesis by (intro that [OF e]) (auto simp: el)
  qed
qed

lemma elevator_set: "set (elevator key r qs) = insert r (set qs)"
  and elevator_length: "length (elevator key r qs) = Suc (length qs)"
  by (induction qs) (auto simp: elevator_def)

lemma elevator_sorted:
  assumes "sorted (map key qs)"
  shows "sorted (map key (elevator key r qs))"
  using assms
proof (induction qs)
  case (Cons q qs)
  then show ?case
    using elevator_set [of key r qs] by (auto simp: elevator_def dest: set_takeWhileD set_dropWhileD)
qed (simp add: elevator_def)

section \<open>Running a queue\<close>

text \<open>The effect of serving the requests \<open>qs\<close> one after the other.\<close>

fun serve :: "('b, 'w) blk_transfer_fn \<Rightarrow> (nat \<Rightarrow> 'b blk_request) \<Rightarrow> nat list \<Rightarrow> 'w \<Rightarrow> os_status list \<times> 'w" where
  "serve xfer pool [] w = ([], w)"
| "serve xfer pool (q # qs) w =
     (let (st, w) = xfer (rq_lba (pool q)) (rq_count (pool q)) (rq_buf (pool q)) (rq_write (pool q)) w;
          (sts, w) = serve xfer pool qs w
      in (st # sts, w))"

lemma serve_cong: "(\<And>q. q \<in> set qs \<Longrightarrow> pool q = pool' q) \<Longrightarrow> serve xfer pool qs w = serve xfer pool' qs w"
  by (induction qs arbitrary: w) (auto split: prod.splits)

lemma run_queue_serve:
  assumes "queue s devid qs"
  shows "\<exists>s' sts. run_queue xfer devid s = Some s' \<and> serve xfer (g_pool s) qs (world s) = (sts, world s') \<and>
    g_queue s' = (g_queue s)(devid := 0) \<and> g_served s' = g_served s + of_nat (length qs) \<and>
    g_devices s' = g_devices s \<and> g_dev_count s' = g_dev_count s \<and>
    length sts = length qs \<and> (\<forall>i < length qs. g_pool s' (qs ! i) = (g_pool s (qs ! i))\<lparr>rq_status := sts ! i\<rparr>) \<and>
    (\<forall>p. p \<notin> set qs \<longrightarrow> g_pool s' p = g_pool s p)"
  using assms
proof (induction qs arbitrary: s)
  case Nil
  then show ?case by (auto simp: queue_def run_queue.simps fun_upd_idem)
next
  case (Cons q qs)
  have q: "g_queue s devid = q" "q \<noteq> 0" "distinct (q # qs)" "chain (\<lambda>p. rq_next (g_pool s p)) (rq_next (g_pool s q)) qs"
    using Cons.prems by (auto simp: queue_def)
  define t where "t = run_request xfer q (s\<lparr>g_queue := (g_queue s)(devid := rq_next (g_pool s q))\<rparr>)"
  obtain st w where x: "xfer (rq_lba (g_pool s q)) (rq_count (g_pool s q)) (rq_buf (g_pool s q)) (rq_write (g_pool s q)) (world s) = (st, w)"
    by fastforce
  have t: "world t = w" "g_pool t = (g_pool s)(q := (g_pool s q)\<lparr>rq_status := st\<rparr>)" "g_served t = g_served s + 1"
    "g_queue t = (g_queue s)(devid := rq_next (g_pool s q))" "g_devices t = g_devices s" "g_dev_count t = g_dev_count s"
    by (simp_all add: t_def run_request_def Let_def x)
  have nx: "(\<lambda>p. rq_next (g_pool t p)) = (\<lambda>p. rq_next (g_pool s p))" by (auto simp: t fun_eq_iff)
  have "queue t devid qs" unfolding queue_def nx using q by (simp add: t)
  then obtain s' sts where IH: "run_queue xfer devid t = Some s'" "serve xfer (g_pool t) qs (world t) = (sts, world s')"
    "g_queue s' = (g_queue t)(devid := 0)" "g_served s' = g_served t + of_nat (length qs)"
    "g_devices s' = g_devices t" "g_dev_count s' = g_dev_count t" "length sts = length qs"
    "\<forall>i < length qs. g_pool s' (qs ! i) = (g_pool t (qs ! i))\<lparr>rq_status := sts ! i\<rparr>"
    "\<forall>p. p \<notin> set qs \<longrightarrow> g_pool s' p = g_pool t p"
    using Cons.IH by blast
  have run: "run_queue xfer devid s = Some s'"
    using IH(1) q(1,2) by (subst run_queue.simps) (simp add: t_def)
  have "serve xfer (g_pool t) qs w = serve xfer (g_pool s) qs w"
    by (rule serve_cong) (use q(3) in \<open>auto simp: t\<close>)
  then have sv: "serve xfer (g_pool s) (q # qs) (world s) = (st # sts, world s')" using IH(2) x t(1) by simp
  have "g_pool s' ((q # qs) ! i) = (g_pool s ((q # qs) ! i))\<lparr>rq_status := (st # sts) ! i\<rparr>" if "i < length (q # qs)" for i
  proof (cases i)
    case 0
    then show ?thesis using IH(9) q(3) by (simp add: t)
  next
    case (Suc j)
    then have "qs ! j \<noteq> q" using q(3) that by (auto dest: nth_mem)
    then show ?thesis using IH(8) Suc that by (simp add: t)
  qed
  moreover have "g_pool s' p = g_pool s p" if "p \<notin> set (q # qs)" for p using IH(9) that by (simp add: t)
  ultimately show ?case using run sv IH(3-7) by (auto simp: t)
qed

text \<open>
  C23: the elevator. In every state where a device's queue is sorted by block address, inserting
  one more request keeps it sorted and loses none; the queue then always drains: \<open>run_queue\<close> returns,
  has served all requests in ascending order of their addresses, each once, has set their results
  and leaves the queue empty.
\<close>

theorem elevator_drains_in_order:
  assumes "queue s devid qs" and "sorted (map (lba_of s) qs)" and "r \<noteq> 0" and "r \<notin> set qs"
  shows "\<exists>rs t u sts. elevator_insert devid r s = Some t \<and> queue t devid rs \<and> distinct rs \<and> set rs = insert r (set qs) \<and>
    sorted (map (lba_of t) rs) \<and> run_queue xfer devid t = Some u \<and> g_queue u devid = 0 \<and>
    serve xfer (g_pool t) rs (world s) = (sts, world u) \<and> g_served u = g_served s + of_nat (Suc (length qs)) \<and>
    (\<forall>i < length rs. rq_status (g_pool u (rs ! i)) = sts ! i)"
proof -
  obtain t where t: "elevator_insert devid r s = Some t" "queue t devid (elevator (lba_of s) r qs)"
    "g_pool t = (\<lambda>p. (g_pool s p)\<lparr>rq_next := rq_next (g_pool t p)\<rparr>)" "t = s\<lparr>g_pool := g_pool t, g_queue := g_queue t\<rparr>"
    using elevator_insert_queue [OF assms(1,3,4)] by blast
  let ?rs = "elevator (lba_of s) r qs"
  have lba: "lba_of t = lba_of s" unfolding lba_of_def by (subst t(3)) simp
  have w: "world t = world s" "g_served t = g_served s" by (subst t(4), simp)+
  obtain u sts where u: "run_queue xfer devid t = Some u" "serve xfer (g_pool t) ?rs (world t) = (sts, world u)"
    "g_queue u = (g_queue t)(devid := 0)" "g_served u = g_served t + of_nat (length ?rs)"
    "\<forall>i < length ?rs. g_pool u (?rs ! i) = (g_pool t (?rs ! i))\<lparr>rq_status := sts ! i\<rparr>"
    using run_queue_serve [OF t(2), of xfer] by blast
  have st: "\<forall>i < length ?rs. rq_status (g_pool u (?rs ! i)) = sts ! i" using u(5) by simp
  have "g_queue u devid = 0" using u(3) by simp
  moreover have "g_served u = g_served s + of_nat (Suc (length qs))" using u(4) w(2) by (simp only: elevator_length)
  ultimately show ?thesis
    using t(1,2) elevator_set [of "lba_of s" r qs] elevator_sorted [OF assms(2)] u(1,2) w(1) st lba
    by (intro exI [of _ ?rs] exI [of _ t] exI [of _ u] exI [of _ sts]) (auto simp: queue_def)
qed

definition demo_request :: "u32 \<Rightarrow> nat \<Rightarrow> nat blk_request" where
  "demo_request lba nx = \<lparr>rq_dev = 0, rq_write = True, rq_lba = lba, rq_count = 1, rq_buf = 0, rq_status = OS_ERR_IO, rq_next = nx, in_use = True\<rparr>"

text \<open>Two queued requests, for blocks 3 and 9, and a third for block 5; the driver logs the blocks.\<close>

definition demo_blk :: "(nat, u32 list) blk" where
  "demo_blk = \<lparr>g_devices = (\<lambda>_. None), g_dev_count = 1,
     g_pool = (\<lambda>_. demo_request 0 0)(1 := demo_request 9 0, 2 := demo_request 3 1, 3 := demo_request 5 0),
     g_queue = (\<lambda>_. 0)(0 := 2), g_served = 0, world = []\<rparr>"

theorem elevator_drains_in_order_witness:
  "\<exists>t u. elevator_insert 0 3 demo_blk = Some t \<and> run_queue (\<lambda>lba _ _ _ w. (OS_OK, w @ [lba])) 0 t = Some u \<and>
     g_queue u 0 = 0 \<and> g_served u = 3"
proof -
  have q: "queue demo_blk 0 [2, 1]" "sorted (map (lba_of demo_blk) [2, 1])"
    by (simp_all add: queue_def demo_blk_def demo_request_def lba_of_def)
  show ?thesis
    using elevator_drains_in_order [OF q, of 3 "\<lambda>lba _ _ _ w. (OS_OK, w @ [lba])"]
    by (auto simp: demo_blk_def)
qed

section \<open>Synchronous transfers\<close>

text \<open>
  Between two calls of \<open>blk_rw\<close> no request is queued. A call on a registered device then is exactly
  one transfer of the driver, and leaves the layer idle again.
\<close>

definition blk_idle :: "('b, 'w) blk \<Rightarrow> bool" where
  "blk_idle s \<longleftrightarrow> (\<forall>d. g_queue s d = 0) \<and> (\<forall>p. \<not> in_use (g_pool s p))"

lemma blk_rw_transfer:
  assumes idle: "blk_idle s" and d: "d < g_dev_count s" "g_devices s d = Some dev" "dev_transfer dev = Some xfer"
    and c: "count \<noteq> 0" "sectors dev \<noteq> 0 \<Longrightarrow> lba + count \<le> sectors dev"
    and x: "xfer lba count b write (world s) = (st, w)"
  obtains s' where "blk_rw (int d) lba count (Some b) write s = Some (st, s')" "blk_idle s'" "world s' = w"
    "g_devices s' = g_devices s" "g_dev_count s' = g_dev_count s"
proof -
  have "find (\<lambda>p. \<not> in_use (g_pool s p)) [1 ..< Suc BLK_NR_REQUEST] = Some 1"
    using idle by (simp add: BLK_NR_REQUEST_def upt_rec blk_idle_def)
  then have al: "request_alloc s = (1, s\<lparr>g_pool := (g_pool s)(1 := (g_pool s 1)\<lparr>in_use := True, rq_next := 0\<rparr>)\<rparr>)"
    by (simp add: request_alloc_def)
  define r where "r = (g_pool s 1)\<lparr>in_use := True, rq_next := 0, rq_dev := d, rq_write := write, rq_lba := lba,
    rq_count := count, rq_buf := b, rq_status := OS_ERR_IO\<rparr>"
  define t where "t = s\<lparr>g_pool := (g_pool s)(1 := r)\<rparr>"
  have q: "queue t d []" using idle by (simp add: queue_def t_def blk_idle_def)
  obtain t1 where t1: "elevator_insert d 1 t = Some t1" "queue t1 d (elevator (lba_of t) 1 [])"
    "g_pool t1 = (\<lambda>p. (g_pool t p)\<lparr>rq_next := rq_next (g_pool t1 p)\<rparr>)" "t1 = t\<lparr>g_pool := g_pool t1, g_queue := g_queue t1\<rparr>"
    using elevator_insert_queue [OF q, of 1] by auto
  have pool: "elevator_insert d 1 t = Some (t\<lparr>g_pool := (g_pool t)(1 := r\<lparr>rq_next := 0\<rparr>), g_queue := (g_queue t)(d := 1)\<rparr>)"
    using idle by (simp add: elevator_insert_def t_def elevator_pos.simps blk_idle_def Let_def)
  then have t1': "t1 = t\<lparr>g_pool := (g_pool t)(1 := r\<lparr>rq_next := 0\<rparr>), g_queue := (g_queue t)(d := 1)\<rparr>" using t1(1) by simp
  have q1: "queue t1 d [1]" using t1(2) by (simp add: elevator_def)
  obtain u sts where u: "run_queue xfer d t1 = Some u" "serve xfer (g_pool t1) [1] (world t1) = (sts, world u)"
    "g_queue u = (g_queue t1)(d := 0)" "g_devices u = g_devices t1" "g_dev_count u = g_dev_count t1"
    "g_pool u 1 = (g_pool t1 1)\<lparr>rq_status := sts ! 0\<rparr>" "\<forall>p. p \<noteq> 1 \<longrightarrow> g_pool u p = g_pool t1 p"
    using run_queue_serve [OF q1, of xfer] by auto
  have sv: "sts = [st]" "world u = w" using u(2) x by (auto simp: t1' t_def r_def)
  have run: "blk_rw (int d) lba count (Some b) write s = Some (rq_status (g_pool u 1), request_free 1 u)"
  proof -
    have e: "s\<lparr>g_pool := (g_pool s)(1 := (g_pool s 1)\<lparr>in_use := True, rq_next := 0, rq_dev := d, rq_write := write, rq_lba := lba,
        rq_count := count, rq_buf := b, rq_status := OS_ERR_IO\<rparr>)\<rparr> = t" by (simp add: t_def r_def)
    show ?thesis
      using d c al u(1) t1(1) e unfolding blk_rw_def Let_def by (auto simp: not_le)
  qed
  show thesis
  proof (rule that)
    show "blk_rw (int d) lba count (Some b) write s = Some (st, request_free 1 u)" using run u(6) sv by simp
    show "blk_idle (request_free 1 u)"
      using idle u(3,7) by (auto simp: blk_idle_def request_free_def t1' t_def)
  qed (use u(4,5) sv in \<open>simp_all add: request_free_def t1' t_def\<close>)
qed

end
