(* ===== verification/Buffer.thy ===== *)
theory Buffer
  imports Block "HOL-Library.Monad_Syntax"
begin

text \<open>
  The buffer cache, src/src/fs/noxfs/buffer.c and buffer.h: sixteen buffers of one block each, found
  through a hash table with chaining and recycled in least-recently-used order, on top of the
  block layer. Buffers are pointers \<open>1 .. 16\<close>, the two sentinels of the LRU list are \<open>17\<close> and \<open>18\<close>, 0 is
  the null pointer. The data of a buffer is memory that drivers write to, so it is part of the
  state the transfers act on, beside the sectors of the disk. Walks along the
  hash chains and the LRU list are \<open>None\<close> when the links are cyclic.
\<close>

section \<open>The code\<close>

definition NBUF :: nat where "NBUF = 16"
definition HASH_SIZE :: nat where "HASH_SIZE = 8"
definition BUF_SIZE :: nat where "BUF_SIZE = 512"
definition BUF_DEV_ATA :: u32 where "BUF_DEV_ATA = 0"
definition B_VALID :: u32 where "B_VALID = 1"
definition B_DIRTY :: u32 where "B_DIRTY = 2"
definition B_BUSY :: u32 where "B_BUSY = 4"
definition LRU_HEAD :: nat where "LRU_HEAD = 17"
definition LRU_TAIL :: nat where "LRU_TAIL = 18"

record io =
  bufdata :: "nat \<Rightarrow> u8 list"
  disk :: "u32 \<Rightarrow> u8 list"

record buf =
  b_dev :: u32
  blockno :: u32
  flags :: u32
  hash_next :: nat
  lru_prev :: nat
  lru_next :: nat

record cache =
  bufs :: "nat \<Rightarrow> buf"
  g_hash :: "nat \<Rightarrow> nat"
  blks :: "(nat, io) blk"

abbreviation buf_data :: "cache \<Rightarrow> nat \<Rightarrow> u8 list" where
  "buf_data s bp \<equiv> bufdata (world (blks s)) bp"

definition upd_buf :: "nat \<Rightarrow> (buf \<Rightarrow> buf) \<Rightarrow> cache \<Rightarrow> cache" where
  "upd_buf bp f s = s\<lparr>bufs := (bufs s)(bp := f (bufs s bp))\<rparr>"

definition set_data :: "nat \<Rightarrow> u8 list \<Rightarrow> cache \<Rightarrow> cache" where
  "set_data bp xs s = s\<lparr>blks := (blks s)\<lparr>world := (world (blks s))\<lparr>bufdata := (bufdata (world (blks s)))(bp := xs)\<rparr>\<rparr>\<rparr>"

definition set_flags :: "nat \<Rightarrow> u32 \<Rightarrow> cache \<Rightarrow> cache" where
  "set_flags bp v = upd_buf bp (\<lambda>b. b\<lparr>flags := v\<rparr>)"

definition has_flag :: "cache \<Rightarrow> nat \<Rightarrow> u32 \<Rightarrow> bool" where
  "has_flag s bp f \<longleftrightarrow> flags (bufs s bp) AND f \<noteq> 0"

definition buf_hash :: "u32 \<Rightarrow> u32 \<Rightarrow> nat" where
  "buf_hash dev blkno = unat ((dev * 31 + blkno) mod 8)"

definition lru_remove :: "nat \<Rightarrow> cache \<Rightarrow> cache" where
  "lru_remove bp s =
     (let p = lru_prev (bufs s bp); n = lru_next (bufs s bp) in
      if p = 0 \<or> n = 0 then s
      else upd_buf bp (\<lambda>b. b\<lparr>lru_prev := 0, lru_next := 0\<rparr>)
             (upd_buf n (\<lambda>b. b\<lparr>lru_prev := p\<rparr>) (upd_buf p (\<lambda>b. b\<lparr>lru_next := n\<rparr>) s)))"

definition lru_insert_head :: "nat \<Rightarrow> cache \<Rightarrow> cache" where
  "lru_insert_head bp s =
     (let n = lru_next (bufs s LRU_HEAD) in
      upd_buf LRU_HEAD (\<lambda>b. b\<lparr>lru_next := bp\<rparr>)
        (upd_buf n (\<lambda>b. b\<lparr>lru_prev := bp\<rparr>)
          (upd_buf bp (\<lambda>b. b\<lparr>lru_next := n, lru_prev := LRU_HEAD\<rparr>) s)))"

definition hash_insert :: "nat \<Rightarrow> cache \<Rightarrow> cache" where
  "hash_insert bp s =
     (let h = buf_hash (b_dev (bufs s bp)) (blockno (bufs s bp));
          s = upd_buf bp (\<lambda>b. b\<lparr>hash_next := g_hash s h\<rparr>) s
      in s\<lparr>g_hash := (g_hash s)(h := bp)\<rparr>)"

text \<open>
  Removal walks with a pointer to the link: \<open>prev\<close> is the buffer that holds the link (0 for the table
  slot), \<open>cur\<close> the buffer it leads to.
\<close>

partial_function (option) hash_unlink :: "nat \<Rightarrow> nat \<Rightarrow> nat \<Rightarrow> nat \<Rightarrow> cache \<Rightarrow> cache option" where
  "hash_unlink bp h prev cur s =
     (if cur = 0 then Some s
      else if cur = bp
      then Some (if prev = 0 then s\<lparr>g_hash := (g_hash s)(h := hash_next (bufs s bp))\<rparr>
                 else upd_buf prev (\<lambda>b. b\<lparr>hash_next := hash_next (bufs s bp)\<rparr>) s)
      else hash_unlink bp h cur (hash_next (bufs s cur)) s)"

definition hash_remove :: "nat \<Rightarrow> cache \<Rightarrow> cache option" where
  "hash_remove bp s =
     (let h = buf_hash (b_dev (bufs s bp)) (blockno (bufs s bp)) in hash_unlink bp h 0 (g_hash s h) s)"

partial_function (option) hash_find :: "u32 \<Rightarrow> u32 \<Rightarrow> nat \<Rightarrow> cache \<Rightarrow> nat option" where
  "hash_find dev blkno p s =
     (if p = 0 then Some 0
      else if b_dev (bufs s p) = dev \<and> blockno (bufs s p) = blkno then Some p
      else hash_find dev blkno (hash_next (bufs s p)) s)"

definition hash_lookup :: "u32 \<Rightarrow> u32 \<Rightarrow> cache \<Rightarrow> nat option" where
  "hash_lookup dev blkno s = hash_find dev blkno (g_hash s (buf_hash dev blkno)) s"

text \<open>One block to or from the disk, through the block layer.\<close>

definition buf_rw :: "nat \<Rightarrow> bool \<Rightarrow> cache \<Rightarrow> (os_status \<times> cache) option" where
  "buf_rw bp write s =
     map_option (\<lambda>(st, b). (st, s\<lparr>blks := b\<rparr>))
       (blk_rw (sint (b_dev (bufs s bp))) (blockno (bufs s bp)) 1 (Some bp) write (blks s))"

definition bwrite :: "nat \<Rightarrow> cache \<Rightarrow> cache option" where
  "bwrite bp s =
     (if bp = 0 \<or> \<not> has_flag s bp B_DIRTY then Some s
      else do {
        (st, s) \<leftarrow> buf_rw bp True s;
        Some (if st \<noteq> OS_OK then s else set_flags bp (flags (bufs s bp) AND NOT B_DIRTY) s)
      })"

definition brelse :: "nat \<Rightarrow> cache \<Rightarrow> cache" where
  "brelse bp s = (if bp = 0 then s else set_flags bp (flags (bufs s bp) AND NOT B_BUSY) s)"

text \<open>The two sweeps of \<open>_evict\<close>, from the tail of the LRU list: \<open>f\<close> are the flags that disqualify.\<close>

partial_function (option) lru_sweep :: "u32 \<Rightarrow> nat \<Rightarrow> cache \<Rightarrow> nat option" where
  "lru_sweep f p s =
     (if p = 0 \<or> p = LRU_HEAD then Some 0
      else if \<not> has_flag s p f then Some p
      else lru_sweep f (lru_prev (bufs s p)) s)"

definition evict :: "cache \<Rightarrow> (nat \<times> cache) option" where
  "evict s = do {
     p \<leftarrow> lru_sweep (B_BUSY OR B_DIRTY) (lru_prev (bufs s LRU_TAIL)) s;
     if p \<noteq> 0 then Some (p, s)
     else do {
       p \<leftarrow> lru_sweep B_BUSY (lru_prev (bufs s LRU_TAIL)) s;
       if p \<noteq> 0 then do { s \<leftarrow> bwrite p s; Some (p, s) } else Some (0, s)
     }
   }"

definition buf_init :: "cache \<Rightarrow> cache" where
  "buf_init s =
     (let s = upd_buf LRU_HEAD (\<lambda>b. b\<lparr>lru_next := LRU_TAIL, lru_prev := 0\<rparr>) s;
          s = upd_buf LRU_TAIL (\<lambda>b. b\<lparr>lru_prev := LRU_HEAD, lru_next := 0\<rparr>) s;
          s = fold (\<lambda>i s.
                lru_insert_head i (upd_buf i (\<lambda>b. b\<lparr>flags := 0, b_dev := 0, blockno := 0, hash_next := 0\<rparr>) s))
                [1 ..< Suc NBUF] s
      in s\<lparr>g_hash := (\<lambda>h. if h < HASH_SIZE then 0 else g_hash s h)\<rparr>)"

definition touch :: "nat \<Rightarrow> cache \<Rightarrow> cache" where
  "touch bp s = lru_insert_head bp (lru_remove bp s)"

definition bread :: "u32 \<Rightarrow> u32 \<Rightarrow> cache \<Rightarrow> (nat \<times> cache) option" where
  "bread dev blkno s = do {
     bp \<leftarrow> hash_lookup dev blkno s;
     if bp \<noteq> 0
     then do {
       s \<leftarrow> (if has_flag s bp B_VALID then Some s
             else do { (_, s) \<leftarrow> buf_rw bp False s; Some (set_flags bp (flags (bufs s bp) OR B_VALID) s) });
       let s = touch bp s;
       Some (bp, set_flags bp (flags (bufs s bp) OR B_BUSY) s)
     }
     else do {
       (bp, s) \<leftarrow> evict s;
       if bp = 0 then Some (0, s)
       else do {
         s \<leftarrow> (if has_flag s bp B_VALID then hash_remove bp s else Some s);
         let s = upd_buf bp (\<lambda>b. b\<lparr>b_dev := dev, blockno := blkno, flags := 0\<rparr>) s;
         (_, s) \<leftarrow> buf_rw bp False s;
         let s = set_flags bp (B_VALID OR B_BUSY) s;
         let s = hash_insert bp (lru_remove bp s);
         Some (bp, lru_insert_head bp s)
       }
     }
   }"

definition flush_dirty :: "cache \<Rightarrow> cache option" where
  "flush_dirty s =
     fold (\<lambda>i m. do { s \<leftarrow> m; if \<not> has_flag s i B_BUSY \<and> has_flag s i B_DIRTY then bwrite i s else Some s })
       [1 ..< Suc NBUF] (Some s)"

definition balloc :: "u32 \<Rightarrow> u32 \<Rightarrow> cache \<Rightarrow> (nat \<times> cache) option" where
  "balloc dev blkno s = do {
     (bp, s) \<leftarrow> evict s;
     (bp, s) \<leftarrow> (if bp = 0 then do { s \<leftarrow> flush_dirty s; evict s } else Some (bp, s));
     if bp = 0 then Some (0, s)
     else do {
       s \<leftarrow> (if has_flag s bp B_VALID then hash_remove bp s else Some s);
       let s = upd_buf bp (\<lambda>b. b\<lparr>b_dev := dev, blockno := blkno, flags := B_BUSY\<rparr>) s;
       let s = set_data bp (replicate BUF_SIZE 0) s;
       let s = hash_insert bp (lru_remove bp s);
       Some (bp, lru_insert_head bp s)
     }
   }"

end
