(* ===== verification/Noxfs.thy ===== *)
theory Noxfs
  imports Buffer Heap
begin

text \<open>
  The file system, src/src/fs/noxfs/noxfs.c and noxfs.h, on the buffer cache and the kernel heap:
  the bitmap allocators, inodes, block mapping, file data, directories and the in-memory file table.

  On-disk structures are read from and written to the bytes of a block at the packed offsets of
  the source. Memory from \<open>kmalloc\<close> is a pointer of the heap model; the bytes of each allocation are
  kept in \<open>kmem\<close>, by pointer. A file of the table \<open>g_files\<close> is a pointer \<open>1 .. 24\<close>, 0 is the null pointer.
  \<open>ata\<close> is the direct read of one sector from the drive (src/src/drivers/ata.c), which the
  code falls back to when no buffer is free. Every operation is \<open>None\<close> when a
  loop it contains does not end. String arguments are never null.
\<close>

section \<open>On-disk structures\<close>

definition NOXFS_MAGIC :: u32 where "NOXFS_MAGIC = 0x4E584632"
definition NOXFS_BLKSZ :: u32 where "NOXFS_BLKSZ = 512"
definition NOXFS_INO_SZ :: u32 where "NOXFS_INO_SZ = 64"
definition NOXFS_DIRECT :: u32 where "NOXFS_DIRECT = 10"
definition NOXFS_INDIRECT :: u32 where "NOXFS_INDIRECT = 128"
definition NOXFS_MAX_FILES :: nat where "NOXFS_MAX_FILES = 24"
definition NOXFS_INO_FILE :: u16 where "NOXFS_INO_FILE = 0x8000"
definition NOXFS_INO_DIR :: u16 where "NOXFS_INO_DIR = 0x4000"
definition NOXFS_PERM_MASK :: u16 where "NOXFS_PERM_MASK = 0x1FF"
definition NOXFS_MODE_FILE :: u16 where "NOXFS_MODE_FILE = NOXFS_INO_FILE OR 0x1A4"
definition NOXFS_MODE_DIR :: u16 where "NOXFS_MODE_DIR = NOXFS_INO_DIR OR 0x1ED"
definition NOXFS_FT_FILE :: u8 where "NOXFS_FT_FILE = 1"
definition NOXFS_FT_DIR :: u8 where "NOXFS_FT_DIR = 2"
definition INODES_PER_BLK :: u32 where "INODES_PER_BLK = 8"
definition DIRENT_SZ :: nat where "DIRENT_SZ = 32"

text \<open>Little-endian fields in a byte sequence.\<close>

definition get16 :: "u8 list \<Rightarrow> nat \<Rightarrow> u16" where
  "get16 xs i = ucast (xs ! i) OR push_bit 8 (ucast (xs ! (i + 1)))"

definition get32 :: "u8 list \<Rightarrow> nat \<Rightarrow> u32" where
  "get32 xs i = ucast (xs ! i) OR push_bit 8 (ucast (xs ! (i + 1))) OR
     push_bit 16 (ucast (xs ! (i + 2))) OR push_bit 24 (ucast (xs ! (i + 3)))"

definition le16 :: "u16 \<Rightarrow> u8 list" where
  "le16 v = [ucast v, ucast (drop_bit 8 v)]"

definition le32 :: "u32 \<Rightarrow> u8 list" where
  "le32 v = [ucast v, ucast (drop_bit 8 v), ucast (drop_bit 16 v), ucast (drop_bit 24 v)]"

text \<open>Copying a byte sequence into an array.\<close>

definition splice :: "nat \<Rightarrow> 'a list \<Rightarrow> 'a list \<Rightarrow> 'a list" where
  "splice off ys xs = take off xs @ ys @ drop (off + length ys) xs"

record noxfs_sb =
  magic :: u32
  block_count :: u32
  inode_count :: u32
  free_blocks :: u32
  free_inodes :: u32
  blk_bmp :: u32
  ino_bmp :: u32
  ino_tbl :: u32
  data_start :: u32
  root_ino :: u32
  sb_pad :: "u8 list"

record noxfs_inode =
  i_mode :: u16
  i_uid :: u16
  i_gid :: u16
  i_size :: u32
  i_blocks :: "u32 list"
  i_indirect :: u32
  i_links :: u16
  i_pad :: "u8 list"

record noxfs_dirent =
  d_inode :: u32
  rec_len :: u16
  name_len :: u8
  file_type :: u8
  d_name :: "u8 list"

definition read_sb :: "u8 list \<Rightarrow> noxfs_sb" where
  "read_sb xs = \<lparr>magic = get32 xs 0, block_count = get32 xs 4, inode_count = get32 xs 8, free_blocks = get32 xs 12,
     free_inodes = get32 xs 16, blk_bmp = get32 xs 20, ino_bmp = get32 xs 24, ino_tbl = get32 xs 28,
     data_start = get32 xs 32, root_ino = get32 xs 36, sb_pad = take 472 (drop 40 xs)\<rparr>"

definition sb_bytes :: "noxfs_sb \<Rightarrow> u8 list" where
  "sb_bytes b = le32 (magic b) @ le32 (block_count b) @ le32 (inode_count b) @ le32 (free_blocks b) @
     le32 (free_inodes b) @ le32 (blk_bmp b) @ le32 (ino_bmp b) @ le32 (ino_tbl b) @ le32 (data_start b) @
     le32 (root_ino b) @ sb_pad b"

definition read_inode :: "u8 list \<Rightarrow> nat \<Rightarrow> noxfs_inode" where
  "read_inode xs o1 = \<lparr>i_mode = get16 xs o1, i_uid = get16 xs (o1 + 2), i_gid = get16 xs (o1 + 4), i_size = get32 xs (o1 + 6),
     i_blocks = map (\<lambda>k. get32 xs (o1 + 10 + 4 * k)) [0 ..< 10], i_indirect = get32 xs (o1 + 50),
     i_links = get16 xs (o1 + 54), i_pad = take 8 (drop (o1 + 56) xs)\<rparr>"

definition inode_bytes :: "noxfs_inode \<Rightarrow> u8 list" where
  "inode_bytes i = le16 (i_mode i) @ le16 (i_uid i) @ le16 (i_gid i) @ le32 (i_size i) @
     concat (map le32 (i_blocks i)) @ le32 (i_indirect i) @ le16 (i_links i) @ i_pad i"

definition read_dirent :: "u8 list \<Rightarrow> nat \<Rightarrow> noxfs_dirent" where
  "read_dirent xs k =
     (let o1 = DIRENT_SZ * k in
      \<lparr>d_inode = get32 xs o1, rec_len = get16 xs (o1 + 4), name_len = xs ! (o1 + 6), file_type = xs ! (o1 + 7),
       d_name = take 24 (drop (o1 + 8) xs)\<rparr>)"

definition dirent_bytes :: "noxfs_dirent \<Rightarrow> u8 list" where
  "dirent_bytes d = le32 (d_inode d) @ le16 (rec_len d) @ [name_len d, file_type d] @ d_name d"

section \<open>State\<close>

record vfs_file =
  f_name :: "u8 list"
  f_data :: u64
  f_size :: u32
  f_inode :: u32
  f_capacity :: u32

record noxfs =
  fcache :: cache
  g_sb :: noxfs_sb
  g_files :: "nat \<Rightarrow> vfs_file"
  g_count :: nat
  g_ready :: bool
  fheap :: heap
  kmem :: "u64 \<Rightarrow> nat \<Rightarrow> u8"

type_synonym ata_reader = "u32 \<Rightarrow> io \<Rightarrow> os_status \<times> u8 list"

definition ata_sector :: "ata_reader \<Rightarrow> u32 \<Rightarrow> noxfs \<Rightarrow> os_status \<times> u8 list" where
  "ata_sector ata lba s = ata lba (world (blks (fcache s)))"

definition on_cache :: "(cache \<Rightarrow> ('a \<times> cache) option) \<Rightarrow> noxfs \<Rightarrow> ('a \<times> noxfs) option" where
  "on_cache f s = map_option (\<lambda>(x, c). (x, s\<lparr>fcache := c\<rparr>)) (f (fcache s))"

definition fs_bread :: "u32 \<Rightarrow> noxfs \<Rightarrow> (nat \<times> noxfs) option" where
  "fs_bread blk = on_cache (bread BUF_DEV_ATA blk)"

definition fs_data :: "nat \<Rightarrow> noxfs \<Rightarrow> u8 list" where
  "fs_data bp s = buf_data (fcache s) bp"

definition fs_brelse :: "nat \<Rightarrow> noxfs \<Rightarrow> noxfs" where
  "fs_brelse bp s = s\<lparr>fcache := brelse bp (fcache s)\<rparr>"

text \<open>\<open>fs_put\<close>: store into the buffer, mark it dirty and write it out; the buffer stays in use.\<close>

definition fs_put :: "nat \<Rightarrow> u8 list \<Rightarrow> noxfs \<Rightarrow> noxfs option" where
  "fs_put bp xs s =
     map_option (\<lambda>c. s\<lparr>fcache := c\<rparr>)
       (let c = set_data bp xs (fcache s) in bwrite bp (set_flags bp (flags (bufs c bp) OR B_DIRTY) c))"

definition fs_kmalloc :: "u32 \<Rightarrow> noxfs \<Rightarrow> (u64 \<times> noxfs) option" where
  "fs_kmalloc n s = map_option (\<lambda>(p, h). (p, s\<lparr>fheap := h\<rparr>)) (kmalloc (ucast n) (fheap s))"

definition fs_kfree :: "u64 \<Rightarrow> noxfs \<Rightarrow> noxfs" where
  "fs_kfree p s = s\<lparr>fheap := kfree p (fheap s)\<rparr>"

definition mem_write :: "u64 \<Rightarrow> nat \<Rightarrow> u8 list \<Rightarrow> noxfs \<Rightarrow> noxfs" where
  "mem_write p off xs s =
     s\<lparr>kmem := (kmem s)(p := (\<lambda>i. if off \<le> i \<and> i < off + length xs then xs ! (i - off) else kmem s p i))\<rparr>"

definition mem_read :: "u64 \<Rightarrow> nat \<Rightarrow> nat \<Rightarrow> noxfs \<Rightarrow> u8 list" where
  "mem_read p off n s = map (kmem s p) [off ..< off + n]"

definition round_blk :: "u32 \<Rightarrow> u32" where
  "round_blk n = (n + NOXFS_BLKSZ - 1) AND NOT (NOXFS_BLKSZ - 1)"

section \<open>Bitmaps and the superblock\<close>

text \<open>The search of one bitmap byte, and of the bytes of one bitmap block, for a clear bit below \<open>max_bits\<close>.\<close>

datatype bmp_scan = Found nat nat u32 | Full | More

fun scan_bits :: "u8 \<Rightarrow> nat \<Rightarrow> u32 \<Rightarrow> u32 \<Rightarrow> nat \<Rightarrow> nat \<Rightarrow> bmp_scan" where
  "scan_bits v byte base max_bits b 0 = More"
| "scan_bits v byte base max_bits b (Suc k) =
     (let idx = base + of_nat byte * 8 + of_nat b in
      if idx \<ge> max_bits then Full
      else if v AND push_bit b 1 = 0 then Found byte b idx
      else scan_bits v byte base max_bits (Suc b) k)"

fun scan_bytes :: "u8 list \<Rightarrow> u32 \<Rightarrow> u32 \<Rightarrow> nat \<Rightarrow> nat \<Rightarrow> bmp_scan" where
  "scan_bytes xs base max_bits byte 0 = More"
| "scan_bytes xs base max_bits byte (Suc k) =
     (if xs ! byte = 0xFF then scan_bytes xs base max_bits (Suc byte) k
      else case scan_bits (xs ! byte) byte base max_bits 0 8 of
             More \<Rightarrow> scan_bytes xs base max_bits (Suc byte) k
           | r \<Rightarrow> r)"

fun bmp_alloc_from :: "u32 \<Rightarrow> u32 \<Rightarrow> nat \<Rightarrow> nat \<Rightarrow> noxfs \<Rightarrow> (u32 \<times> noxfs) option" where
  "bmp_alloc_from start_blk max_bits b 0 s = Some (NO_INO, s)"
| "bmp_alloc_from start_blk max_bits b (Suc k) s = do {
     (bp, s) \<leftarrow> fs_bread (start_blk + of_nat b) s;
     if bp = 0 then Some (NO_INO, s)
     else case scan_bytes (fs_data bp s) (of_nat b * NOXFS_BLKSZ * 8) max_bits 0 512 of
       Full \<Rightarrow> Some (NO_INO, fs_brelse bp s)
     | Found byte bi idx \<Rightarrow> do {
         let xs = fs_data bp s;
         s \<leftarrow> fs_put bp (xs[byte := xs ! byte OR push_bit bi 1]) s;
         Some (idx, fs_brelse bp s)
       }
     | More \<Rightarrow> bmp_alloc_from start_blk max_bits (Suc b) k (fs_brelse bp s)
   }"

definition bmp_alloc :: "u32 \<Rightarrow> u32 \<Rightarrow> u32 \<Rightarrow> noxfs \<Rightarrow> (u32 \<times> noxfs) option" where
  "bmp_alloc start_blk blk_count max_bits = bmp_alloc_from start_blk max_bits 0 (unat blk_count)"

definition bmp_free :: "u32 \<Rightarrow> u32 \<Rightarrow> noxfs \<Rightarrow> noxfs option" where
  "bmp_free start_blk b s =
     (let blk_off = b div (NOXFS_BLKSZ * 8); byte_off = unat ((b mod (NOXFS_BLKSZ * 8)) div 8); bit_off = unat (b mod 8) in do {
        (bp, s) \<leftarrow> fs_bread (start_blk + blk_off) s;
        if bp = 0 then Some s
        else do {
          let xs = fs_data bp s;
          s \<leftarrow> fs_put bp (xs[byte_off := xs ! byte_off AND NOT (push_bit bit_off 1)]) s;
          Some (fs_brelse bp s)
        }
      })"

definition sb_read :: "ata_reader \<Rightarrow> noxfs \<Rightarrow> (os_status \<times> noxfs) option" where
  "sb_read ata s = do {
     (bp, s) \<leftarrow> fs_bread 0 s;
     if bp = 0
     then let (st, raw) = ata_sector ata 0 s in
          if st \<noteq> OS_OK then Some (OS_ERR_IO, s)
          else if get32 raw 0 \<noteq> NOXFS_MAGIC then Some (OS_ERR_NOT_FOUND, s)
          else Some (OS_OK, s\<lparr>g_sb := read_sb raw\<rparr>)
     else let xs = fs_data bp s in
          if get32 xs 0 \<noteq> NOXFS_MAGIC then Some (OS_ERR_NOT_FOUND, fs_brelse bp s)
          else Some (OS_OK, fs_brelse bp (s\<lparr>g_sb := read_sb xs\<rparr>))
   }"

definition sb_write :: "noxfs \<Rightarrow> (os_status \<times> noxfs) option" where
  "sb_write s = do {
     (bp, s) \<leftarrow> fs_bread 0 s;
     if bp = 0 then Some (OS_ERR_IO, s)
     else do {
       s \<leftarrow> fs_put bp (splice 0 (sb_bytes (g_sb s)) (fs_data bp s)) s;
       Some (OS_OK, fs_brelse bp s)
     }
   }"

definition fs_balloc :: "noxfs \<Rightarrow> (u32 \<times> noxfs) option" where
  "fs_balloc s =
     (if free_blocks (g_sb s) = 0 then Some (NO_INO, s)
      else do {
        (blk, s) \<leftarrow> bmp_alloc (blk_bmp (g_sb s)) 1 (block_count (g_sb s)) s;
        if blk = NO_INO then Some (NO_INO, s)
        else do {
          let s = s\<lparr>g_sb := (g_sb s)\<lparr>free_blocks := free_blocks (g_sb s) - 1\<rparr>\<rparr>;
          (_, s) \<leftarrow> sb_write s;
          Some (blk, s)
        }
      })"

definition fs_bfree :: "u32 \<Rightarrow> noxfs \<Rightarrow> noxfs option" where
  "fs_bfree blk s =
     (if blk \<ge> block_count (g_sb s) then Some s
      else do {
        s \<leftarrow> bmp_free (blk_bmp (g_sb s)) blk s;
        let s = s\<lparr>g_sb := (g_sb s)\<lparr>free_blocks := free_blocks (g_sb s) + 1\<rparr>\<rparr>;
        (_, s) \<leftarrow> sb_write s;
        Some s
      })"

section \<open>Inodes\<close>

definition zero_inode :: noxfs_inode where
  "zero_inode = \<lparr>i_mode = 0, i_uid = 0, i_gid = 0, i_size = 0, i_blocks = replicate 10 0, i_indirect = 0, i_links = 0, i_pad = replicate 8 0\<rparr>"

definition ino_blk :: "u32 \<Rightarrow> noxfs \<Rightarrow> u32" where
  "ino_blk ino s = ino_tbl (g_sb s) + ino div INODES_PER_BLK"

definition ino_off :: "u32 \<Rightarrow> nat" where
  "ino_off ino = unat ((ino mod INODES_PER_BLK) * NOXFS_INO_SZ)"

definition ialloc :: "u16 \<Rightarrow> noxfs \<Rightarrow> (u32 \<times> noxfs) option" where
  "ialloc mode s =
     (if free_inodes (g_sb s) = 0 then Some (NO_INO, s)
      else do {
        (ino, s) \<leftarrow> bmp_alloc (ino_bmp (g_sb s)) 1 (inode_count (g_sb s)) s;
        if ino = NO_INO then Some (NO_INO, s)
        else do {
          let ino_data = zero_inode\<lparr>i_mode := mode, i_links := 1\<rparr>;
          (bp, s) \<leftarrow> fs_bread (ino_blk ino s) s;
          if bp = 0 then do { s \<leftarrow> bmp_free (ino_bmp (g_sb s)) ino s; Some (NO_INO, s) }
          else do {
            s \<leftarrow> fs_put bp (splice (ino_off ino) (inode_bytes ino_data) (fs_data bp s)) s;
            let s = fs_brelse bp s;
            let s = s\<lparr>g_sb := (g_sb s)\<lparr>free_inodes := free_inodes (g_sb s) - 1\<rparr>\<rparr>;
            (_, s) \<leftarrow> sb_write s;
            Some (ino, s)
          }
        }
      })"

text \<open>\<open>iread\<close> gives the inode, or the status of the failure.\<close>

definition iread :: "ata_reader \<Rightarrow> u32 \<Rightarrow> noxfs \<Rightarrow> ((os_status + noxfs_inode) \<times> noxfs) option" where
  "iread ata ino s =
     (if ino \<ge> inode_count (g_sb s) then Some (Inl OS_ERR_INVALID, s)
      else do {
        (bp, s) \<leftarrow> fs_bread (ino_blk ino s) s;
        if bp \<noteq> 0 then Some (Inr (read_inode (fs_data bp s) (ino_off ino)), fs_brelse bp s)
        else let (st, raw) = ata_sector ata (ino_blk ino s) s in
             if st \<noteq> OS_OK then Some (Inl OS_ERR_IO, s)
             else Some (Inr (read_inode raw (ino_off ino)), s)
      })"

definition iwrite :: "u32 \<Rightarrow> noxfs_inode \<Rightarrow> noxfs \<Rightarrow> (os_status \<times> noxfs) option" where
  "iwrite ino i s =
     (if ino \<ge> inode_count (g_sb s) then Some (OS_ERR_INVALID, s)
      else do {
        (bp, s) \<leftarrow> fs_bread (ino_blk ino s) s;
        if bp = 0 then Some (OS_ERR_IO, s)
        else do {
          s \<leftarrow> fs_put bp (splice (ino_off ino) (inode_bytes i) (fs_data bp s)) s;
          Some (OS_OK, fs_brelse bp s)
        }
      })"

definition ifree :: "u32 \<Rightarrow> noxfs \<Rightarrow> noxfs option" where
  "ifree ino s =
     (if ino \<ge> inode_count (g_sb s) then Some s
      else do {
        s \<leftarrow> bmp_free (ino_bmp (g_sb s)) ino s;
        let s = s\<lparr>g_sb := (g_sb s)\<lparr>free_inodes := free_inodes (g_sb s) + 1\<rparr>\<rparr>;
        (_, s) \<leftarrow> sb_write s;
        Some s
      })"

text \<open>
  Block mapping: the block of a file's logical block, 0 when there is none; with \<open>allocate\<close>, missing
  blocks are allocated and recorded in the inode or the indirect block.
\<close>

definition get_direct :: "noxfs_inode \<Rightarrow> u32 \<Rightarrow> bool \<Rightarrow> noxfs \<Rightarrow> (u32 \<times> noxfs_inode \<times> noxfs) option" where
  "get_direct i logical allocate s =
     (let k = unat logical in
      if allocate \<and> i_blocks i ! k = 0
      then do {
        (blk, s) \<leftarrow> fs_balloc s;
        if blk = NO_INO then Some (0, i, s)
        else Some (blk, i\<lparr>i_blocks := (i_blocks i)[k := blk]\<rparr>, s)
      }
      else Some (i_blocks i ! k, i, s))"

definition get_via_indirect :: "noxfs_inode \<Rightarrow> u32 \<Rightarrow> bool \<Rightarrow> noxfs \<Rightarrow> (u32 \<times> noxfs_inode \<times> noxfs) option" where
  "get_via_indirect i logical allocate s =
     (if i_indirect i = 0 then Some (0, i, s)
      else do {
        (bp, s) \<leftarrow> fs_bread (i_indirect i) s;
        if bp = 0 then Some (0, i, s)
        else if allocate \<and> get32 (fs_data bp s) (4 * unat logical) = 0
        then do {
          (blk, s) \<leftarrow> fs_balloc s;
          if blk = NO_INO then Some (0, i, fs_brelse bp s)
          else do {
            s \<leftarrow> fs_put bp (splice (4 * unat logical) (le32 blk) (fs_data bp s)) s;
            Some (get32 (fs_data bp s) (4 * unat logical), i, fs_brelse bp s)
          }
        }
        else Some (get32 (fs_data bp s) (4 * unat logical), i, fs_brelse bp s)
      })"

definition iget_block :: "noxfs_inode \<Rightarrow> u32 \<Rightarrow> bool \<Rightarrow> noxfs \<Rightarrow> (u32 \<times> noxfs_inode \<times> noxfs) option" where
  "iget_block i logical allocate s =
     (if logical < NOXFS_DIRECT then get_direct i logical allocate s
      else let logical = logical - NOXFS_DIRECT in
      if logical \<ge> NOXFS_INDIRECT then Some (0, i, s)
      else if allocate \<and> i_indirect i = 0
      then do {
        (blk, s) \<leftarrow> fs_balloc s;
        if blk = NO_INO then Some (0, i, s)
        else do {
          let i = i\<lparr>i_indirect := blk\<rparr>;
          (bp, s) \<leftarrow> fs_bread blk s;
          if bp = 0 then Some (0, i, s)
          else do {
            s \<leftarrow> fs_put bp (replicate 512 0) s;
            get_via_indirect i logical allocate (fs_brelse bp s)
          }
        }
      }
      else get_via_indirect i logical allocate s)"

end
