(* ===== verification/Directory.thy ===== *)
theory Directory
  imports Noxfs
begin

text \<open>
  The upper half of src/src/fs/noxfs/noxfs.c: loading and storing the data of a file, directory
  entries, path resolution, and the operations the virtual file system calls.
\<close>

section \<open>File data\<close>

text \<open>The number of bytes of block \<open>k\<close> that belong to a file of \<open>sz\<close> bytes.\<close>

definition blk_copy :: "u32 \<Rightarrow> u32 \<Rightarrow> nat" where
  "blk_copy k sz = unat (if k * NOXFS_BLKSZ + NOXFS_BLKSZ > sz then sz - k * NOXFS_BLKSZ else NOXFS_BLKSZ)"

text \<open>The loop of \<open>_load_data\<close>, into the allocation \<open>p\<close>; the result is the pointer, or 0 after a disk error.\<close>

partial_function (option) load_blocks :: "ata_reader \<Rightarrow> noxfs_inode \<Rightarrow> u64 \<Rightarrow> u32 \<Rightarrow> noxfs \<Rightarrow> (u64 \<times> noxfs) option" where
  "load_blocks ata i p k s =
     (if \<not> k * NOXFS_BLKSZ < i_size i then Some (p, s)
      else do {
        (blk, i', s) \<leftarrow> iget_block i k False s;
        if blk = 0 then load_blocks ata i' p (k + 1) s
        else do {
          (bp, s) \<leftarrow> fs_bread blk s;
          let n = blk_copy k (i_size i);
          let off = unat (k * NOXFS_BLKSZ);
          if bp \<noteq> 0
          then load_blocks ata i' p (k + 1) (fs_brelse bp (mem_write p off (take n (fs_data bp s)) s))
          else let (st, raw) = ata_sector ata blk s in
               if st \<noteq> OS_OK then Some (0, fs_kfree p s)
               else load_blocks ata i' p (k + 1) (mem_write p off (take n raw) s)
        }
      })"

text \<open>\<open>load_data\<close>: the pointer to the data (0 on failure) and the size, which a failing read leaves as it was.\<close>

definition load_data :: "ata_reader \<Rightarrow> u32 \<Rightarrow> u32 \<Rightarrow> noxfs \<Rightarrow> (u64 \<times> u32 \<times> noxfs) option" where
  "load_data ata ino sz s = do {
     (r, s) \<leftarrow> iread ata ino s;
     case r of
       Inl _ \<Rightarrow> Some (0, sz, s)
     | Inr i \<Rightarrow>
       if i_size i = 0
       then do {
         (p, s) \<leftarrow> fs_kmalloc 1 s;
         Some (p, i_size i, if p \<noteq> 0 then mem_write p 0 [0] s else s)
       }
       else do {
         (p, s) \<leftarrow> fs_kmalloc (round_blk (i_size i)) s;
         if p = 0 then Some (0, i_size i, s)
         else do { (q, s) \<leftarrow> load_blocks ata i p 0 s; Some (q, i_size i, s) }
       }
   }"

fun store_blocks :: "noxfs_inode \<Rightarrow> u64 \<Rightarrow> u32 \<Rightarrow> nat \<Rightarrow> nat \<Rightarrow> noxfs \<Rightarrow> (os_status \<times> noxfs_inode \<times> noxfs) option" where
  "store_blocks i p sz k 0 s = Some (OS_OK, i, s)"
| "store_blocks i p sz k (Suc n) s = do {
     (blk, i, s) \<leftarrow> iget_block i (of_nat k) True s;
     if blk = 0 then Some (OS_ERR_OOM, i, s)
     else do {
       (bp, s) \<leftarrow> fs_bread blk s;
       if bp = 0 then Some (OS_ERR_IO, i, s)
       else do {
         let src = mem_read p (unat (of_nat k * NOXFS_BLKSZ)) (blk_copy (of_nat k) sz) s;
         s \<leftarrow> fs_put bp (splice 0 src (fs_data bp s)) s;
         store_blocks i p sz (Suc k) n (fs_brelse bp s)
       }
     }
   }"

definition store_data :: "ata_reader \<Rightarrow> u32 \<Rightarrow> u64 \<Rightarrow> u32 \<Rightarrow> noxfs \<Rightarrow> (os_status \<times> noxfs) option" where
  "store_data ata ino p sz s = do {
     (r, s) \<leftarrow> iread ata ino s;
     case r of
       Inl _ \<Rightarrow> Some (OS_ERR_IO, s)
     | Inr i \<Rightarrow> do {
         let new_blks = (if sz = 0 then 0 else (sz + NOXFS_BLKSZ - 1) div NOXFS_BLKSZ);
         (st, i, s) \<leftarrow> store_blocks (i\<lparr>i_size := sz\<rparr>) p sz 0 (unat new_blks) s;
         if st \<noteq> OS_OK then Some (st, s)
         else do {
           (st, s) \<leftarrow> iwrite ino i s;
           Some (if st \<noteq> OS_OK then OS_ERR_IO else OS_OK, s)
         }
       }
   }"

section \<open>Directory entries\<close>

definition entry_count :: "u32 \<Rightarrow> nat" where
  "entry_count sz = unat (sz div 32)"

definition dir_entry :: "u64 \<Rightarrow> nat \<Rightarrow> noxfs \<Rightarrow> noxfs_dirent" where
  "dir_entry p k s = read_dirent (mem_read p 0 (DIRENT_SZ * Suc k) s) k"

text \<open>Filling a slot of the file table from a directory entry or a path, as far as the lengths go.\<close>

definition file_capacity :: "u32 \<Rightarrow> u32" where
  "file_capacity sz = (if round_blk sz = 0 then NOXFS_BLKSZ else round_blk sz)"

fun scan_entries :: "ata_reader \<Rightarrow> u64 \<Rightarrow> nat \<Rightarrow> nat \<Rightarrow> noxfs \<Rightarrow> noxfs option" where
  "scan_entries ata p k 0 s = Some s"
| "scan_entries ata p k (Suc n) s =
     (if g_count s \<ge> NOXFS_MAX_FILES then Some s
      else let e = dir_entry p k s in
      if d_inode e = 0 \<or> file_type e \<noteq> NOXFS_FT_FILE then scan_entries ata p (Suc k) n s
      else do {
        let len = min (unat (name_len e)) 31;
        let slot = Suc (g_count s);
        let f = g_files s slot;
        let nm = take len (mem_read p (DIRENT_SZ * k + 8) len s);
        let f = f\<lparr>f_name := splice 0 (nm @ [0]) (f_name f)\<rparr>;
        (q, sz, s) \<leftarrow> load_data ata (d_inode e) (f_size f) s;
        let f = f\<lparr>f_data := q, f_size := sz\<rparr>;
        if q = 0 then scan_entries ata p (Suc k) n (s\<lparr>g_files := (g_files s)(slot := f)\<rparr>)
        else scan_entries ata p (Suc k) n
               (s\<lparr>g_files := (g_files s)(slot := f\<lparr>f_inode := d_inode e, f_capacity := file_capacity sz\<rparr>),
                  g_count := Suc (g_count s)\<rparr>)
      })"

definition dir_scan :: "ata_reader \<Rightarrow> u32 \<Rightarrow> noxfs \<Rightarrow> (os_status \<times> noxfs) option" where
  "dir_scan ata dir_ino s = do {
     (r, s) \<leftarrow> iread ata dir_ino s;
     case r of
       Inl _ \<Rightarrow> Some (OS_ERR_IO, s)
     | Inr dir \<Rightarrow>
       if i_mode dir AND NOXFS_INO_DIR = 0 then Some (OS_ERR_INVALID, s)
       else do {
         (p, sz, s) \<leftarrow> load_data ata dir_ino (i_size dir) s;
         if p = 0 then Some (OS_ERR_OOM, s)
         else do {
           s \<leftarrow> scan_entries ata p 0 (entry_count sz) (s\<lparr>g_count := 0\<rparr>);
           Some (OS_OK, fs_kfree p s)
         }
       }
   }"

definition noxfs_init :: "ata_reader \<Rightarrow> noxfs \<Rightarrow> (os_status \<times> noxfs) option" where
  "noxfs_init ata s = do {
     let s = s\<lparr>g_ready := False, g_count := 0, fcache := buf_init (fcache s)\<rparr>;
     (bp, s) \<leftarrow> fs_bread 0 s;
     if bp = 0 then Some (OS_ERR_NOT_FOUND, s)
     else let xs = fs_data bp s in
     if get32 xs 0 \<noteq> NOXFS_MAGIC then Some (OS_ERR_NOT_FOUND, fs_brelse bp s)
     else do {
       let s = fs_brelse bp (s\<lparr>g_sb := read_sb xs\<rparr>);
       (st, s) \<leftarrow> dir_scan ata (root_ino (g_sb s)) s;
       if st \<noteq> OS_OK then Some (OS_ERR_IO, s) else Some (OS_OK, s\<lparr>g_ready := True\<rparr>)
     }
   }"

definition noxfs_count :: "noxfs \<Rightarrow> nat" where
  "noxfs_count s = (if g_ready s then g_count s else 0)"

definition noxfs_entry :: "nat \<Rightarrow> noxfs \<Rightarrow> nat" where
  "noxfs_entry i s = (if \<not> g_ready s \<or> i \<ge> g_count s then 0 else Suc i)"

text \<open>The name comparison of directory entries: all of \<open>name_len\<close> bytes, and no more.\<close>

fun name_prefix :: "u8 list \<Rightarrow> cstring \<Rightarrow> nat \<Rightarrow> nat \<Rightarrow> nat" where
  "name_prefix d name j 0 = j"
| "name_prefix d name j (Suc n) =
     (if cstr name j \<noteq> 0 \<and> d ! j = cstr name j then name_prefix d name (Suc j) n else j)"

definition name_match :: "u64 \<Rightarrow> nat \<Rightarrow> cstring \<Rightarrow> noxfs \<Rightarrow> bool" where
  "name_match p k name s =
     (let e = dir_entry p k s; len = unat (name_len e);
          j = name_prefix (mem_read p (DIRENT_SZ * k + 8) len s) name 0 len
      in j = len \<and> cstr name j = 0)"

definition find_entry :: "u64 \<Rightarrow> nat \<Rightarrow> cstring \<Rightarrow> noxfs \<Rightarrow> nat option" where
  "find_entry p n name s = find (\<lambda>k. d_inode (dir_entry p k s) \<noteq> 0 \<and> name_match p k name s) [0 ..< n]"

definition dir_lookup_name :: "ata_reader \<Rightarrow> u32 \<Rightarrow> cstring \<Rightarrow> noxfs \<Rightarrow> (u32 \<times> noxfs) option" where
  "dir_lookup_name ata dir_ino name s = do {
     (r, s) \<leftarrow> iread ata dir_ino s;
     case r of
       Inl _ \<Rightarrow> Some (NO_INO, s)
     | Inr dir \<Rightarrow>
       if i_mode dir AND NOXFS_INO_DIR = 0 then Some (NO_INO, s)
       else do {
         (p, sz, s) \<leftarrow> load_data ata dir_ino (i_size dir) s;
         if p = 0 then Some (NO_INO, s)
         else Some (case find_entry p (entry_count sz) name s of
                      None \<Rightarrow> NO_INO | Some k \<Rightarrow> d_inode (dir_entry p k s), fs_kfree p s)
       }
   }"

text \<open>
  The component the loop of \<open>noxfs_resolve\<close> takes next: at most 31 bytes up to a slash; a longer
  component is continued in the next round.
\<close>

fun take_comp :: "cstring \<Rightarrow> nat \<Rightarrow> cstring \<times> cstring" where
  "take_comp p 0 = ([], p)"
| "take_comp [] (Suc n) = ([], [])"
| "take_comp (c # p) (Suc n) = (if c = ch (CHR ''/'') then ([], c # p) else let (a, b) = take_comp p n in (c # a, b))"

lemma take_comp_length: "length (snd (take_comp p n)) \<le> length p"
  by (induction p n rule: take_comp.induct) (auto split: prod.splits)

lemma take_comp_shorter: "p \<noteq> [] \<Longrightarrow> hd p \<noteq> ch (CHR ''/'') \<Longrightarrow> length (snd (take_comp p 31)) < length p"
  using take_comp_length [of "tl p" 30] by (cases p) (auto simp: eval_nat_numeral split: prod.splits)

lemma comp_rest_shorter:
  assumes "dropWhile (\<lambda>c. c = ch (CHR ''/'')) path \<noteq> []"
    and "(seg, rest) = take_comp (dropWhile (\<lambda>c. c = ch (CHR ''/'')) path) 31"
  shows "length rest < length path"
proof -
  let ?p = "dropWhile (\<lambda>c. c = ch (CHR ''/'')) path"
  have "length rest < length ?p"
    using take_comp_shorter [OF assms(1)] hd_dropWhile [OF assms(1)] assms(2) by (metis snd_conv)
  also have "\<dots> \<le> length path" by (rule length_dropWhile_le)
  finally show ?thesis .
qed

function resolve_from :: "ata_reader \<Rightarrow> u32 \<Rightarrow> cstring \<Rightarrow> noxfs \<Rightarrow> (u32 \<times> noxfs) option" where
  "resolve_from ata cur path s =
     (let p = dropWhile (\<lambda>c. c = ch (CHR ''/'')) path in
      if p = [] then Some (cur, s)
      else let (seg, rest) = take_comp p 31 in
      if seg = [ch (CHR ''.'')] then resolve_from ata cur rest s
      else if seg = [ch (CHR ''.''), ch (CHR ''.'')] then resolve_from ata (root_ino (g_sb s)) rest s
      else do {
        (ino, s) \<leftarrow> dir_lookup_name ata cur seg s;
        if ino = NO_INO then Some (NO_INO, s) else resolve_from ata ino rest s
      })"
  by pat_completeness auto
termination
  by (relation "measure (\<lambda>(ata, cur, path, s). length path)") (auto intro: comp_rest_shorter)

declare resolve_from.simps [simp del]

definition noxfs_resolve :: "ata_reader \<Rightarrow> u32 \<Rightarrow> cstring \<Rightarrow> noxfs \<Rightarrow> (u32 \<times> noxfs) option" where
  "noxfs_resolve ata base_ino path s =
     (if \<not> g_ready s then Some (NO_INO, s)
      else if path = [] then Some (base_ino, s)
      else if hd path = ch (CHR ''/'') then resolve_from ata (root_ino (g_sb s)) (tl path) s
      else resolve_from ata base_ino path s)"

section \<open>Files by name\<close>

fun streq :: "cstring \<Rightarrow> cstring \<Rightarrow> bool" where
  "streq (a # as) (b # bs) \<longleftrightarrow> (if a \<noteq> 0 \<and> b \<noteq> 0 then a = b \<and> streq as bs else a = b)"
| "streq (a # as) [] \<longleftrightarrow> a = 0"
| "streq [] (b # bs) \<longleftrightarrow> b = 0"
| "streq [] [] \<longleftrightarrow> True"

definition basename :: "cstring \<Rightarrow> cstring" where
  "basename p = rev (takeWhile (\<lambda>c. c \<noteq> ch (CHR ''/'')) (rev p))"

definition cached_file :: "cstring \<Rightarrow> noxfs \<Rightarrow> nat option" where
  "cached_file name s = find (\<lambda>k. streq (f_name (g_files s k)) name) [1 ..< Suc (g_count s)]"

definition noxfs_lookup :: "ata_reader \<Rightarrow> cstring \<Rightarrow> noxfs \<Rightarrow> (nat \<times> noxfs) option" where
  "noxfs_lookup ata name s =
     (if \<not> g_ready s then Some (0, s)
      else case cached_file name s of Some k \<Rightarrow> Some (k, s)
      | None \<Rightarrow> do {
          (ino, s) \<leftarrow> noxfs_resolve ata (root_ino (g_sb s)) name s;
          if ino = NO_INO \<or> ino = root_ino (g_sb s) then Some (0, s)
          else do {
            (r, s) \<leftarrow> iread ata ino s;
            case r of
              Inl _ \<Rightarrow> Some (0, s)
            | Inr i \<Rightarrow>
              if i_mode i AND NOXFS_INO_FILE = 0 \<or> g_count s \<ge> NOXFS_MAX_FILES then Some (0, s)
              else do {
                let slot = Suc (g_count s);
                let f = g_files s slot;
                let f = f\<lparr>f_name := splice 0 (take 31 (basename name) @ [0]) (f_name f)\<rparr>;
                (q, sz, s) \<leftarrow> load_data ata ino (f_size f) s;
                let f = f\<lparr>f_data := q, f_size := sz\<rparr>;
                if q = 0 then Some (0, s\<lparr>g_files := (g_files s)(slot := f)\<rparr>)
                else Some (slot, s\<lparr>g_files := (g_files s)(slot := f\<lparr>f_inode := ino, f_capacity := file_capacity sz\<rparr>),
                                  g_count := slot\<rparr>)
              }
          }
        })"

definition ensure_capacity :: "nat \<Rightarrow> u32 \<Rightarrow> noxfs \<Rightarrow> (os_status \<times> noxfs) option" where
  "ensure_capacity f needed s =
     (let v = g_files s f in
      if f_capacity v \<ge> needed then Some (OS_OK, s)
      else do {
        let new_cap = round_blk needed;
        (p, s) \<leftarrow> fs_kmalloc new_cap s;
        if p = 0 then Some (OS_ERR_OOM, s)
        else do {
          let s = mem_write p 0 (mem_read (f_data v) 0 (unat (f_size v)) s) s;
          let s = mem_write p (unat (f_size v)) (replicate (unat new_cap - unat (f_size v)) 0) s;
          let s = (if f_data v \<noteq> 0 then fs_kfree (f_data v) s else s);
          Some (OS_OK, s\<lparr>g_files := (g_files s)(f := v\<lparr>f_data := p, f_capacity := new_cap\<rparr>)\<rparr>)
        }
      })"

text \<open>The byte loop of \<open>noxfs_write\<close> indexes with 32-bit arithmetic.\<close>

definition write_bytes :: "u64 \<Rightarrow> u32 \<Rightarrow> u8 list \<Rightarrow> noxfs \<Rightarrow> noxfs" where
  "write_bytes p off xs s = fold (\<lambda>i. mem_write p (unat (off + of_nat i)) [xs ! i]) [0 ..< length xs] s"

definition noxfs_write :: "ata_reader \<Rightarrow> nat \<Rightarrow> u32 \<Rightarrow> u8 list \<Rightarrow> noxfs \<Rightarrow> (int \<times> noxfs) option" where
  "noxfs_write ata f off xs s =
     (let len = of_nat (length xs) :: u32; needed = off + len in
      if f = 0 \<or> len = 0 then Some (0, s)
      else do {
        (st, s) \<leftarrow> ensure_capacity f needed s;
        if st \<noteq> OS_OK then Some (- 1, s)
        else do {
          let s = write_bytes (f_data (g_files s f)) off xs s;
          let s = (if needed > f_size (g_files s f)
                   then s\<lparr>g_files := (g_files s)(f := (g_files s f)\<lparr>f_size := needed\<rparr>)\<rparr> else s);
          (st, s) \<leftarrow> store_data ata (f_inode (g_files s f)) (f_data (g_files s f)) (f_size (g_files s f)) s;
          Some (if st \<noteq> OS_OK then - 1 else sint len, s)
        }
      })"

section \<open>Creating and removing\<close>

definition dir_add_entry :: "ata_reader \<Rightarrow> u32 \<Rightarrow> cstring \<Rightarrow> u32 \<Rightarrow> u8 \<Rightarrow> noxfs \<Rightarrow> (os_status \<times> noxfs) option" where
  "dir_add_entry ata dir_ino name file_ino ft s = do {
     (r, s) \<leftarrow> iread ata dir_ino s;
     case r of
       Inl _ \<Rightarrow> Some (OS_ERR_IO, s)
     | Inr dir \<Rightarrow> do {
         let new_sz = i_size dir + 32;
         (p, _, s) \<leftarrow> load_data ata dir_ino (i_size dir) s;
         if p = 0 then Some (OS_ERR_OOM, s)
         else do {
           (q, s) \<leftarrow> fs_kmalloc (round_blk new_sz) s;
           if q = 0 then Some (OS_ERR_OOM, fs_kfree p s)
           else do {
             let s = fs_kfree p (mem_write q 0 (mem_read p 0 (unat (i_size dir)) s) s);
             let nm = take 23 name;
             let s = mem_write q (unat (i_size dir))
                       (le32 file_ino @ le16 32 @ [of_nat (length nm), ft] @ nm @ [0]) s;
             (st, s) \<leftarrow> store_data ata dir_ino q new_sz s;
             Some (st, fs_kfree q s)
           }
         }
       }
   }"

text \<open>The file table slot of a new file; a name shorter than 31 bytes is not terminated.\<close>

definition new_file_slot :: "cstring \<Rightarrow> u32 \<Rightarrow> noxfs \<Rightarrow> (nat \<times> noxfs) option" where
  "new_file_slot name ino s = do {
     let slot = Suc (g_count s);
     let f = g_files s slot;
     let f = f\<lparr>f_name := (splice 0 (take 31 name) (f_name f))[31 := 0]\<rparr>;
     (p, s) \<leftarrow> fs_kmalloc NOXFS_BLKSZ s;
     let f = f\<lparr>f_data := p\<rparr>;
     if p = 0 then Some (0, s\<lparr>g_files := (g_files s)(slot := f)\<rparr>)
     else do {
       let s = mem_write p 0 (replicate 512 0) s;
       Some (slot, s\<lparr>g_files := (g_files s)(slot := f\<lparr>f_size := 0, f_inode := ino, f_capacity := NOXFS_BLKSZ\<rparr>),
                     g_count := slot\<rparr>)
     }
   }"

definition noxfs_creat_at :: "ata_reader \<Rightarrow> u32 \<Rightarrow> cstring \<Rightarrow> noxfs \<Rightarrow> (nat \<times> noxfs) option" where
  "noxfs_creat_at ata parent_ino name s =
     (if \<not> g_ready s \<or> g_count s \<ge> NOXFS_MAX_FILES then Some (0, s)
      else do {
        (ino, s) \<leftarrow> ialloc NOXFS_MODE_FILE s;
        if ino = NO_INO then Some (0, s)
        else do {
          (st, s) \<leftarrow> dir_add_entry ata parent_ino name ino NOXFS_FT_FILE s;
          if st \<noteq> OS_OK then Some (0, s) else new_file_slot name ino s
        }
      })"

definition noxfs_creat :: "ata_reader \<Rightarrow> cstring \<Rightarrow> noxfs \<Rightarrow> (nat \<times> noxfs) option" where
  "noxfs_creat ata name s =
     (if \<not> g_ready s \<or> g_count s \<ge> NOXFS_MAX_FILES then Some (0, s)
      else do {
        (f, s) \<leftarrow> noxfs_lookup ata name s;
        if f \<noteq> 0 then Some (0, s)
        else do {
          (ino, s) \<leftarrow> ialloc NOXFS_MODE_FILE s;
          if ino = NO_INO then Some (0, s)
          else do {
            (st, s) \<leftarrow> dir_add_entry ata (root_ino (g_sb s)) name ino NOXFS_FT_FILE s;
            if st \<noteq> OS_OK then Some (0, s) else new_file_slot name ino s
          }
        }
      })"

definition dot_entries :: "u32 \<Rightarrow> u32 \<Rightarrow> u8 list" where
  "dot_entries dir_ino parent_ino =
     (let dot = \<lparr>d_inode = dir_ino, rec_len = 32, name_len = 1, file_type = NOXFS_FT_DIR,
                 d_name = ch (CHR ''.'') # replicate 23 0\<rparr>;
          dotdot = \<lparr>d_inode = parent_ino, rec_len = 32, name_len = 2, file_type = NOXFS_FT_DIR,
                 d_name = ch (CHR ''.'') # ch (CHR ''.'') # replicate 22 0\<rparr>
      in dirent_bytes dot @ dirent_bytes dotdot @ replicate 448 0)"

definition noxfs_mkdir :: "ata_reader \<Rightarrow> u32 \<Rightarrow> cstring \<Rightarrow> noxfs \<Rightarrow> (u32 \<times> noxfs) option" where
  "noxfs_mkdir ata parent_ino name s =
     (if \<not> g_ready s \<or> name = [] then Some (NO_INO, s)
      else do {
        (old, s) \<leftarrow> dir_lookup_name ata parent_ino name s;
        if old \<noteq> NO_INO then Some (NO_INO, s)
        else do {
          (dir_ino, s) \<leftarrow> ialloc NOXFS_MODE_DIR s;
          if dir_ino = NO_INO then Some (NO_INO, s)
          else do {
            (data_blk, s) \<leftarrow> fs_balloc s;
            if data_blk = NO_INO then Some (NO_INO, s)
            else do {
              (bp, s) \<leftarrow> fs_bread data_blk s;
              if bp = 0 then Some (NO_INO, s)
              else do {
                s \<leftarrow> fs_put bp (dot_entries dir_ino parent_ino) s;
                (r, s) \<leftarrow> iread ata dir_ino (fs_brelse bp s);
                case r of
                  Inl _ \<Rightarrow> Some (NO_INO, s)
                | Inr i \<Rightarrow> do {
                    (st, s) \<leftarrow> iwrite dir_ino (i\<lparr>i_blocks := (i_blocks i)[0 := data_blk], i_size := 64\<rparr>) s;
                    if st \<noteq> OS_OK then Some (NO_INO, s)
                    else do {
                      (st, s) \<leftarrow> dir_add_entry ata parent_ino name dir_ino NOXFS_FT_DIR s;
                      Some (if st \<noteq> OS_OK then NO_INO else dir_ino, s)
                    }
                  }
              }
            }
          }
        }
      })"

text \<open>
  Creating a file at an absolute path: each component but the last is looked up or made as a
  directory. \<open>p\<close> is what is left of the path behind the current separator.
\<close>

definition skip_sep :: "cstring \<Rightarrow> cstring" where
  "skip_sep p = (if p \<noteq> [] \<and> hd p = ch (CHR ''/'') then tl p else p)"

lemma skip_sep_length: "length (skip_sep p) \<le> length p"
  by (simp add: skip_sep_def)

function creat_path_from :: "ata_reader \<Rightarrow> cstring \<Rightarrow> u32 \<Rightarrow> cstring \<Rightarrow> noxfs \<Rightarrow> (nat \<times> noxfs) option" where
  "creat_path_from ata path cur p s =
     (if p = [] then Some (0, s)
      else let seg = takeWhile (\<lambda>c. c \<noteq> ch (CHR ''/'')) p; rest = skip_sep (drop (length seg) p) in
      if seg = [] \<or> length seg > 31 then Some (0, s)
      else if rest = []
      then do {
        (f, s) \<leftarrow> noxfs_lookup ata path s;
        if f \<noteq> 0 then Some (f, s) else noxfs_creat_at ata cur seg s
      }
      else do {
        (child, s) \<leftarrow> dir_lookup_name ata cur seg s;
        (child, s) \<leftarrow> (if child = NO_INO then noxfs_mkdir ata cur seg s else Some (child, s));
        if child = NO_INO then Some (0, s) else creat_path_from ata path child rest s
      })"
  by pat_completeness auto
termination
proof (relation "measure (\<lambda>(ata, path, cur, p, s). length p)", goal_cases)
  case (2 ata path cur p s seg rest x a b y c d)
  have "length rest \<le> length (drop (length seg) p)" unfolding 2 by (rule skip_sep_length)
  also have "\<dots> < length p" using 2(1,3,4) by auto
  finally show ?case by simp
qed simp

declare creat_path_from.simps [simp del]

definition noxfs_creat_path :: "ata_reader \<Rightarrow> cstring \<Rightarrow> noxfs \<Rightarrow> (nat \<times> noxfs) option" where
  "noxfs_creat_path ata path s =
     (if \<not> g_ready s \<or> cstr path 0 \<noteq> ch (CHR ''/'') then Some (0, s)
      else creat_path_from ata path (root_ino (g_sb s)) (tl path) s)"

text \<open>The entries other than the removed one, shifted together.\<close>

definition compact_entries :: "u64 \<Rightarrow> nat \<Rightarrow> nat \<Rightarrow> noxfs \<Rightarrow> u8 list" where
  "compact_entries p n gone s =
     concat (map (\<lambda>k. mem_read p (DIRENT_SZ * k) DIRENT_SZ s) (filter (\<lambda>k. k \<noteq> gone) [0 ..< n]))"

definition dir_remove_entry :: "ata_reader \<Rightarrow> u32 \<Rightarrow> cstring \<Rightarrow> noxfs \<Rightarrow> (os_status \<times> noxfs) option" where
  "dir_remove_entry ata dir_ino name s = do {
     (r, s) \<leftarrow> iread ata dir_ino s;
     case r of
       Inl _ \<Rightarrow> Some (OS_ERR_IO, s)
     | Inr dir \<Rightarrow>
       if i_mode dir AND NOXFS_INO_DIR = 0 then Some (OS_ERR_INVALID, s)
       else do {
         (p, sz, s) \<leftarrow> load_data ata dir_ino (i_size dir) s;
         if p = 0 then Some (OS_ERR_OOM, s)
         else case find_entry p (entry_count sz) name s of
           None \<Rightarrow> Some (OS_ERR_NOT_FOUND, fs_kfree p s)
         | Some k \<Rightarrow> do {
             let new_sz = of_nat (entry_count sz - 1) * 32;
             (q, s) \<leftarrow> fs_kmalloc (if new_sz > 0 then new_sz else 1) s;
             if q = 0 then Some (OS_ERR_OOM, fs_kfree p s)
             else do {
               let s = fs_kfree p (mem_write q 0 (compact_entries p (entry_count sz) k s) s);
               (st, s) \<leftarrow> store_data ata dir_ino q new_sz s;
               Some (st, fs_kfree q s)
             }
           }
       }
   }"

text \<open>Releasing the blocks of a file: the direct ones, those of the indirect block and the indirect block.\<close>

definition free_direct :: "noxfs_inode \<Rightarrow> nat \<Rightarrow> noxfs \<Rightarrow> noxfs option" where
  "free_direct i nblk s =
     fold (\<lambda>k m. do { s \<leftarrow> m; if i_blocks i ! k \<noteq> 0 then fs_bfree (i_blocks i ! k) s else Some s })
       [0 ..< min nblk 10] (Some s)"

definition free_indirect :: "noxfs_inode \<Rightarrow> nat \<Rightarrow> noxfs \<Rightarrow> noxfs option" where
  "free_indirect i nblk s =
     (if i_indirect i = 0 then Some s
      else do {
        (bp, s) \<leftarrow> fs_bread (i_indirect i) s;
        s \<leftarrow> (if bp = 0 then Some s
              else do {
                s \<leftarrow> fold (\<lambda>k m. do {
                         s \<leftarrow> m;
                         let q = get32 (fs_data bp s) (4 * k);
                         if q \<noteq> 0 then fs_bfree q s else Some s })
                       [0 ..< min (nblk - 10) 128] (Some s);
                Some (fs_brelse bp s)
              });
        fs_bfree (i_indirect i) s
      })"

definition drop_cached :: "u32 \<Rightarrow> noxfs \<Rightarrow> noxfs" where
  "drop_cached ino s =
     (case find (\<lambda>k. f_inode (g_files s k) = ino) [1 ..< Suc (g_count s)] of
        None \<Rightarrow> s
      | Some k \<Rightarrow>
          let s = (if f_data (g_files s k) \<noteq> 0 then fs_kfree (f_data (g_files s k)) s else s)
          in s\<lparr>g_files := (\<lambda>j. if k \<le> j \<and> j < g_count s then g_files s (Suc j) else g_files s j),
               g_count := g_count s - 1\<rparr>)"

definition noxfs_unlink :: "ata_reader \<Rightarrow> u32 \<Rightarrow> cstring \<Rightarrow> noxfs \<Rightarrow> (os_status \<times> noxfs) option" where
  "noxfs_unlink ata parent_ino name s =
     (if \<not> g_ready s then Some (OS_ERR_INVALID, s)
      else do {
        (ino, s) \<leftarrow> dir_lookup_name ata parent_ino name s;
        if ino = NO_INO then Some (OS_ERR_NOT_FOUND, s)
        else if ino = root_ino (g_sb s) then Some (OS_ERR_INVALID, s)
        else do {
          (r, s) \<leftarrow> iread ata ino s;
          case r of
            Inl _ \<Rightarrow> Some (OS_ERR_IO, s)
          | Inr i \<Rightarrow>
            if i_mode i AND NOXFS_INO_DIR \<noteq> 0 \<and> i_size i > 64 then Some (OS_ERR_INVALID, s)
            else do {
              (st, s) \<leftarrow> dir_remove_entry ata parent_ino name s;
              if st \<noteq> OS_OK then Some (st, s)
              else do {
                (r, s) \<leftarrow> iread ata ino s;
                case r of
                  Inl _ \<Rightarrow> Some (OS_ERR_IO, s)
                | Inr i \<Rightarrow> do {
                    let i = (if i_links i > 0 then i\<lparr>i_links := i_links i - 1\<rparr> else i);
                    if i_links i = 0
                    then do {
                      let nblk = unat ((i_size i + NOXFS_BLKSZ - 1) div NOXFS_BLKSZ);
                      s \<leftarrow> free_direct i nblk s;
                      s \<leftarrow> free_indirect i nblk s;
                      s \<leftarrow> ifree ino s;
                      Some (OS_OK, drop_cached ino s)
                    }
                    else do { (_, s) \<leftarrow> iwrite ino i s; Some (OS_OK, s) }
                  }
              }
            }
        }
      })"

definition noxfs_rename :: "ata_reader \<Rightarrow> u32 \<Rightarrow> cstring \<Rightarrow> u32 \<Rightarrow> cstring \<Rightarrow> noxfs \<Rightarrow> (os_status \<times> noxfs) option" where
  "noxfs_rename ata src_parent src_name dst_parent dst_name s =
     (if \<not> g_ready s then Some (OS_ERR_INVALID, s)
      else do {
        (ino, s) \<leftarrow> dir_lookup_name ata src_parent src_name s;
        if ino = NO_INO then Some (OS_ERR_NOT_FOUND, s)
        else do {
          (r, s) \<leftarrow> iread ata ino s;
          case r of
            Inl _ \<Rightarrow> Some (OS_ERR_IO, s)
          | Inr i \<Rightarrow> do {
              let ft = (if i_mode i AND NOXFS_INO_DIR \<noteq> 0 then NOXFS_FT_DIR else NOXFS_FT_FILE);
              (st, s) \<leftarrow> dir_add_entry ata dst_parent dst_name ino ft s;
              if st \<noteq> OS_OK then Some (st, s)
              else do {
                (old_dst, s) \<leftarrow> dir_lookup_name ata dst_parent dst_name s;
                s \<leftarrow> (if old_dst \<noteq> NO_INO \<and> old_dst \<noteq> ino
                      then map_option snd (noxfs_unlink ata dst_parent dst_name s) else Some s);
                dir_remove_entry ata src_parent src_name s
              }
            }
        }
      })"

definition noxfs_sync :: "noxfs \<Rightarrow> noxfs option" where
  "noxfs_sync s = (if \<not> g_ready s then Some s else map_option snd (sb_write s))"

text \<open>The packing loop of \<open>noxfs_getdents\<close>: the bytes copied and the index of the next entry.\<close>

fun pack_dirents :: "u64 \<Rightarrow> nat \<Rightarrow> nat \<Rightarrow> nat \<Rightarrow> nat \<Rightarrow> noxfs \<Rightarrow> u8 list \<times> nat" where
  "pack_dirents p idx 0 written len s = ([], idx)"
| "pack_dirents p idx (Suc n) written len s =
     (if written + DIRENT_SZ \<le> len
      then let (xs, i) = pack_dirents p (Suc idx) n (written + DIRENT_SZ) len s
           in (mem_read p (DIRENT_SZ * idx) DIRENT_SZ s @ xs, i)
      else ([], idx))"

definition noxfs_getdents :: "ata_reader \<Rightarrow> u32 \<Rightarrow> u32 \<Rightarrow> u32 \<Rightarrow> noxfs \<Rightarrow> (int \<times> u8 list \<times> u32 \<times> noxfs) option" where
  "noxfs_getdents ata dir_ino len off s =
     (if \<not> g_ready s \<or> unat len < DIRENT_SZ then Some (- 1, [], off, s)
      else do {
        (r, s) \<leftarrow> iread ata dir_ino s;
        case r of
          Inl _ \<Rightarrow> Some (- 1, [], off, s)
        | Inr dir \<Rightarrow>
          if i_mode dir AND NOXFS_INO_DIR = 0 then Some (- 1, [], off, s)
          else do {
            (p, sz, s) \<leftarrow> load_data ata dir_ino (i_size dir) s;
            if p = 0 then Some (- 1, [], off, s)
            else let idx = unat (off div 32) in
            if idx \<ge> entry_count sz then Some (0, [], off, fs_kfree p s)
            else let (xs, i) = pack_dirents p idx (entry_count sz - idx) 0 (unat len) s
                 in Some (int (length xs), xs, of_nat i * 32, fs_kfree p s)
          }
      })"

definition noxfs_stat :: "ata_reader \<Rightarrow> u32 \<Rightarrow> vfs_file \<Rightarrow> noxfs \<Rightarrow> (os_status \<times> vfs_file \<times> noxfs) option" where
  "noxfs_stat ata ino out s =
     (if \<not> g_ready s then Some (OS_ERR_INVALID, out, s)
      else do {
        (r, s) \<leftarrow> iread ata ino s;
        case r of
          Inl _ \<Rightarrow> Some (OS_ERR_IO, out, s)
        | Inr i \<Rightarrow> Some (OS_OK, out\<lparr>f_name := (f_name out)[0 := 0], f_data := 0, f_size := i_size i, f_inode := ino,
                                  f_capacity := ucast (i_mode i)\<rparr>, s)
      })"

definition noxfs_chmod :: "ata_reader \<Rightarrow> u32 \<Rightarrow> u16 \<Rightarrow> noxfs \<Rightarrow> (os_status \<times> noxfs) option" where
  "noxfs_chmod ata ino perm s =
     (if \<not> g_ready s then Some (OS_ERR_INVALID, s)
      else do {
        (r, s) \<leftarrow> iread ata ino s;
        case r of
          Inl _ \<Rightarrow> Some (OS_ERR_IO, s)
        | Inr i \<Rightarrow> iwrite ino (i\<lparr>i_mode := (i_mode i AND NOT NOXFS_PERM_MASK) OR (perm AND NOXFS_PERM_MASK)\<rparr>) s
      })"

definition noxfs_rmdir :: "ata_reader \<Rightarrow> u32 \<Rightarrow> cstring \<Rightarrow> noxfs \<Rightarrow> (os_status \<times> noxfs) option" where
  "noxfs_rmdir ata parent_ino name s =
     (if \<not> g_ready s then Some (OS_ERR_INVALID, s)
      else do {
        (ino, s) \<leftarrow> dir_lookup_name ata parent_ino name s;
        if ino = NO_INO then Some (OS_ERR_NOT_FOUND, s)
        else do {
          (r, s) \<leftarrow> iread ata ino s;
          case r of
            Inl _ \<Rightarrow> Some (OS_ERR_IO, s)
          | Inr i \<Rightarrow>
            if i_mode i AND NOXFS_INO_DIR = 0 \<or> i_size i > 64 then Some (OS_ERR_INVALID, s)
            else noxfs_unlink ata parent_ino name s
        }
      })"

definition noxfs_root_ino :: "noxfs \<Rightarrow> u32" where
  "noxfs_root_ino s = (if g_ready s then root_ino (g_sb s) else NO_INO)"

end
