(* ===== verification/Noxlib.thy ===== *)
theory Noxlib
  imports Prelude "HOL-Library.Monad_Syntax"
begin

text \<open>
  The userland runtime src/src/lib/noxlib/noxlib.h: string helpers, number parsing and formatted
  output. A pointer into a string is the rest of its bytes; reading through it is \<open>cstr s 0\<close>, which is
  zero at the end. The C types \<open>int\<close> and \<open>long\<close> are 32- and 64-bit words read with \<open>sint\<close>.
\<close>

section \<open>Strings\<close>

fun strlen :: "cstring \<Rightarrow> nat" where
  "strlen [] = 0"
| "strlen (c # s) = (if c \<noteq> 0 then Suc (strlen s) else 0)"

definition isdigit :: "u8 \<Rightarrow> bool" where
  "isdigit c \<longleftrightarrow> c \<ge> ch CHR ''0'' \<and> c \<le> ch CHR ''9''"

definition isupper :: "u8 \<Rightarrow> bool" where
  "isupper c \<longleftrightarrow> c \<ge> ch CHR ''A'' \<and> c \<le> ch CHR ''Z''"

definition islower :: "u8 \<Rightarrow> bool" where
  "islower c \<longleftrightarrow> c \<ge> ch CHR ''a'' \<and> c \<le> ch CHR ''z''"

definition isalpha :: "u8 \<Rightarrow> bool" where
  "isalpha c \<longleftrightarrow> islower c \<or> isupper c"

definition isalnum :: "u8 \<Rightarrow> bool" where
  "isalnum c \<longleftrightarrow> isdigit c \<or> isalpha c"

definition isspace :: "u8 \<Rightarrow> bool" where
  "isspace c \<longleftrightarrow> c = ch CHR '' '' \<or> c = 9 \<or> c = 10 \<or> c = 13"

definition toupper :: "u8 \<Rightarrow> u8" where
  "toupper c = (if islower c then c - 32 else c)"

definition tolower :: "u8 \<Rightarrow> u8" where
  "tolower c = (if isupper c then c + 32 else c)"

fun atoi_digits :: "u32 \<Rightarrow> cstring \<Rightarrow> u32" where
  "atoi_digits v [] = v"
| "atoi_digits v (c # s) = (if isdigit c then atoi_digits (v * 10 + (ucast c - 48)) s else v)"

definition atoi :: "cstring \<Rightarrow> u32" where
  "atoi s =
     (let (neg, s) = (if cstr s 0 = ch CHR ''-'' then (True, tl s)
                      else if cstr s 0 = ch CHR ''+'' then (False, tl s) else (False, s));
          v = atoi_digits 0 s
      in if neg then - v else v)"

text \<open>The inner loop of \<open>strstr\<close>: does \<open>n\<close> match at the start of \<open>h\<close>?\<close>

fun match_at :: "cstring \<Rightarrow> cstring \<Rightarrow> bool" where
  "match_at h [] = True"
| "match_at h (c # n) = (if c \<noteq> 0 \<and> cstr h 0 = c then match_at (tl h) n else c = 0)"

fun strstr_from :: "cstring \<Rightarrow> cstring \<Rightarrow> cstring option" where
  "strstr_from [] n = None"
| "strstr_from (c # h) n =
     (if c = 0 then None else if match_at (c # h) n then Some (c # h) else strstr_from h n)"

definition strstr :: "cstring \<Rightarrow> cstring \<Rightarrow> cstring option" where
  "strstr h n = (if cstr n 0 = 0 then Some h else strstr_from h n)"

fun strcmp :: "cstring \<Rightarrow> cstring \<Rightarrow> int" where
  "strcmp [] b = 0 - uint (cstr b 0)"
| "strcmp (x # a) b =
     (if x \<noteq> 0 \<and> x = cstr b 0 then strcmp a (tl b) else uint x - uint (cstr b 0))"

fun strncmp :: "cstring \<Rightarrow> cstring \<Rightarrow> nat \<Rightarrow> int" where
  "strncmp a b 0 = 0"
| "strncmp a b (Suc n) =
     (if cstr a 0 \<noteq> cstr b 0 then uint (cstr a 0) - uint (cstr b 0)
      else if cstr a 0 = 0 then 0 else strncmp (tl a) (tl b) n)"

fun memcmp :: "u8 list \<Rightarrow> u8 list \<Rightarrow> nat \<Rightarrow> int" where
  "memcmp a b 0 = 0"
| "memcmp a b (Suc n) =
     (if cstr a 0 \<noteq> cstr b 0 then uint (cstr a 0) - uint (cstr b 0) else memcmp (tl a) (tl b) n)"

definition hex_digit :: "u8 \<Rightarrow> u64 option" where
  "hex_digit c =
     (if isdigit c then Some (ucast c - 48)
      else if c \<ge> ch CHR ''a'' \<and> c \<le> ch CHR ''f'' then Some (ucast c - 97 + 10)
      else if c \<ge> ch CHR ''A'' \<and> c \<le> ch CHR ''F'' then Some (ucast c - 65 + 10)
      else None)"

fun strtol_digits :: "u64 \<Rightarrow> u64 \<Rightarrow> cstring \<Rightarrow> u64 \<times> cstring" where
  "strtol_digits base v [] = (v, [])"
| "strtol_digits base v (c # s) =
     (case hex_digit c of
        None \<Rightarrow> (v, c # s)
      | Some d \<Rightarrow> if sint d \<ge> sint base then (v, c # s) else strtol_digits base (v * base + d) s)"

definition strtol :: "cstring \<Rightarrow> u64 \<Rightarrow> u64 \<times> cstring" where
  "strtol s base =
     (let s = dropWhile (\<lambda>c. c = ch CHR '' '' \<or> c = 9) s;
          (neg, s) = (if cstr s 0 = ch CHR ''-'' then (True, tl s)
                      else if cstr s 0 = ch CHR ''+'' then (False, tl s) else (False, s));
          (base, s) = (if base = 0
                       then if cstr s 0 = ch CHR ''0'' \<and> (cstr s 1 = ch CHR ''x'' \<or> cstr s 1 = ch CHR ''X'') then (16, drop 2 s)
                            else if cstr s 0 = ch CHR ''0'' then (8, tl s) else (10, s)
                       else (base, s));
          (v, rest) = strtol_digits base 0 s
      in (if neg then - v else v, rest))"

section \<open>Digits\<close>

text \<open>The digit loops write from the end of a scratch array towards its start.\<close>

function dec_loop :: "u64 \<Rightarrow> u8 list \<Rightarrow> u8 list" where
  "dec_loop u tb = (if u = 0 then tb else dec_loop (u div 10) ((48 + ucast (u mod 10)) # tb))"
  by pat_completeness auto

termination dec_loop
proof (relation "measure (\<lambda>(u, _). unat u)")
  fix u :: u64 assume "u \<noteq> 0"
  then have "0 < unat u" by (simp add: unat_gt_0)
  then show "((u div 10, tb), (u, tb')) \<in> measure (\<lambda>(u, _). unat u)" for tb tb' :: "u8 list"
    by (simp add: unat_div)
qed simp

definition dec_text :: "u64 \<Rightarrow> u8 list" where
  "dec_text u = (if u = 0 then [48] else dec_loop u [])"

definition hex_char :: "bool \<Rightarrow> u64 \<Rightarrow> u8" where
  "hex_char up d = (if up then str ''0123456789ABCDEF'' else str ''0123456789abcdef'') ! unat d"

function hex_loop :: "bool \<Rightarrow> u64 \<Rightarrow> u8 list \<Rightarrow> u8 list" where
  "hex_loop up u tb = (if u = 0 then tb else hex_loop up (drop_bit 4 u) (hex_char up (u AND 15) # tb))"
  by pat_completeness auto

termination hex_loop
proof (relation "measure (\<lambda>(_, u, _). unat u)")
  fix u :: u64 assume "u \<noteq> 0"
  then have "0 < unat u" by (simp add: unat_gt_0)
  then show "((up, drop_bit 4 u, tb), (up, u, tb')) \<in> measure (\<lambda>(_, u, _). unat u)" for up and tb tb' :: "u8 list"
    by (simp add: drop_bit_eq_div unat_div)
qed simp

definition hex_text :: "bool \<Rightarrow> u64 \<Rightarrow> u8 list" where
  "hex_text up u = (if u = 0 then [48] else hex_loop up u [])"

text \<open>The sign and the digits of a \<open>long\<close>.\<close>

definition signed_text :: "u64 \<Rightarrow> u8 list" where
  "signed_text v = (if sint v < 0 then ch CHR ''-'' # dec_text (- v) else dec_text v)"

definition puti :: "u64 \<Rightarrow> u8 list" where
  "puti v =
     (let u = (if sint v < 0 then - v else v);
          ds = dec_loop (u div 10) [48 + ucast (u mod 10)]
      in if sint v < 0 then ch CHR ''-'' # ds else ds)"

section \<open>Formatted output\<close>

text \<open>
  The variable arguments are a list of 64-bit slots and string pointers. Reading an argument that is
  not there or is of the other kind is undefined in C, and the result is \<open>None\<close>.
\<close>

datatype vararg = Num u64 | Ptr "cstring option"

fun arg_num :: "vararg list \<Rightarrow> (u64 \<times> vararg list) option" where
  "arg_num (Num n # as) = Some (n, as)"
| "arg_num _ = None"

fun arg_ptr :: "vararg list \<Rightarrow> (cstring option \<times> vararg list) option" where
  "arg_ptr (Ptr p # as) = Some (p, as)"
| "arg_ptr _ = None"

fun fmt_flags :: "bool \<Rightarrow> bool \<Rightarrow> cstring \<Rightarrow> bool \<times> bool \<times> cstring" where
  "fmt_flags lft zer [] = (lft, zer, [])"
| "fmt_flags lft zer (c # s) =
     (if c = ch CHR ''-'' then fmt_flags True zer s
      else if c = ch CHR ''0'' then fmt_flags lft True s else (lft, zer, c # s))"

fun fmt_width :: "u32 \<Rightarrow> cstring \<Rightarrow> u32 \<times> cstring" where
  "fmt_width w [] = (w, [])"
| "fmt_width w (c # s) = (if isdigit c then fmt_width (w * 10 + (ucast c - 48)) s else (w, c # s))"

fun fmt_longs :: "nat \<Rightarrow> cstring \<Rightarrow> nat \<times> cstring" where
  "fmt_longs n [] = (n, [])"
| "fmt_longs n (c # s) = (if c = ch CHR ''l'' then fmt_longs (Suc n) s else (n, c # s))"

text \<open>The loops that write a text or a run of one byte into a buffer with room for \<open>cap\<close> bytes.\<close>

fun pc_text :: "nat \<Rightarrow> u8 list \<Rightarrow> u8 list \<Rightarrow> u8 list" where
  "pc_text cap [] b = b"
| "pc_text cap (c # cs) b = (if length b < cap then pc_text cap cs (b @ [c]) else b)"

fun pc_fill :: "nat \<Rightarrow> nat \<Rightarrow> u8 \<Rightarrow> u8 list \<Rightarrow> u8 list" where
  "pc_fill cap 0 c b = b"
| "pc_fill cap (Suc k) c b = (if length b < cap then pc_fill cap k c (b @ [c]) else b)"

definition signed_arg :: "nat \<Rightarrow> u64 \<Rightarrow> u64" where
  "signed_arg lng n = (if lng \<ge> 1 then n else scast (ucast n :: u32))"

definition unsigned_arg :: "nat \<Rightarrow> u64 \<Rightarrow> u64" where
  "unsigned_arg lng n = (if lng \<ge> 1 then n else ucast (ucast n :: u32))"

text \<open>The text of a directive other than \<open>%s\<close> (the array \<open>tmp\<close>) and the arguments left.\<close>

definition directive :: "u8 \<Rightarrow> nat \<Rightarrow> vararg list \<Rightarrow> (u8 list \<times> vararg list) option" where
  "directive sp lng as =
     (if sp = ch CHR ''c'' then do { (n, as) \<leftarrow> arg_num as; Some ([ucast n], as) }
      else if sp = ch CHR ''d'' \<or> sp = ch CHR ''i''
      then do { (n, as) \<leftarrow> arg_num as; Some (signed_text (signed_arg lng n), as) }
      else if sp = ch CHR ''u'' then do { (n, as) \<leftarrow> arg_num as; Some (dec_text (unsigned_arg lng n), as) }
      else if sp = ch CHR ''x'' \<or> sp = ch CHR ''X''
      then do { (n, as) \<leftarrow> arg_num as; Some (hex_text (sp = ch CHR ''X'') (unsigned_arg lng n), as) }
      else if sp = ch CHR ''p''
      then do { (n, as) \<leftarrow> arg_num as; Some (str ''0x'' @ hex_text False n, as) }
      else if sp = ch CHR ''%'' then Some ([ch CHR ''%''], as)
      else Some ([ch CHR ''%'', sp], as))"

text \<open>The field of a \<open>%s\<close> and of another directive, written with its padding.\<close>

definition put_string :: "nat \<Rightarrow> bool \<Rightarrow> int \<Rightarrow> cstring \<Rightarrow> u8 list \<Rightarrow> u8 list" where
  "put_string cap lft wid s b =
     (let sl = strlen s;
          b = (if \<not> lft \<and> wid > int sl then pc_fill cap (nat (wid - int sl)) (ch CHR '' '') b else b);
          b = pc_text cap (c_text s) b
      in if lft \<and> wid > int sl then pc_fill cap (nat (wid - int sl)) (ch CHR '' '') b else b)"

definition put_field :: "nat \<Rightarrow> bool \<Rightarrow> bool \<Rightarrow> int \<Rightarrow> u8 list \<Rightarrow> u8 list \<Rightarrow> u8 list" where
  "put_field cap lft zer wid tmp b =
     (let tl = length tmp; n = nat (wid - int tl)
      in if \<not> lft \<and> wid > int tl \<and> zer \<and> tl > 0 \<and> cstr tmp 0 = ch CHR ''-'' \<and> length b < cap
         then pc_text cap (drop 1 tmp) (pc_fill cap n (ch CHR ''0'') (b @ [ch CHR ''-'']))
         else let b = (if \<not> lft \<and> wid > int tl
                       then pc_fill cap n (if zer then ch CHR ''0'' else ch CHR '' '') b else b);
                  b = pc_text cap tmp b
              in if lft \<and> wid > int tl then pc_fill cap n (ch CHR '' '') b else b)"

text \<open>The directive at the start of a format: flags, width, length, and the rest from the specifier on.\<close>

definition fmt_spec :: "cstring \<Rightarrow> bool \<times> bool \<times> u32 \<times> nat \<times> cstring" where
  "fmt_spec s =
     (let (lft, zer, s) = fmt_flags False False s; (wid, s) = fmt_width 0 s; (lng, s) = fmt_longs 0 s
      in (lft, zer, wid, lng, s))"

datatype fmt_out = Undefined | Text "u8 list"

text \<open>
  The macro \<open>_PC\<close> evaluates its argument only when there is room, so \<open>_PC(*fmt++)\<close> on a full buffer
  leaves \<open>fmt\<close> where it is and the loop runs again on the same state.
\<close>

partial_function (option) format_loop :: "nat \<Rightarrow> cstring \<Rightarrow> vararg list \<Rightarrow> u8 list \<Rightarrow> fmt_out option" where
  "format_loop cap fmt as b =
     (if cstr fmt 0 = 0 then Some (Text b)
      else if cstr fmt 0 \<noteq> ch CHR ''%''
      then if length b < cap then format_loop cap (tl fmt) as (b @ [cstr fmt 0]) else format_loop cap fmt as b
      else case fmt_spec (tl fmt) of (lft, zer, wid, lng, s) \<Rightarrow>
        if cstr s 0 = 0 then Some (Text b)
        else if cstr s 0 = ch CHR ''s''
        then (case arg_ptr as of
                None \<Rightarrow> Some Undefined
              | Some (p, as) \<Rightarrow>
                  format_loop cap (tl s) as (put_string cap lft (sint wid) (case p of None \<Rightarrow> str ''(null)'' | Some t \<Rightarrow> t) b))
        else (case directive (cstr s 0) lng as of
                None \<Rightarrow> Some Undefined
              | Some (tmp, as) \<Rightarrow> format_loop cap (tl s) as (put_field cap lft zer (sint wid) tmp b)))"

text \<open>The text stored before the terminating zero; its length is the number returned.\<close>

definition vsnprintf :: "nat \<Rightarrow> cstring \<Rightarrow> vararg list \<Rightarrow> fmt_out option" where
  "vsnprintf sz fmt as = (if sz = 0 then Some (Text []) else format_loop (sz - 1) fmt as [])"

definition snprintf :: "nat \<Rightarrow> cstring \<Rightarrow> vararg list \<Rightarrow> fmt_out option" where
  "snprintf sz fmt as = vsnprintf sz fmt as"

definition sprintf :: "cstring \<Rightarrow> vararg list \<Rightarrow> fmt_out option" where
  "sprintf fmt as = vsnprintf 4096 fmt as"

text \<open>What \<open>printf\<close> and \<open>fprintf\<close> write: an empty result is not written, which is the same bytes.\<close>

definition printf :: "cstring \<Rightarrow> vararg list \<Rightarrow> fmt_out option" where
  "printf fmt as = vsnprintf 1024 fmt as"

definition fprintf :: "cstring \<Rightarrow> vararg list \<Rightarrow> fmt_out option" where
  "fprintf fmt as = vsnprintf 1024 fmt as"

section \<open>Numbers are read back as they were printed\<close>

lemma ch_digit: "ch CHR ''0'' = 48" "ch CHR ''9'' = 57" "ch CHR ''-'' = 45" "ch CHR ''+'' = 43"
  "ch CHR '' '' = 32" "ch CHR ''%'' = 37"
  by (simp_all add: ch_def)

declare dec_loop.simps [simp del] hex_loop.simps [simp del]

text \<open>The digit of the last place, as a byte, as a number, and as what the parsers add.\<close>

lemma last_digit:
  fixes u :: u64
  shows "isdigit (48 + ucast (u mod 10))"
    and "ucast (48 + ucast (u mod 10) :: u8) - 48 = (ucast (u mod 10) :: u32)"
    and "ucast (48 + ucast (u mod 10) :: u8) - 48 = u mod 10"
    and "sint (u mod 10) < 10"
proof -
  obtain d where d: "u mod 10 = d" by simp
  have "unat d < 10" unfolding d [symmetric] by (simp add: unat_mod)
  then have "unat d \<in> set [0 ..< 10]" by simp
  then have "d \<in> (of_nat :: nat \<Rightarrow> u64) ` set [0 ..< 10]" by (metis imageI of_nat_unat ucast_id)
  then have c: "d \<in> {0, 1, 2, 3, 4, 5, 6, 7, 8, 9}" by (simp add: upt_rec)
  show "isdigit (48 + ucast (u mod 10))" unfolding d using c by (auto simp: isdigit_def ch_digit)
  show "ucast (48 + ucast (u mod 10) :: u8) - 48 = (ucast (u mod 10) :: u32)" unfolding d using c by auto
  show "ucast (48 + ucast (u mod 10) :: u8) - 48 = u mod 10" unfolding d using c by auto
  show "sint (u mod 10) < 10" unfolding d using c by auto
qed

lemma ucast_div_mod_10: "ucast (u div 10) * 10 + ucast (u mod 10) = (ucast (u :: u64) :: u32)"
proof -
  have "unat (u div 10) * 10 + unat (u mod 10) = unat u" by (simp add: unat_div unat_mod)
  then have "(of_nat (unat (u div 10) * 10 + unat (u mod 10)) :: u32) = of_nat (unat u)" by simp
  then show ?thesis by simp
qed

lemma atoi_dec_loop: "atoi_digits 0 (dec_loop u tb) = atoi_digits (ucast u) tb"
proof (induction u tb rule: dec_loop.induct)
  case (1 u tb)
  show ?case
  proof (cases "u = 0")
    case True
    then show ?thesis by (simp add: dec_loop.simps)
  next
    case False
    have "atoi_digits 0 (dec_loop u tb) = atoi_digits (ucast (u div 10)) ((48 + ucast (u mod 10)) # tb)"
      using 1 False by (simp add: dec_loop.simps [of u])
    also have "\<dots> = atoi_digits (ucast (u div 10) * 10 + ucast (u mod 10)) tb"
      by (simp only: atoi_digits.simps last_digit if_True)
    finally show ?thesis by (simp only: ucast_div_mod_10)
  qed
qed

lemma strtol_step:
  "strtol_digits 10 v ((48 + ucast (u mod 10)) # s) = strtol_digits 10 (v * 10 + u mod 10) s"
proof -
  have "hex_digit (48 + ucast (u mod 10)) = Some (u mod 10)"
    by (simp only: hex_digit_def last_digit if_True)
  moreover have "\<not> sint (u mod 10) \<ge> sint (10 :: u64)"
    using last_digit(4) [of u] by (simp del: word_arith_nat_defs)
  ultimately show ?thesis by (simp only: strtol_digits.simps option.case if_False)
qed

lemma strtol_dec_loop: "strtol_digits 10 0 (dec_loop u tb) = strtol_digits 10 u tb"
proof (induction u tb rule: dec_loop.induct)
  case (1 u tb)
  show ?case
  proof (cases "u = 0")
    case True
    then show ?thesis by (simp add: dec_loop.simps)
  next
    case False
    have "strtol_digits 10 0 (dec_loop u tb) = strtol_digits 10 (u div 10) ((48 + ucast (u mod 10)) # tb)"
      using 1 False by (simp add: dec_loop.simps [of u])
    also have "\<dots> = strtol_digits 10 (u div 10 * 10 + u mod 10) tb" by (rule strtol_step)
    finally show ?thesis by (simp only: div_mult_mod_eq)
  qed
qed

text \<open>The text of a number starts with a digit, so no sign and no blank is skipped in front of it.\<close>

lemma dec_loop_head: "isdigit (cstr tb 0) \<Longrightarrow> isdigit (cstr (dec_loop u tb) 0)"
proof (induction u tb rule: dec_loop.induct)
  case (1 u tb)
  then show ?case
    using last_digit(1) [of u] by (cases "u = 0") (simp_all add: dec_loop.simps [of u tb] dec_loop.simps [of 0 tb] cstr_def)
qed

definition magnitude :: "u64 \<Rightarrow> u8 list" where
  "magnitude u = dec_loop (u div 10) [48 + ucast (u mod 10)]"

lemma magnitude_head:
  "cstr (magnitude u) 0 \<noteq> ch CHR ''-''" "cstr (magnitude u) 0 \<noteq> ch CHR ''+''"
  "dropWhile (\<lambda>c. c = ch CHR '' '' \<or> c = 9) (magnitude u) = magnitude u"
proof -
  have d: "isdigit (cstr (magnitude u) 0)"
    unfolding magnitude_def by (rule dec_loop_head) (simp add: cstr_def last_digit(1))
  show "cstr (magnitude u) 0 \<noteq> ch CHR ''-''" "cstr (magnitude u) 0 \<noteq> ch CHR ''+''"
    using d by (auto simp: isdigit_def ch_digit)
  show "dropWhile (\<lambda>c. c = ch CHR '' '' \<or> c = 9) (magnitude u) = magnitude u"
    using d by (cases "magnitude u") (auto simp: isdigit_def ch_digit cstr_def)
qed

lemma magnitude_value: "atoi_digits 0 (magnitude u) = ucast u" "strtol_digits 10 0 (magnitude u) = (u, [])"
proof -
  have "atoi_digits 0 (magnitude u) = atoi_digits (ucast (u div 10) * 10 + ucast (u mod 10)) []"
    by (simp only: magnitude_def atoi_dec_loop atoi_digits.simps last_digit if_True)
  then show "atoi_digits 0 (magnitude u) = ucast u" by (simp only: ucast_div_mod_10 atoi_digits.simps)
  have "strtol_digits 10 0 (magnitude u) = strtol_digits 10 (u div 10 * 10 + u mod 10) []"
    by (simp only: magnitude_def strtol_dec_loop strtol_step)
  then show "strtol_digits 10 0 (magnitude u) = (u, [])" by (simp only: div_mult_mod_eq strtol_digits.simps)
qed

lemma ucast_uminus: "ucast (- v :: u64) = (- ucast v :: u32)"
proof transfer
  fix v :: int
  have "take_bit LENGTH(32) (- take_bit LENGTH(64) v) = take_bit LENGTH(32) (- take_bit LENGTH(32) (take_bit LENGTH(64) v))"
    by (rule take_bit_minus [symmetric])
  also have "\<dots> = take_bit LENGTH(32) (- take_bit LENGTH(32) v)" by simp
  finally show "take_bit LENGTH(32) (take_bit LENGTH(64) (- v)) = take_bit LENGTH(32) (- take_bit LENGTH(64) v)"
    by (simp add: take_bit_minus)
qed

lemma puti_magnitude: "puti v = (if sint v < 0 then ch CHR ''-'' # magnitude (- v) else magnitude v)"
  by (simp add: puti_def magnitude_def Let_def)

lemma dec_text_magnitude: "dec_text u = magnitude u"
  by (cases "u = 0") (simp_all add: dec_text_def magnitude_def dec_loop.simps [of u "[]"] dec_loop.simps [of 0])

lemma signed_text_puti: "signed_text v = puti v"
  by (simp add: signed_text_def puti_magnitude dec_text_magnitude)

text \<open>
  C28: printing and parsing integers round trip. For every 64-bit integer, the text \<open>puti\<close> prints is
  read back by \<open>strtol\<close> in base ten as the same integer with nothing left over, and by \<open>atoi\<close> as its low
  32 bits; the directive \<open>%ld\<close> prints the same text.
\<close>

theorem print_parse_roundtrip:
  "strtol (puti v) 10 = (v, []) \<and> atoi (puti v) = ucast v \<and> directive (ch CHR ''d'') 1 [Num v] = Some (puti v, [])"
proof (intro conjI)
  have minus: "cstr (ch CHR ''-'' # s) 0 = ch CHR ''-''" "ch CHR ''-'' \<noteq> ch CHR '' ''" "ch CHR ''-'' \<noteq> 9" for s
    by (simp_all add: cstr_def ch_digit)
  show "strtol (puti v) 10 = (v, [])"
    by (cases "sint v < 0") (simp_all add: puti_magnitude strtol_def magnitude_head magnitude_value minus Let_def)
  show "atoi (puti v) = ucast v"
    by (cases "sint v < 0") (simp_all add: puti_magnitude atoi_def magnitude_head magnitude_value minus ucast_uminus Let_def)
  show "directive (ch CHR ''d'') 1 [Num v] = Some (puti v, [])"
    by (simp add: directive_def signed_arg_def signed_text_puti ch_def)
qed

section \<open>Formatted output against its specification\<close>

text \<open>The specification: a field is its text padded to the width, and the output is the fields and the plain bytes in order.\<close>

definition padded :: "bool \<Rightarrow> u8 \<Rightarrow> int \<Rightarrow> u8 list \<Rightarrow> u8 list" where
  "padded lft fill wid t =
     (let pad = replicate (nat (wid - int (length t))) (if lft then ch CHR '' '' else fill)
      in if lft then t @ pad else pad @ t)"

definition field :: "bool \<Rightarrow> bool \<Rightarrow> int \<Rightarrow> u8 list \<Rightarrow> u8 list" where
  "field lft zer wid t =
     (if zer \<and> \<not> lft \<and> cstr t 0 = ch CHR ''-'' then ch CHR ''-'' # padded False (ch CHR ''0'') (wid - 1) (tl t)
      else padded lft (if zer then ch CHR ''0'' else ch CHR '' '') wid t)"

lemma fmt_flags_length: "length (snd (snd (fmt_flags l z s))) \<le> length s"
  by (induction l z s rule: fmt_flags.induct) auto

lemma fmt_width_length: "length (snd (fmt_width w s)) \<le> length s"
  by (induction w s rule: fmt_width.induct) auto

lemma fmt_longs_length: "length (snd (fmt_longs n s)) \<le> length s"
  by (induction n s rule: fmt_longs.induct) auto

lemma fmt_spec_length:
  assumes "fmt_spec s = (lft, zer, wid, lng, s')"
  shows "length s' \<le> length s"
proof -
  obtain l z s1 where 1: "fmt_flags False False s = (l, z, s1)" by (metis prod_cases3)
  obtain w s2 where 2: "fmt_width 0 s1 = (w, s2)" by fastforce
  obtain n s3 where 3: "fmt_longs 0 s2 = (n, s3)" by fastforce
  have "s' = s3" using assms 1 2 3 by (simp add: fmt_spec_def)
  then show ?thesis
    using fmt_flags_length [of False False s] fmt_width_length [of 0 s1] fmt_longs_length [of 0 s2] 1 2 3 by simp
qed

function format :: "cstring \<Rightarrow> vararg list \<Rightarrow> u8 list option" where
  "format [] as = Some []"
| "format (c # s) as =
     (if c = 0 then Some []
      else if c \<noteq> ch CHR ''%'' then map_option ((#) c) (format s as)
      else case fmt_spec s of
        (lft, zer, wid, lng, []) \<Rightarrow> Some []
      | (lft, zer, wid, lng, sp # s') \<Rightarrow>
          if sp = 0 then Some []
          else if sp = ch CHR ''s''
          then do { (p, as) \<leftarrow> arg_ptr as;
                    map_option ((@) (padded lft (ch CHR '' '') (sint wid) (c_text (case p of None \<Rightarrow> str ''(null)'' | Some t \<Rightarrow> t))))
                      (format s' as) }
          else do { (t, as) \<leftarrow> directive sp lng as;
                    map_option ((@) (field lft zer (sint wid) t)) (format s' as) })"
  by pat_completeness auto

termination format
proof (relation "measure (\<lambda>(s, _). length s)", goal_cases)
  case 3
  then show ?case by (auto dest!: fmt_spec_length [OF sym])
next
  case 4
  then show ?case by (auto dest!: fmt_spec_length [OF sym])
qed simp_all

lemma cstr_first [simp]: "cstr (c # s) 0 = c" "cstr [] i = 0"
  by (simp_all add: cstr_def)

lemma wf_cstr_simps [simp]: "wf_cstr []" "wf_cstr (c # s) \<longleftrightarrow> c \<noteq> 0 \<and> wf_cstr s" "wf_cstr (s @ t) \<longleftrightarrow> wf_cstr s \<and> wf_cstr t"
  by (auto simp: wf_cstr_def)

lemma wf_cstr_take: "wf_cstr s \<Longrightarrow> wf_cstr (take n s)" "wf_cstr s \<Longrightarrow> wf_cstr (drop n s)"
  by (auto simp: wf_cstr_def dest: in_set_takeD in_set_dropD)

lemma strlen_text: "strlen s = length (c_text s)"
  by (induction s) (simp_all add: c_text_def)

lemma pc_text_room: "length b \<le> cap \<Longrightarrow> pc_text cap t b = take cap (b @ t)"
proof (induction t arbitrary: b)
  case (Cons c t)
  then show ?case by (cases "length b < cap") (simp_all del: take_append add: take_all_iff [THEN iffD2] take_append [of _ b])
qed simp

lemma pc_fill_text: "pc_fill cap k c b = pc_text cap (replicate k c) b"
  by (induction k arbitrary: b) simp_all

text \<open>A bounded buffer holds the first \<open>cap\<close> bytes of what was written to it.\<close>

lemma pc_take: "pc_text cap t (take cap x) = take cap (x @ t)" "pc_fill cap k c (take cap x) = take cap (x @ replicate k c)"
proof -
  have *: "pc_text cap t (take cap x) = take cap (x @ t)" for t
    using pc_text_room [of "take cap x" cap t] by (cases "length x \<le> cap") simp_all
  show "pc_text cap t (take cap x) = take cap (x @ t)" by (rule *)
  show "pc_fill cap k c (take cap x) = take cap (x @ replicate k c)" unfolding pc_fill_text by (rule *)
qed

lemma put_string_take: "put_string cap lft wid s (take cap x) = take cap (x @ padded lft (ch CHR '' '') wid (c_text s))"
proof (cases "wid > int (length (c_text s))")
  case True
  then show ?thesis by (simp add: put_string_def padded_def strlen_text pc_take Let_def del: take_append)
next
  case False
  then have "nat (wid - int (length (c_text s))) = 0" by simp
  then show ?thesis using False by (simp add: put_string_def padded_def strlen_text pc_take Let_def del: take_append)
qed

lemma put_field_take: "put_field cap lft zer wid t (take cap x) = take cap (x @ field lft zer wid t)"
proof (cases "\<not> lft \<and> wid > int (length t) \<and> zer \<and> cstr t 0 = ch CHR ''-''")
  case True
  then obtain r where t: "t = ch CHR ''-'' # r" by (cases t) (auto simp: cstr_def ch_digit)
  have n: "nat (wid - 1 - int (length r)) = nat (wid - int (length t))" using True t by simp
  have f: "field lft zer wid t = ch CHR ''-'' # replicate (nat (wid - int (length t))) (ch CHR ''0'') @ r"
    unfolding field_def padded_def Let_def using True n by (simp add: t)
  show ?thesis
  proof (cases "length (take cap x) < cap")
    case room: True
    then have x: "take cap x @ [ch CHR ''-''] = take cap (x @ [ch CHR ''-''])" by simp
    show ?thesis
      using True room unfolding put_field_def Let_def f x pc_take by (simp add: t)
  next
    case False
    then have x: "take cap (x @ y) = take cap x" for y by simp
    show ?thesis
      using True False by (simp add: put_field_def Let_def f pc_take x del: take_append)
  qed
next
  case False
  have f: "field lft zer wid t = padded lft (if zer then ch CHR ''0'' else ch CHR '' '') wid t"
  proof (cases "zer \<and> \<not> lft \<and> cstr t 0 = ch CHR ''-''")
    case True
    then obtain r where t: "t = ch CHR ''-'' # r" by (cases t) (auto simp: cstr_def ch_digit)
    then have "nat (wid - 1 - int (length r)) = 0" "nat (wid - int (length t)) = 0" using True False by auto
    then show ?thesis using True by (simp add: field_def padded_def Let_def t)
  qed (auto simp: field_def)
  show ?thesis
  proof (cases "wid > int (length t)")
    case True
    then show ?thesis using False by (auto simp: put_field_def f padded_def pc_take Let_def simp del: take_append)
  next
    case small: False
    then have "nat (wid - int (length t)) = 0" by simp
    then show ?thesis using small by (simp add: put_field_def f padded_def pc_take Let_def del: take_append)
  qed
qed

text \<open>On a full buffer a plain byte is never consumed.\<close>

lemma format_loop_stuck:
  assumes "cstr fmt 0 \<noteq> 0" "cstr fmt 0 \<noteq> ch CHR ''%''" "cap \<le> length b"
  shows "format_loop cap fmt as b = None"
proof -
  have "\<not> (cstr fmt 0 \<noteq> 0 \<and> cstr fmt 0 \<noteq> ch CHR ''%'' \<and> cap \<le> length b)"
    if "format_loop cap fmt as b = Some r" for r
    using that by (induction rule: format_loop.raw_induct [rotated, consumes 1, case_names loop]) (fastforce split: if_splits)
  then show ?thesis using assms by (metis option.exhaust)
qed

text \<open>The loop on a buffer that was given \<open>x\<close>: it returns if everything fits, and what it returns is the start of \<open>x @ t\<close>.\<close>

definition writes :: "nat \<Rightarrow> u8 list \<Rightarrow> fmt_out option \<Rightarrow> bool" where
  "writes cap r out \<longleftrightarrow> (length r \<le> cap \<longrightarrow> out \<noteq> None) \<and> (out \<noteq> None \<longrightarrow> out = Some (Text (take cap r)))"

lemma format_loop_spec:
  "format fmt as = Some t \<Longrightarrow> writes cap (x @ t) (format_loop cap fmt as (take cap x))"
proof (induction fmt as arbitrary: x t rule: format.induct)
  case (1 as)
  then show ?case by (subst format_loop.simps) (simp add: cstr_def writes_def)
next
  case (2 c s as)
  obtain lft zer wid lng r where spec: "fmt_spec s = (lft, zer, wid, lng, r)" by (metis prod_cases5)
  consider (stop) "c = 0" | (plain) "c \<noteq> 0" "c \<noteq> ch CHR ''%''" | (dir) "c \<noteq> 0" "c = ch CHR ''%''" by blast
  then show ?case
  proof cases
    case stop
    then show ?thesis using 2(4) by (subst format_loop.simps) (simp add: writes_def)
  next
    case plain
    then obtain u where u: "format s as = Some u" "t = c # u" using 2(4) by auto
    show ?thesis
    proof (cases "length (take cap x) < cap")
      case True
      then have "length x < cap" by simp
      then have x: "length x < cap" "take cap x = x" "take cap (x @ [c]) = x @ [c]" by simp_all
      show ?thesis
        using 2(1) [OF plain u(1), of "x @ [c]"] plain True by (subst format_loop.simps) (simp add: u(2) x del: take_append)
    next
      case False
      then show ?thesis
        using plain format_loop_stuck [of "c # s" cap "take cap x" as] by (simp add: writes_def u(2) del: take_append)
    qed
  next
    case dir
    show ?thesis
    proof (cases "cstr r 0 = 0")
      case True
      then have "t = []" using 2(4) dir by (cases r) (auto simp: spec cstr_def)
      then show ?thesis using True dir by (subst format_loop.simps) (simp add: spec writes_def)
    next
      case False
      then obtain sp s' where r: "r = sp # s'" "sp \<noteq> 0" by (cases r) (auto simp: cstr_def)
      have loop: "format_loop cap (c # s) as (take cap x) =
          (if sp = ch CHR ''s''
           then (case arg_ptr as of
                   None \<Rightarrow> Some Undefined
                 | Some (p, as) \<Rightarrow> format_loop cap s' as (take cap (x @ padded lft (ch CHR '' '') (sint wid) (c_text (case p of None \<Rightarrow> str ''(null)'' | Some t \<Rightarrow> t)))))
           else (case directive sp lng as of
                   None \<Rightarrow> Some Undefined
                 | Some (tmp, as) \<Rightarrow> format_loop cap s' as (take cap (x @ field lft zer (sint wid) tmp))))"
        using dir r(2) by (subst format_loop.simps)
          (simp add: spec r(1) put_string_take put_field_take ch_def split: option.split del: take_append)
      show ?thesis
      proof (cases "sp = ch CHR ''s''")
        case True
        with 2(4) dir r spec obtain p as' u where u: "arg_ptr as = Some (p, as')" "format s' as' = Some u"
            "t = padded lft (ch CHR '' '') (sint wid) (c_text (case p of None \<Rightarrow> str ''(null)'' | Some t \<Rightarrow> t)) @ u"
          by (auto simp: bind_eq_Some_conv)
        show ?thesis
          using 2(2) [OF dir(1) _ spec [symmetric] refl refl refl r(1) r(2) True u(1) refl u(2),
              of "x @ padded lft (ch CHR '' '') (sint wid) (c_text (case p of None \<Rightarrow> str ''(null)'' | Some t \<Rightarrow> t))"] dir(2)
          unfolding loop by (simp add: True u(1,3) del: take_append)
      next
        case False
        with 2(4) dir r spec obtain tmp as' u where u: "directive sp lng as = Some (tmp, as')" "format s' as' = Some u"
            "t = field lft zer (sint wid) tmp @ u"
          by (auto simp: bind_eq_Some_conv)
        show ?thesis
          using 2(3) [OF dir(1) _ spec [symmetric] refl refl refl r(1) r(2) False u(1) refl u(2), of "x @ field lft zer (sint wid) tmp"] dir(2)
          unfolding loop by (simp add: False u(1,3) del: take_append)
      qed
    qed
  qed
qed

text \<open>
  C26: formatted output is the specified text, cut to the buffer. For a format whose arguments are
  there, with \<open>t\<close> the text the specification gives, \<open>vsnprintf\<close> into \<open>sz\<close> bytes returns and stores
  \<open>t\<close> whenever \<open>t\<close> fits; and whenever it returns at all it has stored the first \<open>sz - 1\<close> bytes of \<open>t\<close>,
  never more than the buffer holds.
\<close>

theorem vsnprintf_formats:
  assumes "format fmt as = Some t" and "0 < sz"
  shows "(length t < sz \<longrightarrow> vsnprintf sz fmt as = Some (Text t))
    \<and> (\<forall>out. vsnprintf sz fmt as = Some out \<longrightarrow> out = Text (take (sz - 1) t))"
  using format_loop_spec [OF assms(1), of "sz - 1" "[]"] assms(2) by (auto simp: vsnprintf_def writes_def)

theorem vsnprintf_formats_witness:
  "vsnprintf 7 (str ''%04d|%s'') [Num (- 42), Ptr (Some (str ''a''))] = Some (Text (str ''-042|a''))"
proof -
  have d: "dec_text 42 = [52, 50]"
    by (simp add: dec_text_def dec_loop.simps [of 42] dec_loop.simps [of 4] dec_loop.simps [of 0])
  have n: "signed_text (signed_arg 0 (- 42)) = [45, 52, 50]"
    by (simp add: signed_text_def signed_arg_def ch_digit d)
  have f: "format (str ''%04d|%s'') [Num (- 42), Ptr (Some (str ''a''))] = Some (str ''-042|a'')"
    by (simp add: str_def ch_def fmt_spec_def directive_def isdigit_def field_def padded_def n c_text_def)
  have "length (str ''-042|a'') < 7" by (simp add: str_def)
  then show ?thesis using vsnprintf_formats [OF f zero_less_numeral] by blast
qed

text \<open>
  C27: formatted output hangs when plain text fills the buffer. On a format without directives that
  is as long as the buffer or longer, \<open>vsnprintf\<close> does not return: the full buffer keeps the format
  pointer from advancing.
\<close>

theorem vsnprintf_hangs:
  assumes "ch CHR ''%'' \<notin> set fmt" and "0 \<notin> set fmt" and "0 < sz" and "sz \<le> length fmt"
  shows "vsnprintf sz fmt as = None"
proof -
  have "format_loop cap fmt as b = None" if "ch CHR ''%'' \<notin> set fmt" "0 \<notin> set fmt" "cap < length b + length fmt" "length b \<le> cap" for cap fmt b
    using that
  proof (induction fmt arbitrary: b)
    case (Cons c s)
    have c: "c \<noteq> 0" "c \<noteq> ch CHR ''%''" using Cons.prems by auto
    show ?case
    proof (cases "length b < cap")
      case True
      then show ?thesis using Cons c by (subst format_loop.simps) simp
    qed (use c format_loop_stuck in simp)
  qed simp
  then show ?thesis using assms by (simp add: vsnprintf_def)
qed

theorem vsnprintf_hangs_witness: "snprintf 4 (str ''hello'') [] = None"
  unfolding snprintf_def by (rule vsnprintf_hangs) (simp_all add: str_def ch_def)

end
