(* ===== verification/Vfs.thy ===== *)
theory Vfs
  imports Directory Scheduler Noxlib
begin

text \<open>
  The file systems behind the VFS facade: ramfs (src/src/fs/vfs/ramfs.c), devfs
  (src/src/fs/devfs/devfs.c), procfs (src/src/fs/procfs/procfs.c) and the facade itself
  (src/src/fs/vfs/vfs.c). A \<open>vfs_file_t*\<close> is a \<open>vfile\<close>, the null pointer \<open>None\<close>. The static tables
  and pools are fields of the state; \<open>ram_at\<close>, \<open>proc_at\<close> and \<open>dev_at\<close> are the addresses at which the kernel image
  holds the data of ramfs and the buffers of the pools, and the bytes there are part of the
  same memory \<open>kmem\<close> as the heap's. procfs reads the process list, the
  clock and the frame allocator, which are its argument \<open>sysview\<close>. An outer \<open>None\<close> means that the call does not return, or
  that it reads behind the end of a constant table.
\<close>

unbundle bit_operations_syntax

section \<open>State\<close>

record vfs =
  nox :: noxfs
  use_noxfs :: bool
  ram_files :: "nat \<Rightarrow> vfs_file"
  ram_at :: "nat \<Rightarrow> u64"
  proc_pool :: "nat \<Rightarrow> vfs_file"
  proc_next :: u32
  proc_at :: "nat \<Rightarrow> u64"
  dev_pool :: "nat \<Rightarrow> vfs_file"
  dev_next :: u32
  dev_at :: "nat \<Rightarrow> u64"

record sysview =
  vw_kern :: kern
  vw_ms :: u32
  vw_frames :: u64

fun vfile_get :: "vfile \<Rightarrow> vfs \<Rightarrow> vfs_file" where
  "vfile_get (NOX_FILE k) s = g_files (nox s) k"
| "vfile_get (RAM_FILE k) s = ram_files s k"
| "vfile_get (PROC_FILE k) s = proc_pool s k"
| "vfile_get (DEV_FILE k) s = dev_pool s k"

fun vfile_set :: "vfile \<Rightarrow> vfs_file \<Rightarrow> vfs \<Rightarrow> vfs" where
  "vfile_set (NOX_FILE k) v s = s\<lparr>nox := (nox s)\<lparr>g_files := (g_files (nox s))(k := v)\<rparr>\<rparr>"
| "vfile_set (RAM_FILE k) v s = s\<lparr>ram_files := (ram_files s)(k := v)\<rparr>"
| "vfile_set (PROC_FILE k) v s = s\<lparr>proc_pool := (proc_pool s)(k := v)\<rparr>"
| "vfile_set (DEV_FILE k) v s = s\<lparr>dev_pool := (dev_pool s)(k := v)\<rparr>"

definition on_nox :: "(noxfs \<Rightarrow> ('a \<times> noxfs) option) \<Rightarrow> vfs \<Rightarrow> ('a \<times> vfs) option" where
  "on_nox f s = map_option (\<lambda>(r, n). (r, s\<lparr>nox := n\<rparr>)) (f (nox s))"

definition nox_file :: "nat \<Rightarrow> vfile option" where
  "nox_file k = (if k = 0 then None else Some (NOX_FILE k))"

text \<open>Writing bytes to a buffer of the caller.\<close>

definition put_at :: "nat \<Rightarrow> u8 list \<Rightarrow> (nat \<Rightarrow> u8) \<Rightarrow> nat \<Rightarrow> u8" where
  "put_at off xs b i = (if off \<le> i \<and> i < off + length xs then xs ! (i - off) else b i)"

section \<open>ramfs\<close>

definition newline :: u8 where "newline = 10"

definition motd :: cstring where
  "motd = str ''Welcome to Noxis OS.'' @ [newline] @ str ''A tiny x86 kernel, written from scratch.'' @ [newline] @
     str ''Type 'help' for commands.'' @ [newline]"

definition version :: cstring where
  "version = str ''noxis 0.6.0'' @ [newline] @ str ''built 2026-05-30'' @ [newline]"

definition readme :: cstring where
  "readme = str ''Noxis is an educational kernel.'' @ [newline] @
     str ''Boot -> GDT/IDT -> paging -> heap -> PIT -> KBD -> sched.'' @ [newline] @
     str ''User mode reached via sysenter. Ring 3 demo printed 'Hello'.'' @ [newline]"

definition ram_table :: "(cstring \<times> cstring) list" where
  "ram_table = [(str ''motd'', motd), (str ''version'', version), (str ''readme'', readme)]"

text \<open>The initialisers of the table \<open>_files\<close>, with the addresses of the texts.\<close>

definition ram_init :: "(nat \<Rightarrow> u64) \<Rightarrow> nat \<Rightarrow> vfs_file" where
  "ram_init a k = (let (n, t) = ram_table ! k in
     \<lparr>f_name = n @ replicate (32 - length n) 0, f_data = a k, f_size = of_nat (length t), f_inode = 0, f_capacity = 0\<rparr>)"

definition FILES_N :: nat where "FILES_N = 3"

definition ramfs_count :: u32 where "ramfs_count = of_nat FILES_N"

definition ramfs_entry :: "u32 \<Rightarrow> vfile option" where
  "ramfs_entry i = (if i < of_nat FILES_N then Some (RAM_FILE (unat i)) else None)"

definition ramfs_lookup :: "cstring \<Rightarrow> vfs \<Rightarrow> vfile option" where
  "ramfs_lookup name s = map_option RAM_FILE (find (\<lambda>k. streq (f_name (ram_files s k)) name) [0 ..< FILES_N])"

section \<open>devfs\<close>

definition DEV_ROOT_INO :: u32 where "DEV_ROOT_INO = 0xFFFE0000"
definition DEV_NULL_INO :: u32 where "DEV_NULL_INO = 0xFFFE0001"
definition DEV_ZERO_INO :: u32 where "DEV_ZERO_INO = 0xFFFE0002"
definition DEV_TTY_INO :: u32 where "DEV_TTY_INO = 0xFFFE0003"
definition DEV_RANDOM_INO :: u32 where "DEV_RANDOM_INO = 0xFFFE0004"

definition IS_DEVFS_INO :: "u32 \<Rightarrow> bool" where
  "IS_DEVFS_INO i \<longleftrightarrow> i \<ge> DEV_ROOT_INO"

definition DEV_POOL :: u32 where "DEV_POOL = 4"

definition dev_alloc :: "u32 \<Rightarrow> vfs \<Rightarrow> vfile option \<times> vfs" where
  "dev_alloc ino s =
     (let i = unat (dev_next s);
          v = (dev_pool s i)\<lparr>f_data := dev_at s i, f_size := 0, f_inode := ino, f_capacity := 0,
                             f_name := (f_name (dev_pool s i))[0 := 0]\<rparr>
      in (Some (DEV_FILE i), s\<lparr>dev_next := (dev_next s + 1) mod DEV_POOL, dev_pool := (dev_pool s)(i := v)\<rparr>))"

text \<open>The comparisons of the source test one character after the other: \<open>lit p r\<close> when the string \<open>p\<close> starts with \<open>r\<close>.\<close>

definition lit :: "cstring \<Rightarrow> cstring \<Rightarrow> bool" where
  "lit p r \<longleftrightarrow> list_all (\<lambda>i. cstr p i = r ! i) [0 ..< length r]"

definition ends_at :: "cstring \<Rightarrow> nat \<Rightarrow> bool" where
  "ends_at p n \<longleftrightarrow> cstr p n = 0"

definition devfs_is_dev_path :: "cstring \<Rightarrow> bool" where
  "devfs_is_dev_path p \<longleftrightarrow> lit p (str ''/dev'') \<and> (cstr p 4 = 0 \<or> cstr p 4 = ch CHR ''/'')"

definition devfs_lookup :: "cstring \<Rightarrow> vfs \<Rightarrow> vfile option \<times> vfs" where
  "devfs_lookup path s =
     (let r = drop 4 path in
      if cstr r 0 = 0 \<or> cstr r 0 = ch CHR ''/'' \<and> cstr r 1 = 0 then (None, s)
      else if cstr r 0 \<noteq> ch CHR ''/'' then (None, s)
      else let r = drop 1 r in
      if lit r (str ''null'') \<and> ends_at r 4 then dev_alloc DEV_NULL_INO s
      else if lit r (str ''zero'') \<and> ends_at r 4 then dev_alloc DEV_ZERO_INO s
      else if lit r (str ''tty'') \<and> ends_at r 3 then dev_alloc DEV_TTY_INO s
      else if lit r (str ''random'') \<and> ends_at r 6 then dev_alloc DEV_RANDOM_INO s
      else (None, s))"

definition devfs_resolve :: "cstring \<Rightarrow> vfs \<Rightarrow> u32 \<times> vfs" where
  "devfs_resolve path s =
     (let r = drop 4 path in
      if cstr r 0 = 0 \<or> cstr r 0 = ch CHR ''/'' \<and> cstr r 1 = 0 then (DEV_ROOT_INO, s)
      else let (f, s) = devfs_lookup path s in
      (case f of Some v \<Rightarrow> f_inode (vfile_get v s) | None \<Rightarrow> NO_INO, s))"

text \<open>
  A directory entry in the caller's buffer: the bytes behind the terminated name stay as they were. This is
  \<open>_ent\<close> of devfs; procfs has the same code as \<open>_write_dirent\<close>.
\<close>

definition dirent_at :: "(nat \<Rightarrow> u8) \<Rightarrow> u32 \<Rightarrow> u32 \<Rightarrow> u32 \<Rightarrow> u8 \<Rightarrow> cstring \<Rightarrow> (nat \<Rightarrow> u8) \<times> u32" where
  "dirent_at buf pos len ino typ name =
     (if unat pos + DIRENT_SZ > unat len then (buf, pos)
      else let nm = take 23 (c_text name)
           in (put_at (unat pos) (le32 ino @ le16 32 @ [of_nat (length nm), typ] @ nm @ [0]) buf, pos + 32))"

definition devs :: "(cstring \<times> u32 \<times> u8) list" where
  "devs = [(str ''.'', DEV_ROOT_INO, 2), (str ''..'', DEV_ROOT_INO, 2), (str ''null'', DEV_NULL_INO, 1),
     (str ''zero'', DEV_ZERO_INO, 1), (str ''tty'', DEV_TTY_INO, 1), (str ''random'', DEV_RANDOM_INO, 1)]"

text \<open>The loop over the rest of a constant table: the buffer, the position, what is left, and the number of entries written.\<close>

fun emit :: "(cstring \<times> u32 \<times> u8) list \<Rightarrow> (nat \<Rightarrow> u8) \<Rightarrow> u32 \<Rightarrow> u32 \<Rightarrow> u32 \<Rightarrow> (nat \<Rightarrow> u8) \<times> u32 \<times> (cstring \<times> u32 \<times> u8) list \<times> u32" where
  "emit [] buf pos len n = (buf, pos, [], n)"
| "emit ((name, ino, typ) # es) buf pos len n =
     (if pos + 32 \<le> len
      then let (buf, pos) = dirent_at buf pos len ino typ name in emit es buf pos len (n + 1)
      else (buf, pos, (name, ino, typ) # es, n))"

definition devfs_getdents :: "(nat \<Rightarrow> u8) \<Rightarrow> u32 \<Rightarrow> u32 \<Rightarrow> (int \<times> (nat \<Rightarrow> u8) \<times> u32) option" where
  "devfs_getdents buf len off =
     (if unat len < DIRENT_SZ then Some (- 1, buf, off)
      else let idx = unat (off div 32) in
      if idx > length devs then None
      else let (buf, pos, _, n) = emit (drop idx devs) buf 0 len 0
           in Some (sint pos, buf, off + n * 32))"

section \<open>procfs\<close>

definition PROCFS_ROOT_INO :: u32 where "PROCFS_ROOT_INO = 0xFFFFFFFE"

definition PROCFS_PID_INO :: "u64 \<Rightarrow> u32" where
  "PROCFS_PID_INO p = 0xFFFF0000 OR (ucast p AND 0xFFFF)"

definition IS_PROCFS_INO :: "u32 \<Rightarrow> bool" where
  "IS_PROCFS_INO i \<longleftrightarrow> i \<ge> 0xFFFF0000"

definition POOL_SLOTS :: u32 where "POOL_SLOTS = 8"
definition POOL_BUFSZ :: u32 where "POOL_BUFSZ = 512"

definition pool_alloc :: "vfs \<Rightarrow> nat \<times> vfs" where
  "pool_alloc s =
     (let i = unat (proc_next s);
          v = (proc_pool s i)\<lparr>f_data := proc_at s i, f_size := 0, f_inode := 0, f_capacity := POOL_BUFSZ,
                              f_name := (f_name (proc_pool s i))[0 := 0]\<rparr>
      in (i, s\<lparr>proc_next := (proc_next s + 1) mod POOL_SLOTS, proc_pool := (proc_pool s)(i := v)\<rparr>))"

fun pool_puts :: "cstring \<Rightarrow> (nat \<Rightarrow> u8) \<times> u32 \<Rightarrow> (nat \<Rightarrow> u8) \<times> u32" where
  "pool_puts [] (b, pos) = (b, pos)"
| "pool_puts (c # cs) (b, pos) =
     (if c \<noteq> 0 \<and> pos < POOL_BUFSZ - 1 then pool_puts cs (b(unat pos := c), pos + 1) else (b, pos))"

definition pool_putu :: "u64 \<Rightarrow> (nat \<Rightarrow> u8) \<times> u32 \<Rightarrow> (nat \<Rightarrow> u8) \<times> u32" where
  "pool_putu v = pool_puts (dec_text v)"

definition procfs_is_proc_path :: "cstring \<Rightarrow> bool" where
  "procfs_is_proc_path p \<longleftrightarrow> lit p (str ''/proc'') \<and> (cstr p 5 = 0 \<or> cstr p 5 = ch CHR ''/'')"

definition is_dec :: "u8 \<Rightarrow> bool" where
  "is_dec c \<longleftrightarrow> 48 \<le> c \<and> c \<le> 57"

fun parse_uint :: "u64 \<Rightarrow> cstring \<Rightarrow> u64" where
  "parse_uint v [] = v"
| "parse_uint v (c # s) = (if is_dec c then parse_uint (v * 10 + (ucast c - 48)) s else v)"

fun state_name :: "proc_state \<Rightarrow> cstring" where
  "state_name PROC_READY = str ''ready''"
| "state_name PROC_RUNNING = str ''running''"
| "state_name PROC_BLOCKED = str ''blocked''"
| "state_name PROC_ZOMBIE = str ''zombie''"

text \<open>A generator writes its text to the buffer of a fresh pool slot and records the length.\<close>

definition gen_file :: "((nat \<Rightarrow> u8) \<times> u32 \<Rightarrow> (nat \<Rightarrow> u8) \<times> u32) \<Rightarrow> vfs \<Rightarrow> vfile option \<times> vfs" where
  "gen_file g s =
     (let (i, s) = pool_alloc s;
          a = f_data (proc_pool s i);
          (b, p) = g (kmem (nox s) a, 0);
          s = s\<lparr>nox := (nox s)\<lparr>kmem := (kmem (nox s))(a := b)\<rparr>\<rparr>
      in (Some (PROC_FILE i), s\<lparr>proc_pool := (proc_pool s)(i := (proc_pool s i)\<lparr>f_size := p\<rparr>)\<rparr>))"

definition gen_uptime :: "u32 \<Rightarrow> vfs \<Rightarrow> vfile option \<times> vfs" where
  "gen_uptime ms = gen_file (\<lambda>b. pool_puts (str '' ms'' @ [newline]) (pool_putu (ucast ms) b))"

definition gen_meminfo :: "u64 \<Rightarrow> vfs \<Rightarrow> vfile option \<times> vfs" where
  "gen_meminfo frames = gen_file (\<lambda>b.
     (let kb = str '' kB'' @ [newline];
          b = pool_puts kb (pool_putu (frames * 4) (pool_puts (str ''MemFree:  '') b))
      in pool_puts kb (pool_putu (128 * 1024) (pool_puts (str ''MemTotal: '') b))))"

text \<open>The hexadecimal digits of the break.\<close>

definition brk_hex :: "u64 \<Rightarrow> cstring" where
  "brk_hex v = (if v = 0 then [48] else hex_loop False v [])"

definition gen_status :: "process \<Rightarrow> vfs \<Rightarrow> vfile option \<times> vfs" where
  "gen_status p = gen_file (\<lambda>b.
     (let nl = [newline];
          name = map (pname p) [0 ..< PROC_NAME_MAX];
          b = pool_puts nl (pool_puts name (pool_puts (str ''Name:  '') b));
          b = pool_puts nl (pool_putu (pid p) (pool_puts (str ''Pid:   '') b));
          b = pool_puts nl (pool_puts (state_name (pstate p)) (pool_puts (str ''State: '') b))
      in pool_puts nl (pool_puts (brk_hex (brk p)) (pool_puts (str ''Brk:   0x'') b))))"

definition procfs_lookup :: "sysview \<Rightarrow> cstring \<Rightarrow> vfs \<Rightarrow> (vfile option \<times> vfs) option" where
  "procfs_lookup w path s =
     (let rest = drop 5 path in
      if cstr rest 0 = 0 \<or> cstr rest 0 = ch CHR ''/'' \<and> cstr rest 1 = 0 then Some (None, s)
      else if cstr rest 0 \<noteq> ch CHR ''/'' then Some (None, s)
      else let rest = drop 1 rest in
      if lit rest (str ''uptime'') \<and> ends_at rest 6 then Some (gen_uptime (vw_ms w) s)
      else if lit rest (str ''meminfo'') \<and> ends_at rest 7 then Some (gen_meminfo (vw_frames w) s)
      else if is_dec (cstr rest 0)
      then let num = parse_uint 0 rest; rest = dropWhile is_dec rest in
           if cstr rest 0 = 0 then Some (None, s)
           else if cstr rest 0 = ch CHR ''/'' \<and> lit (drop 1 rest) (str ''status'') \<and> ends_at (drop 1 rest) 6
           then do {
             p \<leftarrow> scheduler_find num (vw_kern w);
             Some (if p \<noteq> 0 then gen_status (procs (vw_kern w) p) s else (None, s))
           }
           else Some (None, s)
      else Some (None, s))"

definition procfs_resolve :: "cstring \<Rightarrow> u32" where
  "procfs_resolve path =
     (let rest = drop 5 path in
      if cstr rest 0 = 0 \<or> cstr rest 0 = ch CHR ''/'' \<and> cstr rest 1 = 0 then PROCFS_ROOT_INO
      else if cstr rest 0 \<noteq> ch CHR ''/'' then NO_INO
      else let rest = drop 1 rest in
      if is_dec (cstr rest 0) \<and> cstr (dropWhile is_dec rest) 0 = 0 then PROCFS_PID_INO (parse_uint 0 rest)
      else NO_INO)"

definition procfs_is_dir :: "u32 \<Rightarrow> bool" where
  "procfs_is_dir ino = IS_PROCFS_INO ino"

definition write_dirent :: "(nat \<Rightarrow> u8) \<Rightarrow> u32 \<Rightarrow> u32 \<Rightarrow> u32 \<Rightarrow> u8 \<Rightarrow> cstring \<Rightarrow> (nat \<Rightarrow> u8) \<times> u32" where
  "write_dirent buf pos len ino typ name = dirent_at buf pos len ino typ name"

definition uint_to_str :: "u64 \<Rightarrow> cstring" where
  "uint_to_str v = dec_text v"

definition root_fixed :: "(cstring \<times> u32 \<times> u8) list" where
  "root_fixed = [(str ''.'', PROCFS_ROOT_INO, 2), (str ''..'', PROCFS_ROOT_INO, 2), (str ''uptime'', 1, 1), (str ''meminfo'', 2, 1)]"

text \<open>The loop over the process list.\<close>

partial_function (option) emit_procs :: "kern \<Rightarrow> u32 \<Rightarrow> u32 \<Rightarrow> (nat \<Rightarrow> u8) \<Rightarrow> u32 \<Rightarrow> u32 \<Rightarrow> u32 \<Rightarrow> ((nat \<Rightarrow> u8) \<times> u32 \<times> u32) option" where
  "emit_procs k i skip buf pos len n = do {
     p \<leftarrow> scheduler_at i k;
     if p = 0 then Some (buf, pos, n)
     else if skip > 0 then emit_procs k (i + 1) (skip - 1) buf pos len n
     else if pos + 32 > len then Some (buf, pos, n)
     else let num = pid (procs k p);
              (buf, pos) = write_dirent buf pos len (PROCFS_PID_INO num) 2 (uint_to_str num)
          in emit_procs k (i + 1) skip buf pos len (n + 1)
   }"

definition pid_fixed :: "u32 \<Rightarrow> (cstring \<times> u32 \<times> u8) list" where
  "pid_fixed ino = [(str ''.'', ino, 2), (str ''..'', ino, 2), (str ''status'', ino AND 0xFFFF, 1)]"

definition procfs_getdents :: "kern \<Rightarrow> u32 \<Rightarrow> (nat \<Rightarrow> u8) \<Rightarrow> u32 \<Rightarrow> u32 \<Rightarrow> (int \<times> (nat \<Rightarrow> u8) \<times> u32) option" where
  "procfs_getdents k dir_ino buf len off =
     (if unat len < DIRENT_SZ then Some (- 1, buf, off)
      else let idx = off div 32 in
      if dir_ino = PROCFS_ROOT_INO
      then let (buf, pos, rest, n) = emit (drop (unat idx) root_fixed) buf 0 len 0 in
           if rest \<noteq> [] then Some (sint pos, buf, off div 32 * 32 + n * 32)
           else do {
             (buf, pos, n) \<leftarrow> emit_procs k 0 (of_nat (unat idx - length root_fixed)) buf pos len n;
             Some (if pos > 0 then sint pos else 0, buf, off + n * 32)
           }
      else if unat idx > length (pid_fixed dir_ino) then None
      else let (buf, pos, _, n) = emit (drop (unat idx) (pid_fixed dir_ino)) buf 0 len 0
           in Some (if pos > 0 then sint pos else 0, buf, off + n * 32))"

section \<open>The facade\<close>

definition vfs_init :: "ata_reader \<Rightarrow> vfs \<Rightarrow> (os_status \<times> vfs) option" where
  "vfs_init ata s = do {
     (st, s) \<leftarrow> on_nox (noxfs_init ata) s;
     if st = OS_OK then Some (OS_OK, s\<lparr>use_noxfs := True\<rparr>)
     else Some (OS_OK, s\<lparr>use_noxfs := False\<rparr>)
   }"

definition vfs_count :: "vfs \<Rightarrow> u32" where
  "vfs_count s = (if use_noxfs s then of_nat (noxfs_count (nox s)) else ramfs_count)"

definition vfs_entry :: "u32 \<Rightarrow> vfs \<Rightarrow> vfile option" where
  "vfs_entry i s = (if use_noxfs s then nox_file (noxfs_entry (unat i) (nox s)) else ramfs_entry i)"

definition nox_lookup :: "ata_reader \<Rightarrow> cstring \<Rightarrow> vfs \<Rightarrow> (vfile option \<times> vfs) option" where
  "nox_lookup ata name s = map_option (\<lambda>(k, s). (nox_file k, s)) (on_nox (noxfs_lookup ata name) s)"

definition vfs_lookup :: "ata_reader \<Rightarrow> cstring \<Rightarrow> vfs \<Rightarrow> (vfile option \<times> vfs) option" where
  "vfs_lookup ata name s = (if use_noxfs s then nox_lookup ata name s else Some (ramfs_lookup name s, s))"

text \<open>
  \<open>vfs_write_file\<close> hands any file to NoxFS, also one of the pools. The functions of NoxFS know a file by its slot, so
  a foreign structure is lent to them under a slot number outside the table.
\<close>

definition LENT :: nat where "LENT = 1000"

definition lend :: "vfile \<Rightarrow> (nat \<Rightarrow> noxfs \<Rightarrow> ('a \<times> noxfs) option) \<Rightarrow> vfs \<Rightarrow> ('a \<times> vfs) option" where
  "lend f g s =
     (case f of
        NOX_FILE k \<Rightarrow> on_nox (g k) s
      | _ \<Rightarrow> do {
          (r, n) \<leftarrow> g LENT ((nox s)\<lparr>g_files := (g_files (nox s))(LENT := vfile_get f s)\<rparr>);
          Some (r, vfile_set f (g_files n LENT) (s\<lparr>nox := n\<lparr>g_files := (g_files n)(LENT := g_files (nox s) LENT)\<rparr>\<rparr>))
        })"

definition vfs_write_file :: "ata_reader \<Rightarrow> vfile \<Rightarrow> u32 \<Rightarrow> u8 list \<Rightarrow> vfs \<Rightarrow> (int \<times> vfs) option" where
  "vfs_write_file ata f off xs s =
     (if xs = [] then Some (0, s)
      else if \<not> use_noxfs s then Some (- 1, s)
      else lend f (\<lambda>k. noxfs_write ata k off xs) s)"

definition vfs_creat :: "ata_reader \<Rightarrow> cstring \<Rightarrow> vfs \<Rightarrow> (vfile option \<times> vfs) option" where
  "vfs_creat ata name s =
     (if \<not> use_noxfs s then Some (None, s)
      else map_option (\<lambda>(k, s). (nox_file k, s)) (on_nox (noxfs_creat ata name) s))"

definition vfs_sync :: "vfs \<Rightarrow> vfs option" where
  "vfs_sync s = (if use_noxfs s then map_option (\<lambda>n. s\<lparr>nox := n\<rparr>) (noxfs_sync (nox s)) else Some s)"

definition vfs_root_ino :: "vfs \<Rightarrow> u32" where
  "vfs_root_ino s = (if use_noxfs s then noxfs_root_ino (nox s) else 0)"

definition vfs_resolve_ino :: "ata_reader \<Rightarrow> u32 \<Rightarrow> cstring \<Rightarrow> vfs \<Rightarrow> (u32 \<times> vfs) option" where
  "vfs_resolve_ino ata cwd path s =
     (if procfs_is_proc_path path then Some (procfs_resolve path, s)
      else if devfs_is_dev_path path then Some (devfs_resolve path s)
      else if \<not> use_noxfs s then Some (NO_INO, s)
      else on_nox (noxfs_resolve ata cwd path) s)"

definition vfs_lookup_at :: "ata_reader \<Rightarrow> sysview \<Rightarrow> u32 \<Rightarrow> cstring \<Rightarrow> vfs \<Rightarrow> (vfile option \<times> vfs) option" where
  "vfs_lookup_at ata w cwd path s =
     (if procfs_is_proc_path path then procfs_lookup w path s
      else if devfs_is_dev_path path then Some (devfs_lookup path s)
      else if \<not> use_noxfs s then vfs_lookup ata path s
      else if cstr path 0 = ch CHR ''/'' then nox_lookup ata path s
      else do {
        (ino, s) \<leftarrow> on_nox (noxfs_resolve ata cwd path) s;
        if ino = NO_INO then Some (None, s)
        else case find (\<lambda>i. let k = noxfs_entry i (nox s) in k \<noteq> 0 \<and> f_inode (g_files (nox s) k) = ino) [0 ..< noxfs_count (nox s)] of
            Some i \<Rightarrow> Some (nox_file (noxfs_entry i (nox s)), s)
          | None \<Rightarrow> nox_lookup ata (basename path) s
      })"

definition vfs_getdents :: "ata_reader \<Rightarrow> kern \<Rightarrow> u32 \<Rightarrow> (nat \<Rightarrow> u8) \<Rightarrow> u32 \<Rightarrow> u32 \<Rightarrow> vfs \<Rightarrow> (int \<times> (nat \<Rightarrow> u8) \<times> u32 \<times> vfs) option" where
  "vfs_getdents ata k dir_ino buf len off s =
     (if IS_PROCFS_INO dir_ino then map_option (\<lambda>(r, b, off). (r, b, off, s)) (procfs_getdents k dir_ino buf len off)
      else if IS_DEVFS_INO dir_ino then map_option (\<lambda>(r, b, off). (r, b, off, s)) (devfs_getdents buf len off)
      else if \<not> use_noxfs s then Some (- 1, buf, off, s)
      else map_option (\<lambda>(r, xs, off, n). (r, put_at 0 xs buf, off, s\<lparr>nox := n\<rparr>)) (noxfs_getdents ata dir_ino len off (nox s)))"

definition no_file :: vfs_file where
  "no_file = \<lparr>f_name = replicate 32 0, f_data = 0, f_size = 0, f_inode = 0, f_capacity = 0\<rparr>"

definition vfs_is_dir :: "ata_reader \<Rightarrow> u32 \<Rightarrow> vfs \<Rightarrow> (bool \<times> vfs) option" where
  "vfs_is_dir ata ino s =
     (if IS_PROCFS_INO ino then Some (procfs_is_dir ino, s)
      else if IS_DEVFS_INO ino then Some (ino = DEV_ROOT_INO, s)
      else if \<not> use_noxfs s then Some (False, s)
      else map_option (\<lambda>(st, st', n). (st = OS_OK \<and> f_capacity st' AND 0x4000 \<noteq> 0, s\<lparr>nox := n\<rparr>)) (noxfs_stat ata ino no_file (nox s)))"

section \<open>Generated text\<close>

text \<open>A step of a generator that appends the text \<open>t\<close>, as long as it fits the buffer.\<close>

definition appends :: "((nat \<Rightarrow> u8) \<times> u32 \<Rightarrow> (nat \<Rightarrow> u8) \<times> u32) \<Rightarrow> u8 list \<Rightarrow> bool" where
  "appends g t \<longleftrightarrow> (\<forall>b pos. unat pos + length t \<le> 511 \<longrightarrow> g (b, pos) = (put_at (unat pos) t b, pos + of_nat (length t)))"

lemma put_at_nil [simp]: "put_at n [] b = b"
  by (rule ext) (auto simp: put_at_def)

lemma put_at_append: "put_at (n + length xs) ys (put_at n xs b) = put_at n (xs @ ys) b"
  by (auto simp: put_at_def fun_eq_iff nth_append)

lemma appends_comp: "appends g t \<Longrightarrow> appends h u \<Longrightarrow> appends (\<lambda>x. h (g x)) (t @ u)"
  unfolding appends_def
proof (intro allI impI)
  fix b :: "nat \<Rightarrow> u8" and pos :: u32
  assume g: "\<forall>b pos. unat pos + length t \<le> 511 \<longrightarrow> g (b, pos) = (put_at (unat pos) t b, pos + of_nat (length t))"
    and h: "\<forall>b pos. unat pos + length u \<le> 511 \<longrightarrow> h (b, pos) = (put_at (unat pos) u b, pos + of_nat (length u))"
    and l: "unat pos + length (t @ u) \<le> 511"
  have p: "unat (pos + of_nat (length t)) = unat pos + length t" using l by (simp add: unat_word_ariths(1) unat_of_nat)
  show "h (g (b, pos)) = (put_at (unat pos) (t @ u) b, pos + of_nat (length (t @ u)))"
    using g h l p by (simp add: put_at_append add.assoc)
qed

lemma appends_puts: "appends (pool_puts cs) (c_text cs)"
  unfolding appends_def
proof (intro allI impI)
  fix b :: "nat \<Rightarrow> u8" and pos :: u32
  assume "unat pos + length (c_text cs) \<le> 511"
  then show "pool_puts cs (b, pos) = (put_at (unat pos) (c_text cs) b, pos + of_nat (length (c_text cs)))"
  proof (induction cs arbitrary: b pos)
    case (Cons c cs)
    show ?case
    proof (cases "c = 0")
      case False
      then have l: "unat pos + Suc (length (c_text cs)) \<le> 511" using Cons.prems by (simp add: c_text_def)
      then have p: "pos < POOL_BUFSZ - 1" "unat (pos + 1) = unat pos + 1"
        by (simp_all add: POOL_BUFSZ_def word_less_nat_alt unat_word_ariths(1))
      have "b(unat pos := c) = put_at (unat pos) [c] b" by (rule ext) (auto simp: put_at_def)
      then have "put_at (unat pos + 1) (c_text cs) (b(unat pos := c)) = put_at (unat pos) (c # c_text cs) b"
        using put_at_append [of "unat pos" "[c]" "c_text cs" b] by simp
      then show ?thesis using False p l Cons.IH [of "pos + 1"] by (simp add: c_text_def)
    qed (simp add: c_text_def)
  qed (simp add: c_text_def)
qed

lemma c_text_wf: "wf_cstr cs \<Longrightarrow> c_text cs = cs"
  by (auto simp: c_text_def wf_cstr_def takeWhile_eq_all_conv)

lemma appends_wf: "wf_cstr cs \<Longrightarrow> appends (pool_puts cs) cs"
  using appends_puts [of cs] by (simp add: c_text_wf)

section \<open>Numbers in paths\<close>

lemma last_dec: "is_dec (48 + ucast (u mod 10 :: u64))"
  using last_digit(1) [of u] by (simp add: isdigit_def is_dec_def ch_digit)

lemma dec_loop_digits: "\<forall>c \<in> set tb. is_dec c \<Longrightarrow> \<forall>c \<in> set (dec_loop u tb). is_dec c"
proof (induction u tb rule: dec_loop.induct)
  case (1 u tb)
  then show ?case by (cases "u = 0") (simp_all add: dec_loop.simps [of u] dec_loop.simps [of 0] last_dec)
qed

lemma dec_text_digits: "\<forall>c \<in> set (dec_text u). is_dec c"
  using dec_loop_digits [of "[]" u] by (simp add: dec_text_def is_dec_def)

lemma parse_dec_loop: "parse_uint 0 (dec_loop u tb) = parse_uint u tb"
proof (induction u tb rule: dec_loop.induct)
  case (1 u tb)
  show ?case
  proof (cases "u = 0")
    case True
    then show ?thesis by (simp add: dec_loop.simps)
  next
    case False
    have "parse_uint 0 (dec_loop u tb) = parse_uint (u div 10) ((48 + ucast (u mod 10)) # tb)"
      using 1 False by (simp add: dec_loop.simps [of u])
    also have "\<dots> = parse_uint (u div 10 * 10 + u mod 10) tb" by (simp only: parse_uint.simps last_dec last_digit(3) if_True)
    finally show ?thesis unfolding div_mult_mod_eq .
  qed
qed

lemma dec_loop_append: "dec_loop u (xs @ ys) = dec_loop u xs @ ys"
proof (induction u xs rule: dec_loop.induct)
  case (1 u xs)
  then show ?case by (cases "u = 0") (simp_all add: dec_loop.simps [of u] dec_loop.simps [of 0])
qed

lemma parse_dec_text:
  assumes "\<not> is_dec (cstr rest 0)"
  shows "parse_uint 0 (dec_text v @ rest) = v"
proof -
  have r: "parse_uint u rest = u" for u using assms by (cases rest) (simp_all add: cstr_def)
  show ?thesis
  proof (cases "v = 0")
    case True
    then show ?thesis using r by (simp add: dec_text_def is_dec_def)
  next
    case False
    then show ?thesis using r parse_dec_loop [of v "[] @ rest"] unfolding dec_loop_append by (simp add: dec_text_def)
  qed
qed

lemma dec_text_drop: "\<not> is_dec (cstr rest 0) \<Longrightarrow> dropWhile is_dec (dec_text v @ rest) = rest"
  using dec_text_digits [of v] by (subst dropWhile_append2) (auto simp: cstr_def split: if_splits intro: dropWhile_eq_self_iff [THEN iffD2] simp: hd_conv_nth)

lemma loop_length:
  "unat u < 2 ^ k \<Longrightarrow> length (dec_loop u tb) \<le> k + length tb" "unat u < 2 ^ k \<Longrightarrow> length (hex_loop up u tb) \<le> k + length tb"
proof -
  show "unat u < 2 ^ k \<Longrightarrow> length (dec_loop u tb) \<le> k + length tb" 
  proof (induction k arbitrary: u tb)
    case 0
    then show ?case by (simp add: unat_eq_zero dec_loop.simps)
  next
    case (Suc k)
    have "unat (u div 10) < 2 ^ k" using Suc.prems by (simp add: unat_div) 
    then show ?case using Suc.IH [of "u div 10" "(48 + ucast (u mod 10)) # tb"] by (cases "u = 0") (simp_all add: dec_loop.simps [of u] dec_loop.simps [of 0])
  qed
  show "unat u < 2 ^ k \<Longrightarrow> length (hex_loop up u tb) \<le> k + length tb" 
  proof (induction k arbitrary: u tb)
    case 0
    then show ?case by (simp add: unat_eq_zero hex_loop.simps)
  next
    case (Suc k)
    have "unat (drop_bit 4 u) < 2 ^ k" using Suc.prems by (simp add: drop_bit_eq_div unat_div) 
    then show ?case using Suc.IH [of "drop_bit 4 u" "hex_char up (u AND 15) # tb"] by (cases "u = 0") (simp_all add: hex_loop.simps [of up u] hex_loop.simps [of up 0])
  qed
qed

definition status_text :: "process \<Rightarrow> cstring" where
  "status_text p =
     str ''Name:  '' @ c_text (map (pname p) [0 ..< PROC_NAME_MAX]) @ [newline] @ str ''Pid:   '' @ dec_text (pid p) @ [newline] @
     str ''State: '' @ state_name (pstate p) @ [newline] @ str ''Brk:   0x'' @ brk_hex (brk p) @ [newline]"

lemma dec_text_wf: "wf_cstr (dec_text u)"
  using dec_text_digits [of u] by (auto simp: wf_cstr_def is_dec_def)

lemma hex_loop_wf: "wf_cstr tb \<Longrightarrow> wf_cstr (hex_loop False u tb)"
proof (induction False u tb rule: hex_loop.induct)
  case (1 u tb)
  have "u AND 15 \<le> 15" by (rule word_and_le1)
  then have "unat (u AND 15) < 16" by (simp add: word_le_nat_alt)
  then have "hex_char False (u AND 15) \<in> set (str ''0123456789abcdef'')" unfolding hex_char_def by (simp only: if_False) (rule nth_mem, simp add: str_def)
  then have "hex_char False (u AND 15) \<noteq> 0" by (auto simp: str_def ch_def)
  then show ?case using 1 by (cases "u = 0") (simp_all add: hex_loop.simps [of False u] hex_loop.simps [of False 0] wf_cstr_def)
qed

lemma state_name_facts: "wf_cstr (state_name p)" "length (state_name p) \<le> 7"
  by (cases p; simp add: str_def ch_def)+

lemma text_lengths: "length (dec_text u) \<le> 64" "length (brk_hex u) \<le> 64" "wf_cstr (brk_hex u)"
proof -
  have u: "unat u < 2 ^ 64" using unsigned_less [of u] by simp
  show "length (dec_text u) \<le> 64" using loop_length(1) [OF u, of "[]"] by (simp add: dec_text_def)
  show "length (brk_hex u) \<le> 64" using loop_length(2) [OF u, of False "[]"] by (simp add: brk_hex_def)
  show "wf_cstr (brk_hex u)" using hex_loop_wf [of "[]" u] by (simp add: brk_hex_def)
qed

lemma status_length: "length (status_text p) \<le> 511"
proof -
  have "length (c_text (map (pname p) [0 ..< PROC_NAME_MAX])) \<le> 32"
    using length_takeWhile_le [of "\<lambda>c. c \<noteq> 0" "map (pname p) [0 ..< 32]"] by (simp add: c_text_def PROC_NAME_MAX_def)
  then show ?thesis using text_lengths(1) [of "pid p"] text_lengths(2) [of "brk p"] state_name_facts(2) [of "pstate p"]
    by (simp add: status_text_def str_def)
qed

lemma newline_wf: "wf_cstr [newline]" "wf_cstr (str ''Name:  '')" "wf_cstr (str ''Pid:   '')" "wf_cstr (str ''State: '')" "wf_cstr (str ''Brk:   0x'')"
  by (simp_all add: newline_def str_def ch_def)

lemma status_appends:
  "appends (\<lambda>b. (let nl = [newline];
          name = map (pname p) [0 ..< PROC_NAME_MAX];
          b = pool_puts nl (pool_puts name (pool_puts (str ''Name:  '') b));
          b = pool_puts nl (pool_putu (pid p) (pool_puts (str ''Pid:   '') b));
          b = pool_puts nl (pool_puts (state_name (pstate p)) (pool_puts (str ''State: '') b))
      in pool_puts nl (pool_puts (brk_hex (brk p)) (pool_puts (str ''Brk:   0x'') b)))) (status_text p)"
proof -
  note a = appends_wf [OF newline_wf(1)]
  have n: "appends (\<lambda>b. pool_puts [newline] (pool_puts (map (pname p) [0 ..< PROC_NAME_MAX]) (pool_puts (str ''Name:  '') b)))
      ((str ''Name:  '' @ c_text (map (pname p) [0 ..< PROC_NAME_MAX])) @ [newline])"
    by (intro appends_comp a appends_puts appends_wf [OF newline_wf(2)])
  have i: "appends (\<lambda>b. pool_puts [newline] (pool_putu (pid p) (pool_puts (str ''Pid:   '') b))) ((str ''Pid:   '' @ dec_text (pid p)) @ [newline])"
    unfolding pool_putu_def by (intro appends_comp a appends_wf [OF dec_text_wf] appends_wf [OF newline_wf(3)])
  have t: "appends (\<lambda>b. pool_puts [newline] (pool_puts (state_name (pstate p)) (pool_puts (str ''State: '') b))) ((str ''State: '' @ state_name (pstate p)) @ [newline])"
    by (intro appends_comp a appends_wf [OF state_name_facts(1)] appends_wf [OF newline_wf(4)])
  have h: "appends (\<lambda>b. pool_puts [newline] (pool_puts (brk_hex (brk p)) (pool_puts (str ''Brk:   0x'') b))) ((str ''Brk:   0x'' @ brk_hex (brk p)) @ [newline])"
    by (intro appends_comp a appends_wf [OF text_lengths(3)] appends_wf [OF newline_wf(5)])
  show ?thesis using appends_comp [OF appends_comp [OF appends_comp [OF n i] t] h] by (simp add: status_text_def Let_def)
qed

lemma gen_file_appends:
  assumes "appends g t" "length t \<le> 511"
  obtains s' where "gen_file g s = (Some (PROC_FILE (unat (proc_next s))), s')"
    "f_size (proc_pool s' (unat (proc_next s))) = of_nat (length t)" "f_data (proc_pool s' (unat (proc_next s))) = proc_at s (unat (proc_next s))"
    "mem_read (proc_at s (unat (proc_next s))) 0 (length t) (nox s') = t"
proof -
  let ?i = "unat (proc_next s)" and ?b = "kmem (nox s) (proc_at s (unat (proc_next s)))"
  have g: "g (?b, 0) = (put_at 0 t ?b, of_nat (length t))" using assms by (simp add: appends_def)
  have "map (put_at 0 t ?b) [0 ..< length t] = t" by (intro nth_equalityI) (simp_all add: put_at_def)
  then show thesis using that g by (simp add: gen_file_def pool_alloc_def mem_read_def Let_def)
qed

lemma dec_text_head: "\<exists>d ds. dec_text v = d # ds \<and> is_dec d"
proof -
  have "dec_text v \<noteq> []"
    using parse_dec_text [of "[]" v] by (cases "v = 0") (auto simp: dec_text_def cstr_def is_dec_def)
  then show ?thesis using dec_text_digits [of v] by (cases "dec_text v") auto
qed

lemma dec_not: "is_dec d \<Longrightarrow> d \<noteq> 0 \<and> d \<noteq> ch CHR ''u'' \<and> d \<noteq> ch CHR ''m'' \<and> d \<noteq> ch CHR ''/''"
  by (auto simp: is_dec_def ch_def)

text \<open>
  C39: the status file of every process can be looked up under the path that its number gives, and what is read
  from it is the text for that process: all of it, within the buffer of the pool slot.
\<close>

theorem procfs_status_readable:
  assumes "scheduler_find v (vw_kern w) = Some q" "q \<noteq> 0"
  shows "\<exists>t. vfs_lookup_at ata w cwd (str ''/proc/'' @ dec_text v @ str ''/status'') s = Some (Some (PROC_FILE (unat (proc_next s))), t) \<and>
    (let f = proc_pool t (unat (proc_next s)) in
     mem_read (f_data f) 0 (unat (f_size f)) (nox t) = status_text (procs (vw_kern w) q) \<and> f_size f \<le> 511) \<and>
    procfs_resolve (str ''/proc/'' @ dec_text v) = PROCFS_PID_INO v"
proof -
  let ?p = "str ''/proc/'' @ dec_text v @ str ''/status''" and ?i = "unat (proc_next s)" and ?q = "procs (vw_kern w) q"
  obtain d ds where d: "dec_text v = d # ds" "is_dec d" using dec_text_head by blast
  note dc = dec_not [OF d(2)]
  have sl: "\<not> is_dec (cstr (str ''/status'') 0)" by (simp add: str_def ch_def is_dec_def cstr_def)
  have is_proc: "procfs_is_proc_path ?p" by (simp add: procfs_is_proc_path_def lit_def str_def ch_def cstr_def)
  have dr: "drop 5 ?p = ch CHR ''/'' # dec_text v @ str ''/status''" by (simp add: str_def)
  obtain t where t: "gen_status ?q s = (Some (PROC_FILE ?i), t)" "f_size (proc_pool t ?i) = of_nat (length (status_text ?q))"
    "f_data (proc_pool t ?i) = proc_at s ?i" "mem_read (proc_at s ?i) 0 (length (status_text ?q)) (nox t) = status_text ?q"
    unfolding gen_status_def by (rule gen_file_appends [OF status_appends status_length])
  have x0: "is_dec (cstr (dec_text v @ str ''/status'') 0)" and "cstr (dec_text v @ str ''/status'') 0 = d" using d by (simp_all add: cstr_def)
  have s0: "cstr (str ''/status'') 0 = ch CHR ''/''" "ch CHR ''/'' \<noteq> 0" by (simp_all add: cstr_def str_def ch_def)
  have c0: "cstr (ch CHR ''/'' # xs) 0 = ch CHR ''/''" for xs by (simp add: cstr_def)
  have "\<not> lit (dec_text v @ str ''/status'') (str ''uptime'')" "\<not> lit (dec_text v @ str ''/status'') (str ''meminfo'')"
    using dc \<open>cstr (dec_text v @ str ''/status'') 0 = d\<close> by (auto simp: lit_def str_def list_all_iff)
  moreover have "cstr (ch CHR ''/'' # dec_text v @ str ''/status'') 1 \<noteq> 0" using d dc by (simp add: cstr_def)
  moreover have "lit (drop 1 (str ''/status'')) (str ''status'')" "ends_at (drop 1 (str ''/status'')) 6"
    by (simp_all add: lit_def str_def cstr_def ends_at_def)
  ultimately have lk: "procfs_lookup w ?p s = Some (Some (PROC_FILE ?i), t)"
    unfolding procfs_lookup_def Let_def dr using assms t(1) sl x0 s0 c0
    by (simp add: parse_dec_text dec_text_drop)
  then have "vfs_lookup_at ata w cwd ?p s = Some (Some (PROC_FILE ?i), t)" using is_proc by (simp add: vfs_lookup_at_def)
  moreover have "unat (f_size (proc_pool t ?i)) = length (status_text ?q)" using t(2) status_length [of ?q] by (simp add: unat_of_nat)
  moreover have "procfs_resolve (str ''/proc/'' @ dec_text v) = PROCFS_PID_INO v"
  proof -
    have "drop 5 (str ''/proc/'' @ dec_text v) = ch CHR ''/'' # dec_text v" by (simp add: str_def)
    moreover have "cstr (ch CHR ''/'' # dec_text v) 1 \<noteq> 0" "is_dec (cstr (dec_text v) 0)" using d dc by (simp_all add: cstr_def)
    moreover have "cstr (dropWhile is_dec (dec_text v)) 0 = 0"
      using dropWhile_eq_Nil_conv [of is_dec "dec_text v", THEN iffD2, OF dec_text_digits] by (simp add: cstr_def)
    moreover have "parse_uint 0 (dec_text v) = v" using parse_dec_text [of "[]" v] by (simp add: cstr_def is_dec_def)
    ultimately show ?thesis using s0(2) c0 by (simp add: procfs_resolve_def Let_def)
  qed
  ultimately show ?thesis using t(3,4) status_length [of ?q] by (simp add: Let_def word_le_nat_alt)
qed

theorem procfs_status_readable_witness:
  "\<forall>s. \<exists>t. vfs_lookup_at (\<lambda>_ _. (OS_ERR_IO, [])) \<lparr>vw_kern = demo_kern, vw_ms = 0, vw_frames = 0\<rparr> 0
     (str ''/proc/'' @ dec_text 2 @ str ''/status'') s = Some (Some (PROC_FILE (unat (proc_next s))), t) \<and>
     (let f = proc_pool t (unat (proc_next s)) in
      mem_read (f_data f) 0 (unat (f_size f)) (nox t) = status_text (blank_process\<lparr>pid := 2, rq_next := 0x3000, all_next := 0x1000\<rparr>))"
proof
  fix s
  have "scheduler_find 2 (vw_kern \<lparr>vw_kern = demo_kern, vw_ms = 0, vw_frames = 0\<rparr>) = Some 0x2000"
    by (simp add: scheduler_find_def find_from.simps demo_kern_def)
  from procfs_status_readable [OF this, of "\<lambda>_ _. (OS_ERR_IO, [])" 0 s] show "\<exists>t. vfs_lookup_at (\<lambda>_ _. (OS_ERR_IO, [])) \<lparr>vw_kern = demo_kern, vw_ms = 0, vw_frames = 0\<rparr> 0
     (str ''/proc/'' @ dec_text 2 @ str ''/status'') s = Some (Some (PROC_FILE (unat (proc_next s))), t) \<and>
     (let f = proc_pool t (unat (proc_next s)) in
      mem_read (f_data f) 0 (unat (f_size f)) (nox t) = status_text (blank_process\<lparr>pid := 2, rq_next := 0x3000, all_next := 0x1000\<rparr>))"
    by (simp add: demo_kern_def Let_def) blast
qed

end
