(* ===== verification/Keyboard.thy ===== *)
theory Keyboard
  imports Fifo Scheduler
begin

text \<open>
  The keyboard: the layouts of src/src/drivers/keymap.c, the terminal state of tty.c and tty.h, and
  the scancode handler and input ring of kbd.c. The handler's one effect outside the keyboard is
  the signal to the foreground process on Ctrl-C, which is the scheduler's operation. The last section
  gives a reference keyboard on numbers and lists and shows that interrupts and polls implement it.
\<close>

section \<open>Layouts\<close>

definition KEYMAP_NAME_MAX :: nat where "KEYMAP_NAME_MAX = 16"
definition MAX_LAYOUTS :: nat where "MAX_LAYOUTS = 8"

record keymap =
  km_name :: cstring
  low :: "u8 list"
  high :: "u8 list"

definition us_low :: "u8 list" where
  "us_low = [0, 27] @ str ''1234567890-='' @ [8, 9] @ str ''qwertyuiop[]'' @ [10, 0] @ str ''as'' @
     str ''dfghjkl;'' @ [39, 96, 0, 92] @ str ''zxcvbnm,./'' @ [0] @ str ''*'' @ [0] @ str '' '' @ replicate 70 0"

definition us_high :: "u8 list" where
  "us_high = [0, 27] @ str ''!@#$%^&*()_+'' @ [8, 9] @ str ''QWERTYUIOP{}'' @ [10, 0] @ str ''AS'' @
     str ''DFGHJKL:'' @ [34] @ str ''~'' @ [0] @ str ''|'' @ str ''ZXCVBNM<>?'' @ [0] @ str ''*'' @ [0] @ str '' '' @ replicate 70 0"

definition fr_over :: "(nat \<times> char \<times> char) list" where
  "fr_over = [(0x10, CHR ''a'', CHR ''A''), (0x1E, CHR ''q'', CHR ''Q''), (0x11, CHR ''z'', CHR ''Z''),
     (0x2C, CHR ''w'', CHR ''W''), (0x27, CHR ''m'', CHR ''M''), (0x32, CHR '','', CHR ''?''), (0x33, CHR '';'', CHR ''.'')]"

record layouts =
  g_layouts :: "nat \<Rightarrow> keymap"
  g_n_layouts :: nat
  g_active :: nat

definition copy_name :: "cstring \<Rightarrow> cstring" where
  "copy_name src = take (KEYMAP_NAME_MAX - 1) src"

text \<open>\<open>_add\<close>: the new layout's pointer (index + 1), or 0 when the registry is full.\<close>

definition layout_add :: "cstring \<Rightarrow> layouts \<Rightarrow> nat \<times> layouts" where
  "layout_add name s =
     (if g_n_layouts s \<ge> MAX_LAYOUTS then (0, s)
      else (Suc (g_n_layouts s),
            s\<lparr>g_n_layouts := Suc (g_n_layouts s),
              g_layouts := (g_layouts s)(g_n_layouts s := \<lparr>km_name = copy_name name, low = us_low, high = us_high\<rparr>)\<rparr>))"

definition apply_over :: "keymap \<Rightarrow> keymap" where
  "apply_over k = fold (\<lambda>(sc, l, h) k. k\<lparr>low := (low k)[sc := ch l], high := (high k)[sc := ch h]\<rparr>) fr_over k"

definition keymap_init :: "layouts \<Rightarrow> layouts" where
  "keymap_init s =
     (let (_, s) = layout_add (str ''us'') (s\<lparr>g_n_layouts := 0\<rparr>);
          (fr, s) = layout_add (str ''fr'') s;
          s = (if fr \<noteq> 0 then s\<lparr>g_layouts := (g_layouts s)(fr - 1 := apply_over (g_layouts s (fr - 1)))\<rparr> else s)
      in s\<lparr>g_active := 1\<rparr>)"

definition keymap_active :: "layouts \<Rightarrow> keymap" where
  "keymap_active s = g_layouts s (g_active s - 1)"

definition keymap_count :: "layouts \<Rightarrow> nat" where
  "keymap_count s = g_n_layouts s"

definition keymap_at :: "nat \<Rightarrow> layouts \<Rightarrow> nat" where
  "keymap_at i s = (if i < g_n_layouts s then Suc i else 0)"

definition keymap_active_name :: "layouts \<Rightarrow> cstring" where
  "keymap_active_name s = (if g_active s \<noteq> 0 then km_name (keymap_active s) else str ''?'')"

fun name_eq :: "cstring \<Rightarrow> cstring \<Rightarrow> bool" where
  "name_eq [] [] \<longleftrightarrow> True"
| "name_eq (a # as) (b # bs) \<longleftrightarrow> (if a \<noteq> 0 \<and> a = b then name_eq as bs else a = 0 \<and> b = 0)"
| "name_eq (a # as) [] \<longleftrightarrow> a = 0"
| "name_eq [] (b # bs) \<longleftrightarrow> b = 0"

definition keymap_set :: "cstring \<Rightarrow> layouts \<Rightarrow> bool \<times> layouts" where
  "keymap_set name s =
     (case find (\<lambda>i. name_eq (km_name (g_layouts s i)) name) [0 ..< g_n_layouts s] of
        None \<Rightarrow> (False, s) | Some i \<Rightarrow> (True, s\<lparr>g_active := Suc i\<rparr>))"

section \<open>Terminal state\<close>

definition TTY_ISIG :: u32 where "TTY_ISIG = 1"
definition TTY_ICANON :: u32 where "TTY_ICANON = 2"
definition TTY_ECHO :: u32 where "TTY_ECHO = 8"
definition TTY_ECHOE :: u32 where "TTY_ECHOE = 0x10"
definition TTY_VMIN :: nat where "TTY_VMIN = 0"
definition TTY_VTIME :: nat where "TTY_VTIME = 1"
definition TTY_NCC :: nat where "TTY_NCC = 8"

record ktermios =
  c_lflag :: u32
  c_cc :: "u8 list"

definition tty_init :: "ktermios \<Rightarrow> ktermios" where
  "tty_init t = t\<lparr>c_lflag := TTY_ISIG OR TTY_ICANON OR TTY_ECHO OR TTY_ECHOE,
     c_cc := (replicate TTY_NCC 0)[TTY_VMIN := 1, TTY_VTIME := 0]\<rparr>"

definition tty_isig :: "ktermios \<Rightarrow> bool" where
  "tty_isig t \<longleftrightarrow> c_lflag t AND TTY_ISIG \<noteq> 0"

definition tty_canonical :: "ktermios \<Rightarrow> bool" where
  "tty_canonical t \<longleftrightarrow> c_lflag t AND TTY_ICANON \<noteq> 0"

definition tty_echo :: "ktermios \<Rightarrow> bool" where
  "tty_echo t \<longleftrightarrow> c_lflag t AND TTY_ECHO \<noteq> 0"

section \<open>The keyboard\<close>

definition KBD_BUF :: u32 where "KBD_BUF = 256"
definition SC_LSHIFT :: u8 where "SC_LSHIFT = 0x2A"
definition SC_RSHIFT :: u8 where "SC_RSHIFT = 0x36"
definition SC_CAPS :: u8 where "SC_CAPS = 0x3A"
definition SC_LCTRL :: u8 where "SC_LCTRL = 0x1D"
definition SC_RELEASE :: u8 where "SC_RELEASE = 0x80"

record ring =
  g_buf :: "nat \<Rightarrow> u8"
  g_head :: u32
  g_tail :: u32

record kbd =
  kring :: ring
  g_shift :: u8
  g_caps :: u8
  g_ctrl :: u8
  kmaps :: layouts
  g_termios :: ktermios

definition buf_push :: "u8 \<Rightarrow> ring \<Rightarrow> ring" where
  "buf_push c r =
     (let n = (g_head r + 1) mod KBD_BUF in
      if n \<noteq> g_tail r then r\<lparr>g_buf := (g_buf r)(unat (g_head r) := c), g_head := n\<rparr> else r)"

definition in_range :: "char \<Rightarrow> char \<Rightarrow> u8 \<Rightarrow> bool" where
  "in_range a b c \<longleftrightarrow> ch a \<le> c \<and> c \<le> ch b"

text \<open>What the character of a key becomes under caps lock and control.\<close>

definition caps_char :: "u8 \<Rightarrow> u8" where
  "caps_char c =
     (if in_range (CHR ''a'') (CHR ''z'') c then c - 32
      else if in_range (CHR ''A'') (CHR ''Z'') c then c + 32 else c)"

definition ctrl_char :: "u8 \<Rightarrow> u8" where
  "ctrl_char c =
     (if in_range (CHR ''a'') (CHR ''z'') c \<or> in_range (CHR ''A'') (CHR ''Z'') c then c AND 0x1F else c)"

definition key_count :: "u8 \<Rightarrow> u8 \<Rightarrow> u8" where
  "key_count release n = (if release \<noteq> 0 then if n \<noteq> 0 then n - 1 else n else n + 1)"

definition kbd_isr :: "u8 \<Rightarrow> kbd \<Rightarrow> kern \<Rightarrow> (kbd \<times> kern) option" where
  "kbd_isr sc k s =
     (let release = sc AND SC_RELEASE; code = sc AND 0x7F in
      if code = SC_LSHIFT \<or> code = SC_RSHIFT then Some (k\<lparr>g_shift := key_count release (g_shift k)\<rparr>, s)
      else if code = SC_LCTRL then Some (k\<lparr>g_ctrl := key_count release (g_ctrl k)\<rparr>, s)
      else if code = SC_CAPS
      then Some (if release = 0 then k\<lparr>g_caps := (if g_caps k = 0 then 1 else 0)\<rparr> else k, s)
      else if release \<noteq> 0 then Some (k, s)
      else let km = keymap_active (kmaps k);
               c = (if g_shift k \<noteq> 0 then high km ! unat code else low km ! unat code) in
      if c = 0 then Some (k, s)
      else let c = (if g_caps k \<noteq> 0 then caps_char c else c);
               c = (if g_ctrl k \<noteq> 0 then ctrl_char c else c) in
      if g_ctrl k \<noteq> 0 \<and> c = 3 \<and> tty_isig (g_termios k) then map_option (\<lambda>s. (k, s)) (scheduler_sigint_fg s)
      else Some (k\<lparr>kring := buf_push c (kring k)\<rparr>, s))"

text \<open>
  Initialisation: draining the controller only reads its ports; \<open>reg\<close> is the result of registering the handler.
\<close>

definition kbd_init :: "os_status \<Rightarrow> kbd \<Rightarrow> os_status \<times> kbd" where
  "kbd_init reg k =
     (let k = k\<lparr>g_shift := 0, g_caps := 0, g_ctrl := 0\<rparr> in if reg \<noteq> OS_OK then (reg, k) else (OS_OK, k))"

definition kbd_poll :: "ring \<Rightarrow> int \<times> ring" where
  "kbd_poll r =
     (if g_tail r = g_head r then (- 1, r)
      else (int (unat (g_buf r (unat (g_tail r)))), r\<lparr>g_tail := (g_tail r + 1) mod KBD_BUF\<rparr>))"

text \<open>Waiting for a key: \<open>irqs k\<close> are the keyboard interrupts during the k-th halt.\<close>

partial_function (option) kbd_getchar :: "(nat \<Rightarrow> ring \<Rightarrow> ring) \<Rightarrow> nat \<Rightarrow> ring \<Rightarrow> (u8 \<times> ring) option" where
  "kbd_getchar irqs k r =
     (let (c, r) = kbd_poll r in
      if c < 0 then kbd_getchar irqs (Suc k) (irqs k r) else Some (of_int c, r))"

section \<open>The input ring is a queue\<close>

definition ring_inv :: "ring \<Rightarrow> bool" where
  "ring_inv r \<longleftrightarrow> unat (g_head r) < 256 \<and> unat (g_tail r) < 256"

definition ring_count :: "ring \<Rightarrow> nat" where
  "ring_count r = (unat (g_head r) + 256 - unat (g_tail r)) mod 256"

definition ring_bytes :: "ring \<Rightarrow> u8 list" where
  "ring_bytes r = map (\<lambda>i. g_buf r ((unat (g_tail r) + i) mod 256)) [0 ..< ring_count r]"

definition ring_full :: "ring \<Rightarrow> bool" where
  "ring_full r \<longleftrightarrow> (g_head r + 1) mod KBD_BUF = g_tail r"

definition ring_empty :: "ring \<Rightarrow> bool" where
  "ring_empty r \<longleftrightarrow> g_tail r = g_head r"

definition ring_get :: "ring \<Rightarrow> u8 \<times> ring" where
  "ring_get r = (of_int (fst (kbd_poll r)), snd (kbd_poll r))"

lemma unat_ring_step: "unat (x :: u32) < 256 \<Longrightarrow> unat ((x + 1) mod KBD_BUF) = (unat x + 1) mod 256"
  by (simp add: KBD_BUF_def unat_mod unat_word_ariths)

lemma ring_step_cases: "x < 256 \<Longrightarrow> (x + 1) mod 256 = (if x = 255 then 0 else x + 1 :: nat)"
  by auto

lemma mod256_inj: "(t + i) mod 256 = (t + n) mod (256 :: nat) \<Longrightarrow> i < n \<Longrightarrow> n < 256 \<Longrightarrow> False"
proof -
  assume a: "(t + i) mod 256 = (t + n) mod (256 :: nat)" "i < n" "n < 256"
  then have "256 dvd (t + n) - (t + i)" using mod_eq_dvd_iff_nat [of "t + i" "t + n" 256] by simp
  then show False using a(2,3) by (auto dest: dvd_imp_le)
qed

lemma ring_push:
  assumes inv: "ring_inv r" and nf: "\<not> ring_full r"
  shows "ring_inv (buf_push c r)" and "ring_bytes (buf_push c r) = ring_bytes r @ [c]"
proof -
  let ?h = "unat (g_head r)" and ?t = "unat (g_tail r)" and ?n = "ring_count r"
  have b: "?h < 256" "?t < 256" using inv by (simp_all add: ring_inv_def)
  have p: "buf_push c r = r\<lparr>g_buf := (g_buf r)(?h := c), g_head := (g_head r + 1) mod KBD_BUF\<rparr>"
    using nf by (simp add: buf_push_def ring_full_def)
  have ne: "(?h + 1) mod 256 \<noteq> ?t"
    using nf unat_ring_step [OF b(1)] by (metis ring_full_def word_unat_eq_iff)
  show "ring_inv (buf_push c r)" unfolding ring_inv_def p using b unat_ring_step [OF b(1)] by simp
  have n': "ring_count (buf_push c r) = Suc ?n"
  proof (cases "?t \<le> ?h")
    case True
    then have "?n = ?h - ?t" using b by (simp add: ring_count_def mod_if)
    moreover have "ring_count (buf_push c r) = ?h + 1 - ?t"
      unfolding ring_count_def p using True b ne unat_ring_step [OF b(1)] ring_step_cases [OF b(1)]
      by (auto simp: mod_if split: if_splits)
    ultimately show ?thesis using True by simp
  next
    case False
    then have "?n = ?h + 256 - ?t" using b by (simp add: ring_count_def)
    moreover have "ring_count (buf_push c r) = ?h + 1 + 256 - ?t"
      unfolding ring_count_def p using False b ne unat_ring_step [OF b(1)] ring_step_cases [OF b(1)] by auto
    ultimately show ?thesis using False b by simp
  qed
  have at: "(?t + ?n) mod 256 = ?h"
    unfolding ring_count_def using b by (simp add: mod_add_right_eq)
  have nlt: "?n < 256" by (simp add: ring_count_def)
  have other: "(?t + i) mod 256 \<noteq> ?h" if "i < ?n" for i
  proof
    assume "(?t + i) mod 256 = ?h"
    then have "(?t + i) mod 256 = (?t + ?n) mod 256" using at by simp
    then show False using mod256_inj that nlt by blast
  qed
  show "ring_bytes (buf_push c r) = ring_bytes r @ [c]"
    unfolding ring_bytes_def n' using at other by (simp add: p)
qed

lemma ring_empty_count: "ring_inv r \<Longrightarrow> ring_empty r \<longleftrightarrow> ring_count r = 0"
  unfolding ring_inv_def ring_empty_def ring_count_def word_unat_eq_iff
  by (cases "unat (g_tail r) \<le> unat (g_head r)") (auto simp: mod_if)

lemma ring_get:
  assumes inv: "ring_inv r" and ne: "\<not> ring_empty r"
  shows "ring_inv (snd (ring_get r))" and "ring_bytes r = fst (ring_get r) # ring_bytes (snd (ring_get r))"
proof -
  let ?h = "unat (g_head r)" and ?t = "unat (g_tail r)" and ?n = "ring_count r"
  have b: "?h < 256" "?t < 256" using inv by (simp_all add: ring_inv_def)
  have g: "snd (ring_get r) = r\<lparr>g_tail := (g_tail r + 1) mod KBD_BUF\<rparr>" "fst (ring_get r) = g_buf r ?t"
    using ne by (auto simp: ring_get_def kbd_poll_def ring_empty_def)
  show "ring_inv (snd (ring_get r))" unfolding ring_inv_def g using b unat_ring_step [OF b(2)] by simp
  have n: "?n \<noteq> 0" using ring_empty_count [OF inv] ne by simp
  have n': "ring_count (snd (ring_get r)) = ?n - 1"
  proof (cases "?t < ?h")
    case True
    have "?n = ?h - ?t" using True b by (simp add: ring_count_def mod_if)
    moreover have "ring_count (snd (ring_get r)) = ?h - (?t + 1)"
      unfolding ring_count_def g using True b unat_ring_step [OF b(2)] by (simp add: mod_if)
    ultimately show ?thesis by simp
  next
    case False
    then have lt: "?h < ?t" using ne by (auto simp: ring_empty_def word_unat_eq_iff)
    then have "?n = ?h + 256 - ?t" using b by (simp add: ring_count_def)
    moreover have "ring_count (snd (ring_get r)) = ?h + 256 - (?t + 1)"
    proof (cases "?t = 255")
      case True
      then show ?thesis unfolding ring_count_def g using b unat_ring_step [OF b(2)] by simp
    next
      case False
      then show ?thesis unfolding ring_count_def g using lt b unat_ring_step [OF b(2)] by simp
    qed
    ultimately show ?thesis by simp
  qed
  have step: "((?t + 1) mod 256 + i) mod 256 = (?t + Suc i) mod 256" for i
    by (simp add: mod_add_left_eq)
  obtain m where m: "?n = Suc m" using n by (cases ?n) auto
  have "[0 ..< Suc m] = 0 # map Suc [0 ..< m]" by (metis map_Suc_upt upt_conv_Cons zero_less_Suc)
  then show "ring_bytes r = fst (ring_get r) # ring_bytes (snd (ring_get r))"
    unfolding ring_bytes_def n' m using unat_ring_step [OF b(2)] b step by (simp add: g comp_def)
qed

interpretation kbd_fifo: fifo buf_push ring_get ring_full ring_empty ring_inv ring_bytes
proof
  fix q :: ring and c q'
  assume inv: "ring_inv q"
  show "ring_empty q \<longleftrightarrow> ring_bytes q = []" using ring_empty_count [OF inv] by (simp add: ring_bytes_def)
  show "\<not> ring_full q \<Longrightarrow> ring_inv (buf_push c q)" "\<not> ring_full q \<Longrightarrow> ring_bytes (buf_push c q) = ring_bytes q @ [c]"
    using ring_push [OF inv] by auto
  assume "\<not> ring_empty q" "ring_get q = (c, q')"
  then show "ring_inv q'" "ring_bytes q = c # ring_bytes q'" using ring_get [OF inv] by auto
qed

text \<open>Pushing to a full ring drops the byte; a ring is full when 255 bytes wait.\<close>

lemma ring_push_full: "ring_full r \<Longrightarrow> buf_push c r = r"
  by (simp add: buf_push_def ring_full_def Let_def)

lemma ring_full_count:
  assumes "ring_inv r"
  shows "ring_full r \<longleftrightarrow> length (ring_bytes r) = 255" "length (ring_bytes r) \<le> 255"
proof -
  have b: "unat (g_head r) < 256" "unat (g_tail r) < 256" using assms by (simp_all add: ring_inv_def)
  have c: "length (ring_bytes r) = ring_count r" by (simp add: ring_bytes_def)
  have "ring_full r \<longleftrightarrow> (unat (g_head r) + 1) mod 256 = unat (g_tail r)"
    unfolding ring_full_def word_unat_eq_iff unat_ring_step [OF b(1)] ..
  also have "\<dots> \<longleftrightarrow> ring_count r = 255"
    unfolding ring_count_def ring_step_cases [OF b(1)] using b
    by (cases "unat (g_tail r) \<le> unat (g_head r)") (auto simp: mod_if)
  finally show "ring_full r \<longleftrightarrow> length (ring_bytes r) = 255" using c by simp
  have "ring_count r < 256" by (simp add: ring_count_def)
  then show "length (ring_bytes r) \<le> 255" using c by simp
qed

lemma kbd_poll_ring:
  assumes "ring_inv r"
  shows "ring_inv (snd (kbd_poll r))"
    "kbd_poll r = (case ring_bytes r of [] \<Rightarrow> (- 1, r) | c # _ \<Rightarrow> (int (unat c), snd (kbd_poll r)))"
    "ring_bytes (snd (kbd_poll r)) = tl (ring_bytes r)"
proof -
  have e: "g_tail r = g_head r \<longleftrightarrow> ring_bytes r = []" using kbd_fifo.isempty_iff [OF assms] by (simp add: ring_empty_def)
  have "ring_inv (snd (kbd_poll r)) \<and> ring_bytes (snd (kbd_poll r)) = tl (ring_bytes r) \<and>
     kbd_poll r = (case ring_bytes r of [] \<Rightarrow> (- 1, r) | c # _ \<Rightarrow> (int (unat c), snd (kbd_poll r)))"
  proof (cases "g_tail r = g_head r")
    case True
    then show ?thesis using e assms by (simp add: kbd_poll_def)
  next
    case False
    then have ne: "\<not> ring_empty r" by (simp add: ring_empty_def)
    have f: "fst (ring_get r) = g_buf r (unat (g_tail r))" "snd (ring_get r) = snd (kbd_poll r)" using False by (simp_all add: ring_get_def kbd_poll_def)
    note g = ring_get [OF assms ne, unfolded f]
    show ?thesis using False g by (simp add: kbd_poll_def)
  qed
  then show "ring_inv (snd (kbd_poll r))" "ring_bytes (snd (kbd_poll r)) = tl (ring_bytes r)"
    "kbd_poll r = (case ring_bytes r of [] \<Rightarrow> (- 1, r) | c # _ \<Rightarrow> (int (unat c), snd (kbd_poll r)))" by blast+
qed

section \<open>The keyboard from scancode to reader\<close>

text \<open>A run of the keyboard: interrupts with their scancodes and calls of \<open>kbd_poll\<close>, whose results are collected.\<close>

datatype kbd_event = Scan u8 | Poll

fun kbd_run :: "kbd_event list \<Rightarrow> kbd \<times> kern \<times> int list \<Rightarrow> (kbd \<times> kern \<times> int list) option" where
  "kbd_run [] x = Some x"
| "kbd_run (Scan sc # es) (k, s, out) = (case kbd_isr sc k s of None \<Rightarrow> None | Some (k, s) \<Rightarrow> kbd_run es (k, s, out))"
| "kbd_run (Poll # es) (k, s, out) = (case kbd_poll (kring k) of (c, r) \<Rightarrow> kbd_run es (k\<lparr>kring := r\<rparr>, s, out @ [c]))"

text \<open>
  What a keyboard should do, on numbers and lists: the shift and control keys that are down (counted modulo
  256), caps lock, the bytes that wait for a reader, at most 255 of them, the results of the
  reads, and the number of interrupts from the keyboard.
\<close>

record keys =
  shifts :: nat
  ctrls :: nat
  caps :: bool
  waiting :: "u8 list"
  results :: "int list"
  interrupts :: nat

definition lower :: "nat \<Rightarrow> bool" where "lower n \<longleftrightarrow> 97 \<le> n \<and> n \<le> 122"
definition upper :: "nat \<Rightarrow> bool" where "upper n \<longleftrightarrow> 65 \<le> n \<and> n \<le> 90"

definition swap_case :: "nat \<Rightarrow> nat" where
  "swap_case n = (if lower n then n - 32 else if upper n then n + 32 else n)"

definition key_char :: "keymap \<Rightarrow> keys \<Rightarrow> nat \<Rightarrow> nat" where
  "key_char km k code =
     (let n = unat ((if 0 < shifts k then high km else low km) ! code);
          m = (if caps k then swap_case n else n)
      in if 0 < ctrls k \<and> (lower m \<or> upper m) then m mod 32 else m)"

definition counted :: "bool \<Rightarrow> nat \<Rightarrow> nat" where
  "counted down n = (if down then (n + 1) mod 256 else n - 1)"

definition accept :: "u8 \<Rightarrow> keys \<Rightarrow> keys" where
  "accept c k = (if length (waiting k) < 255 then k\<lparr>waiting := waiting k @ [c]\<rparr> else k)"

definition key_scan :: "keymap \<Rightarrow> bool \<Rightarrow> u8 \<Rightarrow> keys \<Rightarrow> keys" where
  "key_scan km isig sc k =
     (let code = unat sc mod 128; down = (unat sc < 128); c = key_char km k code in
      if code = 42 \<or> code = 54 then k\<lparr>shifts := counted down (shifts k)\<rparr>
      else if code = 29 then k\<lparr>ctrls := counted down (ctrls k)\<rparr>
      else if code = 58 then if down then k\<lparr>caps := \<not> caps k\<rparr> else k
      else if \<not> down \<or> c = 0 then k
      else if c = 3 \<and> 0 < ctrls k \<and> isig then k\<lparr>interrupts := Suc (interrupts k)\<rparr>
      else accept (of_nat c) k)"

fun key_event :: "keymap \<Rightarrow> bool \<Rightarrow> kbd_event \<Rightarrow> keys \<Rightarrow> keys" where
  "key_event km isig (Scan sc) k = key_scan km isig sc k"
| "key_event km isig Poll k =
     (case waiting k of [] \<Rightarrow> k\<lparr>results := results k @ [- 1]\<rparr>
      | c # cs \<Rightarrow> k\<lparr>waiting := cs, results := results k @ [int (unat c)]\<rparr>)"

definition keys_of :: "kbd \<Rightarrow> int list \<Rightarrow> nat \<Rightarrow> keys" where
  "keys_of k out n = \<lparr>shifts = unat (g_shift k), ctrls = unat (g_ctrl k), caps = (g_caps k \<noteq> 0),
     waiting = ring_bytes (kring k), results = out, interrupts = n\<rparr>"

text \<open>The interrupt of the foreground process: its signal 2 becomes pending unless it is a zombie.\<close>

definition interrupt_fg :: "u64 list \<Rightarrow> kern \<Rightarrow> kern" where
  "interrupt_fg qs s =
     (case List.find (\<lambda>q. pid (procs s q) = g_fg_pid s) qs of
        None \<Rightarrow> s
      | Some p \<Rightarrow>
          if g_fg_pid s \<noteq> 0 \<and> pstate (procs s p) \<noteq> PROC_ZOMBIE
          then s\<lparr>procs := (procs s)(p := (procs s p)\<lparr>sig_pending := set_bit 2 (sig_pending (procs s p))\<rparr>)\<rparr> else s)"

lemma all_list_nonzero: "all_list s qs \<Longrightarrow> p \<in> set qs \<Longrightarrow> p \<noteq> 0"
proof -
  have "p \<noteq> 0" if "chain nx r qs" "p \<in> set qs" for nx :: "u64 \<Rightarrow> u64" and r
    using that by (induction qs arbitrary: r) auto
  then show "all_list s qs \<Longrightarrow> p \<in> set qs \<Longrightarrow> p \<noteq> 0" by (auto simp: all_list_def)
qed

lemma sigint_fg_ok:
  assumes "all_list s qs"
  shows "scheduler_sigint_fg s = Some (interrupt_fg qs s)" "all_list (interrupt_fg qs s) qs"
proof -
  have c: "chain (all_links s) (g_all_head s) qs" using assms by (simp add: all_list_def)
  have f: "scheduler_find (g_fg_pid s) s = Some (or_null (List.find (\<lambda>q. pid (procs s q) = g_fg_pid s) qs))"
    using find_from_chain [OF c] by (simp add: scheduler_find_def)
  show "scheduler_sigint_fg s = Some (interrupt_fg qs s)"
  proof (cases "List.find (\<lambda>q. pid (procs s q) = g_fg_pid s) qs")
    case None
    then show ?thesis using f by (simp add: scheduler_sigint_fg_def interrupt_fg_def or_null_def)
  next
    case (Some p)
    then have "p \<in> set qs" by (metis find_Some_iff nth_mem)
    then have "p \<noteq> 0" by (rule all_list_nonzero [OF assms])
    then show ?thesis using f Some
      by (simp add: scheduler_sigint_fg_def interrupt_fg_def or_null_def upd_proc_def set_bit_eq_or)
  qed
  have "all_links (interrupt_fg qs s) = all_links s" "g_all_head (interrupt_fg qs s) = g_all_head s"
    by (auto simp: interrupt_fg_def all_links_def fun_eq_iff split: option.splits)
  then show "all_list (interrupt_fg qs s) qs" using assms by (simp add: all_list_def)
qed
text \<open>The bytes of the handler as numbers.\<close>

lemma scan_code: "unat (sc AND 0x7F :: u8) = unat sc mod 128"
proof -
  have "(0x7F :: u8) = mask 7" by (simp add: mask_eq_exp_minus_1)
  then have "sc AND 0x7F = take_bit 7 sc" by (simp add: take_bit_eq_mask)
  then show ?thesis by (simp add: unsigned_take_bit_eq take_bit_eq_mod unat_mod)
qed

lemma scan_release: "(sc AND SC_RELEASE :: u8) = 0 \<longleftrightarrow> unat sc < 128"
proof -
  have m: "unat sc < 256" using unsigned_less [of sc] by simp
  have e: "SC_RELEASE = 2 ^ 7" by (simp add: SC_RELEASE_def)
  have "(sc AND SC_RELEASE = 0) = (\<not> bit sc 7)" unfolding e by (rule and_exp_eq_0_iff_not_bit)
  also have "bit sc 7 = bit (unat sc) 7" by (simp add: bit_unsigned_iff)
  also have "\<dots> = odd (unat sc div 128)" by (simp add: bit_iff_odd)
  also have "\<dots> = (128 \<le> unat sc)"
  proof (cases "128 \<le> unat sc")
    case True
    then have "unat sc div 128 = 1" using m by (intro div_nat_eqI) simp_all
    then show ?thesis using True by simp
  qed simp
  finally show ?thesis by auto
qed

lemma code_eq: "sc AND 0x7F = (c :: u8) \<longleftrightarrow> unat sc mod 128 = unat c"
  by (simp add: word_unat_eq_iff scan_code)

lemma key_count_unat: "unat (key_count r n) = counted (r = 0) (unat n)"
  by (cases "n = 0") (simp_all add: key_count_def counted_def unat_minus_one unat_word_ariths(1))

lemma in_range_unat: "in_range (CHR ''a'') (CHR ''z'') c = lower (unat c)" "in_range (CHR ''A'') (CHR ''Z'') c = upper (unat c)"
  by (simp_all add: in_range_def lower_def upper_def ch_def word_le_nat_alt)

lemma caps_char_unat: "unat (caps_char c) = swap_case (unat c)"
proof -
  have m: "unat c < 256" using unsigned_less [of c] by simp
  have "unat (c - 32) = unat c - 32" if "lower (unat c)" using that by (subst unat_sub_no_wrap) (simp_all add: lower_def word_le_nat_alt)
  moreover have "unat (c + 32) = unat c + 32" if "upper (unat c)" using that by (subst unat_add_no_wrap) (simp_all add: upper_def)
  ultimately show ?thesis by (auto simp: caps_char_def swap_case_def in_range_unat)
qed

lemma ctrl_char_unat: "unat (ctrl_char c) = (if lower (unat c) \<or> upper (unat c) then unat c mod 32 else unat c)"
proof -
  have "(0x1F :: u8) = mask 5" by (simp add: mask_eq_exp_minus_1)
  then have "c AND 0x1F = take_bit 5 c" by (simp add: take_bit_eq_mask)
  then have "unat (c AND 0x1F) = unat c mod 32" by (simp add: unsigned_take_bit_eq take_bit_eq_mod unat_mod)
  then show ?thesis by (simp add: ctrl_char_def in_range_unat)
qed

lemma tty_isig_bit: "tty_isig t = bit (c_lflag t) 0"
proof -
  have e: "TTY_ISIG = 2 ^ 0" by (simp add: TTY_ISIG_def)
  show ?thesis unfolding tty_isig_def e and_exp_eq_0_iff_not_bit by (rule not_not)
qed

text \<open>The translated byte of a key press.\<close>

definition pressed :: "keymap \<Rightarrow> kbd \<Rightarrow> u8 \<Rightarrow> u8" where
  "pressed km k code =
     (let c = (if g_shift k \<noteq> 0 then high km ! unat code else low km ! unat code);
          c = (if g_caps k \<noteq> 0 then caps_char c else c)
      in if g_ctrl k \<noteq> 0 then ctrl_char c else c)"

lemma pressed_unat: "unat (pressed km k code) = key_char km (keys_of k out n) (unat code)"
  by (simp add: pressed_def key_char_def keys_of_def caps_char_unat ctrl_char_unat unat_gt_0 Let_def)

lemma key_char_zero: "key_char km k code = 0 \<longleftrightarrow> (if 0 < shifts k then high km else low km) ! code = 0"
proof -
  have nz: "m mod 32 \<noteq> 0" if "lower m \<or> upper m" for m
  proof
    assume z: "m mod 32 = 0"
    then show False using that unfolding lower_def upper_def by presburger
  qed
  have sw: "swap_case n = 0 \<longleftrightarrow> n = 0" for n by (auto simp: swap_case_def lower_def upper_def)
  have ct: "(if b \<and> (lower m \<or> upper m) then m mod 32 else m) = 0 \<longleftrightarrow> m = 0" for b m
    using nz [of m] by (cases "lower m \<or> upper m") (auto simp: lower_def upper_def)
  show ?thesis unfolding key_char_def Let_def ct by (simp add: sw unat_eq_zero)
qed

lemma kbd_isr_pressed:
  assumes "unat sc < 128" "unat sc \<notin> {42, 54, 29, 58}"
  shows "kbd_isr sc k s =
     (let c = pressed (keymap_active (kmaps k)) k sc in
      if c = 0 then Some (k, s)
      else if g_ctrl k \<noteq> 0 \<and> c = 3 \<and> tty_isig (g_termios k) then map_option (\<lambda>s. (k, s)) (scheduler_sigint_fg s)
      else Some (k\<lparr>kring := buf_push c (kring k)\<rparr>, s))"
proof -
  let ?km = "keymap_active (kmaps k)"
  have sc: "sc AND 0x7F = sc" using assms(1) by (simp add: code_eq)
  have r: "sc AND SC_RELEASE = 0" using assms(1) by (simp add: scan_release)
  have ne: "sc \<noteq> SC_LSHIFT" "sc \<noteq> SC_RSHIFT" "sc \<noteq> SC_LCTRL" "sc \<noteq> SC_CAPS"
    using assms(2) by (auto simp: SC_LSHIFT_def SC_RSHIFT_def SC_LCTRL_def SC_CAPS_def)
  have z: "pressed ?km k sc = 0 \<longleftrightarrow> (if g_shift k \<noteq> 0 then high ?km ! unat sc else low ?km ! unat sc) = 0"
    using pressed_unat [of ?km k sc "[]" 0] key_char_zero [of ?km "keys_of k [] 0" "unat sc"]
    by (auto simp: keys_of_def unat_eq_zero unat_gt_0 split: if_splits)
  show ?thesis unfolding kbd_isr_def sc r z [symmetric] Let_def using ne r z by (simp add: pressed_def Let_def)
qed

text \<open>The handler does what a keyboard should do.\<close>

lemma kbd_isr_scan:
  assumes "ring_inv (kring k)" "all_list s qs"
  obtains k' m where "kbd_isr sc k s = Some (k', (interrupt_fg qs ^^ m) s)" "ring_inv (kring k')"
    "keys_of k' out (m + n) = key_scan (keymap_active (kmaps k)) (bit (c_lflag (g_termios k)) 0) sc (keys_of k out n)"
    "kmaps k' = kmaps k" "g_termios k' = g_termios k"
proof -
  let ?km = "keymap_active (kmaps k)" and ?x = "keys_of k out n" and ?i = "bit (c_lflag (g_termios k)) 0"
  note sc = SC_LSHIFT_def SC_RSHIFT_def SC_LCTRL_def SC_CAPS_def code_eq scan_release
  consider "unat sc mod 128 = 42 \<or> unat sc mod 128 = 54" | "unat sc mod 128 = 29" | "unat sc mod 128 = 58"
    | "unat sc mod 128 \<notin> {42, 54, 29, 58}" "128 \<le> unat sc" | "unat sc mod 128 \<notin> {42, 54, 29, 58}" "unat sc < 128" by fastforce
  then show thesis
  proof cases
    case 1
    then show ?thesis using that [of "k\<lparr>g_shift := key_count (sc AND SC_RELEASE) (g_shift k)\<rparr>" 0] assms(1)
      by (auto simp: kbd_isr_def Let_def sc key_scan_def keys_of_def key_count_unat)
  next
    case 2
    then show ?thesis using that [of "k\<lparr>g_ctrl := key_count (sc AND SC_RELEASE) (g_ctrl k)\<rparr>" 0] assms(1)
      by (auto simp: kbd_isr_def Let_def sc key_scan_def keys_of_def key_count_unat)
  next
    case 3
    then show ?thesis using that [of "if unat sc < 128 then k\<lparr>g_caps := (if g_caps k = 0 then 1 else 0)\<rparr> else k" 0] assms(1)
      by (auto simp: kbd_isr_def Let_def sc key_scan_def keys_of_def)
  next
    case 4
    then show ?thesis using that [of k 0] assms(1) by (auto simp: kbd_isr_def Let_def sc key_scan_def)
  next
    case 5
    let ?c = "pressed ?km k sc"
    have m: "unat sc mod 128 = unat sc" using 5(2) by simp
    have e: "key_char ?km ?x (unat sc) = unat ?c" by (rule pressed_unat [symmetric])
    have c3: "unat ?c = 3 \<longleftrightarrow> ?c = 3" by (simp add: word_unat_eq_iff)
    have x: "0 < ctrls ?x \<longleftrightarrow> g_ctrl k \<noteq> 0" "interrupts ?x = n" by (simp_all add: keys_of_def unat_gt_0)
    have ks: "key_scan ?km ?i sc ?x =
        (if ?c = 0 then ?x else if ?c = 3 \<and> g_ctrl k \<noteq> 0 \<and> ?i then ?x\<lparr>interrupts := Suc n\<rparr> else accept ?c ?x)"
      using 5 unfolding key_scan_def m e Let_def by (simp add: unat_eq_zero c3 x)
    note h = kbd_isr_pressed [OF 5(2), of k s, unfolded Let_def tty_isig_bit, OF 5(1) [unfolded m]]
    show ?thesis
    proof (cases "?c = 0 \<or> ?c = 3 \<and> g_ctrl k \<noteq> 0 \<and> ?i")
      case True
      then show ?thesis using that [of k "if ?c = 0 then 0 else 1"] assms(1) h ks sigint_fg_ok(1) [OF assms(2)]
        by (auto simp: keys_of_def)
    next
      case False
      let ?k = "k\<lparr>kring := buf_push ?c (kring k)\<rparr>"
      have "ring_inv (kring ?k) \<and> keys_of ?k out n = accept ?c ?x"
        using ring_push [OF assms(1)] ring_push_full [of "kring k" ?c] ring_full_count [OF assms(1)] assms(1)
        by (cases "ring_full (kring k)") (simp_all add: keys_of_def accept_def)
      then show ?thesis using that [of ?k 0] False h ks by auto
    qed
  qed
qed
lemma kbd_poll_event:
  assumes "ring_inv (kring k)" "kbd_poll (kring k) = (c, r)"
  shows "ring_inv r" "keys_of (k\<lparr>kring := r\<rparr>) (out @ [c]) n = key_event km isig Poll (keys_of k out n)"
  using kbd_poll_ring [OF assms(1), unfolded assms(2)] by (auto simp: keys_of_def split: list.splits)

lemma kbd_run_keys:
  assumes "ring_inv (kring k)" "all_list s qs" "kmaps k = kms" "g_termios k = t"
  shows "\<exists>k' out' m. kbd_run es (k, s, out) = Some (k', (interrupt_fg qs ^^ m) s, out') \<and> ring_inv (kring k') \<and>
    keys_of k' out' (m + n) = fold (key_event (keymap_active kms) (bit (c_lflag t) 0)) es (keys_of k out n)"
  using assms
proof (induction es arbitrary: k s out n)
  case Nil
  then show ?case by (intro exI [of _ k] exI [of _ out] exI [of _ 0]) simp
next
  case (Cons e es)
  show ?case
  proof (cases e)
    case (Scan sc)
    obtain k' m where k': "kbd_isr sc k s = Some (k', (interrupt_fg qs ^^ m) s)" "ring_inv (kring k')"
      "keys_of k' out (m + n) = key_scan (keymap_active kms) (bit (c_lflag t) 0) sc (keys_of k out n)" "kmaps k' = kms" "g_termios k' = t"
      using kbd_isr_scan [OF Cons.prems(1,2), of sc out n] Cons.prems(3,4) by metis
    have "all_list ((interrupt_fg qs ^^ m) s) qs" by (induction m) (simp_all add: Cons.prems(2) sigint_fg_ok(2))
    from Cons.IH [OF k'(2) this k'(4,5), of out "m + n"] obtain j o' m' where
      "kbd_run es (k', (interrupt_fg qs ^^ m) s, out) = Some (j, (interrupt_fg qs ^^ m') ((interrupt_fg qs ^^ m) s), o')" "ring_inv (kring j)"
      "keys_of j o' (m' + (m + n)) = fold (key_event (keymap_active kms) (bit (c_lflag t) 0)) es (keys_of k' out (m + n))" by blast
    then show ?thesis using Scan k'(1,3)
      by (intro exI [of _ j] exI [of _ o'] exI [of _ "m' + m"]) (simp add: funpow_add add.assoc)
  next
    case Poll
    obtain c r where p: "kbd_poll (kring k) = (c, r)" by fastforce
    note pe = kbd_poll_event [OF Cons.prems(1) p]
    have "ring_inv (kring (k\<lparr>kring := r\<rparr>))" using pe(1) by simp
    from Cons.IH [OF this Cons.prems(2), of "out @ [c]" n] obtain j o' m where
      "kbd_run es (k\<lparr>kring := r\<rparr>, s, out @ [c]) = Some (j, (interrupt_fg qs ^^ m) s, o')" "ring_inv (kring j)"
      "keys_of j o' (m + n) = fold (key_event (keymap_active kms) (bit (c_lflag t) 0)) es (keys_of (k\<lparr>kring := r\<rparr>) (out @ [c]) n)"
      using Cons.prems(3,4) by auto
    then show ?thesis using Poll p pe(2)
      by (intro exI [of _ j] exI [of _ o'] exI [of _ m]) simp
  qed
qed

text \<open>
  C24: the keyboard from scancode to reader. For every interleaving of keyboard interrupts and polls, the
  handler, the ring and \<open>kbd_poll\<close> act as the reference keyboard \<open>key_event\<close>: a press is translated by the
  active layout, shift, caps lock and control; its byte joins a queue of at most 255 bytes and is
  dropped when 255 wait; the polls return the waiting bytes in order, -1 when none waits; and control-C with ISIG
  set is no byte but one interrupt, which makes signal 2 pending in the foreground process and
  changes nothing else of the kernel.
\<close>

theorem kbd_keys_in_order:
  assumes "ring_inv (kring k)" "all_list s qs"
  shows "\<exists>k' out m. kbd_run es (k, s, []) = Some (k', (interrupt_fg qs ^^ m) s, out) \<and> ring_inv (kring k') \<and>
    keys_of k' out m = fold (key_event (keymap_active (kmaps k)) (bit (c_lflag (g_termios k)) 0)) es (keys_of k [] 0)"
  using kbd_run_keys [OF assms refl refl, of es "[]" 0] by simp

definition new_ring :: ring where
  "new_ring = \<lparr>g_buf = (\<lambda>_. 0), g_head = 0, g_tail = 0\<rparr>"

definition new_kbd :: kbd where
  "new_kbd = \<lparr>kring = new_ring, g_shift = 0, g_caps = 0, g_ctrl = 0,
     kmaps = keymap_init \<lparr>g_layouts = (\<lambda>_. \<lparr>km_name = [], low = [], high = []\<rparr>), g_n_layouts = 0, g_active = 0\<rparr>,
     g_termios = tty_init \<lparr>c_lflag = 0, c_cc = []\<rparr>\<rparr>"

lemma new_kbd_facts:
  "keymap_active (kmaps new_kbd) = \<lparr>km_name = str ''us'', low = us_low, high = us_high\<rparr>" "bit (c_lflag (g_termios new_kbd)) 0"
  "keys_of new_kbd [] 0 = \<lparr>shifts = 0, ctrls = 0, caps = False, waiting = [], results = [], interrupts = 0\<rparr>" "ring_inv (kring new_kbd)"
  by (simp_all add: new_kbd_def keymap_init_def layout_add_def MAX_LAYOUTS_def keymap_active_def copy_name_def KEYMAP_NAME_MAX_def Let_def
      tty_init_def TTY_ISIG_def TTY_ICANON_def TTY_ECHO_def TTY_ECHOE_def keys_of_def new_ring_def ring_bytes_def ring_count_def ring_inv_def str_def)

text \<open>Shift and A, then control and C with process 2 in the foreground, then two polls.\<close>

theorem kbd_keys_in_order_witness:
  "\<exists>k' t. kbd_run [Scan 0x2A, Scan 0x1E, Scan 0xAA, Scan 0x1D, Scan 0x2E, Poll, Poll] (new_kbd, demo_kern\<lparr>g_fg_pid := 2\<rparr>, []) =
     Some (k', t, [65, - 1]) \<and> bit (sig_pending (procs t 0x2000)) 2"
proof -
  let ?s = "demo_kern\<lparr>g_fg_pid := 2\<rparr>" and ?qs = "[0x3000, 0x2000, 0x1000]"
  have a: "all_list ?s ?qs" using demo_kern_list by (simp add: all_list_def all_links_def)
  have l: "us_high ! 30 = 65" "us_low ! 46 = 99" by (simp_all add: us_high_def us_low_def str_def ch_def)
  obtain k' out m where k: "kbd_run [Scan 0x2A, Scan 0x1E, Scan 0xAA, Scan 0x1D, Scan 0x2E, Poll, Poll] (new_kbd, ?s, []) = Some (k', (interrupt_fg ?qs ^^ m) ?s, out)"
    "keys_of k' out m = fold (key_event (keymap_active (kmaps new_kbd)) (bit (c_lflag (g_termios new_kbd)) 0))
       [Scan 0x2A, Scan 0x1E, Scan 0xAA, Scan 0x1D, Scan 0x2E, Poll, Poll] (keys_of new_kbd [] 0)"
    using kbd_keys_in_order [OF new_kbd_facts(4) a] by blast
  have "keys_of k' out m = \<lparr>shifts = 0, ctrls = 1, caps = False, waiting = [], results = [65, - 1], interrupts = 1\<rparr>"
    unfolding k(2) new_kbd_facts(1,3) using new_kbd_facts(2) l
    by (simp add: key_scan_def key_char_def counted_def accept_def lower_def upper_def)
  then have "out = [65, - 1]" "m = 1" by (simp_all add: keys_of_def)
  moreover have "bit (sig_pending (procs (interrupt_fg ?qs ?s) 0x2000)) 2"
    by (simp add: interrupt_fg_def demo_kern_def blank_process_def bit_set_bit_iff)
  ultimately show ?thesis using k(1) by auto
qed

end
