(* ===== verification/Vga.thy ===== *)
theory Vga
  imports Prelude
begin

text \<open>
  The text-mode driver, src/src/drivers/vga.c and vga.h: cursor, colour and the text buffer. The buffer
  pointer is one of two addresses of the same cells, and \<open>physmap\<close> says which. Port output is recorded as the
  sequence of port and byte; disabling interrupts around a character has no effect on this state.
\<close>

section \<open>The code\<close>

definition VGA_WIDTH :: u32 where "VGA_WIDTH = 80"
definition VGA_HEIGHT :: u32 where "VGA_HEIGHT = 25"
definition VGA_LIGHT_GREY :: u8 where "VGA_LIGHT_GREY = 7"
definition VGA_BLACK :: u8 where "VGA_BLACK = 0"

record vga =
  VGA_BUFFER :: "nat \<Rightarrow> u16"
  physmap :: bool
  g_row :: u32
  g_col :: u32
  g_color :: u8
  ports :: "(u16 \<times> u8) list"

definition vga_use_physmap :: "vga \<Rightarrow> vga" where
  "vga_use_physmap s = s\<lparr>physmap := True\<rparr>"

definition VGA_COLOR :: "u8 \<Rightarrow> u8 \<Rightarrow> u8" where
  "VGA_COLOR fg bg = push_bit 4 bg OR (fg AND 0x0F)"

definition cell :: "u8 \<Rightarrow> vga \<Rightarrow> u16" where
  "cell c s = ucast c OR push_bit 8 (ucast (g_color s))"

definition cursor_cell :: "vga \<Rightarrow> nat" where
  "cursor_cell s = unat (g_row s * VGA_WIDTH + g_col s)"

definition put_cell :: "nat \<Rightarrow> u16 \<Rightarrow> vga \<Rightarrow> vga" where
  "put_cell i v s = s\<lparr>VGA_BUFFER := (VGA_BUFFER s)(i := v)\<rparr>"

definition scroll :: "vga \<Rightarrow> vga" where
  "scroll s =
     (let s = fold (\<lambda>i s. put_cell i (VGA_BUFFER s (i + 80)) s) [0 ..< 80 * 24] s
      in fold (\<lambda>i s. put_cell (80 * 24 + i) (cell 32 s) s) [0 ..< 80] s)"

definition vga_init :: "vga \<Rightarrow> vga" where
  "vga_init s = s\<lparr>g_row := 0, g_col := 0, g_color := VGA_COLOR VGA_LIGHT_GREY VGA_BLACK\<rparr>"

definition vga_update_cursor :: "vga \<Rightarrow> vga" where
  "vga_update_cursor s =
     (let pos = ucast (g_row s * VGA_WIDTH + g_col s) :: u16
      in s\<lparr>ports := ports s @ [(0x3D4, 0x0F), (0x3D5, ucast (pos AND 0xFF)), (0x3D4, 0x0E), (0x3D5, ucast (drop_bit 8 pos AND 0xFF))]\<rparr>)"

definition vga_clear :: "vga \<Rightarrow> vga" where
  "vga_clear s =
     (let s = fold (\<lambda>i s. put_cell i (cell 32 s) s) [0 ..< 80 * 25] s
      in vga_update_cursor (s\<lparr>g_row := 0, g_col := 0\<rparr>))"

definition vga_set_color :: "u8 \<Rightarrow> u8 \<Rightarrow> vga \<Rightarrow> vga" where
  "vga_set_color fg bg s = s\<lparr>g_color := VGA_COLOR fg bg\<rparr>"

definition vga_color :: "vga \<Rightarrow> u8" where
  "vga_color s = g_color s"

definition raw_putc :: "u8 \<Rightarrow> vga \<Rightarrow> vga" where
  "raw_putc c s =
     (let s = (if c = 10 then s\<lparr>g_col := 0, g_row := g_row s + 1\<rparr>
               else if c = 13 then s\<lparr>g_col := 0\<rparr>
               else if c = 8 then if g_col s > 0 then s\<lparr>g_col := g_col s - 1\<rparr> else s
               else let s = put_cell (cursor_cell s) (cell c s) s;
                        s = s\<lparr>g_col := g_col s + 1\<rparr>
                    in if g_col s \<ge> VGA_WIDTH then s\<lparr>g_col := 0, g_row := g_row s + 1\<rparr> else s)
      in if g_row s \<ge> VGA_HEIGHT then (scroll s)\<lparr>g_row := VGA_HEIGHT - 1\<rparr> else s)"

definition vga_put_char :: "u8 \<Rightarrow> vga \<Rightarrow> vga" where
  "vga_put_char c s = vga_update_cursor (raw_putc c s)"

definition vga_write_buf :: "u8 list \<Rightarrow> vga \<Rightarrow> vga" where
  "vga_write_buf xs s = fold vga_put_char xs s"

definition vga_write :: "cstring \<Rightarrow> vga \<Rightarrow> vga" where
  "vga_write xs s = fold vga_put_char (c_text xs) s"

text \<open>Padding does not end when the fill character does not advance the cursor.\<close>

partial_function (option) vga_pad_to :: "u32 \<Rightarrow> u8 \<Rightarrow> vga \<Rightarrow> vga option" where
  "vga_pad_to col fill s =
     (if g_col s < col \<and> g_col s < VGA_WIDTH then vga_pad_to col fill (vga_put_char fill s) else Some s)"

definition vga_backspace :: "vga \<Rightarrow> vga" where
  "vga_backspace s =
     (if g_col s > 0
      then let s = s\<lparr>g_col := g_col s - 1\<rparr> in vga_update_cursor (put_cell (cursor_cell s) (cell 32 s) s)
      else s)"

definition vga_row :: "vga \<Rightarrow> u32" where "vga_row s = g_row s"

definition vga_col :: "vga \<Rightarrow> u32" where "vga_col s = g_col s"

definition vga_prime_cursor :: "vga \<Rightarrow> vga" where
  "vga_prime_cursor s = put_cell (cursor_cell s) (cell 32 s) s"

section \<open>The cursor stays on the screen\<close>

definition on_screen :: "vga \<Rightarrow> bool" where
  "on_screen s \<longleftrightarrow> unat (g_row s) < 25 \<and> unat (g_col s) < 80"

text \<open>\<open>within s t\<close>: the step from \<open>s\<close> to \<open>t\<close> keeps the cursor on the screen and writes only the 2000 cells of the text buffer.\<close>

definition within :: "vga \<Rightarrow> vga \<Rightarrow> bool" where
  "within s t \<longleftrightarrow> on_screen t \<and> (\<forall>i \<ge> 2000. VGA_BUFFER t i = VGA_BUFFER s i)"

lemma within_trans: "within s t \<Longrightarrow> within t u \<Longrightarrow> within s u"
  by (simp add: within_def)

lemma cursor_cell_bound:
  assumes "on_screen s"
  shows "cursor_cell s = unat (g_row s) * 80 + unat (g_col s)" and "cursor_cell s < 2000"
proof -
  have b: "unat (g_row s) < 25" "unat (g_col s) < 80" using assms by (simp_all add: on_screen_def)
  show *: "cursor_cell s = unat (g_row s) * 80 + unat (g_col s)"
    unfolding cursor_cell_def VGA_WIDTH_def using b by (simp add: unat_word_ariths)
  show "cursor_cell s < 2000" unfolding * using b by linarith
qed

lemma put_cell_simps [frame_simps]:
  "g_row (put_cell i v s) = g_row s" "g_col (put_cell i v s) = g_col s" "g_color (put_cell i v s) = g_color s"
  "VGA_BUFFER (put_cell i v s) = (VGA_BUFFER s)(i := v)" "ports (put_cell i v s) = ports s"
  by (simp_all add: put_cell_def)

lemma fold_put_cell:
  assumes "\<forall>i \<in> set ks. f i < 2000"
  shows "g_row (fold (\<lambda>i s. put_cell (f i) (v i s) s) ks s) = g_row s"
    and "g_col (fold (\<lambda>i s. put_cell (f i) (v i s) s) ks s) = g_col s"
    and "2000 \<le> j \<Longrightarrow> VGA_BUFFER (fold (\<lambda>i s. put_cell (f i) (v i s) s) ks s) j = VGA_BUFFER s j"
  using assms by (induction ks arbitrary: s) (auto simp: frame_simps)

lemma scroll_frame:
  "g_row (scroll s) = g_row s" "g_col (scroll s) = g_col s" "2000 \<le> j \<Longrightarrow> VGA_BUFFER (scroll s) j = VGA_BUFFER s j"
proof -
  have a: "\<forall>i \<in> set [0 ..< 80 * 24]. (\<lambda>i. i) i < (2000 :: nat)"
    and b: "\<forall>i \<in> set [0 ..< 80]. (\<lambda>i. 80 * 24 + i) i < (2000 :: nat)"
    unfolding set_upt by simp_all
  note up = fold_put_cell [OF a, where v = "\<lambda>i s. VGA_BUFFER s (i + 80)"]
    and last = fold_put_cell [OF b, where v = "\<lambda>i. cell 32"]
  show "g_row (scroll s) = g_row s" unfolding scroll_def Let_def last(1) up(1) ..
  show "g_col (scroll s) = g_col s" unfolding scroll_def Let_def last(2) up(2) ..
  show "VGA_BUFFER (scroll s) j = VGA_BUFFER s j" if j: "2000 \<le> j"
    unfolding scroll_def Let_def last(3) [OF j] up(3) [OF j] ..
qed

lemma update_cursor_within: "on_screen s \<Longrightarrow> within s (vga_update_cursor s)"
  by (simp add: within_def on_screen_def vga_update_cursor_def Let_def)

lemma raw_putc_within:
  assumes "on_screen s"
  shows "within s (raw_putc c s)"
proof -
  have b: "unat (g_row s) < 25" "unat (g_col s) < 80" using assms by (simp_all add: on_screen_def)
  have up: "unat (g_row s + 1) = unat (g_row s) + 1" "unat (g_col s + 1) = unat (g_col s) + 1"
    using b by (simp_all add: unat_word_ariths)
  define t where "t = (if c = 10 then s\<lparr>g_col := 0, g_row := g_row s + 1\<rparr>
     else if c = 13 then s\<lparr>g_col := 0\<rparr>
     else if c = 8 then if g_col s > 0 then s\<lparr>g_col := g_col s - 1\<rparr> else s
     else let s = put_cell (cursor_cell s) (cell c s) s; s = s\<lparr>g_col := g_col s + 1\<rparr>
          in if g_col s \<ge> VGA_WIDTH then s\<lparr>g_col := 0, g_row := g_row s + 1\<rparr> else s)"
  have down: "unat (g_col s - 1) < 80" if "0 < unat (g_col s)"
  proof -
    have "g_col s \<noteq> 0" using that by auto
    then show ?thesis using b unat_dec [of "g_col s"] by simp
  qed
  have col: "unat (g_col t) < 80"
    using b up down by (auto simp: t_def Let_def frame_simps VGA_WIDTH_def word_le_nat_alt word_less_nat_alt not_le)
  have row: "unat (g_row t) \<le> 25"
    using b up by (auto simp: t_def Let_def frame_simps)
  have buf: "VGA_BUFFER t i = VGA_BUFFER s i" if "2000 \<le> i" for i
    using that cursor_cell_bound(2) [OF assms] by (auto simp: t_def Let_def frame_simps)
  have r: "raw_putc c s = (if g_row t \<ge> VGA_HEIGHT then (scroll t)\<lparr>g_row := VGA_HEIGHT - 1\<rparr> else t)"
    unfolding raw_putc_def t_def Let_def ..
  show ?thesis
    unfolding r within_def on_screen_def
    using col row buf scroll_frame [where s = t] by (auto simp: VGA_HEIGHT_def word_le_nat_alt not_le)
qed

lemma put_char_within: "on_screen s \<Longrightarrow> within s (vga_put_char c s)"
  unfolding vga_put_char_def
  using raw_putc_within [of s c] update_cursor_within [of "raw_putc c s"] within_trans by (simp add: within_def)

lemma write_within: "on_screen s \<Longrightarrow> within s (fold vga_put_char xs s)"
proof (induction xs arbitrary: s)
  case Nil
  then show ?case by (simp add: within_def)
next
  case (Cons x xs)
  have "within s (vga_put_char x s)" using put_char_within Cons.prems .
  then show ?case using Cons.IH [of "vga_put_char x s"] within_trans [of s "vga_put_char x s"] by (simp add: within_def)
qed

lemma pad_within: "vga_pad_to col fill s = Some t \<Longrightarrow> on_screen s \<longrightarrow> within s t"
proof (induction rule: vga_pad_to.raw_induct [rotated, consumes 1, case_names loop])
  case (loop pad col fill s t)
  show ?case
  proof
    assume os: "on_screen s"
    show "within s t"
    proof (cases "g_col s < col \<and> g_col s < VGA_WIDTH")
      case True
      have p: "within s (vga_put_char fill s)" using os by (rule put_char_within)
      have "on_screen (vga_put_char fill s) \<longrightarrow> within (vga_put_char fill s) t" using loop True by simp
      then show ?thesis using within_trans [OF p] p by (simp add: within_def)
    next
      case False
      then have "s = t" using loop by (auto split: if_splits)
      then show ?thesis using os by (simp add: within_def)
    qed
  qed
qed

datatype vga_op = Put u8 | Text "u8 list" | Clear | Color u8 u8 | Pad u32 u8 | Back | Prime | Init | Physmap

fun vga_step :: "vga_op \<Rightarrow> vga \<Rightarrow> vga option" where
  "vga_step (Put c) s = Some (vga_put_char c s)"
| "vga_step (Text xs) s = Some (vga_write_buf xs s)"
| "vga_step Clear s = Some (vga_clear s)"
| "vga_step (Color fg bg) s = Some (vga_set_color fg bg s)"
| "vga_step (Pad col fill) s = vga_pad_to col fill s"
| "vga_step Back s = Some (vga_backspace s)"
| "vga_step Prime s = Some (vga_prime_cursor s)"
| "vga_step Init s = Some (vga_init s)"
| "vga_step Physmap s = Some (vga_use_physmap s)"

fun vga_run :: "vga_op list \<Rightarrow> vga \<Rightarrow> vga option" where
  "vga_run [] s = Some s"
| "vga_run (e # es) s = Option.bind (vga_step e s) (vga_run es)"

lemma vga_step_within:
  assumes "vga_step e s = Some t" and os: "on_screen s"
  shows "within s t"
proof (cases e)
  case Back
  have d: "unat (g_col s - 1) < 80" if "g_col s > 0"
    using os that unat_dec [of "g_col s"] by (simp add: on_screen_def word_gt_0)
  let ?s = "s\<lparr>g_col := g_col s - 1\<rparr>"
  show ?thesis
  proof (cases "g_col s > 0")
    case True
    then have o': "on_screen ?s" using os d by (simp add: on_screen_def)
    define u where "u = put_cell (cursor_cell ?s) (cell 32 ?s) ?s"
    have u: "within ?s u"
      using cursor_cell_bound(2) [OF o'] o' by (auto simp: u_def within_def on_screen_def frame_simps)
    have "t = vga_update_cursor u" using assms(1) Back True by (simp add: vga_backspace_def u_def Let_def)
    then have "within ?s t" using within_trans [OF u] update_cursor_within [of u] u by (simp add: within_def)
    then show ?thesis by (simp add: within_def)
  qed (use assms Back in \<open>simp add: vga_backspace_def within_def\<close>)
next
  case Clear
  have a: "\<forall>i \<in> set [0 ..< 80 * 25]. (\<lambda>i. i) i < (2000 :: nat)" unfolding set_upt by simp
  note clr = fold_put_cell [OF a, where v = "\<lambda>i. cell 32" and s = s]
  have "t = vga_clear s" using assms(1) Clear by simp
  then show ?thesis
    using clr(3) by (simp add: vga_clear_def within_def on_screen_def vga_update_cursor_def Let_def del: upt_conv_Cons upt_rec_numeral)
next
  case Prime
  then show ?thesis
    using assms cursor_cell_bound(2) [OF os] by (auto simp: vga_prime_cursor_def within_def on_screen_def frame_simps)
next
  case (Put c)
  then show ?thesis using assms(1) put_char_within [OF os] by auto
next
  case (Text xs)
  then show ?thesis using assms(1) write_within [OF os] by (auto simp: vga_write_buf_def)
next
  case (Pad col fill)
  then show ?thesis using assms(1) pad_within os by auto
qed (use assms in \<open>auto simp: vga_set_color_def vga_init_def vga_use_physmap_def within_def on_screen_def\<close>)

text \<open>
  C25: the text driver never writes outside the screen. After any sequence of driver operations
  that starts with the cursor on the screen, the cursor is on the screen (row below 25, column
  below 80) and every cell behind the 2000 cells of the text buffer is untouched.
\<close>

theorem vga_stays_on_screen:
  assumes "on_screen s" and "vga_run es s = Some t"
  shows "unat (g_row t) < 25 \<and> unat (g_col t) < 80 \<and> (\<forall>i. 2000 \<le> i \<longrightarrow> VGA_BUFFER t i = VGA_BUFFER s i)"
proof -
  have "within s t"
    using assms
  proof (induction es arbitrary: s)
    case Nil
    then show ?case by (simp add: within_def)
  next
    case (Cons e es)
    then obtain u where u: "vga_step e s = Some u" "vga_run es u = Some t" by (auto simp: bind_eq_Some_conv)
    have "within s u" using vga_step_within [OF u(1) Cons.prems(1)] .
    then show ?case using Cons.IH [OF _ u(2)] within_trans by (auto simp: within_def)
  qed
  then show ?thesis by (auto simp: within_def on_screen_def)
qed

definition vga_small :: vga where
  "vga_small = \<lparr>VGA_BUFFER = (\<lambda>_. 0), physmap = True, g_row = 24, g_col = 79, g_color = 7, ports = []\<rparr>"

theorem vga_stays_on_screen_witness:
  "\<exists>t. vga_run [Put 65, Put 10, Back] vga_small = Some t \<and> unat (g_row t) < 25 \<and> VGA_BUFFER t 2000 = 0"
proof -
  obtain t where run: "vga_run [Put 65, Put 10, Back] vga_small = Some t" by simp
  have "on_screen vga_small" by (simp add: on_screen_def vga_small_def)
  then show ?thesis using vga_stays_on_screen [OF _ run] run by (auto simp: vga_small_def)
qed

end
