(* ===== verification/Fd.thy ===== *)
theory Fd
  imports Signal Vfs Keyboard Vga Vmm
begin

text \<open>
  File descriptors, src/src/proc/fd.c, with the parts of fork and exit in src/src/proc/syscalls.c that
  copy and release them. The state \<open>os\<close> joins the states of the components. The heap of the
  processes and the heap of the file systems are one heap: \<open>on_vfs\<close> hands it to the file systems and takes it back. A reader
  of the console halts the CPU while there is no key; \<open>halt k\<close> is what happens to the console during the k-th halt, and \<open>others\<close>
  is what other processes do to a pipe while the caller waits. The memory of the caller's buffer
  is a function of the index. \<open>None\<close> means that the call does not return, or that a descriptor has a pointer of the wrong type.
\<close>

unbundle bit_operations_syntax

section \<open>The state\<close>

record console =
  g_termios :: ktermios
  keys :: ring
  screen :: vga

record os =
  bas :: sys
  fsys :: vfs
  mem :: vm
  con :: console
  g_rand :: u32
  ticks :: u32

definition pit_uptime_ms :: "os \<Rightarrow> u32" where
  "pit_uptime_ms s = ticks s"

definition view :: "os \<Rightarrow> sysview" where
  "view s = \<lparr>vw_kern = ks (bas s), vw_ms = pit_uptime_ms s, vw_frames = pmm_free_count (frames (mem s))\<rparr>"

definition on_vfs :: "(vfs \<Rightarrow> ('a \<times> vfs) option) \<Rightarrow> os \<Rightarrow> ('a \<times> os) option" where
  "on_vfs f s = do {
     (r, v) \<leftarrow> f ((fsys s)\<lparr>nox := (nox (fsys s))\<lparr>fheap := kheap (ks (bas s))\<rparr>\<rparr>);
     Some (r, s\<lparr>fsys := v, bas := (bas s)\<lparr>ks := (ks (bas s))\<lparr>kheap := fheap (nox v)\<rparr>\<rparr>\<rparr>)
   }"

abbreviation cur :: "os \<Rightarrow> process" where
  "cur s \<equiv> current (bas s)"

definition set_fd :: "nat \<Rightarrow> fd \<Rightarrow> os \<Rightarrow> os" where
  "set_fd i e s = s\<lparr>bas := on_current (\<lambda>p. p\<lparr>fds := (fds p)(i := e)\<rparr>) (bas s)\<rparr>"

definition on_pipes :: "((nat \<Rightarrow> pipe) \<Rightarrow> nat \<Rightarrow> pipe) \<Rightarrow> os \<Rightarrow> os" where
  "on_pipes f s = s\<lparr>bas := (bas s)\<lparr>pipes := f (pipes (bas s))\<rparr>\<rparr>"

section \<open>Descriptors\<close>

definition O_RDONLY :: u32 where "O_RDONLY = 0x00"
definition O_WRONLY :: u32 where "O_WRONLY = 0x01"
definition O_RDWR :: u32 where "O_RDWR = 0x02"
definition O_CREAT :: u32 where "O_CREAT = 0x40"
definition O_TRUNC :: u32 where "O_TRUNC = 0x200"
definition SEEK_SET :: u32 where "SEEK_SET = 0"
definition SEEK_CUR :: u32 where "SEEK_CUR = 1"
definition SEEK_END :: u32 where "SEEK_END = 2"

text \<open>\<open>fd_get\<close>: the slot of an open descriptor of the current process.\<close>

definition fd_get :: "int \<Rightarrow> os \<Rightarrow> nat option" where
  "fd_get fd s =
     (if fd < 0 \<or> fd \<ge> int PROC_MAX_FDS then None
      else if kind (fds (cur s) (nat fd)) = FD_CLOSED then None else Some (nat fd))"

definition dev_kind :: "u32 \<Rightarrow> fd_kind option" where
  "dev_kind ino =
     (if ino = DEV_NULL_INO then Some FD_DEV_NULL
      else if ino = DEV_ZERO_INO then Some FD_DEV_ZERO
      else if ino = DEV_TTY_INO then Some FD_DEV_TTY
      else if ino = DEV_RANDOM_INO then Some FD_DEV_RANDOM
      else None)"

definition rand_next :: "u32 \<Rightarrow> u32 \<Rightarrow> u32" where
  "rand_next ms r =
     (let r = (if r = 0 then let r = ms XOR 0xDEAD1337 in if r = 0 then 1 else r else r)
      in r * 1664525 + 1013904223)"

definition free_fd :: "nat \<Rightarrow> process \<Rightarrow> nat option" where
  "free_fd from p = find (\<lambda>i. kind (fds p i) = FD_CLOSED) [from ..< PROC_MAX_FDS]"

definition sys_open :: "ata_reader \<Rightarrow> cstring \<Rightarrow> u32 \<Rightarrow> os \<Rightarrow> (int \<times> os) option" where
  "sys_open ata path oflags s = do {
     (f, s) \<leftarrow> on_vfs (vfs_lookup_at ata (view s) (cwd_ino (cur s)) path) s;
     (f, s) \<leftarrow> (if f = None \<and> oflags AND O_CREAT \<noteq> 0 then on_vfs (vfs_creat ata path) s else Some (f, s));
     case f of
       None \<Rightarrow> Some (- 1, s)
     | Some v \<Rightarrow> do {
         let s = (if oflags AND O_TRUNC \<noteq> 0 then s\<lparr>fsys := vfile_set v ((vfile_get v (fsys s))\<lparr>f_size := 0\<rparr>) (fsys s)\<rparr> else s);
         case free_fd 3 (cur s) of
           None \<Rightarrow> Some (- 1, s)
         | Some i \<Rightarrow>
             (case dev_kind (f_inode (vfile_get v (fsys s))) of
                Some k \<Rightarrow> Some (int i, set_fd i \<lparr>kind = k, ffile = NULL, offset = 0\<rparr> s)
              | None \<Rightarrow> Some (int i, set_fd i \<lparr>kind = FD_FILE, ffile = VFS_FILE v, offset = 0\<rparr> s))
       }
   }"

definition sys_close :: "int \<Rightarrow> os \<Rightarrow> int \<times> os" where
  "sys_close fd s =
     (case fd_get fd s of
        None \<Rightarrow> (- 1, s)
      | Some i \<Rightarrow>
          let e = fds (cur s) i;
              s = (if fd_is_pipe (kind e) then on_pipes (pipe_close (kind e) (ffile e)) s else s)
          in (0, set_fd i closed_fd s))"

definition sys_dup :: "int \<Rightarrow> os \<Rightarrow> int \<times> os" where
  "sys_dup fd s =
     (case fd_get fd s of
        None \<Rightarrow> (- 1, s)
      | Some i \<Rightarrow>
          let e = fds (cur s) i in
          (case free_fd 0 (cur s) of
             None \<Rightarrow> (- 1, s)
           | Some j \<Rightarrow>
               let s = set_fd j e s
               in (int j, if fd_is_pipe (kind e) then on_pipes (pipe_addref (kind e) (ffile e)) s else s)))"

definition sys_dup2 :: "int \<Rightarrow> int \<Rightarrow> os \<Rightarrow> int \<times> os" where
  "sys_dup2 oldfd newfd s =
     (case fd_get oldfd s of
        None \<Rightarrow> (- 1, s)
      | Some i \<Rightarrow>
          if newfd < 0 \<or> newfd \<ge> int PROC_MAX_FDS then (- 1, s)
          else if oldfd = newfd then (newfd, s)
          else let e = fds (cur s) i;
                   d = fds (cur s) (nat newfd);
                   s = (if fd_is_pipe (kind d) then on_pipes (pipe_close (kind d) (ffile d)) s else s);
                   s = set_fd (nat newfd) e s
               in (newfd, if fd_is_pipe (kind e) then on_pipes (pipe_addref (kind e) (ffile e)) s else s))"

text \<open>\<open>sys_pipe\<close> of \<open>Pipe\<close>, for the current process.\<close>

definition make_pipe :: "os \<Rightarrow> int \<times> (int \<times> int) option \<times> os" where
  "make_pipe s =
     (let (r, ends, p, g) = sys_pipe (cur s) (pipes (bas s))
      in (r, ends, s\<lparr>bas := (on_current (\<lambda>_. p) (bas s))\<lparr>pipes := g\<rparr>\<rparr>))"

definition sys_lseek :: "int \<Rightarrow> u64 \<Rightarrow> u32 \<Rightarrow> os \<Rightarrow> (int \<times> os) option" where
  "sys_lseek fd off whence s =
     (case fd_get fd s of
        None \<Rightarrow> Some (- 1, s)
      | Some i \<Rightarrow>
          let e = fds (cur s) i in
          if kind e \<noteq> FD_FILE then Some (- 1, s)
          else case ffile e of
            VFS_FILE v \<Rightarrow>
              let base = (if whence = SEEK_CUR then ucast (offset e)
                          else if whence = SEEK_END then ucast (f_size (vfile_get v (fsys s))) else 0) :: u64;
                  pos = base + off
              in if sint pos < 0 then Some (- 1, s)
                 else Some (sint pos, set_fd i (e\<lparr>offset := ucast pos\<rparr>) s)
          | _ \<Rightarrow> None)"

section \<open>Reading\<close>

text \<open>The fill loop of \<open>/dev/random\<close>: a 32-bit store for every fourth index.\<close>

fun rand_fill :: "u32 \<Rightarrow> nat \<Rightarrow> u64 \<Rightarrow> (nat \<Rightarrow> u8) \<times> u32 \<Rightarrow> (nat \<Rightarrow> u8) \<times> u32" where
  "rand_fill ms 0 i br = br"
| "rand_fill ms (Suc n) i (b, r) =
     (if i AND 3 = 0
      then let r = rand_next ms r in rand_fill ms n (i + 1) (put_at (unat (i AND 0xFFFFFFFC)) (le32 r) b, r)
      else rand_fill ms n (i + 1) (b, r))"

definition echo_char :: "u8 \<Rightarrow> console \<Rightarrow> console" where
  "echo_char c s = (if tty_echo (g_termios s) then s\<lparr>screen := vga_put_char c (screen s)\<rparr> else s)"

definition echo_erase :: "console \<Rightarrow> console" where
  "echo_erase s = (if tty_echo (g_termios s) then s\<lparr>screen := vga_put_char 8 (vga_put_char 32 (vga_put_char 8 (screen s)))\<rparr> else s)"

partial_function (option) canon_read ::
    "(nat \<Rightarrow> console \<Rightarrow> console) \<Rightarrow> nat \<Rightarrow> u64 \<Rightarrow> u64 \<Rightarrow> (nat \<Rightarrow> u8) \<Rightarrow> console \<Rightarrow> (u64 \<times> (nat \<Rightarrow> u8) \<times> console) option" where
  "canon_read halt k len got buf s =
     (if got < len
      then let (c, r) = kbd_poll (keys s); s = s\<lparr>keys := r\<rparr> in
           if c < 0 then canon_read halt (Suc k) len got buf (halt k s)
           else if c = 8 \<or> c = 0x7F
           then if got > 0 then canon_read halt k len (got - 1) buf (echo_erase s)
                else canon_read halt k len got buf s
           else let b = (if c = 13 then 10 else of_int c) :: u8;
                    s = echo_char b s;
                    buf = buf(unat got := b)
                in if b = 10 then Some (got + 1, buf, s) else canon_read halt k len (got + 1) buf s
      else Some (got, buf, s))"

partial_function (option) raw_read ::
    "(nat \<Rightarrow> console \<Rightarrow> console) \<Rightarrow> u8 \<Rightarrow> nat \<Rightarrow> u64 \<Rightarrow> u64 \<Rightarrow> (nat \<Rightarrow> u8) \<Rightarrow> console \<Rightarrow> (u64 \<times> (nat \<Rightarrow> u8) \<times> console) option" where
  "raw_read halt vmin k len got buf s =
     (if got < len
      then let (c, r) = kbd_poll (keys s); s = s\<lparr>keys := r\<rparr> in
           if c < 0
           then if got \<ge> ucast vmin then Some (got, buf, s) else raw_read halt vmin (Suc k) len got buf (halt k s)
           else let s = echo_char (of_int c) s;
                    buf = buf(unat got := of_int c)
                in if got + 1 \<ge> ucast vmin then Some (got + 1, buf, s)
                   else raw_read halt vmin k len (got + 1) buf s
      else Some (got, buf, s))"

definition con_read ::
    "(nat \<Rightarrow> console \<Rightarrow> console) \<Rightarrow> u64 \<Rightarrow> (nat \<Rightarrow> u8) \<Rightarrow> console \<Rightarrow> (u64 \<times> (nat \<Rightarrow> u8) \<times> console) option" where
  "con_read halt len buf s =
     (if tty_canonical (g_termios s) then canon_read halt 0 len 0 buf s
      else let vmin = c_cc (g_termios s) ! TTY_VMIN; vmin = (if vmin = 0 then 1 else vmin)
           in raw_read halt vmin 0 len 0 buf s)"

text \<open>The copy loop of a file read: from the offset to the end of the file or of the request.\<close>

definition file_read :: "vfs_file \<Rightarrow> u32 \<Rightarrow> u64 \<Rightarrow> (nat \<Rightarrow> u8) \<Rightarrow> (nat \<Rightarrow> u8) \<Rightarrow> nat \<times> (nat \<Rightarrow> u8)" where
  "file_read f off len m buf =
     (let n = min (unat len) (unat (f_size f) - unat off)
      in (n, put_at 0 (map m [unat off ..< unat off + n]) buf))"

definition sys_read ::
    "(nat \<Rightarrow> console \<Rightarrow> console) \<Rightarrow> (nat \<Rightarrow> pipe \<Rightarrow> pipe) \<Rightarrow> int \<Rightarrow> (nat \<Rightarrow> u8) \<Rightarrow> u64 \<Rightarrow> os \<Rightarrow> (u64 \<times> (nat \<Rightarrow> u8) \<times> os) option" where
  "sys_read halt others fd buf len s =
     (case fd_get fd s of
        None \<Rightarrow> Some (- 1, buf, s)
      | Some i \<Rightarrow>
          let e = fds (cur s) i in
          if kind e = FD_DEV_NULL then Some (0, buf, s)
          else if kind e = FD_DEV_ZERO then Some (len, \<lambda>j. if j < unat len then 0 else buf j, s)
          else if kind e = FD_DEV_RANDOM
          then let (b, r) = rand_fill (pit_uptime_ms s) (unat len) 0 (buf, g_rand s) in Some (len, b, s\<lparr>g_rand := r\<rparr>)
          else let i = (if kind e = FD_DEV_TTY then 0 else i); e = fds (cur s) i in
          if kind e = FD_CON_IN then map_option (\<lambda>(n, b, c). (n, b, s\<lparr>con := c\<rparr>)) (con_read halt len buf (con s))
          else if kind e = FD_FILE
          then (case ffile e of
                  VFS_FILE v \<Rightarrow>
                    let f = vfile_get v (fsys s);
                        (n, b) = file_read f (offset e) len (kmem (nox (fsys s)) (f_data f)) buf
                    in Some (of_nat n, b, set_fd i (e\<lparr>offset := offset e + of_nat n\<rparr>) s)
                | _ \<Rightarrow> None)
          else if kind e = FD_PIPE_R
          then (case ffile e of
                  PIPE j \<Rightarrow> map_option (\<lambda>(n, b, pp). (n, b, on_pipes (\<lambda>g. g(j := pp)) s)) (pipe_read others (pipes (bas s) j) buf len)
                | _ \<Rightarrow> None)
          else Some (- 1, buf, s))"

section \<open>Writing\<close>

definition sys_write ::
    "ata_reader \<Rightarrow> (nat \<Rightarrow> pipe \<Rightarrow> pipe) \<Rightarrow> int \<Rightarrow> (nat \<Rightarrow> u8) \<Rightarrow> u64 \<Rightarrow> os \<Rightarrow> (u64 \<times> os) option" where
  "sys_write ata others fd buf len s =
     (case fd_get fd s of
        None \<Rightarrow> Some (- 1, s)
      | Some i \<Rightarrow>
          let e = fds (cur s) i;
              bytes = map buf [0 ..< unat (ucast len :: u32)] in
          if kind e = FD_DEV_NULL \<or> kind e = FD_DEV_ZERO \<or> kind e = FD_DEV_RANDOM then Some (len, s)
          else let i = (if kind e = FD_DEV_TTY then 1 else i); e = fds (cur s) i in
          if kind e = FD_CON_OUT
          then Some (len, s\<lparr>con := (con s)\<lparr>screen := vga_write_buf bytes (screen (con s))\<rparr>,
                            bas := (bas s)\<lparr>com1 := serial_write_n bytes (com1 (bas s))\<rparr>\<rparr>)
          else if kind e = FD_FILE
          then (case ffile e of
                  VFS_FILE v \<Rightarrow> do {
                    (w, s) \<leftarrow> on_vfs (vfs_write_file ata v (offset e) bytes) s;
                    Some (of_int w, if w > 0 then set_fd i (e\<lparr>offset := offset e + of_int w\<rparr>) s else s)
                  }
                | _ \<Rightarrow> None)
          else if kind e = FD_PIPE_W
          then (case ffile e of
                  PIPE j \<Rightarrow> map_option (\<lambda>(n, pp). (n, on_pipes (\<lambda>g. g(j := pp)) s)) (pipe_write others (pipes (bas s) j) buf len)
                | _ \<Rightarrow> None)
          else Some (- 1, s))"

section \<open>Descriptors across fork\<close>

text \<open>The loop of \<open>sys_fork\<close> over the descriptors: the child's table and the pipe pool.\<close>

definition fork_fds :: "process \<Rightarrow> process \<Rightarrow> (nat \<Rightarrow> pipe) \<Rightarrow> process \<times> (nat \<Rightarrow> pipe)" where
  "fork_fds par child g =
     fold (\<lambda>i (c, g). let c = c\<lparr>fds := (fds c)(i := fds par i)\<rparr>
                      in (c, if fd_is_pipe (kind (fds c i)) then pipe_addref (kind (fds c i)) (ffile (fds c i)) g else g))
       [0 ..< PROC_MAX_FDS] (child, g)"

section \<open>Types of descriptors and counts of pipe ends\<close>

text \<open>The pointer of a descriptor has the type its kind says.\<close>

definition fd_ok :: "fd \<Rightarrow> bool" where
  "fd_ok e \<longleftrightarrow>
     (case kind e of
        FD_FILE \<Rightarrow> (\<exists>v. ffile e = VFS_FILE v)
      | FD_PIPE_R \<Rightarrow> (\<exists>i < NPIPES. ffile e = PIPE i)
      | FD_PIPE_W \<Rightarrow> (\<exists>i < NPIPES. ffile e = PIPE i)
      | _ \<Rightarrow> ffile e = NULL)"

definition is_end :: "fd_kind \<Rightarrow> nat \<Rightarrow> fd \<Rightarrow> int" where
  "is_end k i e = of_bool (kind e = k \<and> ffile e = PIPE i)"

definition table_ends :: "fd_kind \<Rightarrow> nat \<Rightarrow> (nat \<Rightarrow> fd) \<Rightarrow> int" where
  "table_ends k i f = (\<Sum>j < PROC_MAX_FDS. is_end k i (f j))"

definition pipe_ends :: "u64 set \<Rightarrow> (u64 \<Rightarrow> process) \<Rightarrow> fd_kind \<Rightarrow> nat \<Rightarrow> int" where
  "pipe_ends L P k i = (\<Sum>q \<in> L. table_ends k i (fds (P q)))"

text \<open>The counts of every pipe are \<open>T\<close>, and a pipe is in use exactly while it has an end.\<close>

definition counted :: "(nat \<Rightarrow> pipe) \<Rightarrow> (fd_kind \<Rightarrow> nat \<Rightarrow> int) \<Rightarrow> bool" where
  "counted g T \<longleftrightarrow> (\<forall>i < NPIPES. readers (g i) = T FD_PIPE_R i \<and> writers (g i) = T FD_PIPE_W i \<and>
     (pused (g i) \<longleftrightarrow> T FD_PIPE_R i > 0 \<or> T FD_PIPE_W i > 0))"

definition typed :: "u64 set \<Rightarrow> (u64 \<Rightarrow> process) \<Rightarrow> (nat \<Rightarrow> pipe) \<Rightarrow> bool" where
  "typed L P g \<longleftrightarrow> finite L \<and> (\<forall>q \<in> L. \<forall>j < PROC_MAX_FDS. fd_ok (fds (P q) j)) \<and> counted g (pipe_ends L P)"

abbreviation os_typed :: "u64 set \<Rightarrow> os \<Rightarrow> bool" where
  "os_typed L s \<equiv> typed L (procs (ks (bas s))) (pipes (bas s))"

abbreviation running :: "os \<Rightarrow> u64" where
  "running s \<equiv> g_current (ks (bas s))"

lemma is_end_nonneg [simp]: "0 \<le> is_end k i e"
  by (simp add: is_end_def)

lemma table_ends_nonneg [simp]: "0 \<le> table_ends k i f"
  by (simp add: table_ends_def sum_nonneg)

lemma table_ends_upd:
  "j < PROC_MAX_FDS \<Longrightarrow> table_ends k i (f(j := e)) = table_ends k i f - is_end k i (f j) + is_end k i e"
  unfolding table_ends_def by (subst (1 2) sum.remove [of _ j]) (auto intro!: sum.cong)

lemma table_ends_ge: "j < PROC_MAX_FDS \<Longrightarrow> is_end k i (f j) \<le> table_ends k i f"
  unfolding table_ends_def by (rule member_le_sum) auto

lemma pipe_ends_ge: "finite L \<Longrightarrow> q \<in> L \<Longrightarrow> table_ends k i (fds (P q)) \<le> pipe_ends L P k i"
  unfolding pipe_ends_def by (rule member_le_sum) auto

lemma pipe_ends_proc:
  assumes "finite L" "q \<in> L"
  shows "pipe_ends L (P(q := p)) k i = pipe_ends L P k i - table_ends k i (fds (P q)) + table_ends k i (fds p)"
  using assms unfolding pipe_ends_def by (subst (1 2) sum.remove [of _ q]) (auto intro!: sum.cong)

lemma pipe_ends_slot:
  assumes "finite L" "q \<in> L" "j < PROC_MAX_FDS"
  shows "pipe_ends L (P(q := (P q)\<lparr>fds := (fds (P q))(j := e)\<rparr>)) k i = pipe_ends L P k i - is_end k i (fds (P q) j) + is_end k i e"
  using assms by (simp add: pipe_ends_proc table_ends_upd)

lemma pipe_ends_cong: "(\<And>q. q \<in> L \<Longrightarrow> fds (P q) = fds (P' q)) \<Longrightarrow> pipe_ends L P = pipe_ends L P'"
  by (intro ext) (simp add: pipe_ends_def)

lemma counted_cong: "counted g T \<Longrightarrow> (\<And>k i. k = FD_PIPE_R \<or> k = FD_PIPE_W \<Longrightarrow> T' k i = T k i) \<Longrightarrow> counted g T'"
  by (simp add: counted_def)

text \<open>Releasing and adding an end.\<close>

definition drop_end :: "fd \<Rightarrow> (nat \<Rightarrow> pipe) \<Rightarrow> nat \<Rightarrow> pipe" where
  "drop_end e g = (if fd_is_pipe (kind e) then pipe_close (kind e) (ffile e) g else g)"

definition add_end :: "fd \<Rightarrow> (nat \<Rightarrow> pipe) \<Rightarrow> nat \<Rightarrow> pipe" where
  "add_end e g = (if fd_is_pipe (kind e) then pipe_addref (kind e) (ffile e) g else g)"

lemma not_pipe_end: "\<not> fd_is_pipe (kind e) \<Longrightarrow> k = FD_PIPE_R \<or> k = FD_PIPE_W \<Longrightarrow> is_end k i e = 0"
  by (auto simp: is_end_def fd_is_pipe_def)

lemma drop_end_counted:
  assumes c: "counted g T" and e: "fd_ok e" and T: "\<And>k i. is_end k i e \<le> T k i" "\<And>k i. 0 \<le> T k i"
  shows "counted (drop_end e g) (\<lambda>k i. T k i - is_end k i e)"
proof (cases "fd_is_pipe (kind e)")
  case False
  then show ?thesis using c by (auto simp: drop_end_def intro!: counted_cong [OF c] simp: not_pipe_end)
next
  case True
  then obtain n where n: "n < NPIPES" "ffile e = PIPE n" using e by (auto simp: fd_ok_def fd_is_pipe_def)
  have "T (kind e) n \<ge> 1" using T(1) [of "kind e" n] n by (simp add: is_end_def)
  then show ?thesis
    using True c n T(2) [of FD_PIPE_R n] T(2) [of FD_PIPE_W n] unfolding drop_end_def counted_def
    by (auto simp: pipe_close_def pipe_drop_def Let_def is_end_def fd_is_pipe_def)
qed

lemma add_end_counted:
  assumes c: "counted g T" and e: "fd_ok e" and T: "\<And>k i. is_end k i e \<le> T k i" "\<And>k i. 0 \<le> T k i"
  shows "counted (add_end e g) (\<lambda>k i. T k i + is_end k i e)"
proof (cases "fd_is_pipe (kind e)")
  case False
  then show ?thesis using c by (auto simp: add_end_def intro!: counted_cong [OF c] simp: not_pipe_end)
next
  case True
  then obtain n where n: "n < NPIPES" "ffile e = PIPE n" using e by (auto simp: fd_ok_def fd_is_pipe_def)
  have "T (kind e) n \<ge> 1" using T(1) [of "kind e" n] n by (simp add: is_end_def)
  then show ?thesis
    using True c n T(2) [of FD_PIPE_R n] T(2) [of FD_PIPE_W n] unfolding add_end_def counted_def
    by (auto simp: pipe_addref_def is_end_def fd_is_pipe_def)
qed

section \<open>Every operation keeps the types and the counts\<close>

lemma pipe_ends_nonneg [simp]: "0 \<le> pipe_ends L P k i"
  by (simp add: pipe_ends_def sum_nonneg)

lemma typed_facts:
  assumes "typed L P g" "q \<in> L" "j < PROC_MAX_FDS"
  shows "fd_ok (fds (P q) j)" "is_end k i (fds (P q) j) \<le> pipe_ends L P k i"
  using assms table_ends_ge [of j k i "fds (P q)"] pipe_ends_ge [of L q k i P] by (auto simp: typed_def)

text \<open>A slot of a process gets the descriptor \<open>e\<close>, and the counts change accordingly.\<close>

lemma typed_slot:
  assumes t: "typed L P g" and q: "q \<in> L" and j: "j < PROC_MAX_FDS" and e: "fd_ok e"
    and c: "counted g' (\<lambda>k i. pipe_ends L P k i - is_end k i (fds (P q) j) + is_end k i e)"
  shows "typed L (P(q := (P q)\<lparr>fds := (fds (P q))(j := e)\<rparr>)) g'"
proof -
  have "pipe_ends L (P(q := (P q)\<lparr>fds := (fds (P q))(j := e)\<rparr>)) = (\<lambda>k i. pipe_ends L P k i - is_end k i (fds (P q) j) + is_end k i e)"
    using t q j by (intro ext) (simp add: typed_def pipe_ends_slot)
  then show ?thesis using t e c by (simp add: typed_def)
qed

lemma closed_ok [simp]: "fd_ok closed_fd" "is_end FD_PIPE_R i closed_fd = 0" "is_end FD_PIPE_W i closed_fd = 0"
  by (simp_all add: fd_ok_def closed_fd_def is_end_def)

lemma no_pipe_end: "\<not> fd_is_pipe (kind e) \<Longrightarrow> is_end FD_PIPE_R i e = 0 \<and> is_end FD_PIPE_W i e = 0"
  by (simp add: not_pipe_end)

lemma fd_get_facts: "fd_get fd s = Some i \<Longrightarrow> i < PROC_MAX_FDS \<and> kind (fds (cur s) i) \<noteq> FD_CLOSED \<and> fd = int i"
  by (auto simp: fd_get_def split: if_splits)

lemma free_fd_facts: "free_fd a p = Some i \<Longrightarrow> i < PROC_MAX_FDS \<and> kind (fds p i) = FD_CLOSED"
  by (auto simp: free_fd_def find_Some_iff)

text \<open>What the primitives of the operations do to the tables and to the pipes.\<close>

lemma fd_effects [simp]:
  "procs (ks (bas (set_fd i e s))) = (procs (ks (bas s)))(running s := (cur s)\<lparr>fds := (fds (cur s))(i := e)\<rparr>)"
  "pipes (bas (set_fd i e s)) = pipes (bas s)" "g_current (ks (bas (set_fd i e s))) = running s"
  "procs (ks (bas (on_pipes f s))) = procs (ks (bas s))" "pipes (bas (on_pipes f s)) = f (pipes (bas s))"
  "g_current (ks (bas (on_pipes f s))) = running s"
  by (simp_all add: set_fd_def on_current_def upd_proc_def current_def on_pipes_def)

lemma close_slot_typed:
  assumes t: "typed L P g" and q: "q \<in> L" and i: "i < PROC_MAX_FDS"
  shows "typed L (P(q := (P q)\<lparr>fds := (fds (P q))(i := closed_fd)\<rparr>)) (drop_end (fds (P q) i) g)"
proof (rule typed_slot [OF t q i closed_ok(1)])
  note f = typed_facts [OF t q i]
  have "counted (drop_end (fds (P q) i) g) (\<lambda>k i'. pipe_ends L P k i' - is_end k i' (fds (P q) i))"
    using t f by (intro drop_end_counted) (auto simp: typed_def)
  then show "counted (drop_end (fds (P q) i) g) (\<lambda>k i'. pipe_ends L P k i' - is_end k i' (fds (P q) i) + is_end k i' closed_fd)"
    by (rule counted_cong) auto
qed

lemma copy_slot_typed:
  assumes t: "typed L P g" and q: "q \<in> L" and i: "i < PROC_MAX_FDS" and j: "j < PROC_MAX_FDS" "\<not> fd_is_pipe (kind (fds (P q) j))"
  shows "typed L (P(q := (P q)\<lparr>fds := (fds (P q))(j := fds (P q) i)\<rparr>)) (add_end (fds (P q) i) g)"
proof (rule typed_slot [OF t q j(1)])
  note f = typed_facts [OF t q i]
  show "fd_ok (fds (P q) i)" by (rule f)
  have "counted (add_end (fds (P q) i) g) (\<lambda>k i'. pipe_ends L P k i' + is_end k i' (fds (P q) i))"
    using t f by (intro add_end_counted) (auto simp: typed_def)
  then show "counted (add_end (fds (P q) i) g) (\<lambda>k i'. pipe_ends L P k i' - is_end k i' (fds (P q) j) + is_end k i' (fds (P q) i))"
    by (rule counted_cong) (auto simp: not_pipe_end [OF j(2)])
qed

lemma close_typed:
  assumes t: "os_typed L s" and q: "running s \<in> L"
  shows "os_typed L (snd (sys_close fd s))"
proof (cases "fd_get fd s")
  case None
  then show ?thesis using t by (simp add: sys_close_def)
next
  case (Some i)
  then show ?thesis using close_slot_typed [OF t q, of i] fd_get_facts [OF Some]
    by (auto simp: sys_close_def Let_def drop_end_def current_def)
qed

lemma dup_typed:
  assumes t: "os_typed L s" and q: "running s \<in> L"
  shows "os_typed L (snd (sys_dup fd s))"
proof (cases "fd_get fd s")
  case None
  then show ?thesis using t by (simp add: sys_dup_def)
next
  case (Some i)
  show ?thesis
  proof (cases "free_fd 0 (cur s)")
    case None
    then show ?thesis using t Some by (simp add: sys_dup_def)
  next
    case j: (Some j)
    then show ?thesis using copy_slot_typed [OF t q, of i j] fd_get_facts [OF Some] free_fd_facts [OF j] Some
      by (auto simp: sys_dup_def Let_def add_end_def current_def fd_is_pipe_def)
  qed
qed

lemma dup2_typed:
  assumes t: "os_typed L s" and q: "running s \<in> L"
  shows "os_typed L (snd (sys_dup2 oldfd newfd s))"
proof (cases "fd_get oldfd s")
  case None
  then show ?thesis using t by (simp add: sys_dup2_def)
next
  case (Some i)
  note i = fd_get_facts [OF Some]
  show ?thesis
  proof (cases "newfd < 0 \<or> newfd \<ge> int PROC_MAX_FDS \<or> oldfd = newfd")
    case True
    then show ?thesis using t Some by (auto simp: sys_dup2_def)
  next
    case False
    let ?n = "nat newfd" and ?P = "procs (ks (bas s))"
    have n: "?n < PROC_MAX_FDS" "?n \<noteq> i" using False i by auto
    note c = close_slot_typed [OF t q n(1)]
    let ?P' = "?P(running s := (cur s)\<lparr>fds := (fds (cur s))(?n := closed_fd)\<rparr>)"
    have "typed L ?P' (drop_end (fds (cur s) ?n) (pipes (bas s)))" using c by (simp add: current_def)
    from copy_slot_typed [OF this q _ n(1), of i] show ?thesis
      using False Some i n by (auto simp: sys_dup2_def Let_def add_end_def drop_end_def current_def fd_is_pipe_def closed_fd_def)
  qed
qed

lemma scan_fds_facts:
  "i \<le> PROC_MAX_FDS \<Longrightarrow> scan_fds f i rfd = (r, w) \<Longrightarrow> rfd \<ge> 0 \<longrightarrow> nat rfd < i \<and> kind (f (nat rfd)) = FD_CLOSED \<Longrightarrow> 0 \<le> r \<Longrightarrow> 0 \<le> w \<Longrightarrow>
   nat r < nat w \<and> nat w < PROC_MAX_FDS \<and> kind (f (nat r)) = FD_CLOSED \<and> kind (f (nat w)) = FD_CLOSED"
proof (induction f i rfd rule: scan_fds.induct)
  case (1 f i rfd)
  show ?case
  proof (cases "i < PROC_MAX_FDS")
    case False
    then show ?thesis using 1(4,7) by (simp add: scan_fds.simps)
  next
    case True
    then show ?thesis using 1 by (auto simp: scan_fds.simps [of f i rfd] split: if_splits)
  qed
qed

lemma free_pipe_facts: "free_pipe g i = Some n \<Longrightarrow> n < NPIPES \<and> \<not> pused (g n)"
  by (induction g i rule: free_pipe.induct) (auto simp: free_pipe.simps split: if_splits)

lemma pipe_typed:
  assumes t: "os_typed L s" and q: "running s \<in> L"
  shows "os_typed L (snd (snd (make_pipe s)))"
proof -
  obtain r w where rw: "scan_fds (fds (cur s)) 0 (- 1) = (r, w)" by (cases "scan_fds (fds (cur s)) 0 (- 1)")
  show ?thesis
  proof (cases "r < 0 \<or> w < 0 \<or> free_pipe (pipes (bas s)) 0 = None")
    case True
    then have "sys_pipe (cur s) (pipes (bas s)) = (- 1, None, cur s, pipes (bas s))" using rw by (auto simp: sys_pipe_def split: option.splits)
    then show ?thesis using t by (simp add: make_pipe_def on_current_def upd_proc_def current_def)
  next
    case False
    then obtain n where n: "free_pipe (pipes (bas s)) 0 = Some n" by blast
    let ?P = "procs (ks (bas s))" and ?q = "running s" and ?g = "pipes (bas s)"
    let ?R = "\<lparr>kind = FD_PIPE_R, ffile = PIPE n, offset = 0\<rparr>" and ?W = "\<lparr>kind = FD_PIPE_W, ffile = PIPE n, offset = 0\<rparr>"
    let ?f = "(fds (cur s))(nat r := ?R, nat w := ?W)"
    let ?g' = "?g(n := (?g n)\<lparr>head := 0, tail := 0, count := 0, readers := 1, writers := 1, pused := True\<rparr>)"
    have f: "nat r < nat w" "nat w < PROC_MAX_FDS" "kind (fds (cur s) (nat r)) = FD_CLOSED" "kind (fds (cur s) (nat w)) = FD_CLOSED"
      using scan_fds_facts [OF _ rw] False by auto
    have nf: "n < NPIPES" "\<not> pused (?g n)" using free_pipe_facts [OF n] by auto
    have c: "counted ?g (pipe_ends L ?P)" "finite L" using t by (simp_all add: typed_def)
    then have z: "pipe_ends L ?P FD_PIPE_R n = 0" "pipe_ends L ?P FD_PIPE_W n = 0"
      using nf pipe_ends_nonneg [of L ?P FD_PIPE_R n] pipe_ends_nonneg [of L ?P FD_PIPE_W n] by (auto simp: counted_def)
    have e: "table_ends k i ?f = table_ends k i (fds (cur s)) + is_end k i ?R + is_end k i ?W" if "k = FD_PIPE_R \<or> k = FD_PIPE_W" for k i
      using f that by (auto simp: table_ends_upd is_end_def)
    have p: "pipe_ends L (?P(?q := (cur s)\<lparr>fds := ?f\<rparr>)) k i = pipe_ends L ?P k i + is_end k i ?R + is_end k i ?W"
      if "k = FD_PIPE_R \<or> k = FD_PIPE_W" for k i
      using pipe_ends_proc [OF c(2) q, of ?P "(cur s)\<lparr>fds := ?f\<rparr>" k i] e [OF that, of i] by (simp add: current_def)
    have "counted ?g' (pipe_ends L (?P(?q := (cur s)\<lparr>fds := ?f\<rparr>)))"
      unfolding counted_def
    proof (intro allI impI)
      fix i assume i: "i < NPIPES"
      show "readers (?g' i) = pipe_ends L (?P(?q := (cur s)\<lparr>fds := ?f\<rparr>)) FD_PIPE_R i \<and>
         writers (?g' i) = pipe_ends L (?P(?q := (cur s)\<lparr>fds := ?f\<rparr>)) FD_PIPE_W i \<and>
         (pused (?g' i) \<longleftrightarrow> pipe_ends L (?P(?q := (cur s)\<lparr>fds := ?f\<rparr>)) FD_PIPE_R i > 0 \<or> pipe_ends L (?P(?q := (cur s)\<lparr>fds := ?f\<rparr>)) FD_PIPE_W i > 0)"
        using c(1) i z by (cases "i = n") (auto simp: p is_end_def counted_def)
    qed
    moreover have "fd_ok ?R" "fd_ok ?W" using nf by (auto simp: fd_ok_def)
    ultimately have "typed L (?P(?q := (cur s)\<lparr>fds := ?f\<rparr>)) ?g'" using t q by (auto simp: typed_def current_def)
    then show ?thesis using False rw n by (simp add: make_pipe_def sys_pipe_def on_current_def upd_proc_def current_def)
  qed
qed

text \<open>The file systems touch neither descriptors nor pipes.\<close>

lemma on_vfs_keeps:
  assumes "on_vfs f s = Some (r, t)"
  shows "procs (ks (bas t)) = procs (ks (bas s))" "pipes (bas t) = pipes (bas s)" "running t = running s" "cur t = cur s"
  using assms by (auto simp: on_vfs_def current_def bind_eq_Some_conv split: prod.splits)

text \<open>A slot that holds no pipe end gets a descriptor that is none.\<close>

lemma plain_slot_typed:
  assumes t: "os_typed L s" and q: "running s \<in> L" and i: "i < PROC_MAX_FDS" and d: "\<not> fd_is_pipe (kind (fds (cur s) i))"
    and e: "fd_ok e" "\<not> fd_is_pipe (kind e)"
  shows "os_typed L (set_fd i e s)"
proof -
  have "counted (pipes (bas s)) (pipe_ends L (procs (ks (bas s))))" using t by (simp add: typed_def)
  then have "counted (pipes (bas s)) (\<lambda>k i'. pipe_ends L (procs (ks (bas s))) k i' - is_end k i' (fds (procs (ks (bas s)) (running s)) i) + is_end k i' e)"
    by (rule counted_cong) (use not_pipe_end [OF d] not_pipe_end [OF e(2)] in \<open>simp add: current_def\<close>)
  from typed_slot [OF t q i e(1) this] show ?thesis by (simp add: current_def)
qed

lemma open_typed:
  assumes t: "os_typed L s" and q: "running s \<in> L" and o: "sys_open ata path fl s = Some (r, u)"
  shows "os_typed L u"
proof -
  obtain f s1 where f: "on_vfs (vfs_lookup_at ata (view s) (cwd_ino (cur s)) path) s = Some (f, s1)"
    using o by (auto simp: sys_open_def bind_eq_Some_conv)
  note k1 = on_vfs_keeps [OF f]
  obtain f' s2 where f': "(if f = None \<and> fl AND O_CREAT \<noteq> 0 then on_vfs (vfs_creat ata path) s1 else Some (f, s1)) = Some (f', s2)"
    using o f by (auto simp: sys_open_def bind_eq_Some_conv split: prod.splits)
  have k2: "procs (ks (bas s2)) = procs (ks (bas s1))" "pipes (bas s2) = pipes (bas s1)" "running s2 = running s1" "cur s2 = cur s1"
    using f' on_vfs_keeps [of "vfs_creat ata path" s1 f' s2] by (auto split: if_splits)
  show ?thesis
  proof (cases f')
    case None
    then show ?thesis using o f f' t k1 k2 by (simp add: sys_open_def)
  next
    case (Some v)
    define s3 where "s3 = (if fl AND O_TRUNC \<noteq> 0 then s2\<lparr>fsys := vfile_set v ((vfile_get v (fsys s2))\<lparr>f_size := 0\<rparr>) (fsys s2)\<rparr> else s2)"
    have k3: "procs (ks (bas s3)) = procs (ks (bas s))" "pipes (bas s3) = pipes (bas s)" "running s3 = running s" "cur s3 = cur s"
      using k1 k2 by (simp_all add: s3_def)
    have t3: "os_typed L s3" "running s3 \<in> L" using t q k3 by simp_all
    have o': "(case free_fd 3 (cur s3) of None \<Rightarrow> Some (- 1, s3)
         | Some i \<Rightarrow> (case dev_kind (f_inode (vfile_get v (fsys s3))) of
                Some k \<Rightarrow> Some (int i, set_fd i \<lparr>kind = k, ffile = NULL, offset = 0\<rparr> s3)
              | None \<Rightarrow> Some (int i, set_fd i \<lparr>kind = FD_FILE, ffile = VFS_FILE v, offset = 0\<rparr> s3))) = Some (r, u)"
      using o by (simp only: sys_open_def f f' [unfolded Some] bind.bind_lunit prod.case option.case Let_def s3_def)
    show ?thesis
    proof (cases "free_fd 3 (cur s3)")
      case None
      then show ?thesis using o' t3 by simp
    next
      case (Some i)
      have "fd_ok \<lparr>kind = k, ffile = NULL, offset = 0\<rparr> \<and> \<not> fd_is_pipe k" if "dev_kind x = Some k" for k x
        using that by (auto simp: dev_kind_def fd_ok_def fd_is_pipe_def split: if_splits)
      moreover have "fd_ok \<lparr>kind = FD_FILE, ffile = VFS_FILE v, offset = 0\<rparr>" by (simp add: fd_ok_def)
      moreover note fr = free_fd_facts [OF Some]
      ultimately show ?thesis
        using o' Some plain_slot_typed [OF t3, of i] by (auto simp: fd_is_pipe_def split: option.splits)
    qed
  qed
qed

lemma offset_slot_typed:
  assumes t: "os_typed L s" and q: "running s \<in> L" and i: "i < PROC_MAX_FDS"
  shows "os_typed L (set_fd i ((fds (cur s) i)\<lparr>offset := x\<rparr>) s)"
proof -
  have e: "is_end k n (e\<lparr>offset := x\<rparr>) = is_end k n e" "fd_ok (e\<lparr>offset := x\<rparr>) = fd_ok e" for k n e by (simp_all add: is_end_def fd_ok_def split: fd_kind.split)
  have "counted (pipes (bas s)) (pipe_ends L (procs (ks (bas s))))" using t by (simp add: typed_def)
  with typed_slot [OF t q i, of "(fds (cur s) i)\<lparr>offset := x\<rparr>" "pipes (bas s)"] typed_facts(1) [OF t q i] show ?thesis
    by (simp add: current_def e)
qed

lemma lseek_typed:
  assumes t: "os_typed L s" and q: "running s \<in> L" and o: "sys_lseek fd off wh s = Some (r, u)"
  shows "os_typed L u"
proof (cases "fd_get fd s")
  case None
  then show ?thesis using o t by (simp add: sys_lseek_def)
next
  case (Some i)
  then show ?thesis using o t offset_slot_typed [OF t q] fd_get_facts [OF Some]
    by (auto simp: sys_lseek_def Let_def split: if_splits fptr.splits)
qed

text \<open>Transfers leave the counts of a pipe alone, when the processes that run in between do.\<close>

definition same_ends :: "pipe \<Rightarrow> pipe \<Rightarrow> bool" where
  "same_ends a b \<longleftrightarrow> readers b = readers a \<and> writers b = writers a \<and> pused b = pused a"

lemma same_ends_trans: "same_ends a b \<Longrightarrow> same_ends b c \<Longrightarrow> same_ends a c"
  by (simp add: same_ends_def)

lemma same_ends_moves: "same_ends pp (snd (pipe_get pp))" "same_ends pp (pipe_put c pp)" "same_ends pp pp"
  by (simp_all add: same_ends_def pipe_get_def pipe_put_def)

lemma read_loop_ends:
  assumes "read_loop others k len got buf pp = Some r" "\<And>k pp. same_ends pp (others k pp)"
  shows "same_ends pp (snd (snd r))"
proof -
  have "(\<forall>k pp. same_ends pp (others k pp)) \<longrightarrow> same_ends pp (snd (snd r))"
  proof (rule read_loop.raw_induct [OF _ assms(1), where P = "\<lambda>others k len got buf pp r. (\<forall>k pp. same_ends pp (others k pp)) \<longrightarrow> same_ends pp (snd (snd r))"])
    fix rl :: "(nat \<Rightarrow> pipe \<Rightarrow> pipe) \<Rightarrow> nat \<Rightarrow> u64 \<Rightarrow> u64 \<Rightarrow> (nat \<Rightarrow> u8) \<Rightarrow> pipe \<Rightarrow> (u64 \<times> (nat \<Rightarrow> u8) \<times> pipe) option" and others k len got buf pp r
    assume ih: "\<And>others k len got buf pp r. rl others k len got buf pp = Some r \<Longrightarrow> (\<forall>k pp. same_ends pp (others k pp)) \<longrightarrow> same_ends pp (snd (snd r))"
      and r: "(if got < len then if count pp = 0 then if writers pp = 0 then Some (got, buf, pp) else rl others (Suc k) len got buf (others k pp)
              else let (c, pp) = pipe_get pp in rl others k len (got + 1) (buf(unat got := c)) pp else Some (got, buf, pp)) = Some r"
    show "(\<forall>k pp. same_ends pp (others k pp)) \<longrightarrow> same_ends pp (snd (snd r))"
    proof
      assume o: "\<forall>k pp. same_ends pp (others k pp)"
      obtain c qq where g: "pipe_get pp = (c, qq)" by (cases "pipe_get pp")
      consider "r = (got, buf, pp)" | "rl others (Suc k) len got buf (others k pp) = Some r" | "rl others k len (got + 1) (buf(unat got := c)) qq = Some r"
        using r unfolding g Let_def prod.case by (metis option.inject)
      then show "same_ends pp (snd (snd r))"
      proof cases
        case 2
        then show ?thesis using ih [OF 2] o same_ends_trans by blast
      next
        case 3
        have "same_ends pp qq" using same_ends_moves(1) [of pp] by (simp add: g)
        then show ?thesis using ih [OF 3] o same_ends_trans by blast
      qed (simp add: same_ends_moves)
    qed
  qed
  then show ?thesis using assms(2) by blast
qed

lemma write_loop_ends:
  assumes "write_loop others k len put buf pp = Some r" "\<And>k pp. same_ends pp (others k pp)"
  shows "same_ends pp (snd r)"
proof -
  have "(\<forall>k pp. same_ends pp (others k pp)) \<longrightarrow> same_ends pp (snd r)"
  proof (rule write_loop.raw_induct [OF _ assms(1), where P = "\<lambda>others k len put buf pp r. (\<forall>k pp. same_ends pp (others k pp)) \<longrightarrow> same_ends pp (snd r)"])
    fix wl :: "(nat \<Rightarrow> pipe \<Rightarrow> pipe) \<Rightarrow> nat \<Rightarrow> u64 \<Rightarrow> u64 \<Rightarrow> (nat \<Rightarrow> u8) \<Rightarrow> pipe \<Rightarrow> (u64 \<times> pipe) option" and others k len put buf pp r
    assume ih: "\<And>others k len put buf pp r. wl others k len put buf pp = Some r \<Longrightarrow> (\<forall>k pp. same_ends pp (others k pp)) \<longrightarrow> same_ends pp (snd r)"
      and r: "(if put < len then if readers pp = 0 then Some (if put > 0 then put else - 1, pp)
              else if count pp = PIPE_CAP then wl others (Suc k) len put buf (others k pp)
              else wl others k len (put + 1) buf (pipe_put (buf (unat put)) pp) else Some (put, pp)) = Some r"
    show "(\<forall>k pp. same_ends pp (others k pp)) \<longrightarrow> same_ends pp (snd r)"
    proof
      assume o: "\<forall>k pp. same_ends pp (others k pp)"
      consider "snd r = pp" | "wl others (Suc k) len put buf (others k pp) = Some r" | "wl others k len (put + 1) buf (pipe_put (buf (unat put)) pp) = Some r"
        using r by (metis option.inject snd_conv)
      then show "same_ends pp (snd r)"
      proof cases
        case 2
        then show ?thesis using ih [OF 2] o same_ends_trans by blast
      next
        case 3
        then show ?thesis using ih [OF 3] o same_ends_trans same_ends_moves(2) [of pp] by blast
      qed (simp add: same_ends_moves)
    qed
  qed
  then show ?thesis using assms(2) by blast
qed

lemma transfer_typed:
  assumes "os_typed L s" "same_ends (pipes (bas s) j) pp"
  shows "os_typed L (on_pipes (\<lambda>g. g(j := pp)) s)"
  using assms by (auto simp: typed_def counted_def same_ends_def)

lemma os_typed_fields: "os_typed L (s\<lparr>con := c\<rparr>) = os_typed L s" "os_typed L (s\<lparr>g_rand := r\<rparr>) = os_typed L s"
  by simp_all

lemma read_typed:
  assumes t: "os_typed L s" and q: "running s \<in> L" and o: "sys_read halt others fd buf len s = Some (r, b, u)"
    and k: "\<And>k pp. same_ends pp (others k pp)"
  shows "os_typed L u"
proof (cases "fd_get fd s")
  case None
  then show ?thesis using o t by (simp add: sys_read_def)
next
  case (Some i)
  have i: "i < PROC_MAX_FDS" "0 < PROC_MAX_FDS" using fd_get_facts [OF Some] by simp_all
  define j where "j = (if kind (fds (cur s) i) = FD_DEV_TTY then 0 else i)"
  have j: "j < PROC_MAX_FDS" using i by (simp add: j_def)
  have pr: "os_typed L (on_pipes (\<lambda>g. g(n := pp)) s)" if "pipe_read others (pipes (bas s) n) buf len = Some (m, b, pp)" for n m b pp
    using transfer_typed [OF t] read_loop_ends [OF that [unfolded pipe_read_def] k] by simp
  show ?thesis using o t Some offset_slot_typed [OF t q j] pr
    by (auto simp: sys_read_def Let_def os_typed_fields simp flip: j_def split: if_splits fptr.splits prod.splits)
qed

lemma write_typed:
  assumes t: "os_typed L s" and q: "running s \<in> L" and o: "sys_write ata others fd buf len s = Some (r, u)"
    and k: "\<And>k pp. same_ends pp (others k pp)"
  shows "os_typed L u"
proof (cases "fd_get fd s")
  case None
  then show ?thesis using o t by (simp add: sys_write_def)
next
  case (Some i)
  have i: "i < PROC_MAX_FDS" "1 < PROC_MAX_FDS" using fd_get_facts [OF Some] by (simp_all add: PROC_MAX_FDS_def)
  define j where "j = (if kind (fds (cur s) i) = FD_DEV_TTY then 1 else i)"
  have j: "j < PROC_MAX_FDS" using i by (simp add: j_def)
  have pr: "os_typed L (on_pipes (\<lambda>g. g(n := pp)) s)" if "pipe_write others (pipes (bas s) n) buf len = Some (m, pp)" for n m pp
    using transfer_typed [OF t] write_loop_ends [OF that [unfolded pipe_write_def] k] by simp
  have wf: "os_typed L (set_fd j ((fds (cur s) j)\<lparr>offset := x\<rparr>) v)" "os_typed L v"
    if "on_vfs f s = Some (w :: int, v)" for f w v x
  proof -
    note e = on_vfs_keeps [OF that]
    show "os_typed L v" using t e by simp
    then show "os_typed L (set_fd j ((fds (cur s) j)\<lparr>offset := x\<rparr>) v)" using q e offset_slot_typed [of L v j x] j by simp
  qed
  show ?thesis using o t Some pr wf
    by (auto simp: sys_write_def Let_def bind_eq_Some_conv simp flip: j_def simp del: fd_effects split: if_splits fptr.splits prod.splits)
qed

text \<open>Fork copies every descriptor and adds an end for each pipe descriptor; exit drops them all.\<close>

lemma fork_fds_fold:
  "fold (\<lambda>i (c, g). let c = c\<lparr>fds := (fds c)(i := fds par i)\<rparr>
      in (c, if fd_is_pipe (kind (fds c i)) then pipe_addref (kind (fds c i)) (ffile (fds c i)) g else g)) [0 ..< n] (child, g) =
   (child\<lparr>fds := (\<lambda>j. if j < n then fds par j else fds child j)\<rparr>, fold (\<lambda>i. add_end (fds par i)) [0 ..< n] g)"
proof (induction n)
  case (Suc n)
  let ?F = "\<lambda>i (c, g). let c = c\<lparr>fds := (fds c)(i := fds par i)\<rparr>
      in (c, if fd_is_pipe (kind (fds c i)) then pipe_addref (kind (fds c i)) (ffile (fds c i)) g else g)"
  have e: "(\<lambda>j. if j < n then fds par j else fds child j)(n := fds par n) = (\<lambda>j. if j < Suc n then fds par j else fds child j)" by auto
  have "fold ?F [0 ..< Suc n] (child, g) = ?F n (fold ?F [0 ..< n] (child, g))" by simp
  also have "\<dots> = ?F n (child\<lparr>fds := (\<lambda>j. if j < n then fds par j else fds child j)\<rparr>, fold (\<lambda>i. add_end (fds par i)) [0 ..< n] g)"
    by (simp only: Suc.IH)
  also have "\<dots> = (child\<lparr>fds := (\<lambda>j. if j < Suc n then fds par j else fds child j)\<rparr>, fold (\<lambda>i. add_end (fds par i)) [0 ..< Suc n] g)"
    by (simp add: add_end_def Let_def e)
  finally show ?case .
qed simp

lemma sum_ends_le: "m \<le> PROC_MAX_FDS \<Longrightarrow> (\<Sum>j < m. is_end k i (f j)) \<le> table_ends k i f"
  unfolding table_ends_def by (rule sum_mono2) auto

lemma add_ends_counted:
  assumes "counted g T" "\<And>j. j < PROC_MAX_FDS \<Longrightarrow> fd_ok (f j)" "\<And>k i. table_ends k i f \<le> T k i"
  shows "m \<le> PROC_MAX_FDS \<Longrightarrow> counted (fold (\<lambda>j. add_end (f j)) [0 ..< m] g) (\<lambda>k i. T k i + (\<Sum>j < m. is_end k i (f j)))"
proof (induction m)
  case 0
  then show ?case using assms(1) by simp
next
  case (Suc m)
  let ?T = "\<lambda>k i. T k i + (\<Sum>j < m. is_end k i (f j))"
  have c: "counted (fold (\<lambda>j. add_end (f j)) [0 ..< m] g) ?T" using Suc by simp
  have "is_end k i (f m) \<le> ?T k i" "0 \<le> ?T k i" for k i
  proof -
    have s0: "0 \<le> (\<Sum>j < m. is_end k i (f j))" by (rule sum_nonneg) simp
    show "is_end k i (f m) \<le> ?T k i" using table_ends_ge [of m k i f] assms(3) [of k i] s0 Suc.prems by simp
    then show "0 \<le> ?T k i" using is_end_nonneg [of k i "f m"] by linarith
  qed
  from add_end_counted [OF c assms(2) this] Suc.prems show ?case by (simp add: add.assoc)
qed

lemma drop_ends_counted:
  assumes "counted g T" "\<And>j. j < PROC_MAX_FDS \<Longrightarrow> fd_ok (f j)" "\<And>k i. table_ends k i f \<le> T k i"
  shows "m \<le> PROC_MAX_FDS \<Longrightarrow> counted (fold (\<lambda>j. drop_end (f j)) [0 ..< m] g) (\<lambda>k i. T k i - (\<Sum>j < m. is_end k i (f j)))"
proof (induction m)
  case 0
  then show ?case using assms(1) by simp
next
  case (Suc m)
  let ?T = "\<lambda>k i. T k i - (\<Sum>j < m. is_end k i (f j))"
  have c: "counted (fold (\<lambda>j. drop_end (f j)) [0 ..< m] g) ?T" using Suc by simp
  have "is_end k i (f m) \<le> ?T k i" "0 \<le> ?T k i" for k i
    using sum_ends_le [of "Suc m" k i f] sum_ends_le [of m k i f] assms(3) [of k i] Suc.prems by auto
  from drop_end_counted [OF c assms(2) this] Suc.prems show ?case by (simp add: diff_diff_eq)
qed

lemma fork_typed:
  assumes t: "typed L P g" and q: "q \<in> L" and c: "c \<notin> L" and f: "fork_fds (P q) child g = (child', g')"
  shows "typed (insert c L) (P(c := child')) g'"
proof -
  have ch: "child' = child\<lparr>fds := (\<lambda>j. if j < PROC_MAX_FDS then fds (P q) j else fds child j)\<rparr>"
    and g': "g' = fold (\<lambda>i. add_end (fds (P q) i)) [0 ..< PROC_MAX_FDS] g"
    using f unfolding fork_fds_def fork_fds_fold by auto
  have ok: "\<And>j. j < PROC_MAX_FDS \<Longrightarrow> fd_ok (fds (P q) j)" and fin: "finite L" and co: "counted g (pipe_ends L P)"
    using t q by (auto simp: typed_def)
  have same: "table_ends k i (fds child') = table_ends k i (fds (P q))" for k i unfolding ch table_ends_def by (rule sum.cong) auto
  have "pipe_ends (insert c L) (P(c := child')) = (\<lambda>k i. pipe_ends L P k i + (\<Sum>j < PROC_MAX_FDS. is_end k i (fds (P q) j)))"
  proof (intro ext)
    fix k i
    have "pipe_ends L (P(c := child')) = pipe_ends L P" using c by (intro pipe_ends_cong) auto
    then have "(\<Sum>q \<in> L. table_ends k i (fds ((P(c := child')) q))) = pipe_ends L P k i" by (simp add: pipe_ends_def fun_eq_iff)
    then show "pipe_ends (insert c L) (P(c := child')) k i = pipe_ends L P k i + (\<Sum>j < PROC_MAX_FDS. is_end k i (fds (P q) j))"
      using fin c same by (simp add: pipe_ends_def table_ends_def)
  qed
  moreover have "counted g' (\<lambda>k i. pipe_ends L P k i + (\<Sum>j < PROC_MAX_FDS. is_end k i (fds (P q) j)))"
    unfolding g' by (rule add_ends_counted [OF co ok pipe_ends_ge [OF fin q]]) auto
  moreover have "fd_ok (fds child' j)" if "j < PROC_MAX_FDS" for j using ok that by (simp add: ch)
  ultimately show ?thesis using t by (auto simp: typed_def)
qed

lemma exit_typed:
  assumes t: "typed L P g" and q: "q \<in> L" and f: "\<And>p. p \<in> L \<Longrightarrow> fds (P' p) = fds (P p)"
  shows "typed (L - {q}) P' (fold (\<lambda>j. drop_end (fds (P q) j)) [0 ..< PROC_MAX_FDS] g)"
proof -
  have ok: "\<And>j. j < PROC_MAX_FDS \<Longrightarrow> fd_ok (fds (P q) j)" and fin: "finite L" and co: "counted g (pipe_ends L P)"
    using t q by (auto simp: typed_def)
  have "pipe_ends (L - {q}) P' = pipe_ends (L - {q}) P" using f by (intro pipe_ends_cong) auto
  also have "\<dots> = (\<lambda>k i. pipe_ends L P k i - (\<Sum>j < PROC_MAX_FDS. is_end k i (fds (P q) j)))"
    using fin q by (intro ext) (simp add: pipe_ends_def sum_diff1 table_ends_def)
  finally have "pipe_ends (L - {q}) P' = (\<lambda>k i. pipe_ends L P k i - (\<Sum>j < PROC_MAX_FDS. is_end k i (fds (P q) j)))" .
  then show ?thesis using drop_ends_counted [OF co ok pipe_ends_ge [OF fin q] order_refl] t f by (simp add: typed_def)
qed

lemma upd_proc_fds: "(\<And>p. fds (f p) = fds p) \<Longrightarrow> fds (procs (upd_proc q f s) p) = fds (procs s p)"
  by (simp add: upd_proc_def)

lemma yield_fds: "fds (procs (scheduler_yield s) p) = fds (procs s p)"
proof -
  have k: "fds (procs (kthread_switch a b s) p) = fds (procs s p)" for a b s
    by (simp add: kthread_switch_def upd_proc_fds split: prod.split)
  have w: "fds (procs (yield_switch a b s) p) = fds (procs s p)" for a b s
    by (simp add: yield_switch_def Let_def k upd_proc_fds)
  have d: "procs (yield_dequeue s) = procs s" by (simp add: yield_dequeue_def Let_def)
  have r: "fds (procs (yield_requeue a s) p) = fds (procs s p)" for a s
    by (simp add: yield_requeue_def scheduler_add_def Let_def upd_proc_fds)
  show ?thesis by (simp add: scheduler_yield_def Let_def w r d)
qed

lemma sys_exit_typed:
  assumes t: "os_typed L s" and q: "running s \<in> L" and e: "sys_exit code (bas s) = Runs_other b \<or> sys_exit code (bas s) = Halts b"
  shows "typed (L - {running s}) (procs (ks b)) (pipes b)"
proof -
  let ?u = "upd_proc (running s) (\<lambda>q. q\<lparr>exit_code := code, pstate := PROC_ZOMBIE\<rparr>) (ks (bas s))"
  have u: "fds (procs ?u p) = fds (procs (ks (bas s)) p)" for p by (simp add: upd_proc_fds)
  have "pipes b = fold (\<lambda>j. drop_end (fds (cur s) j)) [0 ..< PROC_MAX_FDS] (pipes (bas s)) \<and> (ks b = ?u \<or> ks b = scheduler_yield ?u)"
    using e by (auto simp: sys_exit_def scheduler_exit_def Let_def drop_end_def [abs_def] split: if_splits exit_outcome.splits)
  then show ?thesis using exit_typed [OF t q, of "procs (ks b)"] u yield_fds by (auto simp: current_def)
qed

section \<open>Runs\<close>

text \<open>
  The processes \<open>L\<close> issue system calls on descriptors in any order. Between the calls of one process other
  things happen, in particular processes are switched, that leave descriptors and pipe counts alone.
\<close>

inductive fd_run :: "ata_reader \<Rightarrow> u64 set \<Rightarrow> os \<Rightarrow> bool" for ata where
  boot: "finite L \<Longrightarrow> (\<And>q. q \<in> L \<Longrightarrow> \<exists>old. fds (procs (ks (bas s)) q) = std_fds old) \<Longrightarrow>
    (\<And>i. i < NPIPES \<Longrightarrow> \<not> pused (pipes (bas s) i) \<and> readers (pipes (bas s) i) = 0 \<and> writers (pipes (bas s) i) = 0) \<Longrightarrow> fd_run ata L s"
| elsewhere: "fd_run ata L s \<Longrightarrow> (\<And>q. q \<in> L \<Longrightarrow> fds (procs (ks (bas t)) q) = fds (procs (ks (bas s)) q)) \<Longrightarrow>
    (\<And>i. i < NPIPES \<Longrightarrow> same_ends (pipes (bas s) i) (pipes (bas t) i)) \<Longrightarrow> fd_run ata L t"
| opens: "fd_run ata L s \<Longrightarrow> running s \<in> L \<Longrightarrow> sys_open ata path fl s = Some (r, t) \<Longrightarrow> fd_run ata L t"
| closes: "fd_run ata L s \<Longrightarrow> running s \<in> L \<Longrightarrow> sys_close fd s = (r, t) \<Longrightarrow> fd_run ata L t"
| dups: "fd_run ata L s \<Longrightarrow> running s \<in> L \<Longrightarrow> sys_dup fd s = (r, t) \<Longrightarrow> fd_run ata L t"
| dup2s: "fd_run ata L s \<Longrightarrow> running s \<in> L \<Longrightarrow> sys_dup2 fd fd' s = (r, t) \<Longrightarrow> fd_run ata L t"
| makes: "fd_run ata L s \<Longrightarrow> running s \<in> L \<Longrightarrow> make_pipe s = (r, ends, t) \<Longrightarrow> fd_run ata L t"
| seeks: "fd_run ata L s \<Longrightarrow> running s \<in> L \<Longrightarrow> sys_lseek fd off wh s = Some (r, t) \<Longrightarrow> fd_run ata L t"
| reads: "fd_run ata L s \<Longrightarrow> running s \<in> L \<Longrightarrow> sys_read halt others fd buf len s = Some (r', b, t) \<Longrightarrow> (\<And>k pp. same_ends pp (others k pp)) \<Longrightarrow> fd_run ata L t"
| writes: "fd_run ata L s \<Longrightarrow> running s \<in> L \<Longrightarrow> sys_write ata others fd buf len s = Some (r', t) \<Longrightarrow> (\<And>k pp. same_ends pp (others k pp)) \<Longrightarrow> fd_run ata L t"
| forks: "fd_run ata L s \<Longrightarrow> running s \<in> L \<Longrightarrow> c \<notin> L \<Longrightarrow> fork_fds (cur s) child (pipes (bas s)) = (child', g) \<Longrightarrow>
    procs (ks (bas t)) = (procs (ks (bas s)))(c := child') \<Longrightarrow> pipes (bas t) = g \<Longrightarrow> fd_run ata (insert c L) t"
| exits: "fd_run ata L s \<Longrightarrow> running s \<in> L \<Longrightarrow> sys_exit code (bas s) = Runs_other (bas t) \<or> sys_exit code (bas s) = Halts (bas t) \<Longrightarrow>
    fd_run ata (L - {running s}) t"

lemma std_fds_facts: "j < PROC_MAX_FDS \<Longrightarrow> fd_ok (std_fds old j) \<and> \<not> fd_is_pipe (kind (std_fds old j))"
  by (simp add: std_fds_def Let_def fd_ok_def closed_fd_def fd_is_pipe_def)

lemma boot_typed:
  assumes "finite L" "\<And>q. q \<in> L \<Longrightarrow> \<exists>old. fds (P q) = std_fds old"
    "\<And>i. i < NPIPES \<Longrightarrow> \<not> pused (g i) \<and> readers (g i) = 0 \<and> writers (g i) = 0"
  shows "typed L P g"
proof -
  have z: "pipe_ends L P k i = 0" if "k = FD_PIPE_R \<or> k = FD_PIPE_W" for k i
  proof -
    have "table_ends k i (fds (P q)) = 0" if q: "q \<in> L" for q
    proof -
      obtain old where "fds (P q) = std_fds old" using assms(2) [OF q] by blast
      then show ?thesis using std_fds_facts not_pipe_end \<open>k = FD_PIPE_R \<or> k = FD_PIPE_W\<close> unfolding table_ends_def by (intro sum.neutral) auto
    qed
    then show ?thesis unfolding pipe_ends_def by (intro sum.neutral) auto
  qed
  have "fd_ok (fds (P q) j)" if "q \<in> L" "j < PROC_MAX_FDS" for q j
    using assms(2) [OF that(1)] std_fds_facts [OF that(2)] by auto
  then show ?thesis using assms(1,3) z by (auto simp: typed_def counted_def)
qed

lemma fd_run_typed: "fd_run ata L s \<Longrightarrow> os_typed L s"
proof (induction rule: fd_run.induct)
  case (boot L s)
  then show ?case by (rule boot_typed)
next
  case (elsewhere L s t)
  have "pipe_ends L (procs (ks (bas t))) = pipe_ends L (procs (ks (bas s)))" by (rule pipe_ends_cong) (use elsewhere in blast)
  then show ?case using elsewhere by (auto simp: typed_def counted_def same_ends_def)
next
  case (opens L s path fl r t)
  then show ?case using open_typed by blast
next
  case (closes L s fd r t)
  then show ?case using close_typed [of L s fd] by simp
next
  case (dups L s fd r t)
  then show ?case using dup_typed [of L s fd] by simp
next
  case (dup2s L s fd fd' r t)
  then show ?case using dup2_typed [of L s fd fd'] by simp
next
  case (makes L s r ends t)
  then show ?case using pipe_typed [of L s] by simp
next
  case (seeks L s fd off wh r t)
  then show ?case using lseek_typed by blast
next
  case (reads L s halt others fd buf len r' b t)
  then show ?case using read_typed by blast
next
  case (writes L s others fd buf len r' t)
  then show ?case using write_typed by blast
next
  case (forks L s c child child' g t)
  have "typed (insert c L) ((procs (ks (bas s)))(c := child')) g"
    by (rule fork_typed [OF forks(7,2,3) forks(4) [unfolded current_def]])
  then show ?case unfolding forks(5,6) .
next
  case (exits L s code t)
  then show ?case using sys_exit_typed by blast
qed

text \<open>
  C40: types of descriptors. After any run of descriptor system calls by any number of processes, with forks
  and exits, every descriptor of every live process has a pointer of the type that its kind says; the reader
  and writer counts of each pipe are the numbers of descriptors that refer to its ends, so that the pipe is in use
  exactly while some descriptor refers to it; and a seek, which would have no result
  for a pointer of another type, always has one.
\<close>

theorem descriptors_typed:
  assumes "fd_run ata L s"
  shows "(\<forall>q \<in> L. list_all (\<lambda>j. fd_ok (fds (procs (ks (bas s)) q) j)) [0 ..< PROC_MAX_FDS]) \<and>
    (\<forall>i < NPIPES. readers (pipes (bas s) i) = (\<Sum>q \<in> L. int (card {j. j < PROC_MAX_FDS \<and> kind (fds (procs (ks (bas s)) q) j) = FD_PIPE_R \<and> ffile (fds (procs (ks (bas s)) q) j) = PIPE i})) \<and>
       writers (pipes (bas s) i) = (\<Sum>q \<in> L. int (card {j. j < PROC_MAX_FDS \<and> kind (fds (procs (ks (bas s)) q) j) = FD_PIPE_W \<and> ffile (fds (procs (ks (bas s)) q) j) = PIPE i})) \<and>
       (pused (pipes (bas s) i) \<longleftrightarrow> readers (pipes (bas s) i) + writers (pipes (bas s) i) > 0)) \<and>
    (running s \<in> L \<longrightarrow> sys_lseek fd off wh s \<noteq> None)"
proof (intro conjI)
  note t = fd_run_typed [OF assms]
  show "\<forall>q \<in> L. list_all (\<lambda>j. fd_ok (fds (procs (ks (bas s)) q) j)) [0 ..< PROC_MAX_FDS]"
    using t by (auto simp: typed_def list_all_iff)
  have c: "pipe_ends L P k i = (\<Sum>q \<in> L. int (card {j. j < PROC_MAX_FDS \<and> kind (fds (P q) j) = k \<and> ffile (fds (P q) j) = PIPE i}))" for P k i
  proof -
    have "table_ends k i f = int (card {j. j < PROC_MAX_FDS \<and> kind (f j) = k \<and> ffile (f j) = PIPE i})" for f
    proof -
      have "table_ends k i f = int (card {j \<in> {..< PROC_MAX_FDS}. kind (f j) = k \<and> ffile (f j) = PIPE i})"
        unfolding table_ends_def is_end_def by (simp add: sum.If_cases of_bool_def Int_def)
      then show ?thesis by simp
    qed
    then show ?thesis by (simp add: pipe_ends_def)
  qed
  show "\<forall>i < NPIPES. readers (pipes (bas s) i) = (\<Sum>q \<in> L. int (card {j. j < PROC_MAX_FDS \<and> kind (fds (procs (ks (bas s)) q) j) = FD_PIPE_R \<and> ffile (fds (procs (ks (bas s)) q) j) = PIPE i})) \<and>
       writers (pipes (bas s) i) = (\<Sum>q \<in> L. int (card {j. j < PROC_MAX_FDS \<and> kind (fds (procs (ks (bas s)) q) j) = FD_PIPE_W \<and> ffile (fds (procs (ks (bas s)) q) j) = PIPE i})) \<and>
       (pused (pipes (bas s) i) \<longleftrightarrow> readers (pipes (bas s) i) + writers (pipes (bas s) i) > 0)"
    unfolding c [symmetric]
  proof (intro allI impI)
    fix i assume "i < NPIPES"
    then show "readers (pipes (bas s) i) = pipe_ends L (procs (ks (bas s))) FD_PIPE_R i \<and> writers (pipes (bas s) i) = pipe_ends L (procs (ks (bas s))) FD_PIPE_W i \<and>
        (pused (pipes (bas s) i) \<longleftrightarrow> readers (pipes (bas s) i) + writers (pipes (bas s) i) > 0)"
      using t pipe_ends_nonneg [of L "procs (ks (bas s))" FD_PIPE_R i] pipe_ends_nonneg [of L "procs (ks (bas s))" FD_PIPE_W i]
      by (auto simp: typed_def counted_def simp del: pipe_ends_nonneg)
  qed
  show "running s \<in> L \<longrightarrow> sys_lseek fd off wh s \<noteq> None"
  proof
    assume q: "running s \<in> L"
    show "sys_lseek fd off wh s \<noteq> None"
    proof (cases "fd_get fd s")
      case (Some i)
      then have "fd_ok (fds (cur s) i)" using typed_facts(1) [OF t q, of i] fd_get_facts [OF Some] by (simp add: current_def)
      then show ?thesis using Some by (auto simp: sys_lseek_def Let_def fd_ok_def)
    qed (simp add: sys_lseek_def)
  qed
qed

definition fd_demo :: sys where
  "fd_demo = \<lparr>ks = demo_kern\<lparr>procs := (\<lambda>_. blank_process\<lparr>fds := std_fds (\<lambda>_. closed_fd)\<rparr>)\<rparr>,
     pipes = (\<lambda>_. new_pipe\<lparr>readers := 0, writers := 0, pused := False\<rparr>), com1 = [], umem = (\<lambda>_. 0)\<rparr>"

theorem descriptors_typed_witness:
  "\<forall>s. let t = snd (sys_dup 0 (snd (snd (make_pipe (s\<lparr>bas := fd_demo\<rparr>))))) in
     list_all (\<lambda>j. fd_ok (fds (procs (ks (bas t)) 0x1000) j)) [0 ..< PROC_MAX_FDS] \<and>
     (pused (pipes (bas t) 3) \<longleftrightarrow> readers (pipes (bas t) 3) + writers (pipes (bas t) 3) > 0)"
proof
  fix s :: os
  let ?L = "{0x1000, 0x2000} :: u64 set" and ?ata = "\<lambda>_ _. (OS_ERR_IO, [])"
  let ?s = "s\<lparr>bas := fd_demo\<rparr>"
  let ?t = "snd (snd (make_pipe ?s))" and ?u = "snd (sys_dup 0 (snd (snd (make_pipe ?s))))"
  have "fd_run ?ata ?L ?s" by (rule fd_run.boot) (auto simp: fd_demo_def)
  moreover have r: "running ?s = 0x1000" "running ?t = 0x1000"
    by (simp_all add: fd_demo_def demo_kern_def make_pipe_def on_current_def upd_proc_def split: prod.split)
  moreover have "make_pipe ?s = (fst (make_pipe ?s), fst (snd (make_pipe ?s)), ?t)" by simp
  ultimately have "fd_run ?ata ?L ?t" using fd_run.makes [of ?ata ?L ?s] by (metis insertI1)
  then have "fd_run ?ata ?L ?u" using fd_run.dups [of ?ata ?L ?t 0 "fst (sys_dup 0 ?t)" ?u] r by simp
  from descriptors_typed [OF this] show "let t = ?u in
     list_all (\<lambda>j. fd_ok (fds (procs (ks (bas t)) 0x1000) j)) [0 ..< PROC_MAX_FDS] \<and>
     (pused (pipes (bas t) 3) \<longleftrightarrow> readers (pipes (bas t) 3) + writers (pipes (bas t) 3) > 0)"
    by (simp add: Let_def NPIPES_def)
qed

end
