(* ===== verification/Elf.thy ===== *)
theory Elf
  imports Vmm Serial "HOL-Library.Monad_Syntax"
begin

text \<open>
  The ELF64 loader, src/src/proc/elf.c. The image is the memory that the file's data points to, as a
  function of the offset; the loader knows no length of it. Frames hold 64-bit cells, so a byte store changes one byte
  of a cell. The messages of the loader go to the serial port.
\<close>

unbundle bit_operations_syntax

section \<open>Bytes of physical memory\<close>

definition get_byte :: "nat \<Rightarrow> (nat \<Rightarrow> u64) \<Rightarrow> u8" where
  "get_byte a m = ucast (drop_bit (8 * (a mod 8)) (m (a - a mod 8)))"

definition put_byte :: "nat \<Rightarrow> u8 \<Rightarrow> (nat \<Rightarrow> u64) \<Rightarrow> nat \<Rightarrow> u64" where
  "put_byte a v m =
     m(a - a mod 8 := (m (a - a mod 8) AND NOT (push_bit (8 * (a mod 8)) 0xFF)) OR push_bit (8 * (a mod 8)) (ucast v))"

definition store_byte :: "u64 \<Rightarrow> u8 \<Rightarrow> vm \<Rightarrow> vm" where
  "store_byte a v s = s\<lparr>pmem := put_byte (unat a) v (pmem s)\<rparr>"

section \<open>Headers\<close>

type_synonym image = "nat \<Rightarrow> u8"

definition img16 :: "image \<Rightarrow> nat \<Rightarrow> u16" where
  "img16 m i = ucast (m i) OR push_bit 8 (ucast (m (i + 1)))"

definition img32 :: "image \<Rightarrow> nat \<Rightarrow> u32" where
  "img32 m i = ucast (img16 m i) OR push_bit 16 (ucast (img16 m (i + 2)))"

definition img64 :: "image \<Rightarrow> nat \<Rightarrow> u64" where
  "img64 m i = ucast (img32 m i) OR push_bit 32 (ucast (img32 m (i + 4)))"

record elf64_ehdr =
  e_ident :: "u8 list"
  e_entry :: u64
  e_phoff :: u64
  e_phnum :: u16

record elf64_phdr =
  p_type :: u32
  p_offset :: u64
  p_vaddr :: u64
  p_filesz :: u64
  p_memsz :: u64

definition read_ehdr :: "image \<Rightarrow> elf64_ehdr" where
  "read_ehdr m = \<lparr>e_ident = map m [0 ..< 16], e_entry = img64 m 24, e_phoff = img64 m 32, e_phnum = img16 m 56\<rparr>"

definition read_phdr :: "image \<Rightarrow> nat \<Rightarrow> elf64_phdr" where
  "read_phdr m o1 = \<lparr>p_type = img32 m o1, p_offset = img64 m (o1 + 8), p_vaddr = img64 m (o1 + 16),
     p_filesz = img64 m (o1 + 32), p_memsz = img64 m (o1 + 40)\<rparr>"

definition PT_LOAD :: u32 where "PT_LOAD = 1"

section \<open>Loading\<close>

definition va_to_phys :: "u64 \<Rightarrow> u64 \<Rightarrow> vm \<Rightarrow> u64" where
  "va_to_phys pml4_phys va s =
     (let i4 = pt_index va 39; i3 = pt_index va 30; i2 = pt_index va 21; i1 = pt_index va 12 in
      if entry s pml4_phys i4 AND 1 = 0 then 0
      else let pdpt = frame_of (entry s pml4_phys i4) in
      if entry s pdpt i3 AND 1 = 0 then 0
      else let pd = frame_of (entry s pdpt i3) in
      if entry s pd i2 AND 1 = 0 then 0
      else let pt = frame_of (entry s pd i2) in
      if entry s pt i1 AND 1 = 0 then 0
      else frame_of (entry s pt i1) OR (va AND 0xFFF))"

text \<open>The loop that maps the pages of a segment: \<open>n\<close> of them from \<open>p\<close>.\<close>

fun map_pages :: "u64 \<Rightarrow> u64 \<Rightarrow> nat \<Rightarrow> vm \<Rightarrow> bool \<times> vm" where
  "map_pages as p 0 s = (True, s)"
| "map_pages as p (Suc n) s =
     (let (fr, s) = alloc_frame s in
      if fr = 0 then (False, s)
      else map_pages as (p + 0x1000) n (snd (vmm_map_page_into as p fr (PAGE_RW OR PAGE_USER) s)))"

text \<open>The loop that copies a segment byte by byte and clears the rest: \<open>n\<close> bytes from number \<open>b\<close> on.\<close>

fun copy_bytes :: "u64 \<Rightarrow> image \<Rightarrow> elf64_phdr \<Rightarrow> u64 \<Rightarrow> nat \<Rightarrow> vm \<Rightarrow> bool \<times> vm" where
  "copy_bytes as img ph b 0 s = (True, s)"
| "copy_bytes as img ph b (Suc n) s =
     (let phys = va_to_phys as (p_vaddr ph + b) s in
      if phys = 0 then (False, s)
      else copy_bytes as img ph (b + 1) n
             (store_byte phys (if b < p_filesz ph then img (unat (p_offset ph + b)) else 0) s))"

definition page_count :: "u64 \<Rightarrow> u64 \<Rightarrow> nat" where
  "page_count vstart vend = (unat vend - unat vstart) div 4096"

fun load_segments :: "u64 \<Rightarrow> image \<Rightarrow> nat \<Rightarrow> nat \<Rightarrow> u64 \<Rightarrow> vm \<Rightarrow> u64 option \<times> vm" where
  "load_segments as img o1 0 load_end s = (Some load_end, s)"
| "load_segments as img o1 (Suc n) load_end s =
     (let ph = read_phdr img o1 in
      if p_type ph \<noteq> PT_LOAD then load_segments as img (o1 + 56) n load_end s
      else let vstart = frame_of (p_vaddr ph);
               vend = frame_of (p_vaddr ph + p_memsz ph + 0xFFF);
               load_end = (if vend > load_end then vend else load_end);
               (ok, s) = map_pages as vstart (page_count vstart vend) s in
      if \<not> ok then (None, s)
      else let (ok, s) = copy_bytes as img ph 0 (unat (p_memsz ph)) s in
      if \<not> ok then (None, s) else load_segments as img (o1 + 56) n load_end s)"

text \<open>The entry point (0 on failure), the initial break, which a failure leaves as it was, the memory and the serial log.\<close>

definition elf64_load_into :: "u64 \<Rightarrow> image \<Rightarrow> u64 \<Rightarrow> vm \<times> port_log \<Rightarrow> u64 \<times> u64 \<times> vm \<times> port_log" where
  "elf64_load_into as img brk_out sl =
     (case sl of (s, l) \<Rightarrow>
      let eh = read_ehdr img in
      if take 4 (e_ident eh) \<noteq> [0x7F, ch CHR ''E'', ch CHR ''L'', ch CHR ''F'']
      then (0, brk_out, s, serial_write (str ''[noxis64] elf: bad magic'' @ [10]) l)
      else if e_ident eh ! 4 \<noteq> 2
      then (0, brk_out, s, serial_write (str ''[noxis64] elf: not 64-bit'' @ [10]) l)
      else (case load_segments as img (unat (e_phoff eh)) (unat (e_phnum eh)) 0 s of
              (None, s) \<Rightarrow> (0, brk_out, s, l)
            | (Some load_end, s) \<Rightarrow> (e_entry eh, load_end, s, l)))"

definition elf64_load :: "image \<Rightarrow> vm \<times> port_log \<Rightarrow> u64 \<times> vm \<times> port_log" where
  "elf64_load img sl = (case elf64_load_into (g_kernel_pml4 (fst sl)) img 0 sl of (e, _, s, l) \<Rightarrow> (e, s, l))"

section \<open>Mapping fresh frames\<close>

text \<open>
  \<open>adds r s s'\<close>: the step from \<open>s\<close> to \<open>s'\<close> adds tables and pages to the address space \<open>r\<close>, made of frames that were free, and
  changes no other cell than those of tables of \<open>r\<close> and of frames that were free.
\<close>

definition adds :: "u64 \<Rightarrow> vm \<Rightarrow> vm \<Rightarrow> bool" where
  "adds r s s' \<longleftrightarrow> as_wf s' r \<and> tree s r \<subseteq> tree s' r \<and>
     (\<forall>t \<in> tree s' r. t \<in> tree s r \<or> \<not> taken (frames s) (unat t div 4096)) \<and>
     (\<forall>n. taken (frames s) n \<longrightarrow> taken (frames s') n) \<and>
     (\<forall>c. pmem s' c \<noteq> pmem s c \<longrightarrow> (\<exists>t \<in> tree s' r. in_frame c t) \<or> \<not> taken (frames s) (c div 4096))"

lemma adds_refl: "as_wf s r \<Longrightarrow> adds r s s"
  by (simp add: adds_def)

lemma adds_trans:
  assumes a: "adds r s s'" and b: "adds r s' s''"
  shows "adds r s s''"
proof -
  have "(\<exists>t \<in> tree s'' r. in_frame c t) \<or> \<not> taken (frames s) (c div 4096)" if "pmem s'' c \<noteq> pmem s c" for c
    using that a b unfolding adds_def by (metis subsetD)
  moreover have "t \<in> tree s r \<or> \<not> taken (frames s) (unat t div 4096)" if "t \<in> tree s'' r" for t
    using that a b unfolding adds_def by metis
  ultimately show ?thesis using a b unfolding adds_def by blast
qed

text \<open>A frame that is in use and no table keeps its contents and becomes no table.\<close>

lemma adds_page:
  assumes a: "adds r s s'" and f: "4096 dvd unat f" "taken (frames s) (unat f div 4096)" "f \<notin> tree s r"
  shows "f \<notin> tree s' r" and "k < 4096 \<Longrightarrow> page_word s' f k = page_word s f k"
proof -
  show n: "f \<notin> tree s' r" using a f(2,3) unfolding adds_def by blast
  show "page_word s' f k = page_word s f k" if k: "k < 4096"
  proof (rule ccontr)
    assume d: "page_word s' f k \<noteq> page_word s f k"
    have i: "in_frame (unat f + k) f" "(unat f + k) div 4096 = unat f div 4096" using k f(1) by (auto simp: in_frame_def elim!: dvdE)
    obtain t where t: "t \<in> tree s' r" "in_frame (unat f + k) t"
      using a d i(2) f(2) unfolding adds_def page_word_def by metis
    have "4096 dvd unat t" using as_wf_tree [OF _ t(1)] a by (simp add: adds_def)
    then have "t = f" using in_frame_unique [OF _ f(1) t(2) i(1)] by simp
    then show False using n t(1) by simp
  qed
qed

lemma alloc_frame_total:
  assumes inv: "pmm_inv (frames s)" and free: "Suc n \<le> card (free_frames (frames s))"
  obtains f fr where "alloc_frame s = (f, s\<lparr>frames := fr\<rparr>)" "f \<noteq> 0" "4096 dvd unat f"
    "\<not> taken (frames s) (unat f div 4096)" "taken fr = (taken (frames s))(unat f div 4096 := True)" "pmm_inv fr"
    "n \<le> card (free_frames fr)"
proof (rule alloc_frame_cases [OF inv])
  assume a: "alloc_frame s = (0, s)"
  then have "free_frames (frames s) = {}"
    using pmm_alloc_frame_nonzero [OF inv] by (rule_tac pmm_alloc_frame_cases [OF inv]) (auto simp: alloc_frame_def)
  then show thesis using free by simp
next
  fix f fr assume f: "alloc_frame s = (f, s\<lparr>frames := fr\<rparr>)" "f \<noteq> 0" "4096 dvd unat f"
    "\<not> taken (frames s) (unat f div 4096)" "taken fr = (taken (frames s))(unat f div 4096 := True)" "pmm_inv fr"
  have "free_frames fr = {n. \<not> taken fr n}" "free_frames (frames s) = {n. \<not> taken (frames s) n}" by (auto simp: taken_def)
  then have "free_frames fr = free_frames (frames s) - {unat f div 4096}" unfolding f(5) by auto
  then have "n \<le> card (free_frames fr)"
    using free diff_card_le_card_Diff [of "{unat f div 4096}" "free_frames (frames s)"] by simp
  then show thesis by (rule that [OF f])
qed

lemma map_page_frames:
  assumes "pmm_inv (frames s)" "n + 3 \<le> card (free_frames (frames s))"
  obtains s' where "vmm_map_page_into r va pa flags s = (0, s')" "n \<le> card (free_frames (frames s'))"
proof -
  let ?u = "flags AND PAGE_USER"
  have "Suc (Suc (Suc n)) \<le> card (free_frames (frames s))" using assms(2) by simp
  then obtain s1 where a: "map_level ?u r (pt_index va 39) s = (True, s1)" "pmm_inv (frames s1)" "Suc (Suc n) \<le> card (free_frames (frames s1))"
    by (rule map_level_total [OF assms(1)])
  let ?p = "frame_of (entry s1 r (pt_index va 39))"
  obtain s2 where b: "map_level ?u ?p (pt_index va 30) s1 = (True, s2)" "pmm_inv (frames s2)" "Suc n \<le> card (free_frames (frames s2))"
    by (rule map_level_total [OF a(2,3)])
  let ?d = "frame_of (entry s2 ?p (pt_index va 30))"
  obtain s3 where c: "map_level ?u ?d (pt_index va 21) s2 = (True, s3)" "n \<le> card (free_frames (frames s3))" by (rule map_level_total [OF b(2,3)])
  have "\<exists>s'. vmm_map_page_into r va pa flags s = (0, s') \<and> n \<le> card (free_frames (frames s'))"
    using a(1) b(1) c by (simp add: vmm_map_page_into_def Let_def frame_simps)
  then show thesis using that by blast
qed

text \<open>
  One round of the loops that map fresh frames: allocate a frame, possibly write to it, and map it. \<open>f\<close> is the frame, \<open>e\<close> its
  page table entry.
\<close>

lemma map_fresh:
  assumes wf: "as_wf s r" and va: "user_va va" and free: "n + 4 \<le> card (free_frames (frames s))"
  obtains f fr where "alloc_frame s = (f, s\<lparr>frames := fr\<rparr>)" "f \<noteq> 0" "4096 dvd unat f" "\<not> taken (frames s) (unat f div 4096)"
    "\<forall>s2 flags. frames s2 = fr \<and> (\<forall>c. pmem s2 c \<noteq> pmem s c \<longrightarrow> in_frame c f) \<longrightarrow>
       (\<exists>s3. vmm_map_page_into r va f flags s2 = (0, s3) \<and> adds r s s3 \<and> n \<le> card (free_frames (frames s3)) \<and>
         f \<notin> tree s3 r \<and> taken (frames s3) (unat f div 4096) \<and> (\<forall>k < 4096. page_word s3 f k = page_word s2 f k) \<and>
         (\<forall>va'. user_va va' \<longrightarrow> lookup s3 r va' =
           (if frame_of va' = frame_of va then Some (f OR (flags AND 0xFFF) OR PAGE_PRESENT) else lookup s r va')))"
proof -
  have inv: "pmm_inv (frames s)" using wf by (simp add: as_wf_def)
  have "Suc (n + 3) \<le> card (free_frames (frames s))" using free by simp
  then obtain f fr where f: "alloc_frame s = (f, s\<lparr>frames := fr\<rparr>)" "f \<noteq> 0" "4096 dvd unat f"
    "\<not> taken (frames s) (unat f div 4096)" "taken fr = (taken (frames s))(unat f div 4096 := True)" "pmm_inv fr"
    "n + 3 \<le> card (free_frames fr)" by (rule alloc_frame_total [OF inv])
  have nt: "f \<notin> tree s r" using as_wf_tree [OF wf] f(4) by blast
  have "\<exists>s3. vmm_map_page_into r va f flags s2 = (0, s3) \<and> adds r s s3 \<and> n \<le> card (free_frames (frames s3)) \<and>
         f \<notin> tree s3 r \<and> taken (frames s3) (unat f div 4096) \<and> (\<forall>k < 4096. page_word s3 f k = page_word s2 f k) \<and>
         (\<forall>va'. user_va va' \<longrightarrow> lookup s3 r va' =
           (if frame_of va' = frame_of va then Some (f OR (flags AND 0xFFF) OR PAGE_PRESENT) else lookup s r va'))"
    if s2: "frames s2 = fr" "\<And>c. pmem s2 c \<noteq> pmem s c \<Longrightarrow> in_frame c f" for s2 flags
  proof -
    have same: "entry s2 t i = entry s t i" if "t \<in> tree s r" "i < 512" for t i
    proof (rule entry_outside [OF _ that(2)])
      show "\<not> in_frame c t" if "pmem s2 c \<noteq> pmem s c" for c
        using s2(2) [OF that] in_frame_unique [OF _ f(3)] as_wf_tree [OF wf] nt \<open>t \<in> tree s r\<close> by blast
    qed
    have fr: "pmm_inv (frames s2)" "\<And>t. t \<in> tree s r \<Longrightarrow> taken (frames s2) (unat t div 4096)"
      using as_wf_tree [OF wf] by (auto simp: s2(1) f(5,6))
    note a = as_frame [OF wf same fr]
    obtain s3 where m: "vmm_map_page_into r va f flags s2 = (0, s3)" "n \<le> card (free_frames (frames s3))"
      using map_page_frames [OF fr(1)] f(7) s2(1) by metis
    note c = map_page_into_cases [OF a(1) va m(1)]
    have x: "ext r s2 s3" using c by simp
    have t2: "taken (frames s2) (unat f div 4096)" by (simp add: s2(1) f(5))
    have t3: "tree s2 r \<subseteq> tree s3 r" using x unfolding ext_def tree_def by blast
    have e: "adds r s2 s3" using x t3 unfolding ext_def adds_def by blast
    have "\<not> taken (frames s) (c div 4096)" if "in_frame c f" for c
    proof -
      have "c div 4096 = unat f div 4096" using that f(3) by (auto simp: in_frame_def elim!: dvdE)
      then show ?thesis using f(4) by simp
    qed
    then have "adds r s s2" using a(1,3) s2 f(5) by (auto simp: adds_def)
    then have ad: "adds r s s3" using e by (rule adds_trans)
    have p: "f \<notin> tree s3 r" "\<And>k. k < 4096 \<Longrightarrow> page_word s3 f k = page_word s2 f k"
      using adds_page [OF e f(3) t2] nt a(3) by simp_all
    have "taken (frames s3) (unat f div 4096)" using e t2 by (simp add: adds_def)
    then show ?thesis using m ad p c a(4) frame_of_aligned [OF f(3)] by auto
  qed
  then show thesis by (intro that [OF f(1-4)]) blast
qed

text \<open>The loop that maps \<open>n\<close> fresh frames, each prepared by \<open>w\<close>.\<close>

fun map_loop :: "(u64 \<Rightarrow> vm \<Rightarrow> vm) \<Rightarrow> u64 \<Rightarrow> u64 \<Rightarrow> nat \<Rightarrow> vm \<Rightarrow> bool \<times> vm" where
  "map_loop w as va 0 s = (True, s)"
| "map_loop w as va (Suc n) s =
     (let (f, s) = alloc_frame s in
      if f = 0 then (False, s)
      else map_loop w as (va + 0x1000) n (snd (vmm_map_page_into as va f (PAGE_RW OR PAGE_USER) (w f s))))"

lemma map_pages_loop: "map_pages as va n s = map_loop (\<lambda>_ s. s) as va n s"
  by (induction n arbitrary: va s) (simp_all add: Let_def split: prod.split)

definition pages_in :: "u64 \<Rightarrow> nat \<Rightarrow> u64 \<Rightarrow> bool" where
  "pages_in lo n va \<longleftrightarrow> unat lo \<le> unat va \<and> unat va < unat lo + 4096 * n"

text \<open>A page that \<open>r\<close> maps in \<open>s'\<close>, user writable, to a frame that was free in \<open>s\<close> and is no table.\<close>

definition fresh_page :: "u64 \<Rightarrow> vm \<Rightarrow> vm \<Rightarrow> u64 \<Rightarrow> bool" where
  "fresh_page r s s' e \<longleftrightarrow> e AND 0xFFF = 7 \<and> \<not> taken (frames s) (unat (frame_of e) div 4096) \<and>
     taken (frames s') (unat (frame_of e) div 4096) \<and> frame_of e \<notin> tree s' r"

definition maps_fresh :: "(u64 \<Rightarrow> bool) \<Rightarrow> u64 \<Rightarrow> u64 \<Rightarrow> nat \<Rightarrow> vm \<Rightarrow> vm \<Rightarrow> bool" where
  "maps_fresh Z r lo n s s' \<longleftrightarrow> adds r s s' \<and>
     (\<forall>va. user_va va \<longrightarrow>
        (if pages_in lo n va
         then \<exists>e. lookup s' r va = Some e \<and> fresh_page r s s' e \<and> (\<forall>k < 4096. Z (page_word s' (frame_of e) k))
         else lookup s' r va = lookup s r va)) \<and>
     (\<forall>a b e e'. user_va a \<and> user_va b \<and> pages_in lo n a \<and> pages_in lo n b \<and> lookup s' r a = Some e \<and> lookup s' r b = Some e' \<and>
        frame_of e = frame_of e' \<longrightarrow> frame_of a = frame_of b)"

lemma maps_freshD:
  assumes "maps_fresh Z r lo n s s'"
  shows "adds r s s'"
    and "user_va va \<Longrightarrow> pages_in lo n va \<Longrightarrow>
      \<exists>e. lookup s' r va = Some e \<and> fresh_page r s s' e \<and> (\<forall>k < 4096. Z (page_word s' (frame_of e) k))"
    and "user_va va \<Longrightarrow> \<not> pages_in lo n va \<Longrightarrow> lookup s' r va = lookup s r va"
    and "user_va a \<Longrightarrow> user_va b \<Longrightarrow> pages_in lo n a \<Longrightarrow> pages_in lo n b \<Longrightarrow> lookup s' r a = Some e \<Longrightarrow>
      lookup s' r b = Some e' \<Longrightarrow> frame_of e = frame_of e' \<Longrightarrow> frame_of a = frame_of b"
proof -
  note c = assms [unfolded maps_fresh_def]
  note m = c [THEN conjunct2, THEN conjunct1, rule_format]
  show "adds r s s'" by (rule c [THEN conjunct1])
  show "\<exists>e. lookup s' r va = Some e \<and> fresh_page r s s' e \<and> (\<forall>k < 4096. Z (page_word s' (frame_of e) k))"
    if "user_va va" "pages_in lo n va"
    using m [OF that(1)] unfolding if_P [OF that(2)] .
  show "lookup s' r va = lookup s r va" if "user_va va" "\<not> pages_in lo n va"
    using m [OF that(1)] unfolding if_not_P [OF that(2)] .
  show "user_va a \<Longrightarrow> user_va b \<Longrightarrow> pages_in lo n a \<Longrightarrow> pages_in lo n b \<Longrightarrow> lookup s' r a = Some e \<Longrightarrow>
      lookup s' r b = Some e' \<Longrightarrow> frame_of e = frame_of e' \<Longrightarrow> frame_of a = frame_of b"
    using c [THEN conjunct2, THEN conjunct2] by blast
qed

lemma unat_frame_of: "unat (frame_of e) = unat e - unat e mod 4096"
proof -
  have "frame_of e = e AND NOT (mask 12)" by (simp add: frame_of_def mask_eq_exp_minus_1)
  then show ?thesis by (simp only: word_and_not_mask_unat) simp
qed

lemma page_range: "4096 dvd unat p \<Longrightarrow> frame_of va = p \<longleftrightarrow> pages_in p 1 va"
proof
  assume a: "4096 dvd unat p" "pages_in p 1 va"
  then obtain q where q: "unat p = 4096 * q" by (auto elim: dvdE)
  then have "unat va div 4096 = q" using a(2) by (intro div_nat_eqI) (simp_all add: pages_in_def)
  then have "unat va - unat va mod 4096 = unat p" unfolding minus_mod_eq_mult_div q by simp
  then show "frame_of va = p" by (simp add: word_unat_eq_iff unat_frame_of)
next
  assume "frame_of va = p"
  then have "unat p = unat va - unat va mod 4096" using unat_frame_of by metis
  then show "pages_in p 1 va" unfolding pages_in_def using mod_less_divisor [of 4096 "unat va"] by linarith
qed

lemma fresh_entry:
  assumes "4096 dvd unat f"
  shows "frame_of (f OR ((PAGE_RW OR PAGE_USER) AND 0xFFF) OR PAGE_PRESENT) = f" "(f OR ((PAGE_RW OR PAGE_USER) AND 0xFFF) OR PAGE_PRESENT) AND 0xFFF = 7"
proof -
  have e: "f OR ((PAGE_RW OR PAGE_USER) AND 0xFFF) OR PAGE_PRESENT = f OR 7" by (simp add: PAGE_RW_def PAGE_USER_def PAGE_PRESENT_def)
  have b7: "bit (7 :: u64) n \<longleftrightarrow> n < 3" for n
  proof -
    have m: "(7 :: u64) = mask 3" by (simp add: mask_eq_exp_minus_1)
    show ?thesis unfolding m by (auto simp: bit_mask_iff)
  qed
  show "frame_of (f OR ((PAGE_RW OR PAGE_USER) AND 0xFFF) OR PAGE_PRESENT) = f"
    unfolding e by (rule frame_of_flags [OF assms]) (auto simp only: b7)
  show "(f OR ((PAGE_RW OR PAGE_USER) AND 0xFFF) OR PAGE_PRESENT) AND 0xFFF = 7"
    unfolding e by (rule bit_eqI) (use aligned_bits [OF assms] in \<open>auto simp only: bit_and_iff bit_or_iff bit_low12 b7\<close>)
qed

lemma map_loop_ok:
  assumes w: "\<And>f s. frames (w f s) = frames s" "\<And>f s c. pmem (w f s) c \<noteq> pmem s c \<Longrightarrow> in_frame c f"
    "\<And>f s k. k < 4096 \<Longrightarrow> Z (page_word (w f s) f k)"
    and wf: "as_wf s r" and lo: "4096 dvd unat lo" "unat lo + 4096 * n \<le> 2 ^ 39" and free: "m + 4 * n \<le> card (free_frames (frames s))"
  shows "\<exists>s'. map_loop w r lo n s = (True, s') \<and> m \<le> card (free_frames (frames s')) \<and> maps_fresh Z r lo n s s'"
  using wf lo free
proof (induction n arbitrary: lo s)
  case 0
  then show ?case by (auto simp: maps_fresh_def adds_refl pages_in_def)
next
  case (Suc n)
  have uv: "user_va lo" using Suc.prems(3) by (simp add: user_va_def)
  have "m + 4 * n + 4 \<le> card (free_frames (frames s))" using Suc.prems(4) by simp
  then obtain f fr where f: "alloc_frame s = (f, s\<lparr>frames := fr\<rparr>)" "f \<noteq> 0" "4096 dvd unat f" "\<not> taken (frames s) (unat f div 4096)"
    and st: "\<forall>s2 flags. frames s2 = fr \<and> (\<forall>c. pmem s2 c \<noteq> pmem s c \<longrightarrow> in_frame c f) \<longrightarrow>
       (\<exists>s3. vmm_map_page_into r lo f flags s2 = (0, s3) \<and> adds r s s3 \<and> m + 4 * n \<le> card (free_frames (frames s3)) \<and>
         f \<notin> tree s3 r \<and> taken (frames s3) (unat f div 4096) \<and> (\<forall>k < 4096. page_word s3 f k = page_word s2 f k) \<and>
         (\<forall>va'. user_va va' \<longrightarrow> lookup s3 r va' =
           (if frame_of va' = frame_of lo then Some (f OR (flags AND 0xFFF) OR PAGE_PRESENT) else lookup s r va')))"
    by (rule map_fresh [OF Suc.prems(1) uv])
  let ?s2 = "w f (s\<lparr>frames := fr\<rparr>)"
  have s2: "frames ?s2 = fr" "\<And>c. pmem ?s2 c \<noteq> pmem s c \<Longrightarrow> in_frame c f" using w(1) w(2) [of f "s\<lparr>frames := fr\<rparr>"] by simp_all
  obtain s3 where s3: "vmm_map_page_into r lo f (PAGE_RW OR PAGE_USER) ?s2 = (0, s3)" "adds r s s3" "m + 4 * n \<le> card (free_frames (frames s3))"
     "f \<notin> tree s3 r" "taken (frames s3) (unat f div 4096)" "\<forall>k < 4096. page_word s3 f k = page_word ?s2 f k"
     "\<forall>va'. user_va va' \<longrightarrow> lookup s3 r va' =
           (if frame_of va' = frame_of lo then Some (f OR ((PAGE_RW OR PAGE_USER) AND 0xFFF) OR PAGE_PRESENT) else lookup s r va')"
    using st s2 by blast
  let ?e = "f OR ((PAGE_RW OR PAGE_USER) AND 0xFFF) OR PAGE_PRESENT"
  have nx: "unat (lo + 0x1000) = unat lo + 4096"
    using Suc.prems(3) by (subst unat_add_lem [THEN iffD1]) simp_all
  have wf3: "as_wf s3 r" using s3(2) by (simp add: adds_def)
  obtain s' where s': "map_loop w r (lo + 0x1000) n s3 = (True, s')" "m \<le> card (free_frames (frames s'))" "maps_fresh Z r (lo + 0x1000) n s3 s'"
    using Suc.IH [OF wf3, of "lo + 0x1000"] Suc.prems(2,3) s3(3) nx by auto
  have run: "map_loop w r lo (Suc n) s = (True, s')" using f(1,2) s3(1) s'(1) by simp
  have ad: "adds r s3 s'" "adds r s s'" using maps_freshD(1) [OF s'(3)] adds_trans [OF s3(2)] by auto
  have rng: "pages_in lo (Suc n) va \<longleftrightarrow> frame_of va = lo \<or> pages_in (lo + 0x1000) n va"
    and excl: "pages_in (lo + 0x1000) n va \<Longrightarrow> frame_of va \<noteq> lo" for va
    using page_range [OF Suc.prems(2), of va] by (auto simp: pages_in_def nx)
  have fl: "frame_of lo = lo" using frame_of_aligned [OF Suc.prems(2)] .
  note pg = adds_page [OF ad(1) f(3) s3(5,4)]
  have new: "lookup s' r va = Some ?e" if "user_va va" "frame_of va = lo" for va
    using maps_freshD(3) [OF s'(3) that(1)] excl [of va] that s3(7) fl by auto
  have first: "fresh_page r s s' ?e \<and> (\<forall>k < 4096. Z (page_word s' (frame_of ?e) k))"
  proof -
    have "taken (frames s') (unat f div 4096)" using ad(1) s3(5) by (simp add: adds_def)
    then show ?thesis using f(4) pg s3(6) w(3) by (simp add: fresh_page_def fresh_entry [OF f(3)])
  qed
  have later: "\<exists>e. lookup s' r va = Some e \<and> fresh_page r s3 s' e \<and> (\<forall>k < 4096. Z (page_word s' (frame_of e) k))"
    if "user_va va" "pages_in (lo + 0x1000) n va" for va
    by (rule maps_freshD(2) [OF s'(3) that])
  have mono: "fresh_page r s s' e" if "fresh_page r s3 s' e" for e
    using that s3(2) unfolding fresh_page_def adds_def by blast
  have other: "frame_of e \<noteq> f" if "user_va va" "pages_in (lo + 0x1000) n va" "lookup s' r va = Some e" for va e
    using later [OF that(1,2)] that(3) s3(5) by (auto simp: fresh_page_def)
  have "maps_fresh Z r lo (Suc n) s s'"
    unfolding maps_fresh_def
  proof (intro conjI allI impI)
    show "adds r s s'" by (rule ad(2))
    fix va assume va: "user_va va"
    show "if pages_in lo (Suc n) va
        then \<exists>e. lookup s' r va = Some e \<and> fresh_page r s s' e \<and> (\<forall>k < 4096. Z (page_word s' (frame_of e) k))
        else lookup s' r va = lookup s r va"
    proof (cases "frame_of va = lo")
      case True
      then show ?thesis using new [OF va] first rng by auto
    next
      case no: False
      show ?thesis
      proof (cases "pages_in (lo + 0x1000) n va")
        case True
        then show ?thesis using later [OF va] mono rng by auto
      next
        case False
        then have "lookup s' r va = lookup s3 r va" by (rule maps_freshD(3) [OF s'(3) va])
        then show ?thesis using False no s3(7) va fl rng by simp
      qed
    qed
  next
    fix a b e e'
    assume h: "user_va a \<and> user_va b \<and> pages_in lo (Suc n) a \<and> pages_in lo (Suc n) b \<and> lookup s' r a = Some e \<and> lookup s' r b = Some e' \<and>
        frame_of e = frame_of e'"
    consider "frame_of a = lo" "frame_of b = lo" | "frame_of a = lo" "pages_in (lo + 0x1000) n b"
      | "pages_in (lo + 0x1000) n a" "frame_of b = lo" | "pages_in (lo + 0x1000) n a" "pages_in (lo + 0x1000) n b"
      using h unfolding rng by blast
    then show "frame_of a = frame_of b"
    proof cases
      case 4
      then show ?thesis using maps_freshD(4) [OF s'(3)] h by blast
    qed (use h new other fresh_entry(1) [OF f(3)] in auto)
  qed
  then show ?case using run s'(2) by blast
qed

section \<open>Bytes of a mapped page\<close>

lemma bit_byte_mask: "bit (0xFF :: u64) n \<longleftrightarrow> n < 8"
proof -
  have m: "(0xFF :: u64) = mask 8" by (simp add: mask_eq_exp_minus_1)
  show ?thesis unfolding m by (auto simp: bit_mask_iff)
qed

lemma get_put_byte: "get_byte a (put_byte a' v m) = (if a = a' then v else get_byte a m)"
proof (cases "a - a mod 8 = a' - a' mod 8")
  case True
  let ?j = "a mod 8" and ?i = "a' mod 8" and ?c = "a' - a' mod 8"
  have eq: "a = a' \<longleftrightarrow> ?j = ?i" using True by (metis le_add_diff_inverse2 mod_less_eq_dividend)
  have lt: "?j < 8" "?i < 8" by simp_all
  have c: "bit (put_byte a' v m ?c) k \<longleftrightarrow>
      k < 64 \<and> (if 8 * ?i \<le> k \<and> k < 8 * ?i + 8 then bit v (k - 8 * ?i) else bit (m ?c) k)" for k
  proof -
    obtain M where M: "M = (0xFF :: u64)" by simp
    have b: "bit M n \<longleftrightarrow> n < 8" for n using bit_byte_mask unfolding M .
    show ?thesis
      using lt(2) bit_imp_le_length [of v "k - 8 * ?i"] bit_imp_le_length [of "m ?c" k]
      unfolding put_byte_def fun_upd_same M [symmetric]
      by (auto simp: bit_or_iff bit_and_iff bit_not_iff bit_push_bit_iff b bit_ucast_iff)
  qed
  have g: "bit (get_byte a x) n \<longleftrightarrow> n < 8 \<and> bit (x ?c) (8 * ?j + n)" for x n
    unfolding get_byte_def True by (auto simp: bit_ucast_iff bit_drop_bit_eq)
  show ?thesis
  proof (rule bit_eqI)
    fix n assume "possible_bit TYPE(u8) n"
    then have n: "n < 8" by simp
    have r: "8 * ?i \<le> 8 * ?j + n \<and> 8 * ?j + n < 8 * ?i + 8 \<longleftrightarrow> ?j = ?i" using n by (cases ?j ?i rule: linorder_cases) auto
    have k: "8 * ?j + n < 64" using n lt by linarith
    show "bit (get_byte a (put_byte a' v m)) n = bit (if a = a' then v else get_byte a m) n"
      unfolding g c r eq using n k g [of m n] by auto
  qed
next
  case False
  then have "a \<noteq> a'" by auto
  then show ?thesis using False by (simp add: get_byte_def put_byte_def)
qed

lemma put_byte_cell: "put_byte a v m c \<noteq> m c \<Longrightarrow> c = a - a mod 8"
  by (auto simp: put_byte_def split: if_splits)

text \<open>The physical address behind a user address.\<close>

lemma unat_phys:
  assumes "4096 dvd unat (f :: u64)"
  shows "unat (f OR (va AND 0xFFF)) = unat f + unat va mod 4096"
proof -
  have "f AND (va AND 0xFFF) = 0"
    by (rule bit_eqI) (use aligned_bits [OF assms] in \<open>auto simp only: bit_and_iff bit_low12 bit_0_eq bot_apply bot_bool_def\<close>)
  then have o: "f OR (va AND 0xFFF) = f + (va AND 0xFFF)" by (rule disjunctive_add_eq_or [symmetric])
  have m: "unat (va AND 0xFFF) = unat va mod 4096"
    using word_and_mask_unat [of va 12] by (simp add: mask_eq_exp_minus_1)
  obtain q where q: "unat f = 4096 * q" using assms by (auto elim: dvdE)
  have "unat f < 2 ^ 64" using unsigned_less [of f] by simp
  then have "q < 2 ^ 52" using q by simp
  then have "unat f + unat (va AND 0xFFF) < 2 ^ 64" unfolding m q by (auto simp: less_Suc_eq_le intro: order_le_less_trans [OF add_mono])
  then show ?thesis unfolding o by (subst unat_add_lem [THEN iffD1]) (simp_all add: m)
qed

lemma va_to_phys_lookup:
  "va_to_phys r va s = (case lookup s r va of None \<Rightarrow> 0 | Some e \<Rightarrow> frame_of e OR (va AND 0xFFF))"
  unfolding va_to_phys_def lookup_def Let_def
  by (simp add: nxt_def present_def PAGE_PRESENT_def)

definition user_byte :: "vm \<Rightarrow> u64 \<Rightarrow> u64 \<Rightarrow> u8" where
  "user_byte s r va = get_byte (unat (va_to_phys r va s)) (pmem s)"

lemma va_to_phys_cong: "lookup s' r va = lookup s r va \<Longrightarrow> va_to_phys r va s' = va_to_phys r va s"
  by (simp add: va_to_phys_lookup)

lemma phys_in_frame:
  assumes "lookup s r va = Some e"
  shows "unat (va_to_phys r va s) = unat (frame_of e) + unat va mod 4096"
  using assms unat_phys [OF frame_of_dvd, of e va] by (simp add: va_to_phys_lookup)

lemma store_user:
  fixes v :: u8
  assumes wf: "as_wf s r" and va: "user_va va" "lookup s r va = Some e" "frame_of e \<notin> tree s r"
  defines "s' \<equiv> store_byte (va_to_phys r va s) v s"
  shows "as_wf s' r" "tree s' r = tree s r" "user_va va' \<Longrightarrow> lookup s' r va' = lookup s r va'" "frames s' = frames s"
    and "pmem s' c \<noteq> pmem s c \<Longrightarrow> in_frame c (frame_of e)"
    and "get_byte x (pmem s') = (if x = unat (va_to_phys r va s) then v else get_byte x (pmem s))"
proof -
  let ?a = "unat (va_to_phys r va s)"
  show cell: "in_frame c (frame_of e)" if "pmem s' c \<noteq> pmem s c" for c
  proof -
    have "c = ?a - ?a mod 8" using put_byte_cell [of ?a v "pmem s" c] that by (simp add: s'_def store_byte_def)
    moreover obtain q where "unat (frame_of e) = 8 * (512 * q)" using frame_of_dvd [of e] by (auto elim: dvdE)
    then have "?a div 8 = 512 * q + unat va mod 4096 div 8" "unat (frame_of e) = 8 * (512 * q)"
      unfolding phys_in_frame [OF va(2)] by simp_all
    moreover have "?a - ?a mod 8 = 8 * (?a div 8)" by (rule minus_mod_eq_mult_div)
    moreover have "?a < unat (frame_of e) + 4096" unfolding phys_in_frame [OF va(2)] by simp
    ultimately show ?thesis unfolding in_frame_def by linarith
  qed
  show fr: "frames s' = frames s" by (simp add: s'_def store_byte_def)
  have same: "entry s' t i = entry s t i" if t: "t \<in> tree s r" "i < 512" for t i
  proof (rule entry_outside [OF _ t(2)])
    show "\<not> in_frame c t" if "pmem s' c \<noteq> pmem s c" for c
      using cell [OF that] in_frame_unique [OF _ frame_of_dvd] as_wf_tree [OF wf t(1)] va(3) t(1) by blast
  qed
  have f: "pmm_inv (frames s')" "\<And>t. t \<in> tree s r \<Longrightarrow> taken (frames s') (unat t div 4096)"
    using wf as_wf_tree [OF wf] by (simp_all add: fr as_wf_def)
  note k = as_frame [OF wf same f]
  show "as_wf s' r" by (rule k(1))
  show "tree s' r = tree s r" by (rule k(3))
  show "user_va va' \<Longrightarrow> lookup s' r va' = lookup s r va'" by (rule k(4))
  show "get_byte x (pmem s') = (if x = ?a then v else get_byte x (pmem s))"
    by (simp add: s'_def store_byte_def get_put_byte)
qed

definition seg_byte :: "image \<Rightarrow> elf64_phdr \<Rightarrow> u64 \<Rightarrow> u8" where
  "seg_byte img ph b = (if b < p_filesz ph then img (unat (p_offset ph + b)) else 0)"

lemma copy_bytes_ok:
  fixes b :: u64
  assumes "as_wf s r"
    and "\<forall>x < n. user_va (p_vaddr ph + (b + of_nat x)) \<and>
      (\<exists>e. lookup s r (p_vaddr ph + (b + of_nat x)) = Some e \<and> frame_of e \<notin> tree s r \<and> frame_of e \<noteq> 0)"
    and "\<forall>x < n. \<forall>y < n. va_to_phys r (p_vaddr ph + (b + of_nat x)) s = va_to_phys r (p_vaddr ph + (b + of_nat y)) s \<longrightarrow> x = y"
  shows "\<exists>s'. copy_bytes r img ph b n s = (True, s') \<and> frames s' = frames s \<and> as_wf s' r \<and> tree s' r = tree s r \<and>
    (\<forall>va. user_va va \<longrightarrow> lookup s' r va = lookup s r va) \<and>
    (\<forall>c. pmem s' c \<noteq> pmem s c \<longrightarrow> (\<exists>x < n. \<exists>e. lookup s r (p_vaddr ph + (b + of_nat x)) = Some e \<and> in_frame c (frame_of e))) \<and>
    (\<forall>a. (\<forall>x < n. a \<noteq> unat (va_to_phys r (p_vaddr ph + (b + of_nat x)) s)) \<longrightarrow> get_byte a (pmem s') = get_byte a (pmem s)) \<and>
    (\<forall>x < n. user_byte s' r (p_vaddr ph + (b + of_nat x)) = seg_byte img ph (b + of_nat x))"
  using assms
proof (induction n arbitrary: b s)
  case 0
  then show ?case by simp
next
  case (Suc n)
  let ?va = "\<lambda>x. p_vaddr ph + (b + of_nat x)"
  let ?s1 = "store_byte (va_to_phys r (p_vaddr ph + b) s) (seg_byte img ph b) s"
  obtain e where e: "user_va (p_vaddr ph + b)" "lookup s r (p_vaddr ph + b) = Some e" "frame_of e \<notin> tree s r" "frame_of e \<noteq> 0"
    using Suc.prems(2) [rule_format, of 0] by auto
  note st = store_user [OF Suc.prems(1) e(1-3), where v = "seg_byte img ph b"]
  have nx: "p_vaddr ph + (b + 1 + of_nat x) = ?va (Suc x)" for x by (simp add: algebra_simps)
  have uv: "user_va (?va x)" if "x < Suc n" for x using Suc.prems(2) that by blast
  have ph: "va_to_phys r (?va x) ?s1 = va_to_phys r (?va x) s" if "x < Suc n" for x
    by (rule va_to_phys_cong [OF st(3) [OF uv [OF that]]])
  have pos: "va_to_phys r (p_vaddr ph + b) s \<noteq> 0"
    using phys_in_frame [OF e(2)] e(4) by (auto simp: word_unat_eq_iff)
  have "\<exists>s'. copy_bytes r img ph (b + 1) n ?s1 = (True, s') \<and> frames s' = frames ?s1 \<and> as_wf s' r \<and> tree s' r = tree ?s1 r \<and>
    (\<forall>va. user_va va \<longrightarrow> lookup s' r va = lookup ?s1 r va) \<and>
    (\<forall>c. pmem s' c \<noteq> pmem ?s1 c \<longrightarrow> (\<exists>x < n. \<exists>e. lookup ?s1 r (?va (Suc x)) = Some e \<and> in_frame c (frame_of e))) \<and>
    (\<forall>a. (\<forall>x < n. a \<noteq> unat (va_to_phys r (?va (Suc x)) ?s1)) \<longrightarrow> get_byte a (pmem s') = get_byte a (pmem ?s1)) \<and>
    (\<forall>x < n. user_byte s' r (?va (Suc x)) = seg_byte img ph (b + of_nat (Suc x)))"
  proof -
    have A: "\<forall>x < n. user_va (p_vaddr ph + (b + 1 + of_nat x)) \<and>
      (\<exists>e. lookup ?s1 r (p_vaddr ph + (b + 1 + of_nat x)) = Some e \<and> frame_of e \<notin> tree ?s1 r \<and> frame_of e \<noteq> 0)"
      unfolding nx st(2) using Suc.prems(2) st(3) uv by (metis Suc_less_eq)
    have B: "\<forall>x < n. \<forall>y < n. va_to_phys r (p_vaddr ph + (b + 1 + of_nat x)) ?s1 = va_to_phys r (p_vaddr ph + (b + 1 + of_nat y)) ?s1 \<longrightarrow> x = y"
      unfolding nx using Suc.prems(3) ph by (metis Suc_less_eq Suc_inject)
    have b: "b + 1 + of_nat x = b + of_nat (Suc x)" for x by simp
    show ?thesis using Suc.IH [OF st(1) A B] unfolding nx b .
  qed
  then obtain s' where s': "copy_bytes r img ph (b + 1) n ?s1 = (True, s')" "frames s' = frames ?s1" "as_wf s' r" "tree s' r = tree ?s1 r"
    and lk: "\<forall>va. user_va va \<longrightarrow> lookup s' r va = lookup ?s1 r va"
    and cl: "\<forall>c. pmem s' c \<noteq> pmem ?s1 c \<longrightarrow> (\<exists>x < n. \<exists>e. lookup ?s1 r (?va (Suc x)) = Some e \<and> in_frame c (frame_of e))"
    and gb: "\<forall>a. (\<forall>x < n. a \<noteq> unat (va_to_phys r (?va (Suc x)) ?s1)) \<longrightarrow> get_byte a (pmem s') = get_byte a (pmem ?s1)"
    and ub: "\<forall>x < n. user_byte s' r (?va (Suc x)) = seg_byte img ph (b + of_nat (Suc x))" by blast
  have run: "copy_bytes r img ph b (Suc n) s = (True, s')" using s'(1) pos by (simp add: Let_def seg_byte_def)
  have lk2: "lookup s' r va = lookup s r va" if "user_va va" for va using lk st(3) that by simp
  have "\<exists>x < Suc n. \<exists>e. lookup s r (?va x) = Some e \<and> in_frame c (frame_of e)" if d: "pmem s' c \<noteq> pmem s c" for c
  proof (cases "pmem s' c = pmem ?s1 c")
    case True
    then have "in_frame c (frame_of e)" using d st(5) by simp
    then show ?thesis using e(2) by (intro exI [of _ 0]) simp
  next
    case False
    then show ?thesis using cl st(3) uv by (metis Suc_less_eq)
  qed
  moreover have keep: "get_byte a (pmem s') = get_byte a (pmem s)"
    if "\<forall>x < Suc n. a \<noteq> unat (va_to_phys r (?va x) s)" for a
  proof -
    have "\<forall>x < n. a \<noteq> unat (va_to_phys r (?va (Suc x)) ?s1)" using that ph by (metis Suc_less_eq)
    moreover have "a \<noteq> unat (va_to_phys r (p_vaddr ph + b) s)" using that by (auto dest: spec [of _ 0])
    ultimately show ?thesis using gb st(6) by simp
  qed
  moreover have "user_byte s' r (?va x) = seg_byte img ph (b + of_nat x)" if x: "x < Suc n" for x
  proof (cases x)
    case 0
    have p0: "va_to_phys r (p_vaddr ph + b) s' = va_to_phys r (p_vaddr ph + b) s"
      by (rule va_to_phys_cong [OF lk2 [OF e(1)]])
    have "\<forall>y < n. unat (va_to_phys r (p_vaddr ph + b) s) \<noteq> unat (va_to_phys r (?va (Suc y)) ?s1)"
    proof (intro allI impI notI)
      fix y assume y: "y < n" "unat (va_to_phys r (p_vaddr ph + b) s) = unat (va_to_phys r (?va (Suc y)) ?s1)"
      then have "va_to_phys r (?va 0) s = va_to_phys r (?va (Suc y)) s" using ph [of "Suc y"] by (simp only: word_unat_eq_iff) simp
      then show False using Suc.prems(3) [rule_format, of 0 "Suc y"] y(1) by blast
    qed
    then show ?thesis using gb st(6) 0 p0 by (simp add: user_byte_def)
  next
    case (Suc y)
    then show ?thesis using ub x by simp
  qed
  ultimately show ?case using run s' st(2,4) lk2 by auto
qed

section \<open>Loading an image\<close>

definition seg_count :: "elf64_phdr \<Rightarrow> nat" where
  "seg_count ph = page_count (frame_of (p_vaddr ph)) (frame_of (p_vaddr ph + p_memsz ph + 0xFFF))"

text \<open>The pages of a segment, and a segment that lies in the user half.\<close>

definition in_seg :: "elf64_phdr \<Rightarrow> u64 \<Rightarrow> bool" where
  "in_seg ph va \<longleftrightarrow> pages_in (frame_of (p_vaddr ph)) (seg_count ph) va"

definition seg_ok :: "elf64_phdr \<Rightarrow> bool" where
  "seg_ok ph \<longleftrightarrow> unat (p_vaddr ph) + unat (p_memsz ph) + 4096 \<le> 2 ^ 39"

lemma seg_end:
  assumes "seg_ok ph"
  shows "unat (frame_of (p_vaddr ph)) + 4096 * seg_count ph = unat (frame_of (p_vaddr ph + p_memsz ph + 0xFFF))"
    and "unat (p_vaddr ph) + unat (p_memsz ph) \<le> unat (frame_of (p_vaddr ph + p_memsz ph + 0xFFF))"
    and "unat (frame_of (p_vaddr ph + p_memsz ph + 0xFFF)) \<le> 2 ^ 39"
proof -
  let ?v = "unat (p_vaddr ph)" and ?m = "unat (p_memsz ph)" and ?e = "frame_of (p_vaddr ph + p_memsz ph + 0xFFF)"
  have u: "unat (p_vaddr ph + p_memsz ph + 0xFFF) = ?v + ?m + 4095"
    using assms by (simp add: seg_ok_def unat_word_ariths(1))
  have e: "unat ?e = ?v + ?m + 4095 - (?v + ?m + 4095) mod 4096" using unat_frame_of u by metis
  have l: "(?v + ?m + 4095) mod 4096 \<le> 4095" using mod_less_divisor [of 4096 "?v + ?m + 4095"] by linarith
  show le: "?v + ?m \<le> unat ?e" using e l by linarith
  show "unat ?e \<le> 2 ^ 39" using e assms by (simp add: seg_ok_def)
  have "unat (frame_of (p_vaddr ph)) \<le> unat ?e" using le unat_frame_of [of "p_vaddr ph"] by simp
  moreover have "4096 dvd unat ?e - unat (frame_of (p_vaddr ph))" by (intro dvd_diff_nat frame_of_dvd)
  ultimately show "unat (frame_of (p_vaddr ph)) + 4096 * seg_count ph = unat ?e" by (simp add: seg_count_def page_count_def)
qed

lemma seg_address:
  assumes "seg_ok ph" "x < unat (p_memsz ph)"
  shows "unat (p_vaddr ph + of_nat x) = unat (p_vaddr ph) + x" "user_va (p_vaddr ph + of_nat x)" "in_seg ph (p_vaddr ph + of_nat x)"
proof -
  have "unat (p_memsz ph) < 2 ^ 64" using unsigned_less [of "p_memsz ph"] by simp
  then have x: "unat (of_nat x :: u64) = x" using assms by (simp add: unat_of_nat)
  show u: "unat (p_vaddr ph + of_nat x) = unat (p_vaddr ph) + x"
    using assms x by (simp add: seg_ok_def unat_word_ariths(1))
  show "user_va (p_vaddr ph + of_nat x)" using assms by (simp add: user_va_def u seg_ok_def)
  have "unat (frame_of (p_vaddr ph)) \<le> unat (p_vaddr ph)" by (simp add: unat_frame_of)
  then show "in_seg ph (p_vaddr ph + of_nat x)"
    using seg_end [OF assms(1)] assms(2) by (simp add: in_seg_def pages_in_def u)
qed

lemma zero_taken: "pmm_inv s \<Longrightarrow> taken s 0"
  by (auto simp: taken_def free_frames_def pmm_inv_def)

text \<open>One loadable segment.\<close>

lemma load_segment:
  assumes wf: "as_wf s r" and ok: "seg_ok ph" and free: "m + 4 * seg_count ph \<le> card (free_frames (frames s))"
  obtains s1 s2 where "map_pages r (frame_of (p_vaddr ph)) (seg_count ph) s = (True, s1)"
    "copy_bytes r img ph 0 (unat (p_memsz ph)) s1 = (True, s2)" "m \<le> card (free_frames (frames s2))" "adds r s s2"
    "\<forall>va. user_va va \<and> in_seg ph va \<longrightarrow> (\<exists>e. lookup s2 r va = Some e \<and> fresh_page r s s2 e)"
    "\<forall>va. user_va va \<and> \<not> in_seg ph va \<longrightarrow> lookup s2 r va = lookup s r va"
    "\<forall>x < unat (p_memsz ph). user_byte s2 r (p_vaddr ph + of_nat x) = seg_byte img ph (of_nat x)"
proof -
  let ?lo = "frame_of (p_vaddr ph)" and ?n = "unat (p_memsz ph)" and ?va = "\<lambda>x. p_vaddr ph + of_nat x"
  obtain s1 where s1: "map_pages r ?lo (seg_count ph) s = (True, s1)" "m \<le> card (free_frames (frames s1))"
    "maps_fresh (\<lambda>_. True) r ?lo (seg_count ph) s s1"
  proof -
    have le: "unat ?lo + 4096 * seg_count ph \<le> 2 ^ 39" using seg_end [OF ok] by simp
    have "\<exists>s1. map_loop (\<lambda>_ s. s) r ?lo (seg_count ph) s = (True, s1) \<and> m \<le> card (free_frames (frames s1)) \<and>
        maps_fresh (\<lambda>_. True) r ?lo (seg_count ph) s s1"
      by (rule map_loop_ok [OF _ _ _ wf frame_of_dvd le free]) simp_all
    then show thesis using that by (auto simp: map_pages_loop)
  qed
  note f = maps_freshD [OF s1(3)]
  have wf1: "as_wf s1 r" using f(1) by (simp add: adds_def)
  have pg: "\<exists>e. lookup s1 r va = Some e \<and> fresh_page r s s1 e" if "user_va va" "in_seg ph va" for va
    using f(2) [OF that(1)] that(2) by (auto simp: in_seg_def)
  have z: "frame_of e \<noteq> 0" if "fresh_page r s s1 e" for e
  proof
    assume "frame_of e = 0"
    then have "\<not> taken (frames s) 0" using that by (simp add: fresh_page_def)
    then show False using zero_taken wf by (auto simp: as_wf_def)
  qed
  have C: "\<forall>x < ?n. user_va (p_vaddr ph + (0 + of_nat x)) \<and>
      (\<exists>e. lookup s1 r (p_vaddr ph + (0 + of_nat x)) = Some e \<and> frame_of e \<notin> tree s1 r \<and> frame_of e \<noteq> 0)"
    using pg seg_address(2,3) [OF ok] z by (fastforce simp: fresh_page_def)
  have D: "x = y" if h: "x < ?n" "y < ?n" "va_to_phys r (?va x) s1 = va_to_phys r (?va y) s1" for x y
  proof -
    note ax = seg_address [OF ok h(1)] and ay = seg_address [OF ok h(2)]
    obtain e e' where e: "lookup s1 r (?va x) = Some e" "lookup s1 r (?va y) = Some e'" using pg ax(2,3) ay(2,3) by blast
    have q: "unat (frame_of e) + unat (?va x) mod 4096 = unat (frame_of e') + unat (?va y) mod 4096"
      using phys_in_frame [OF e(1)] phys_in_frame [OF e(2)] h(3) by simp
    have "in_frame (unat (frame_of e) + unat (?va x) mod 4096) (frame_of e)" by (simp add: in_frame_def)
    moreover have "in_frame (unat (frame_of e) + unat (?va x) mod 4096) (frame_of e')" unfolding q by (simp add: in_frame_def)
    ultimately have fe: "frame_of e = frame_of e'" by (rule in_frame_unique [OF frame_of_dvd frame_of_dvd])
    have "frame_of (?va x) = frame_of (?va y)"
      using f(4) [OF ax(2) ay(2) _ _ e fe] ax(3) ay(3) by (simp add: in_seg_def)
    then have "unat (?va x) - unat (?va x) mod 4096 = unat (?va y) - unat (?va y) mod 4096" using unat_frame_of by metis
    moreover have "unat (?va x) mod 4096 = unat (?va y) mod 4096" using q fe by simp
    ultimately have "unat (?va x) = unat (?va y)" by (metis le_add_diff_inverse2 mod_less_eq_dividend)
    then show ?thesis using ax(1) ay(1) by simp
  qed
  then have D': "\<forall>x < ?n. \<forall>y < ?n. va_to_phys r (p_vaddr ph + (0 + of_nat x)) s1 = va_to_phys r (p_vaddr ph + (0 + of_nat y)) s1 \<longrightarrow> x = y"
    by simp
  obtain s2 where s2: "copy_bytes r img ph 0 ?n s1 = (True, s2)" "frames s2 = frames s1" "as_wf s2 r" "tree s2 r = tree s1 r"
    "\<forall>va. user_va va \<longrightarrow> lookup s2 r va = lookup s1 r va"
    "\<forall>c. pmem s2 c \<noteq> pmem s1 c \<longrightarrow> (\<exists>x < ?n. \<exists>e. lookup s1 r (?va x) = Some e \<and> in_frame c (frame_of e))"
    "\<forall>x < ?n. user_byte s2 r (?va x) = seg_byte img ph (of_nat x)"
    using copy_bytes_ok [OF wf1 C D', of img] by auto
  have fresh: "\<not> taken (frames s) (c div 4096)" if "x < ?n" "lookup s1 r (?va x) = Some e" "in_frame c (frame_of e)" for c x e
  proof -
    have "c div 4096 = unat (frame_of e) div 4096" using that(3) frame_of_dvd [of e] by (auto simp: in_frame_def elim!: dvdE)
    then show ?thesis using pg [OF seg_address(2,3) [OF ok that(1)]] that(2) by (auto simp: fresh_page_def)
  qed
  have "(\<exists>t \<in> tree s2 r. in_frame c t) \<or> \<not> taken (frames s) (c div 4096)" if "pmem s2 c \<noteq> pmem s c" for c
    using that s2(4,6) fresh f(1) unfolding adds_def by metis
  then have ad: "adds r s s2" using f(1) s2(2-4) unfolding adds_def by simp
  show thesis
    by (rule that [OF s1(1) s2(1) _ ad _ _ s2(7)])
      (use s1(2) s2(2,4,5) pg f(3) in \<open>auto simp: fresh_page_def in_seg_def\<close>)
qed

definition segments :: "image \<Rightarrow> nat \<Rightarrow> nat \<Rightarrow> elf64_phdr list" where
  "segments img o1 n = filter (\<lambda>ph. p_type ph = PT_LOAD) (map (\<lambda>i. read_phdr img (o1 + 56 * i)) [0 ..< n])"

lemma segments_Suc:
  "segments img o1 (Suc n) =
     (if p_type (read_phdr img o1) = PT_LOAD then [read_phdr img o1] else []) @ segments img (o1 + 56) n"
proof -
  have "[0 ..< Suc n] = 0 # map Suc [0 ..< n]" by (simp add: upt_conv_Cons map_Suc_upt)
  then show ?thesis by (simp add: segments_def o_def add.assoc)
qed

definition apart :: "elf64_phdr \<Rightarrow> elf64_phdr \<Rightarrow> bool" where
  "apart p q \<longleftrightarrow> (\<forall>va. \<not> (in_seg p va \<and> in_seg q va))"

definition holds_segment :: "image \<Rightarrow> elf64_phdr \<Rightarrow> u64 \<Rightarrow> vm \<Rightarrow> bool" where
  "holds_segment img p r s \<longleftrightarrow>
     (\<forall>x < unat (p_memsz p). user_byte s r (p_vaddr p + of_nat x) = seg_byte img p (of_nat x))"

text \<open>A loaded segment stays as it is while pages are added elsewhere.\<close>

lemma holds_adds:
  assumes h: "holds_segment img p r s1" and ok: "seg_ok p"
    and pg: "\<forall>va. user_va va \<and> in_seg p va \<longrightarrow> (\<exists>e. lookup s1 r va = Some e \<and> fresh_page r s s1 e)"
    and ad: "adds r s1 s2" and lk: "\<forall>va. user_va va \<and> in_seg p va \<longrightarrow> lookup s2 r va = lookup s1 r va"
  shows "holds_segment img p r s2"
  unfolding holds_segment_def
proof (intro allI impI)
  fix x assume x: "x < unat (p_memsz p)"
  let ?va = "p_vaddr p + of_nat x"
  note a = seg_address [OF ok x]
  obtain e where e: "lookup s1 r ?va = Some e" "fresh_page r s s1 e" using pg a(2,3) by blast
  have l: "lookup s2 r ?va = lookup s1 r ?va" using lk a(2,3) by blast
  let ?k = "unat ?va mod 4096" and ?f = "frame_of e"
  have w: "page_word s2 ?f k = page_word s1 ?f k" if "k < 4096" for k
    using adds_page(2) [OF ad frame_of_dvd _ _ that] e(2) by (auto simp: fresh_page_def)
  have p: "unat (va_to_phys r ?va s1) = unat ?f + ?k" "unat (va_to_phys r ?va s2) = unat ?f + ?k"
    using phys_in_frame e(1) l by simp_all
  obtain q where q: "unat ?f = 8 * q" using dvd_trans [OF _ frame_of_dvd [of e], of 8] by (auto elim: dvdE)
  have "unat ?f + ?k - (unat ?f + ?k) mod 8 = unat ?f + (?k - ?k mod 8)"
    unfolding q by (simp add: add_diff_assoc)
  moreover have "?k - ?k mod 8 < 4096" using mod_less_divisor [of 4096 "unat ?va"] by linarith
  ultimately have "pmem s2 (unat ?f + ?k - (unat ?f + ?k) mod 8) = pmem s1 (unat ?f + ?k - (unat ?f + ?k) mod 8)"
    using w [of "?k - ?k mod 8"] unfolding page_word_def by simp
  then have "user_byte s2 r ?va = user_byte s1 r ?va" unfolding user_byte_def p get_byte_def by simp
  then show "user_byte s2 r ?va = seg_byte img p (of_nat x)" using h x by (simp add: holds_segment_def)
qed

lemma load_segments_ok:
  assumes "as_wf s r" "\<forall>p \<in> set (segments img o1 n). seg_ok p" "sorted_wrt apart (segments img o1 n)"
    "4 * sum_list (map seg_count (segments img o1 n)) \<le> card (free_frames (frames s))"
  shows "\<exists>e s'. load_segments r img o1 n le s = (Some e, s') \<and> adds r s s' \<and> le \<le> e \<and>
    (\<forall>p \<in> set (segments img o1 n). holds_segment img p r s' \<and> unat (p_vaddr p) + unat (p_memsz p) \<le> unat e) \<and>
    (\<forall>va. user_va va \<and> (\<forall>p \<in> set (segments img o1 n). \<not> in_seg p va) \<longrightarrow> lookup s' r va = lookup s r va)"
  using assms
proof (induction n arbitrary: o1 s le)
  case 0
  then show ?case by (simp add: segments_def adds_refl)
next
  case (Suc n)
  let ?p = "read_phdr img o1" and ?rest = "segments img (o1 + 56) n"
  show ?case
  proof (cases "p_type ?p = PT_LOAD")
    case False
    then have e: "segments img o1 (Suc n) = ?rest" by (simp add: segments_Suc)
    show ?thesis using Suc.IH [of s "o1 + 56" le] Suc.prems False unfolding e by (simp add: Let_def)
  next
    case True
    then have e: "segments img o1 (Suc n) = ?p # ?rest" by (simp add: segments_Suc)
    have ok: "seg_ok ?p" and free: "4 * sum_list (map seg_count ?rest) + 4 * seg_count ?p \<le> card (free_frames (frames s))"
      and ap: "\<forall>q \<in> set ?rest. apart ?p q" using Suc.prems(2-4) unfolding e by simp_all
    obtain s1 s2 where st: "map_pages r (frame_of (p_vaddr ?p)) (seg_count ?p) s = (True, s1)"
      "copy_bytes r img ?p 0 (unat (p_memsz ?p)) s1 = (True, s2)"
      "4 * sum_list (map seg_count ?rest) \<le> card (free_frames (frames s2))" "adds r s s2"
      "\<forall>va. user_va va \<and> in_seg ?p va \<longrightarrow> (\<exists>e. lookup s2 r va = Some e \<and> fresh_page r s s2 e)"
      "\<forall>va. user_va va \<and> \<not> in_seg ?p va \<longrightarrow> lookup s2 r va = lookup s r va"
      "\<forall>x < unat (p_memsz ?p). user_byte s2 r (p_vaddr ?p + of_nat x) = seg_byte img ?p (of_nat x)"
      by (rule load_segment [OF Suc.prems(1) ok free, of img])
    let ?ve = "frame_of (p_vaddr ?p + p_memsz ?p + 0xFFF)"
    let ?le = "if ?ve > le then ?ve else le"
    have wf2: "as_wf s2 r" using st(4) by (simp add: adds_def)
    obtain e1 s' where s': "load_segments r img (o1 + 56) n ?le s2 = (Some e1, s')" "adds r s2 s'" "?le \<le> e1"
      "\<forall>p \<in> set ?rest. holds_segment img p r s' \<and> unat (p_vaddr p) + unat (p_memsz p) \<le> unat e1"
      "\<forall>va. user_va va \<and> (\<forall>p \<in> set ?rest. \<not> in_seg p va) \<longrightarrow> lookup s' r va = lookup s2 r va"
      using Suc.IH [OF wf2, of "o1 + 56" ?le] Suc.prems(2,3) st(3) unfolding e by auto
    have run: "load_segments r img o1 (Suc n) le s = (Some e1, s')"
      using True st(1,2) s'(1) by (simp add: Let_def seg_count_def)
    have "\<forall>va. user_va va \<and> in_seg ?p va \<longrightarrow> lookup s' r va = lookup s2 r va"
      using s'(5) ap unfolding apart_def by blast
    then have hp: "holds_segment img ?p r s'"
      using holds_adds [OF _ ok st(5) s'(2)] st(7) by (simp add: holds_segment_def)
    have "le \<le> ?le" "?ve \<le> ?le" by auto
    then have le: "le \<le> e1" "?ve \<le> e1" using s'(3) by (auto intro: order_trans)
    then have "unat (p_vaddr ?p) + unat (p_memsz ?p) \<le> unat e1"
      using seg_end(2) [OF ok] by (auto simp: word_le_nat_alt intro: order_trans)
    then show ?thesis
      using run adds_trans [OF st(4) s'(2)] le(1) hp s'(4,5) st(6) unfolding e by auto
  qed
qed

text \<open>
  C18: the loader puts a program into memory. Let the image have the ELF magic and class, its loadable segments lie in the
  user half on pages of their own, and let there be four free frames for each of their pages. Then the loader returns the entry point, and
  every byte of every segment that user code reads through the page tables is the byte of the file, or 0
  behind the file's part. The initial break is behind every segment. The address space stays well-formed, and addresses outside
  the segments translate as before.
\<close>

theorem elf_load_places_segments:
  assumes "as_wf s r" "take 4 (e_ident (read_ehdr img)) = [0x7F, 0x45, 0x4C, 0x46]" "e_ident (read_ehdr img) ! 4 = 2"
    and "segs = segments img (unat (e_phoff (read_ehdr img))) (unat (e_phnum (read_ehdr img)))"
    and "\<forall>p \<in> set segs. seg_ok p" "sorted_wrt apart segs"
    and "4 * sum_list (map seg_count segs) \<le> card (free_frames (frames s))"
  shows "\<exists>e s'. elf64_load_into r img b (s, l) = (e_entry (read_ehdr img), e, s', l) \<and> as_wf s' r \<and>
    (\<forall>p \<in> set segs. unat (p_vaddr p) + unat (p_memsz p) \<le> unat e \<and>
       (\<forall>x < unat (p_memsz p). user_byte s' r (p_vaddr p + of_nat x) =
          (if x < unat (p_filesz p) then img (unat (p_offset p + of_nat x)) else 0))) \<and>
    (\<forall>va. user_va va \<and> (\<forall>p \<in> set segs. \<not> in_seg p va) \<longrightarrow> lookup s' r va = lookup s r va)"
proof -
  have el: "ch CHR ''E'' = 0x45" "ch CHR ''L'' = 0x4C" "ch CHR ''F'' = 0x46" by (simp_all add: ch_def)
  obtain e s' where k: "load_segments r img (unat (e_phoff (read_ehdr img))) (unat (e_phnum (read_ehdr img))) 0 s = (Some e, s')" "adds r s s'"
    "\<forall>p \<in> set segs. holds_segment img p r s' \<and> unat (p_vaddr p) + unat (p_memsz p) \<le> unat e"
    "\<forall>va. user_va va \<and> (\<forall>p \<in> set segs. \<not> in_seg p va) \<longrightarrow> lookup s' r va = lookup s r va"
    using load_segments_ok [OF assms(1), of img "unat (e_phoff (read_ehdr img))" "unat (e_phnum (read_ehdr img))" 0] assms(5-7)
    unfolding assms(4) by blast
  have b: "of_nat x < p_filesz p \<longleftrightarrow> x < unat (p_filesz p)" if "x < unat (p_memsz p)" for x and p :: elf64_phdr
  proof -
    have "unat (p_memsz p) < 2 ^ 64" using unsigned_less [of "p_memsz p"] by simp
    then show ?thesis using that by (simp add: word_less_nat_alt unat_of_nat)
  qed
  have "\<forall>p \<in> set segs. unat (p_vaddr p) + unat (p_memsz p) \<le> unat e \<and>
       (\<forall>x < unat (p_memsz p). user_byte s' r (p_vaddr p + of_nat x) =
          (if x < unat (p_filesz p) then img (unat (p_offset p + of_nat x)) else 0))"
    using k(3) b by (simp add: holds_segment_def seg_byte_def)
  moreover have "elf64_load_into r img b (s, l) = (e_entry (read_ehdr img), e, s', l)"
    using k(1) assms(2,3) by (simp add: elf64_load_into_def el Let_def)
  moreover have "as_wf s' r" using k(2) by (simp add: adds_def)
  ultimately show ?thesis using k(4) by blast
qed

text \<open>An image with one segment of two bytes at 0x400000, of which the file has one.\<close>

definition tiny_image :: image where
  "tiny_image = (\<lambda>_. 0)(0 := 0x7F, 1 := 0x45, 2 := 0x4C, 3 := 0x46, 4 := 2, 26 := 0x40, 32 := 64, 56 := 1,
     64 := 1, 72 := 120, 82 := 0x40, 96 := 1, 104 := 2, 120 := 0xAB)"

lemmas img_reads = img64_def img32_def img16_def

theorem elf_load_places_segments_witness:
  "\<exists>e s'. elf64_load_into 0 tiny_image 0 (vm_small, []) = (0x400000, e, s', []) \<and>
     user_byte s' 0 0x400000 = 0xAB \<and> user_byte s' 0 0x400001 = 0"
proof -
  let ?p = "\<lparr>p_type = 1, p_offset = 120, p_vaddr = 0x400000, p_filesz = 1, p_memsz = 2\<rparr>"
  have eh: "take 4 (e_ident (read_ehdr tiny_image)) = [0x7F, 0x45, 0x4C, 0x46]" "e_ident (read_ehdr tiny_image) ! 4 = 2"
    "e_phoff (read_ehdr tiny_image) = 64" "e_phnum (read_ehdr tiny_image) = 1" "e_entry (read_ehdr tiny_image) = 0x400000"
    by (simp_all add: read_ehdr_def tiny_image_def img_reads upt_rec)
  have ph: "read_phdr tiny_image 64 = ?p" by (simp add: read_phdr_def tiny_image_def img_reads)
  have sg: "segments tiny_image 64 1 = [?p]" by (simp add: segments_def ph PT_LOAD_def)
  have c: "seg_count ?p = 1" by (simp add: seg_count_def page_count_def frame_of_def)
  have fr: "card (free_frames (frames vm_small)) = 6" by (simp add: vm_small_def pmm_eight_free)
  have "\<exists>e s'. elf64_load_into 0 tiny_image 0 (vm_small, []) = (e_entry (read_ehdr tiny_image), e, s', []) \<and> as_wf s' 0 \<and>
    (\<forall>p \<in> set [?p]. unat (p_vaddr p) + unat (p_memsz p) \<le> unat e \<and>
       (\<forall>x < unat (p_memsz p). user_byte s' 0 (p_vaddr p + of_nat x) =
          (if x < unat (p_filesz p) then tiny_image (unat (p_offset p + of_nat x)) else 0))) \<and>
    (\<forall>va. user_va va \<and> (\<forall>p \<in> set [?p]. \<not> in_seg p va) \<longrightarrow> lookup s' 0 va = lookup vm_small 0 va)"
    by (rule elf_load_places_segments [OF vm_small_wf eh(1,2)]) (use sg c fr in \<open>simp_all add: eh(3,4) seg_ok_def\<close>)
  then obtain e s' where k: "elf64_load_into 0 tiny_image 0 (vm_small, []) = (e_entry (read_ehdr tiny_image), e, s', [])"
    and "\<forall>x < unat (p_memsz ?p). user_byte s' 0 (p_vaddr ?p + of_nat x) =
          (if x < unat (p_filesz ?p) then tiny_image (unat (p_offset ?p + of_nat x)) else 0)"
    using list.set_intros(1) [of ?p "[]"] by blast
  then have k2: "\<forall>x < 2. user_byte s' 0 (0x400000 + of_nat x) = (if x < 1 then tiny_image (unat (120 + of_nat x :: u64)) else 0)" by simp
  have "user_byte s' 0 0x400000 = 0xAB" "user_byte s' 0 0x400001 = 0"
    using k2 [rule_format, of 0] k2 [rule_format, of 1] by (simp_all add: tiny_image_def)
  then show ?thesis using k eh(5) by simp
qed

end
