(* ===== verification/Syscalls.thy ===== *)
theory Syscalls
  imports Fd Elf Env Path Cow
begin

text \<open>
  The system calls of src/src/proc/syscalls.c that are not in Env, Path, Fd and Signal: fork, exec, wait,
  sleep, the break, the terminal flags, the working directory and the directory tree. A pointer argument
  of C type \<open>const uint8_t*\<close> is the string it points to, \<open>None\<close> if it is null; a buffer is a function of the
  index. \<open>others k\<close> is what the other processes do to the state between the k-th yield of the caller and its return.
  \<open>None\<close> means that the call does not return.
\<close>

unbundle bit_operations_syntax

section \<open>Helpers\<close>

definition on_kern :: "(kern \<Rightarrow> kern) \<Rightarrow> os \<Rightarrow> os" where
  "on_kern f s = s\<lparr>bas := (bas s)\<lparr>ks := f (ks (bas s))\<rparr>\<rparr>"

definition on_cur :: "(process \<Rightarrow> process) \<Rightarrow> os \<Rightarrow> os" where
  "on_cur f s = s\<lparr>bas := on_current f (bas s)\<rparr>"

definition le64 :: "u64 \<Rightarrow> u8 list" where
  "le64 v = map (\<lambda>i. ucast (drop_bit (8 * i) v)) [0 ..< 8]"

section \<open>fork\<close>

definition frame_words :: "syscall_frame \<Rightarrow> u64 list" where
  "frame_words f = [sf_rax f, sf_rdi f, sf_rsi f, sf_rdx f, sf_r10 f, sf_r8 f, sf_r9 f, sf_rbx f, sf_rbp f,
     sf_r12 f, sf_r13 f, sf_r14 f, sf_r15 f, sf_rip f, sf_rflags f, sf_ursp f]"

text \<open>A structure assignment to kernel memory, word by word.\<close>

fun put_words :: "u64 \<Rightarrow> u64 list \<Rightarrow> cells \<Rightarrow> cells" where
  "put_words a [] m = m"
| "put_words a (v # vs) m = put_words (a + 8) vs (m(unat a := v))"

text \<open>The kernel stack of the child: the cloned frame, and below it what \<open>kthread_switch\<close> unwinds.\<close>

definition fork_stack :: "u64 \<Rightarrow> syscall_frame \<Rightarrow> u64 \<Rightarrow> cells \<Rightarrow> u64 \<times> cells" where
  "fork_stack fork_ret_trampoline f ktop m =
     (let cf = ktop - 128; m = put_words cf (frame_words (f\<lparr>sf_rax := 0\<rparr>)) m
      in fold push_cell [fork_ret_trampoline, 0, 0, 0, 0, 0, 0] (cf, m))"

definition inherit :: "u64 \<Rightarrow> u64 \<Rightarrow> process \<Rightarrow> process \<Rightarrow> process" where
  "inherit child_pml4 par p c = c\<lparr>
     pml4 := child_pml4, parent := par, stack_low := stack_low p, cwd_ino := cwd_ino p, brk := brk p,
     cwd_path := (\<lambda>i. if i < 128 then cwd_path p i else cwd_path c i), envc := envc p,
     env := (\<lambda>i. if i < ENV_MAX then (\<lambda>j. if j < ENV_SLOT then env p i j else env c i j) else env c i)\<rparr>"

definition sys_fork :: "u64 \<Rightarrow> syscall_frame \<Rightarrow> os \<Rightarrow> (u64 \<times> os) option" where
  "sys_fork fork_ret_trampoline f s =
     (let par = running s;
          (child_pml4, v) = vmm_create_address_space (mem s); s = s\<lparr>mem := v\<rparr> in
      if child_pml4 = 0 then Some (- 1, s)
      else let (r, v) = vmm_cow_user_space child_pml4 (pml4 (cur s)) (mem s); s = s\<lparr>mem := v\<rparr> in
      if r \<noteq> 0 then Some (- 1, s)
      else do {
        (child, k) \<leftarrow> proc_alloc (pname (cur s)) (ks (bas s));
        let s = on_kern (\<lambda>_. k) s;
        if child = 0 then Some (- 1, s)
        else do {
          let p = procs k par;
          let c = inherit child_pml4 par p (procs k child);
          let (c, g) = fork_fds p c (pipes (bas s));
          let c = c\<lparr>sig_pending := 0, sig_handler := (\<lambda>i. if i < 32 then sig_handler p i else sig_handler c i)\<rparr>;
          let (sp, m) = fork_stack fork_ret_trampoline f (kstack_top c) (cells (kheap k));
          let k = upd_proc child (\<lambda>_. c\<lparr>kctx_rsp := sp\<rparr>) (k\<lparr>kheap := (kheap k)\<lparr>cells := m\<rparr>\<rparr>);
          Some (pid c, s\<lparr>bas := (bas s)\<lparr>ks := scheduler_register child k, pipes := g\<rparr>\<rparr>)
        }
      })"

section \<open>exec\<close>

definition MAX_ARGS :: nat where "MAX_ARGS = 16"

fun store_bytes :: "u64 \<Rightarrow> u8 list \<Rightarrow> vm \<Rightarrow> vm" where
  "store_bytes a [] s = s"
| "store_bytes a (c # cs) s = store_bytes (a + 1) cs (store_byte a c s)"

text \<open>The offset into the stack page, the addresses of the strings so far, and the memory.\<close>

definition push_arg :: "u64 \<Rightarrow> cstring \<Rightarrow> u64 \<times> u64 list \<times> vm \<Rightarrow> u64 \<times> u64 list \<times> vm" where
  "push_arg stk a st =
     (case st of (off, argv_uva, s) \<Rightarrow>
        let off = off - of_nat (length a + 1)
        in (off, (USTACK_BASE + off) # argv_uva, store_bytes (stk + off) (a @ [0]) s))"

definition push_word :: "u64 \<Rightarrow> u64 \<Rightarrow> u64 \<times> vm \<Rightarrow> u64 \<times> vm" where
  "push_word stk v st = (case st of (off, s) \<Rightarrow> (off - 8, s\<lparr>pmem := (pmem s)(unat (stk + (off - 8)) := v)\<rparr>))"

definition build_argv :: "u64 \<Rightarrow> cstring list \<Rightarrow> vm \<Rightarrow> u64 \<times> vm" where
  "build_argv stk argv s =
     (let (off, argv_uva, s) = foldr (push_arg stk) argv (0x1000, [], s);
          st = push_word stk 0 (off AND NOT 7, s);
          st = foldr (push_word stk) argv_uva st
      in push_word stk (of_nat (length argv)) st)"

text \<open>\<open>argv\<close>: the strings before the null pointer, of which the first \<open>MAX_ARGS\<close> count; \<open>[]\<close> for a null \<open>argv\<close>.\<close>

definition sys_exec :: "ata_reader \<Rightarrow> syscall_frame \<Rightarrow> cstring \<Rightarrow> cstring list \<Rightarrow> os \<Rightarrow> (int \<times> syscall_frame \<times> os) option" where
  "sys_exec ata f path argv s = do {
     (prog, s) \<leftarrow> on_vfs (vfs_lookup ata path) s;
     case prog of
       None \<Rightarrow> Some (- 1, f, s)
     | Some p \<Rightarrow>
         if f_data (vfile_get p (fsys s)) = 0 then Some (- 1, f, s)
         else let (nas, v) = vmm_create_address_space (mem s); s = s\<lparr>mem := v\<rparr> in
         if nas = 0 then Some (- 1, f, s)
         else let img = kmem (nox (fsys s)) (f_data (vfile_get p (fsys s)));
                  (entry, brk_init, v, l) = elf64_load_into nas img 0 (mem s, com1 (bas s));
                  s = s\<lparr>mem := v, bas := (bas s)\<lparr>com1 := l\<rparr>\<rparr> in
         if entry = 0 then Some (- 1, f, s)
         else let (stk, v) = alloc_frame (mem s); s = s\<lparr>mem := v\<rparr> in
         if stk = 0 then Some (- 1, f, s)
         else let v = snd (vmm_map_page_into nas USTACK_BASE stk (PAGE_RW OR PAGE_USER) (mem s));
                  (off, v) = build_argv stk (take MAX_ARGS argv) v;
                  old_pml4 = pml4 (cur s);
                  s = on_kern (\<lambda>k. k\<lparr>cr3 := nas\<rparr>) (on_cur (\<lambda>p. p\<lparr>pml4 := nas\<rparr>) (s\<lparr>mem := v\<rparr>));
                  s = s\<lparr>mem := vmm_free_user_space old_pml4 (mem s)\<rparr>;
                  s = on_cur (\<lambda>p. p\<lparr>stack_low := USTACK_BASE, brk := brk_init\<rparr>) s;
                  s = (if cwd_ino (cur s) = 0
                       then on_cur (\<lambda>p. p\<lparr>cwd_ino := vfs_root_ino (fsys s), cwd_path := put_at 0 [slash, 0] (cwd_path p)\<rparr>) s
                       else s)
              in Some (0, f\<lparr>sf_rip := entry, sf_ursp := USTACK_BASE + off, sf_rflags := 0x202, sf_rax := 0\<rparr>, s)
   }"

section \<open>Waiting\<close>

definition sys_getpid :: "os \<Rightarrow> u64" where
  "sys_getpid s = pid (cur s)"

definition sys_setfg :: "u64 \<Rightarrow> os \<Rightarrow> os" where
  "sys_setfg p s = on_kern (scheduler_set_fg p) s"

definition yield :: "(nat \<Rightarrow> os \<Rightarrow> os) \<Rightarrow> nat \<Rightarrow> os \<Rightarrow> os" where
  "yield others k s = others k (on_kern scheduler_yield s)"

partial_function (option) sleep_loop :: "(nat \<Rightarrow> os \<Rightarrow> os) \<Rightarrow> u32 \<Rightarrow> nat \<Rightarrow> os \<Rightarrow> os option" where
  "sleep_loop others wake k s =
     (if pit_uptime_ms s < wake then sleep_loop others wake (Suc k) (yield others k s) else Some s)"

definition sys_sleep :: "(nat \<Rightarrow> os \<Rightarrow> os) \<Rightarrow> u32 \<Rightarrow> os \<Rightarrow> os option" where
  "sys_sleep others ms s = sleep_loop others (pit_uptime_ms s + ms) 0 s"

definition sys_uptime :: "os \<Rightarrow> u64" where
  "sys_uptime s = ucast (pit_uptime_ms s)"

text \<open>The branch of \<open>sys_waitpid\<close> that has found a zombie.\<close>

definition reap :: "u64 \<Rightarrow> os \<Rightarrow> (u64 \<times> u32 \<times> os) option" where
  "reap z s = do {
     let zp = procs (ks (bas s)) z;
     k \<leftarrow> scheduler_remove z (ks (bas s));
     let s = on_kern (\<lambda>_. k) s;
     let s = s\<lparr>mem := vmm_free_user_space (pml4 zp) (mem s)\<rparr>;
     Some (pid zp, exit_code zp, on_kern (\<lambda>k. k\<lparr>kheap := kfree z (kfree (kstack_base zp) (kheap k))\<rparr>) s)
   }"

partial_function (option) wait_loop :: "(nat \<Rightarrow> os \<Rightarrow> os) \<Rightarrow> u64 \<Rightarrow> int \<Rightarrow> nat \<Rightarrow> os \<Rightarrow> (u64 \<times> u32 \<times> os) option" where
  "wait_loop others par want k s = do {
     z \<leftarrow> scheduler_reap par want (ks (bas s));
     if z \<noteq> 0 then reap z s else wait_loop others par want (Suc k) (yield others k s)
   }"

text \<open>The pid of the child and the code that is stored through \<open>status\<close> unless that is null.\<close>

definition sys_waitpid :: "(nat \<Rightarrow> os \<Rightarrow> os) \<Rightarrow> int \<Rightarrow> os \<Rightarrow> (u64 \<times> u32 \<times> os) option" where
  "sys_waitpid others want s = wait_loop others (running s) want 0 s"

section \<open>Terminal flags and the break\<close>

definition sys_tcgetattr :: "bool \<Rightarrow> os \<Rightarrow> int \<times> ktermios option" where
  "sys_tcgetattr out_null s = (if out_null then (- 1, None) else (0, Some (g_termios (con s))))"

definition sys_tcsetattr :: "ktermios option \<Rightarrow> os \<Rightarrow> int \<times> os" where
  "sys_tcsetattr inp s =
     (case inp of None \<Rightarrow> (- 1, s) | Some t \<Rightarrow> (0, s\<lparr>con := (con s)\<lparr>g_termios := t\<rparr>\<rparr>))"

fun brk_pages :: "u64 \<Rightarrow> u64 \<Rightarrow> nat \<Rightarrow> vm \<Rightarrow> bool \<times> vm" where
  "brk_pages as va 0 s = (True, s)"
| "brk_pages as va (Suc n) s =
     (let (frame, s) = alloc_frame s in
      if frame = 0 then (False, s)
      else brk_pages as (va + 0x1000) n (snd (vmm_map_page_into as va frame (PAGE_RW OR PAGE_USER) (zero_table frame s))))"

definition sys_brk :: "u64 \<Rightarrow> os \<Rightarrow> u64 \<times> os" where
  "sys_brk addr s =
     (let p = cur s in
      if addr = 0 then (brk p, s)
      else if addr \<le> brk p then (brk p, s)
      else if addr \<ge> USER_HEAP_MAX then (brk p, s)
      else let old_top = frame_of (brk p + 0xFFF); new_top = frame_of (addr + 0xFFF);
               (ok, v) = brk_pages (pml4 p) old_top (page_count old_top new_top) (mem s); s = s\<lparr>mem := v\<rparr> in
      if \<not> ok then (brk p, s)
      else (addr, on_cur (\<lambda>p. p\<lparr>brk := addr\<rparr>) s))"

section \<open>The working directory and the directory tree\<close>

definition cwd_text :: "process \<Rightarrow> cstring" where
  "cwd_text p = c_text (map (cwd_path p) [0 ..< 128])"

definition sys_chdir :: "ata_reader \<Rightarrow> cstring option \<Rightarrow> os \<Rightarrow> (int \<times> os) option" where
  "sys_chdir ata path s =
     (case path of
        None \<Rightarrow> Some (- 1, s)
      | Some path \<Rightarrow>
          if path = [] then Some (- 1, s)
          else do {
            (new_ino, s) \<leftarrow> on_vfs (vfs_resolve_ino ata (cwd_ino (cur s)) path) s;
            if new_ino = NO_INO then Some (- 1, s)
            else do {
              (d, s) \<leftarrow> on_vfs (vfs_is_dir ata new_ino) s;
              if \<not> d then Some (- 1, s)
              else Some (0, on_cur (\<lambda>p. p\<lparr>cwd_ino := new_ino,
                     cwd_path := put_at 0 (path_resolve_str 128 (cwd_text p) path @ [0]) (cwd_path p)\<rparr>) s)
            }
          })"

definition sys_getcwd :: "(nat \<Rightarrow> u8) option \<Rightarrow> u64 \<Rightarrow> os \<Rightarrow> int \<times> (nat \<Rightarrow> u8) option" where
  "sys_getcwd buf sz s =
     (case buf of
        None \<Rightarrow> (- 1, None)
      | Some b \<Rightarrow>
          if sz = 0 then (- 1, Some b)
          else let xs = take (unat (sz - 1)) (cwd_text (cur s)) in (int (length xs), Some (put_at 0 (xs @ [0]) b)))"

definition sys_mkdir :: "ata_reader \<Rightarrow> cstring option \<Rightarrow> os \<Rightarrow> (int \<times> os) option" where
  "sys_mkdir ata path s =
     (case path of
        None \<Rightarrow> Some (- 1, s)
      | Some path \<Rightarrow>
          if path = [] then Some (- 1, s)
          else do {
            let (par, name) = path_split path;
            (par_ino, s) \<leftarrow> on_vfs (vfs_resolve_ino ata (cwd_ino (cur s)) par) s;
            if par_ino = NO_INO then Some (- 1, s)
            else do {
              (d, s) \<leftarrow> on_vfs (vfs_is_dir ata par_ino) s;
              if \<not> d then Some (- 1, s)
              else do {
                (ino, s) \<leftarrow> on_vfs (on_nox (noxfs_mkdir ata par_ino name)) s;
                Some (if ino = NO_INO then - 1 else 0, s)
              }
            }
          })"

definition sys_unlink :: "ata_reader \<Rightarrow> cstring option \<Rightarrow> os \<Rightarrow> (int \<times> os) option" where
  "sys_unlink ata path s =
     (case path of
        None \<Rightarrow> Some (- 1, s)
      | Some path \<Rightarrow>
          if path = [] then Some (- 1, s)
          else do {
            let (par, name) = path_split path;
            (par_ino, s) \<leftarrow> on_vfs (vfs_resolve_ino ata (cwd_ino (cur s)) par) s;
            if par_ino = NO_INO then Some (- 1, s)
            else do {
              (st, s) \<leftarrow> on_vfs (on_nox (noxfs_unlink ata par_ino name)) s;
              if st = OS_OK then Some (0, s)
              else do {
                (st, s) \<leftarrow> on_vfs (on_nox (noxfs_rmdir ata par_ino name)) s;
                Some (if st = OS_OK then 0 else - 1, s)
              }
            }
          })"

record nox_stat =
  st_ino :: u32
  st_mode :: u16
  st_size :: u32

definition stat_bytes :: "nox_stat \<Rightarrow> u8 list" where
  "stat_bytes t = le32 (st_ino t) @ le16 (st_mode t) @ le16 0 @ le32 (st_size t) @ le32 0"

definition sys_stat :: "ata_reader \<Rightarrow> cstring option \<Rightarrow> bool \<Rightarrow> os \<Rightarrow> (int \<times> nox_stat option \<times> os) option" where
  "sys_stat ata path buf_null s =
     (case path of
        None \<Rightarrow> Some (- 1, None, s)
      | Some path \<Rightarrow>
          if buf_null then Some (- 1, None, s)
          else do {
            (ino, s) \<leftarrow> on_vfs (vfs_resolve_ino ata (cwd_ino (cur s)) path) s;
            if ino = NO_INO then Some (- 1, None, s)
            else do {
              ((st, f), s) \<leftarrow> on_vfs (on_nox (\<lambda>n. map_option (\<lambda>(st, f, n). ((st, f), n)) (noxfs_stat ata ino no_file n))) s;
              if st \<noteq> OS_OK then Some (- 1, None, s)
              else Some (0, Some \<lparr>st_ino = ino, st_mode = ucast (f_capacity f), st_size = f_size f\<rparr>, s)
            }
          })"

definition sys_rename :: "ata_reader \<Rightarrow> cstring option \<Rightarrow> cstring option \<Rightarrow> os \<Rightarrow> (int \<times> os) option" where
  "sys_rename ata old_path new_path s =
     (case (old_path, new_path) of
        (Some old_path, Some new_path) \<Rightarrow> do {
          let (opar, oname) = path_split old_path;
          let (npar, nname) = path_split new_path;
          (oino, s) \<leftarrow> on_vfs (vfs_resolve_ino ata (cwd_ino (cur s)) opar) s;
          (nino, s) \<leftarrow> on_vfs (vfs_resolve_ino ata (cwd_ino (cur s)) npar) s;
          if oino = NO_INO \<or> nino = NO_INO then Some (- 1, s)
          else do {
            (st, s) \<leftarrow> on_vfs (on_nox (noxfs_rename ata oino oname nino nname)) s;
            Some (if st = OS_OK then 0 else - 1, s)
          }
        }
      | _ \<Rightarrow> Some (- 1, s))"

definition sys_getdents :: "ata_reader \<Rightarrow> cstring option \<Rightarrow> (nat \<Rightarrow> u8) option \<Rightarrow> u64 \<Rightarrow> os \<Rightarrow> (int \<times> (nat \<Rightarrow> u8) option \<times> os) option" where
  "sys_getdents ata path buf len s =
     (case buf of
        None \<Rightarrow> Some (- 1, None, s)
      | Some b \<Rightarrow>
          if len = 0 then Some (- 1, Some b, s)
          else do {
            let path = (case path of None \<Rightarrow> [dot] | Some p \<Rightarrow> if p = [] then [dot] else p);
            (dir_ino, s) \<leftarrow> on_vfs (vfs_resolve_ino ata (cwd_ino (cur s)) path) s;
            if dir_ino = NO_INO then Some (- 1, Some b, s)
            else do {
              (d, s) \<leftarrow> on_vfs (vfs_is_dir ata dir_ino) s;
              if \<not> d then Some (- 1, Some b, s)
              else do {
                ((r, b), s) \<leftarrow> on_vfs (\<lambda>v. map_option (\<lambda>(r, b, _, v). ((r, b), v))
                                    (vfs_getdents ata (ks (bas s)) dir_ino b (ucast len) 0 v)) s;
                Some (r, Some b, s)
              }
            }
          })"

fun state_num :: "proc_state \<Rightarrow> u64" where
  "state_num PROC_READY = 0"
| "state_num PROC_RUNNING = 1"
| "state_num PROC_BLOCKED = 2"
| "state_num PROC_ZOMBIE = 3"

definition sys_procinfo :: "u64 \<Rightarrow> (nat \<Rightarrow> u8) \<Rightarrow> os \<Rightarrow> (int \<times> (nat \<Rightarrow> u8)) option" where
  "sys_procinfo idx buf s = do {
     a \<leftarrow> scheduler_at (ucast idx) (ks (bas s));
     if a = 0 then Some (0, buf)
     else do {
       let p = procs (ks (bas s)) a;
       Some (1, put_at 0 (le64 (pid p) @ le64 (state_num (pstate p)) @ c_text (map (pname p) [0 ..< 31]) @ [0]) buf)
     }
   }"

definition sys_readdir :: "u64 \<Rightarrow> (nat \<Rightarrow> u8) \<Rightarrow> os \<Rightarrow> int \<times> (nat \<Rightarrow> u8)" where
  "sys_readdir idx namebuf s =
     (if idx \<ge> ucast (vfs_count (fsys s)) then (0, namebuf)
      else case vfs_entry (ucast idx) (fsys s) of
             None \<Rightarrow> (0, namebuf)
           | Some f \<Rightarrow> (1, put_at 0 (c_text (take 31 (f_name (vfile_get f (fsys s)))) @ [0]) namebuf))"

lemma create_keeps:
  assumes wf: "as_wf s r" and k: "4096 dvd unat (g_kernel_pml4 s)" "taken (frames s) (unat (g_kernel_pml4 s) div 4096)"
    and run: "vmm_create_address_space s = (p, s')" "p \<noteq> 0"
  shows "as_wf s' r" "as_wf s' p" "p \<notin> tree s r" "tree s' r = tree s r" "tree s' p = {p}"
    and "user_va va \<Longrightarrow> lookup s' r va = lookup s r va" and "user_va va \<Longrightarrow> lookup s' p va = None"
proof -
  have inv: "pmm_inv (frames s)" using wf by (simp add: as_wf_def)
  note c = create_cases [OF inv k run]
  have al: "4096 dvd unat p" using as_wf_tree [of s' p p] tree_root c by blast
  show p: "p \<notin> tree s r" using c as_wf_tree [OF wf] by blast
  have same: "entry s' t i = entry s t i" if t: "t \<in> tree s r" "i < 512" for t i
  proof (rule entry_outside)
    show "\<not> in_frame x t" if "pmem s' x \<noteq> pmem s x" for x
      using that c in_frame_unique [OF _ al] as_wf_tree [OF wf t(1)] p t(1) by blast
  qed (rule t(2))
  have tk: "taken (frames s) n \<Longrightarrow> taken (frames s') n" for n
    using run by (rule_tac alloc_frame_cases [OF inv]) (auto simp: vmm_create_address_space_def Let_def frame_simps)
  have f: "pmm_inv (frames s')" using c by (simp add: as_wf_def)
  have tk2: "taken (frames s') (unat t div 4096)" if "t \<in> tree s r" for t
    using tk as_wf_tree [OF wf that] by blast
  note k = as_frame [OF wf same f tk2]
  show "as_wf s' r" by (rule k(1))
  show "tree s' r = tree s r" by (rule k(3))
  show "user_va va \<Longrightarrow> lookup s' r va = lookup s r va" by (rule k(4))
  show "as_wf s' p" "tree s' p = {p}" using c by auto
  have "nxt s' p 0 = None" using c by (simp add: nxt_def not_present_zero)
  then show "user_va va \<Longrightarrow> lookup s' p va = None" by (simp add: lookup_leaf leaf_path_def user_va_top)
qed

lemma owned_alt: "owned s n \<longleftrightarrow> n < nframes s \<and> taken s n \<and> 0 < g_refcount s n"
  by (auto simp: owned_def taken_def free_frames_def)

lemma create_owned:
  assumes "pmm_inv (frames s)" "vmm_create_address_space s = (p, s')" "p \<noteq> 0" "owned (frames s) n"
  shows "owned (frames s') n"
  using assms(2-) unfolding owned_alt
  by (rule_tac alloc_frame_cases [OF assms(1)])
    (auto simp: vmm_create_address_space_def Let_def frame_simps)

lemma word_slots:
  "unat (a + x :: u64) = unat (a + y) \<longleftrightarrow> x = y" "unat (a - x :: u64) = unat (a + y) \<longleftrightarrow> - x = y"
  "unat (a + x :: u64) = unat (a - y) \<longleftrightarrow> x = - y" "unat (a :: u64) = unat (a + y) \<longleftrightarrow> y = 0" "unat (a + x :: u64) = unat a \<longleftrightarrow> x = 0"
  "unat (a :: u64) = unat (a - y) \<longleftrightarrow> y = 0"
  by (simp_all only: word_unat_eq_iff [symmetric]) (auto simp: algebra_simps eq_neg_iff_add_eq_0 neg_eq_iff_add_eq_0)

text \<open>The first switch to the child unwinds into the trampoline, with the cloned frame on the stack.\<close>

lemma fork_stack_load:
  assumes "fork_stack tr f ktop m = (sp, m')"
  shows "switch_load sp m' = \<lparr>rip = tr, rsp = ktop - 128, rbx = 0, rbp = 0, r12 = 0, r13 = 0, r14 = 0, r15 = 0\<rparr>"
    and "map (\<lambda>i. m' (unat (ktop - 128 + 8 * of_nat i))) [0 ..< 16] = frame_words (f\<lparr>sf_rax := 0\<rparr>)"
proof -
  obtain cf where cf: "cf = ktop - 128" by simp
  obtain m1 where m1: "m1 = put_words cf (frame_words (f\<lparr>sf_rax := 0\<rparr>)) m" by simp
  have e: "sp = cf - 56" "m' = m1(unat (cf - 8) := tr, unat (cf - 16) := 0, unat (cf - 24) := 0, unat (cf - 32) := 0,
                 unat (cf - 40) := 0, unat (cf - 48) := 0, unat (cf - 56) := 0)"
    using assms unfolding fork_stack_def push_cells Let_def cf [symmetric] m1 by auto
  show "switch_load sp m' = \<lparr>rip = tr, rsp = ktop - 128, rbx = 0, rbp = 0, r12 = 0, r13 = 0, r14 = 0, r15 = 0\<rparr>"
    unfolding e switch_load_pushed by (simp add: cf)
  have up: "[0 ..< 16] = [0, 1, 2, 3, 4, 5, 6, 7, 8, 9, 10, 11, 12, 13, 14, 15 :: nat]" by (simp add: upt_rec)
  have low: "m' (unat (cf + 8 * of_nat i)) = m1 (unat (cf + 8 * of_nat i))" if "i < 16" for i
  proof -
    have "i \<in> set [0 ..< 16]" using that by simp
    then show ?thesis unfolding e up by (auto simp: word_slots)
  qed
  have "map (\<lambda>i. m1 (unat (cf + 8 * of_nat i))) [0 ..< 16] = frame_words (f\<lparr>sf_rax := 0\<rparr>)"
    unfolding m1 up frame_words_def by (simp add: word_slots add.assoc)
  moreover have "map (\<lambda>i. m' (unat (cf + 8 * of_nat i))) [0 ..< 16] = map (\<lambda>i. m1 (unat (cf + 8 * of_nat i))) [0 ..< 16]"
    using low by (intro map_cong) auto
  ultimately show "map (\<lambda>i. m' (unat (ktop - 128 + 8 * of_nat i))) [0 ..< 16] = frame_words (f\<lparr>sf_rax := 0\<rparr>)"
    unfolding cf by simp
qed

text \<open>A successful fork, step by step.\<close>

lemma sys_fork_cases:
  assumes "sys_fork tr f s = Some (r, t)" "r \<noteq> - 1"
  obtains as v v' child k c g sp m where
    "vmm_create_address_space (mem s) = (as, v)" "as \<noteq> 0"
    "vmm_cow_user_space as (pml4 (cur s)) v = (0, v')"
    "proc_alloc (pname (cur s)) (ks (bas s)) = Some (child, k)" "child \<noteq> 0"
    "fork_fds (procs k (running s)) (inherit as (running s) (procs k (running s)) (procs k child)) (pipes (bas s)) = (c, g)"
    "fork_stack tr f (kstack_top c) (cells (kheap k)) = (sp, m)"
    "r = pid c"
    "t = s\<lparr>mem := v', bas := (bas s)\<lparr>ks := scheduler_register child (upd_proc child
       (\<lambda>_. c\<lparr>sig_pending := 0, sig_handler := (\<lambda>i. if i < 32 then sig_handler (procs k (running s)) i else sig_handler c i), kctx_rsp := sp\<rparr>)
       (k\<lparr>kheap := (kheap k)\<lparr>cells := m\<rparr>\<rparr>)), pipes := g\<rparr>\<rparr>"
proof -
  obtain as v where a: "vmm_create_address_space (mem s) = (as, v)" by fastforce
  have a0: "as \<noteq> 0" using assms by (auto simp: sys_fork_def a Let_def)
  obtain e v' where b: "vmm_cow_user_space as (pml4 (cur s)) v = (e, v')" by fastforce
  have e0: "e = 0" using assms by (auto simp: sys_fork_def a a0 b Let_def split: if_splits)
  obtain child k where p: "proc_alloc (pname (cur s)) (ks (bas s)) = Some (child, k)"
    using assms by (cases "proc_alloc (pname (cur s)) (ks (bas s))") (auto simp: sys_fork_def a a0 b e0 Let_def)
  have c0: "child \<noteq> 0" using assms by (auto simp: sys_fork_def a a0 b e0 p Let_def)
  obtain c g where f: "fork_fds (procs k (running s)) (inherit as (running s) (procs k (running s)) (procs k child)) (pipes (bas s)) = (c, g)" by fastforce
  obtain sp m where st: "fork_stack tr f (kstack_top c) (cells (kheap k)) = (sp, m)" by fastforce
  show thesis
    by (rule that [OF a a0 b [unfolded e0] p c0 f st])
      (use assms in \<open>auto simp: sys_fork_def a a0 b e0 p c0 f st Let_def on_kern_def\<close>)
qed

lemma register_child:
  "\<exists>a b. procs (scheduler_register c k) c = (procs k c)\<lparr>process.rq_next := a, all_next := b\<rparr>"
  "kheap (scheduler_register c k) = kheap k" "g_current (scheduler_register c k) = g_current k"
  "g_all_head (scheduler_register c k) = c" "g_ready_tail (scheduler_register c k) = c"
  "q \<noteq> c \<Longrightarrow> \<exists>a. procs (scheduler_register c k) q = (procs k q)\<lparr>process.rq_next := a\<rparr>"
proof -
  have id: "p = p\<lparr>process.rq_next := process.rq_next p\<rparr>" for p :: process by simp
  show "\<exists>a b. procs (scheduler_register c k) c = (procs k c)\<lparr>process.rq_next := a, all_next := b\<rparr>"
    by (rule exI [of _ "process.rq_next (procs (scheduler_register c k) c)"], rule exI [of _ "g_all_head k"])
      (auto simp: scheduler_register_def scheduler_add_def Let_def frame_simps)
  show "q \<noteq> c \<Longrightarrow> \<exists>a. procs (scheduler_register c k) q = (procs k q)\<lparr>process.rq_next := a\<rparr>"
    by (rule exI [of _ "process.rq_next (procs (scheduler_register c k) q)"])
      (auto simp: scheduler_register_def scheduler_add_def Let_def frame_simps)
qed (simp_all add: scheduler_register_def scheduler_add_def Let_def frame_simps)

text \<open>
  Fork duplicates the caller. Let the caller's address space be well-formed with every mapped frame owned, the heap
  well-formed and the caller a live structure of it. When fork returns a pid, it is that of a new process, the child of
  the caller, registered and ready. Every user address translates in the child exactly as in the caller, to the
  frame it had before, copy-on-write. The child has the caller's descriptors, break, stack limit, working
  directory and environment and no pending signal. When it is first switched to, it continues in the trampoline
  with the caller's registers as its frame, except that RAX is 0.
\<close>

theorem fork_duplicates:
  assumes wf: "as_wf (mem s) (pml4 (cur s))" "pages_owned (mem s) (pml4 (cur s))"
    and kp: "4096 dvd unat (g_kernel_pml4 (mem s))" "taken (frames (mem s)) (unat (g_kernel_pml4 (mem s)) div 4096)"
    and heap: "heap_ok (kheap (ks (bas s)))" "running s \<in> heap_owned (kheap (ks (bas s)))"
    and run: "sys_fork tr f s = Some (r, t)" "r \<noteq> - 1"
  shows "\<exists>c. let k = ks (bas t); p = cur s; q = procs k c; ctx = switch_load (kctx_rsp q) (cells (kheap k)) in
     c \<notin> heap_owned (kheap (ks (bas s))) \<and> pid q = r \<and> r = g_next_pid (ks (bas s)) \<and>
     parent q = running s \<and> pstate q = PROC_READY \<and> g_all_head k = c \<and> g_ready_tail k = c \<and> running t = running s \<and>
     (\<forall>va. user_va va \<longrightarrow> lookup (mem t) (pml4 q) va = lookup (mem t) (pml4 p) va \<and>
        lookup (mem t) (pml4 p) va = map_option cowed (lookup (mem s) (pml4 p) va)) \<and>
     (\<forall>i < PROC_MAX_FDS. fds q i = fds p i) \<and> brk q = brk p \<and> stack_low q = stack_low p \<and> cwd_ino q = cwd_ino p \<and>
     envc q = envc p \<and> (\<forall>i < ENV_MAX. \<forall>j < ENV_SLOT. env q i j = env p i j) \<and> sig_pending q = 0 \<and>
     rip ctx = tr \<and> map (\<lambda>i. cells (kheap k) (unat (rsp ctx + 8 * of_nat i))) [0 ..< 16] = frame_words (f\<lparr>sf_rax := 0\<rparr>)"
proof -
  obtain as v v' child k c g sp m where st:
    "vmm_create_address_space (mem s) = (as, v)" "as \<noteq> 0"
    "vmm_cow_user_space as (pml4 (cur s)) v = (0, v')"
    "proc_alloc (pname (cur s)) (ks (bas s)) = Some (child, k)" "child \<noteq> 0"
    "fork_fds (procs k (running s)) (inherit as (running s) (procs k (running s)) (procs k child)) (pipes (bas s)) = (c, g)"
    "fork_stack tr f (kstack_top c) (cells (kheap k)) = (sp, m)" "r = pid c"
    and t: "t = s\<lparr>mem := v', bas := (bas s)\<lparr>ks := scheduler_register child (upd_proc child
       (\<lambda>_. c\<lparr>sig_pending := 0, sig_handler := (\<lambda>i. if i < 32 then sig_handler (procs k (running s)) i else sig_handler c i), kctx_rsp := sp\<rparr>)
       (k\<lparr>kheap := (kheap k)\<lparr>cells := m\<rparr>\<rparr>)), pipes := g\<rparr>\<rparr>"
    by (rule sys_fork_cases [OF run])
  let ?r = "pml4 (cur s)"
  note a = create_keeps [OF wf(1) kp st(1,2)]
  have inv: "pmm_inv (frames (mem s))" using wf(1) by (simp add: as_wf_def)
  have own: "pages_owned v ?r" using pages_ownedD [OF wf(2)] a(6) create_owned [OF inv st(1,2)] by (auto simp: pages_owned_def)
  have sh: "lookup v' as va = lookup v' ?r va \<and> lookup v' ?r va = map_option cowed (lookup (mem s) ?r va)" if "user_va va" for va
    using cow_fork [OF a(1,2) _ _ own st(3)] a(3-7) that by auto
  obtain h stack h2 where al: "kmalloc sizeof_process (kheap (ks (bas s))) = Some (child, h)"
    and k: "k = upd_proc child (proc_fill (g_next_pid (ks (bas s))) stack (pname (cur s))) ((ks (bas s))\<lparr>kheap := h2, g_next_pid := g_next_pid (ks (bas s)) + 1\<rparr>)"
    using proc_alloc_some [OF st(4,5)] by metis
  have fresh: "child \<notin> heap_owned (kheap (ks (bas s)))" using kheap.alloc_fresh [OF heap(1) al st(5)] by blast
  then have ne: "running s \<noteq> child" using heap(2) by auto
  have par: "procs k (running s) = cur s" using ne by (simp add: k current_def frame_simps)
  have cf: "c = (inherit as (running s) (cur s) (procs k child))\<lparr>fds := (\<lambda>j. if j < PROC_MAX_FDS then fds (cur s) j else fds (inherit as (running s) (cur s) (procs k child)) j)\<rparr>"
    using st(6) unfolding fork_fds_def fork_fds_fold par by simp
  have ch: "procs k child = proc_fill (g_next_pid (ks (bas s))) stack (pname (cur s)) (procs (ks (bas s)) child)"
    by (simp add: k frame_simps)
  obtain K where K: "K = upd_proc child
       (\<lambda>_. c\<lparr>sig_pending := 0, sig_handler := (\<lambda>i. if i < 32 then sig_handler (cur s) i else sig_handler c i), kctx_rsp := sp\<rparr>)
       (k\<lparr>kheap := (kheap k)\<lparr>cells := m\<rparr>\<rparr>)" by simp
  have tk: "ks (bas t) = scheduler_register child K" unfolding t K par by simp
  have "procs K child = c\<lparr>sig_pending := 0, sig_handler := (\<lambda>i. if i < 32 then sig_handler (cur s) i else sig_handler c i), kctx_rsp := sp\<rparr>"
    by (simp add: K frame_simps)
  then obtain x y where q: "procs (ks (bas t)) child = c\<lparr>sig_pending := 0, sig_handler := (\<lambda>i. if i < 32 then sig_handler (cur s) i else sig_handler c i), kctx_rsp := sp,
      process.rq_next := x, all_next := y\<rparr>"
    unfolding tk using register_child(1) [of child K] by metis
  have hp: "cells (kheap (ks (bas t))) = m" by (simp add: t register_child frame_simps)
  note l = fork_stack_load [OF st(7)]
  have ctx: "switch_load (kctx_rsp (procs (ks (bas t)) child)) (cells (kheap (ks (bas t)))) =
      \<lparr>rip = tr, rsp = kstack_top c - 128, rbx = 0, rbp = 0, r12 = 0, r13 = 0, r14 = 0, r15 = 0\<rparr>"
    unfolding hp l(1) [symmetric] by (simp add: q)
  have fd: "\<forall>i < PROC_MAX_FDS. fds (procs (ks (bas t)) child) i = fds (cur s) i"
    and en: "\<forall>i < ENV_MAX. \<forall>j < ENV_SLOT. env (procs (ks (bas t)) child) i j = env (cur s) i j"
    by (simp_all add: q cf inherit_def)
  have as: "pml4 (procs (ks (bas t)) child) = as" by (simp add: q cf inherit_def)
  have mt: "mem t = v'" by (simp add: t)
  show ?thesis
    unfolding Let_def mt
  proof (rule exI [of _ child], unfold ctx as, intro conjI)
    show "running t = running s" by (simp add: t register_child frame_simps k)
    show "\<forall>va. user_va va \<longrightarrow> lookup v' as va = lookup v' ?r va \<and> lookup v' ?r va = map_option cowed (lookup (mem s) ?r va)"
      using sh by blast
    show "map (\<lambda>i. cells (kheap (ks (bas t))) (unat (rsp \<lparr>rip = tr, rsp = kstack_top c - 128, rbx = 0, rbp = 0, r12 = 0, r13 = 0, r14 = 0, r15 = 0\<rparr> + 8 * of_nat i))) [0 ..< 16] =
        frame_words (f\<lparr>sf_rax := 0\<rparr>)"
      unfolding hp cpu.simps by (rule l(2))
    show "g_all_head (ks (bas t)) = child" "g_ready_tail (ks (bas t)) = child" by (simp_all add: t register_child)
  qed (rule fresh fd en | simp add: q cf inherit_def ch proc_fill_def st(8))+
qed

lemma fork_fds_pid: "fork_fds p c g = (c', g') \<Longrightarrow> pid c' = pid c"
  unfolding fork_fds_def fork_fds_fold by auto

lemma vm_small_create: "\<exists>v. vmm_create_address_space vm_small = (0x1000, v) \<and> \<not> present (entry v 0 0)"
  unfolding vmm_create_address_space_def PML4_PHYSMAP_def PML4_KERNEL_def by (simp add: vm_small_eval)

definition demo_frame :: syscall_frame where
  "demo_frame = \<lparr>sf_rax = 3, sf_rdi = 1, sf_rsi = 2, sf_rdx = 4, sf_r10 = 5, sf_r8 = 6, sf_r9 = 7, sf_rbx = 8, sf_rbp = 9,
     sf_r12 = 10, sf_r13 = 11, sf_r14 = 12, sf_r15 = 13, sf_rip = 0x400000, sf_rflags = 0x202, sf_ursp = 0x50000FF0\<rparr>"

theorem fork_duplicates_witness:
  "\<forall>s0 :: os. \<exists>s t c. mem s = vm_small \<and> fsys s = fsys s0 \<and> sys_fork 0xA000 demo_frame s = Some (1, t) \<and>
     parent (procs (ks (bas t)) c) = running s \<and>
     rip (switch_load (kctx_rsp (procs (ks (bas t)) c)) (cells (kheap (ks (bas t))))) = 0xA000"
proof
  fix s0 :: os
  have a: "ALIGN16 sizeof_process = 6064" "ALIGN16 PROC_KSTACK_SIZE = 16384"
    "sizeof_process \<noteq> 0" "PROC_KSTACK_SIZE \<noteq> 0"
    by (simp_all add: ALIGN16_def sizeof_process_def PROC_KSTACK_SIZE_def)
  have r0: "heap_rep (kheap boot_kern) [(unat HEAP_SIZE - 32, True)]" using heap_rep_init by (simp add: boot_kern_def)
  obtain h where h: "kmalloc sizeof_process (kheap boot_kern) = Some (of_nat (unat HEAP_BASE + 32), h)"
    "heap_rep h [(6064, False), (33548304, True)]"
    using kmalloc_rep [OF r0 a(3)] a by (auto simp: heap_base_facts(4))
  obtain c1 h1 where h1: "kmalloc sizeof_process h = Some (c1, h1)" "c1 = of_nat (unat HEAP_BASE + 6128)" 
    "heap_rep h1 [(6064, False), (6064, False), (33542208, True)]"
    using kmalloc_rep [OF h(2) a(3)] a by (auto simp: add.assoc)
  obtain c2 h2 where h2: "kmalloc PROC_KSTACK_SIZE h1 = Some (c2, h2)" "c2 = of_nat (unat HEAP_BASE + 12224)"
    using kmalloc_rep [OF h1(3) a(4)] a by (auto simp: add.assoc)
  have nz: "c1 \<noteq> 0" "c2 \<noteq> 0" by (simp_all add: h1(2) h2(2) HEAP_BASE_def)
  let ?p = "of_nat (unat HEAP_BASE + 32) :: u64"
  let ?s = "s0\<lparr>mem := vm_small, bas := fd_demo\<lparr>ks := boot_kern\<lparr>kheap := h, g_current := ?p\<rparr>\<rparr>\<rparr>"
  have ok: "heap_ok (kheap boot_kern)" using r0 by (auto simp: heap_ok_def)
  have hp: "heap_ok h" "?p \<in> heap_owned h"
    using kheap.alloc_invar [OF ok h(1)] kheap.alloc_fresh [OF ok h(1)] by (simp_all add: HEAP_BASE_def)
  obtain v where v: "vmm_create_address_space vm_small = (0x1000, v)" "\<not> present (entry v 0 0)" using vm_small_create by blast
  have cow: "vmm_cow_user_space 0x1000 0 v = (0, v)" using v(2) by (simp add: vmm_cow_user_space_def walk_user_def)
  have as: "pml4 (cur ?s) = 0" by (simp add: boot_kern_def blank_process_def current_def)
  obtain k where pa: "proc_alloc (pname (cur ?s)) (ks (bas ?s)) = Some (c1, k)" "pid (procs k c1) = 1"
    by (simp add: proc_alloc_def h1(1) h2(1) nz frame_simps proc_fill_def boot_kern_def)
  have "\<exists>t. sys_fork 0xA000 demo_frame ?s = Some (1, t)"
    using pa as v(1) cow nz(1)
    by (auto simp: sys_fork_def Let_def inherit_def current_def split: prod.split dest!: fork_fds_pid)
  then obtain t where run: "sys_fork 0xA000 demo_frame ?s = Some (1, t)" by blast
  have own: "pages_owned vm_small 0"
    using vm_small_tab [OF leaf_path(1)] by (auto simp: pages_owned_def lookup_leaf leaf_path_def)
  have tk: "taken (frames vm_small) 0" by (simp add: vm_small_def taken_def pmm_eight_free)
  have "as_wf (mem ?s) (pml4 (cur ?s))" "pages_owned (mem ?s) (pml4 (cur ?s))" "4096 dvd unat (g_kernel_pml4 (mem ?s))"
    "taken (frames (mem ?s)) (unat (g_kernel_pml4 (mem ?s)) div 4096)" "heap_ok (kheap (ks (bas ?s)))"
    "running ?s \<in> heap_owned (kheap (ks (bas ?s)))" "(1 :: u64) \<noteq> - 1"
    using vm_small_wf own tk hp unfolding as by (simp_all add: vm_small_def)
  from fork_duplicates [OF this(1-6) run this(7)]
  show "\<exists>s t c. mem s = vm_small \<and> fsys s = fsys s0 \<and> sys_fork 0xA000 demo_frame s = Some (1, t) \<and>
     parent (procs (ks (bas t)) c) = running s \<and>
     rip (switch_load (kctx_rsp (procs (ks (bas t)) c)) (cells (kheap (ks (bas t))))) = 0xA000"
    unfolding Let_def using run by (elim exE, intro exI [of _ ?s] exI [of _ t]) auto
qed

section \<open>The break\<close>

lemma brk_pages_loop: "brk_pages as va n s = map_loop zero_table as va n s"
  by (induction n arbitrary: va s) (simp_all add: Let_def split: prod.split)

lemma page_top:
  assumes "a < USER_HEAP_MAX"
  shows "unat a \<le> unat (frame_of (a + 0xFFF))" "unat (frame_of (a + 0xFFF)) \<le> 2 ^ 38"
proof -
  have a: "unat a < 2 ^ 30" using assms by (simp add: USER_HEAP_MAX_def word_less_nat_alt)
  then have u: "unat (a + 0xFFF) = unat a + 4095" by (simp add: unat_word_ariths(1))
  have l: "(unat a + 4095) mod 4096 \<le> 4095" using mod_less_divisor [of 4096 "unat a + 4095"] by linarith
  show "unat a \<le> unat (frame_of (a + 0xFFF))" "unat (frame_of (a + 0xFFF)) \<le> 2 ^ 38"
    using l a unfolding unat_frame_of u by simp_all
qed

text \<open>
  C31: growing the heap. Let the caller's address space be well-formed, let the new break be above the old one and below the limit, and
  let there be four free frames for each new page. Then brk returns the new break and makes it the
  break of the caller; every page between the two breaks, rounded up to pages, is mapped user writable to a
  frame that was free and is filled with zeros; every other user address translates as before, and
  every frame in use that is no page table keeps its contents.
\<close>

theorem brk_maps_zero_pages:
  assumes wf: "as_wf (mem s) (pml4 (cur s))" and new: "brk (cur s) < addr" "addr < USER_HEAP_MAX"
    and lo: "lo = frame_of (brk (cur s) + 0xFFF)" and hi: "hi = frame_of (addr + 0xFFF)"
    and free: "4 * page_count lo hi \<le> card (free_frames (frames (mem s)))"
  shows "\<exists>t. sys_brk addr s = (addr, t) \<and> brk (cur t) = addr \<and> as_wf (mem t) (pml4 (cur s)) \<and>
    (\<forall>va. user_va va \<longrightarrow>
       (if lo \<le> va \<and> va < hi
        then \<exists>e. lookup (mem t) (pml4 (cur s)) va = Some e \<and> e AND 0xFFF = PAGE_PRESENT OR PAGE_RW OR PAGE_USER \<and>
               \<not> taken (frames (mem s)) (unat (frame_of e) div 4096) \<and> (\<forall>k < 4096. page_word (mem t) (frame_of e) k = 0)
        else lookup (mem t) (pml4 (cur s)) va = lookup (mem s) (pml4 (cur s)) va)) \<and>
    (\<forall>f k. 4096 dvd unat f \<and> taken (frames (mem s)) (unat f div 4096) \<and> f \<notin> tree (mem s) (pml4 (cur s)) \<and> k < 4096 \<longrightarrow>
       page_word (mem t) f k = page_word (mem s) f k)"
proof -
  let ?r = "pml4 (cur s)" and ?n = "page_count lo hi"
  have b: "brk (cur s) < USER_HEAP_MAX" using new by (rule less_trans)
  have dv: "4096 dvd unat lo" "4096 dvd unat hi" by (simp_all only: lo hi frame_of_dvd)
  have top: "unat lo \<le> 2 ^ 38" "unat hi \<le> 2 ^ 38" "unat addr \<le> unat hi"
    using page_top(2) [OF b] page_top [OF new(2)] by (simp_all only: lo hi)
  have le: "unat lo \<le> unat hi"
  proof -
    have u: "unat (brk (cur s) + 0xFFF) = unat (brk (cur s)) + 4095"
      using b by (simp add: USER_HEAP_MAX_def word_less_nat_alt unat_word_ariths(1))
    have "unat (brk (cur s)) < unat hi" using new(1) top(3) by (simp add: word_less_nat_alt)
    moreover have "unat lo \<le> unat (brk (cur s)) + 4095" unfolding lo unat_frame_of u by simp
    ultimately have "unat lo < unat hi + 4096" by simp
    then show ?thesis using dv by (auto elim!: dvdE)
  qed
  have n: "unat lo + 4096 * ?n = unat hi" using le dv dvd_diff_nat [OF dv(2,1)] by (simp add: page_count_def)
  have "\<exists>v. map_loop zero_table ?r lo ?n (mem s) = (True, v) \<and> 0 \<le> card (free_frames (frames v)) \<and> maps_fresh (\<lambda>w. w = 0) ?r lo ?n (mem s) v"
    by (rule map_loop_ok [OF _ _ _ wf dv(1)])
      (use n top(2) free in \<open>auto simp: zero_table_def in_frame_def page_word_def split: if_splits\<close>)
  then obtain v where v: "brk_pages ?r lo ?n (mem s) = (True, v)" "maps_fresh (\<lambda>w. w = 0) ?r lo ?n (mem s) v" by (auto simp: brk_pages_loop)
  note f = maps_freshD [OF v(2)]
  let ?t = "on_cur (\<lambda>p. p\<lparr>brk := addr\<rparr>) (s\<lparr>mem := v\<rparr>)"
  have run: "sys_brk addr s = (addr, ?t)"
    using new v(1) lo hi by (auto simp: sys_brk_def Let_def not_le)
  have rng: "pages_in lo ?n va \<longleftrightarrow> lo \<le> va \<and> va < hi" for va
    unfolding pages_in_def n by (simp add: word_le_nat_alt word_less_nat_alt)
  have m: "mem ?t = v" "brk (cur ?t) = addr" by (simp_all add: on_cur_def on_current_def current_def frame_simps)
  have fl: "PAGE_PRESENT OR PAGE_RW OR PAGE_USER = 7" by (simp add: PAGE_PRESENT_def PAGE_RW_def PAGE_USER_def)
  have "if lo \<le> va \<and> va < hi
        then \<exists>e. lookup v ?r va = Some e \<and> e AND 0xFFF = 7 \<and>
               \<not> taken (frames (mem s)) (unat (frame_of e) div 4096) \<and> (\<forall>k < 4096. page_word v (frame_of e) k = 0)
        else lookup v ?r va = lookup (mem s) ?r va" if "user_va va" for va
    using f(2,3) [OF that] unfolding rng fresh_page_def by (cases "lo \<le> va \<and> va < hi") auto
  moreover have "as_wf v ?r" using f(1) by (simp add: adds_def)
  ultimately show ?thesis
    using run m adds_page(2) [OF f(1)] unfolding fl by (intro exI [of _ ?t]) simp
qed

theorem brk_maps_zero_pages_witness:
  "\<forall>s0 :: os. \<exists>s t. mem s = vm_small \<and> brk (cur s) = 0x400000 \<and> sys_brk 0x400001 s = (0x400001, t) \<and>
     (\<exists>e. lookup (mem t) (pml4 (cur s)) 0x400000 = Some e \<and> page_word (mem t) (frame_of e) 0 = 0)"
proof
  fix s0 :: os
  let ?s = "s0\<lparr>mem := vm_small, bas := fd_demo\<lparr>ks := boot_kern\<lparr>procs := (\<lambda>_. blank_process\<lparr>brk := 0x400000\<rparr>)\<rparr>\<rparr>\<rparr>"
  have c: "pml4 (cur ?s) = 0" "brk (cur ?s) = 0x400000" by (simp_all add: current_def blank_process_def)
  have n: "page_count 0x400000 0x401000 = 1" by (simp add: page_count_def)
  have k: "\<exists>t. sys_brk 0x400001 ?s = (0x400001, t) \<and> brk (cur t) = 0x400001 \<and> as_wf (mem t) (pml4 (cur ?s)) \<and>
    (\<forall>va. user_va va \<longrightarrow>
       (if 0x400000 \<le> va \<and> va < 0x401000
        then \<exists>e. lookup (mem t) (pml4 (cur ?s)) va = Some e \<and> e AND 0xFFF = PAGE_PRESENT OR PAGE_RW OR PAGE_USER \<and>
               \<not> taken (frames (mem ?s)) (unat (frame_of e) div 4096) \<and> (\<forall>k < 4096. page_word (mem t) (frame_of e) k = 0)
        else lookup (mem t) (pml4 (cur ?s)) va = lookup (mem ?s) (pml4 (cur ?s)) va)) \<and>
    (\<forall>f k. 4096 dvd unat f \<and> taken (frames (mem ?s)) (unat f div 4096) \<and> f \<notin> tree (mem ?s) (pml4 (cur ?s)) \<and> k < 4096 \<longrightarrow>
       page_word (mem t) f k = page_word (mem ?s) f k)"
    by (rule brk_maps_zero_pages)
      (use vm_small_wf pmm_eight_free in \<open>simp_all add: current_def blank_process_def frame_of_def n USER_HEAP_MAX_def vm_small_def\<close>)
  obtain t where t: "sys_brk 0x400001 ?s = (0x400001, t)"
    "\<forall>va. user_va va \<longrightarrow>
       (if 0x400000 \<le> va \<and> va < 0x401000
        then \<exists>e. lookup (mem t) (pml4 (cur ?s)) va = Some e \<and> e AND 0xFFF = PAGE_PRESENT OR PAGE_RW OR PAGE_USER \<and>
               \<not> taken (frames (mem ?s)) (unat (frame_of e) div 4096) \<and> (\<forall>k < 4096. page_word (mem t) (frame_of e) k = 0)
        else lookup (mem t) (pml4 (cur ?s)) va = lookup (mem ?s) (pml4 (cur ?s)) va)" using k by blast
  have "\<exists>e. lookup (mem t) (pml4 (cur ?s)) 0x400000 = Some e \<and> page_word (mem t) (frame_of e) 0 = 0"
    using t(2) [THEN spec, of "0x400000"] by (auto simp: user_va_def)
  then show "\<exists>s t. mem s = vm_small \<and> brk (cur s) = 0x400000 \<and> sys_brk 0x400001 s = (0x400001, t) \<and>
     (\<exists>e. lookup (mem t) (pml4 (cur s)) 0x400000 = Some e \<and> page_word (mem t) (frame_of e) 0 = 0)"
    using t(1) c(2) by (intro exI [of _ ?s] exI [of _ t]) simp
qed

end
