(* ===== verification/Dispatch.thy ===== *)
theory Dispatch
  imports Syscalls
begin

text \<open>
  The system call dispatcher, src/src/kernel/syscall/syscall.c. The caller's memory \<open>um\<close> is what the addresses of its
  address space hold, as bytes; all of it can be reached, so the dispatcher takes no page fault. The C
  strings and the argument vector that a call gets pointers to are read when the call starts, and the buffers
  that it fills are written back when it ends. After a successful \<open>exec\<close> the memory is the one that the new page tables map.
\<close>

unbundle bit_operations_syntax

section \<open>The memory of the caller\<close>

type_synonym memory = "u64 \<Rightarrow> u8"

record machine =
  ost :: os
  um :: memory

partial_function (option) ustr :: "memory \<Rightarrow> u64 \<Rightarrow> cstring option" where
  "ustr u p = (if u p = 0 then Some [] else do { cs \<leftarrow> ustr u (p + 1); Some (u p # cs) })"

definition ustr_opt :: "memory \<Rightarrow> u64 \<Rightarrow> cstring option option" where
  "ustr_opt u p = (if p = 0 then Some None else map_option Some (ustr u p))"

definition ubuf :: "memory \<Rightarrow> u64 \<Rightarrow> nat \<Rightarrow> u8" where
  "ubuf u p = (\<lambda>i. u (p + of_nat i))"

definition uput :: "u64 \<Rightarrow> (nat \<Rightarrow> u8) \<Rightarrow> memory \<Rightarrow> memory" where
  "uput p b u = (\<lambda>a. b (unat (a - p)))"

definition uput_list :: "u64 \<Rightarrow> u8 list \<Rightarrow> memory \<Rightarrow> memory" where
  "uput_list p xs u = uput p (put_at 0 xs (ubuf u p)) u"

text \<open>Buffers of the environment calls, which may be indexed below their start.\<close>

definition uget_env :: "memory \<Rightarrow> u64 \<Rightarrow> (int \<Rightarrow> u8) option" where
  "uget_env u p = (if p = 0 then None else Some (\<lambda>i. u (p + of_int i)))"

definition uput_env :: "u64 \<Rightarrow> (int \<Rightarrow> u8) option \<Rightarrow> memory \<Rightarrow> memory" where
  "uput_env p b u = (case b of None \<Rightarrow> u | Some b \<Rightarrow> (\<lambda>a. b (sint (a - p))))"

definition uword :: "memory \<Rightarrow> u64 \<Rightarrow> u64" where
  "uword u p = img64 (ubuf u p) 0"

text \<open>The pointers of \<open>argv\<close> before the null pointer, at most \<open>n\<close>.\<close>

fun arg_ptrs :: "memory \<Rightarrow> u64 \<Rightarrow> nat \<Rightarrow> u64 list" where
  "arg_ptrs u p 0 = []"
| "arg_ptrs u p (Suc n) = (let q = uword u p in if q = 0 then [] else q # arg_ptrs u (p + 8) n)"

fun ustrs :: "memory \<Rightarrow> u64 list \<Rightarrow> cstring list option" where
  "ustrs u [] = Some []"
| "ustrs u (p # ps) = do { c \<leftarrow> ustr u p; cs \<leftarrow> ustrs u ps; Some (c # cs) }"

definition uargv :: "memory \<Rightarrow> u64 \<Rightarrow> cstring list option" where
  "uargv u argv = (if argv = 0 then Some [] else ustrs u (arg_ptrs u argv MAX_ARGS))"

definition termios_bytes :: "ktermios \<Rightarrow> u8 list" where
  "termios_bytes t = le32 (c_lflag t) @ c_cc t"

definition uget_termios :: "memory \<Rightarrow> u64 \<Rightarrow> ktermios option" where
  "uget_termios u p =
     (if p = 0 then None else Some \<lparr>c_lflag = img32 (ubuf u p) 0, c_cc = map (ubuf u p) [4 ..< 4 + TTY_NCC]\<rparr>)"

text \<open>What the page tables of the current process map.\<close>

definition mapped_bytes :: "os \<Rightarrow> memory" where
  "mapped_bytes s = (\<lambda>a. get_byte (unat (va_to_phys (pml4 (cur s)) a (mem s))) (pmem (mem s)))"

section \<open>Setup\<close>

definition MSR_EFER :: u32 where "MSR_EFER = 0xC0000080"
definition MSR_STAR :: u32 where "MSR_STAR = 0xC0000081"
definition MSR_LSTAR :: u32 where "MSR_LSTAR = 0xC0000082"
definition MSR_SFMASK :: u32 where "MSR_SFMASK = 0xC0000084"

definition syscall_init :: "u64 \<Rightarrow> (u32 \<Rightarrow> u64) \<Rightarrow> os_status \<times> (u32 \<Rightarrow> u64)" where
  "syscall_init syscall_entry msr =
     (let msr = msr(MSR_STAR := push_bit 48 0x10 OR push_bit 32 0x08);
          msr = msr(MSR_LSTAR := syscall_entry);
          msr = msr(MSR_SFMASK := 0x200);
          msr = msr(MSR_EFER := msr MSR_EFER OR 1)
      in (OS_OK, msr))"

section \<open>The dispatcher\<close>

datatype sysno =
    SYS_EXIT | SYS_WRITE | SYS_READ | SYS_FORK | SYS_EXEC | SYS_GETPID | SYS_WAITPID
  | SYS_OPEN | SYS_CLOSE | SYS_LSEEK | SYS_READDIR | SYS_DUP | SYS_DUP2 | SYS_PIPE
  | SYS_KILL | SYS_SIGNAL | SYS_PROCINFO | SYS_SETFG | SYS_CHDIR | SYS_GETCWD | SYS_GETDENTS
  | SYS_BRK | SYS_MKDIR | SYS_UNLINK | SYS_STAT | SYS_RENAME | SYS_TCGETATTR | SYS_TCSETATTR
  | SYS_SLEEP | SYS_UPTIME | SYS_GETENV | SYS_SETENV | SYS_UNSETENV | SYS_GETENV_AT

definition sysnos :: "sysno list" where
  "sysnos = [SYS_EXIT, SYS_WRITE, SYS_READ, SYS_FORK, SYS_EXEC, SYS_GETPID, SYS_WAITPID,
     SYS_OPEN, SYS_CLOSE, SYS_LSEEK, SYS_READDIR, SYS_DUP, SYS_DUP2, SYS_PIPE,
     SYS_KILL, SYS_SIGNAL, SYS_PROCINFO, SYS_SETFG, SYS_CHDIR, SYS_GETCWD, SYS_GETDENTS,
     SYS_BRK, SYS_MKDIR, SYS_UNLINK, SYS_STAT, SYS_RENAME, SYS_TCGETATTR, SYS_TCSETATTR,
     SYS_SLEEP, SYS_UPTIME, SYS_GETENV, SYS_SETENV, SYS_UNSETENV, SYS_GETENV_AT]"

definition sys_of :: "u64 \<Rightarrow> sysno option" where
  "sys_of n = (if unat n < length sysnos then Some (sysnos ! unat n) else None)"

text \<open>What the kernel's surroundings do: the disk, the console while the CPU halts, other processes.\<close>

record world =
  w_ata :: ata_reader
  w_halt :: "nat \<Rightarrow> console \<Rightarrow> console"
  w_pipe :: "nat \<Rightarrow> pipe \<Rightarrow> pipe"
  w_others :: "nat \<Rightarrow> os \<Rightarrow> os"
  w_fork_ret :: u64

text \<open>A call returns to its caller, or another process runs, or the CPU stops because none is ready.\<close>

datatype outcome = Back syscall_frame machine | Away machine | Stopped machine

definition left :: "gone \<Rightarrow> machine \<Rightarrow> outcome" where
  "left g m =
     (case g of
        Runs_other b \<Rightarrow> Away (m\<lparr>ost := (ost m)\<lparr>bas := b\<rparr>\<rparr>)
      | Halts b \<Rightarrow> Stopped (m\<lparr>ost := (ost m)\<lparr>bas := b\<rparr>\<rparr>))"

definition answer :: "u64 \<Rightarrow> syscall_frame \<Rightarrow> os \<Rightarrow> memory \<Rightarrow> outcome option" where
  "answer r f s u = Some (Back (f\<lparr>sf_rax := r\<rparr>) \<lparr>ost = s, um = u\<rparr>)"

definition on_cur_env :: "process \<Rightarrow> os \<Rightarrow> os" where
  "on_cur_env p s = on_cur (\<lambda>_. p) s"

definition do_syscall :: "world \<Rightarrow> syscall_frame \<Rightarrow> machine \<Rightarrow> outcome option" where
  "do_syscall w f m =
     (let s = ost m; u = um m; a1 = sf_rdi f; a2 = sf_rsi f; a3 = sf_rdx f;
          int1 = sint (ucast a1 :: u32); int2 = sint (ucast a2 :: u32) in
      case sys_of (sf_rax f) of
        None \<Rightarrow> answer (- 1) f s u
      | Some c \<Rightarrow>
        (case c of
           SYS_EXIT \<Rightarrow> Some (left (Signal.sys_exit (ucast a1) (bas s)) m)
         | SYS_WRITE \<Rightarrow> do { (r, s) \<leftarrow> sys_write (w_ata w) (w_pipe w) int1 (ubuf u a2) a3 s; answer r f s u }
         | SYS_READ \<Rightarrow> do {
             (r, b, s) \<leftarrow> sys_read (w_halt w) (w_pipe w) int1 (ubuf u a2) a3 s; answer r f s (uput a2 b u) }
         | SYS_FORK \<Rightarrow> do { (r, s) \<leftarrow> sys_fork (w_fork_ret w) f s; answer r f s u }
         | SYS_EXEC \<Rightarrow> do {
             path \<leftarrow> ustr u a1;
             argv \<leftarrow> uargv u a2;
             (r, f, s) \<leftarrow> sys_exec (w_ata w) f path argv s;
             answer (of_int r) f s (if r = 0 then mapped_bytes s else u) }
         | SYS_GETPID \<Rightarrow> answer (sys_getpid s) f s u
         | SYS_WAITPID \<Rightarrow> do {
             (r, code, s) \<leftarrow> sys_waitpid (w_others w) (sint a1) s;
             answer r f s (if a2 = 0 then u else uput_list a2 (le32 code) u) }
         | SYS_OPEN \<Rightarrow> do { path \<leftarrow> ustr u a1; (r, s) \<leftarrow> sys_open (w_ata w) path (ucast a2) s; answer (of_int r) f s u }
         | SYS_CLOSE \<Rightarrow> (let (r, s) = sys_close int1 s in answer (of_int r) f s u)
         | SYS_LSEEK \<Rightarrow> do { (r, s) \<leftarrow> sys_lseek int1 a2 (ucast a3) s; answer (of_int r) f s u }
         | SYS_READDIR \<Rightarrow> (let (r, b) = sys_readdir a1 (ubuf u a2) s in answer (of_int r) f s (uput a2 b u))
         | SYS_DUP \<Rightarrow> (let (r, s) = sys_dup int1 s in answer (of_int r) f s u)
         | SYS_DUP2 \<Rightarrow> (let (r, s) = sys_dup2 int1 int2 s in answer (of_int r) f s u)
         | SYS_PIPE \<Rightarrow>
             (let (r, ends, s) = make_pipe s
              in answer (of_int r) f s
                   (case ends of None \<Rightarrow> u
                    | Some (x, y) \<Rightarrow> uput_list a1 (le32 (of_int x) @ le32 (of_int y)) u))
         | SYS_KILL \<Rightarrow> do { (r, b) \<leftarrow> sys_kill a1 (ucast a2) (bas s); answer (of_int r) f (s\<lparr>bas := b\<rparr>) u }
         | SYS_SIGNAL \<Rightarrow> (let (r, b) = sys_signal (ucast a1) a2 (bas s) in answer (of_int r) f (s\<lparr>bas := b\<rparr>) u)
         | SYS_PROCINFO \<Rightarrow> do { (r, b) \<leftarrow> sys_procinfo a1 (ubuf u a2) s; answer (of_int r) f s (uput a2 b u) }
         | SYS_SETFG \<Rightarrow> answer 0 f (sys_setfg a1 s) u
         | SYS_CHDIR \<Rightarrow> do { p \<leftarrow> ustr_opt u a1; (r, s) \<leftarrow> sys_chdir (w_ata w) p s; answer (of_int r) f s u }
         | SYS_GETCWD \<Rightarrow>
             (let (r, b) = sys_getcwd (if a1 = 0 then None else Some (ubuf u a1)) a2 s
              in answer (of_int r) f s (case b of None \<Rightarrow> u | Some b \<Rightarrow> uput a1 b u))
         | SYS_GETDENTS \<Rightarrow> do {
             p \<leftarrow> ustr_opt u a1;
             (r, b, s) \<leftarrow> sys_getdents (w_ata w) p (if a2 = 0 then None else Some (ubuf u a2)) a3 s;
             answer (of_int r) f s (case b of None \<Rightarrow> u | Some b \<Rightarrow> uput a2 b u) }
         | SYS_BRK \<Rightarrow> (let (r, s) = sys_brk a1 s in answer r f s u)
         | SYS_MKDIR \<Rightarrow> do { p \<leftarrow> ustr_opt u a1; (r, s) \<leftarrow> sys_mkdir (w_ata w) p s; answer (of_int r) f s u }
         | SYS_UNLINK \<Rightarrow> do { p \<leftarrow> ustr_opt u a1; (r, s) \<leftarrow> sys_unlink (w_ata w) p s; answer (of_int r) f s u }
         | SYS_STAT \<Rightarrow> do {
             p \<leftarrow> ustr_opt u a1;
             (r, st, s) \<leftarrow> sys_stat (w_ata w) p (a2 = 0) s;
             answer (of_int r) f s (case st of None \<Rightarrow> u | Some t \<Rightarrow> uput_list a2 (stat_bytes t) u) }
         | SYS_RENAME \<Rightarrow> do {
             p \<leftarrow> ustr_opt u a1; q \<leftarrow> ustr_opt u a2;
             (r, s) \<leftarrow> sys_rename (w_ata w) p q s; answer (of_int r) f s u }
         | SYS_TCGETATTR \<Rightarrow>
             (let (r, t) = sys_tcgetattr (a2 = 0) s
              in answer (of_int r) f s (case t of None \<Rightarrow> u | Some t \<Rightarrow> uput_list a2 (termios_bytes t) u))
         | SYS_TCSETATTR \<Rightarrow> (let (r, s) = sys_tcsetattr (uget_termios u a2) s in answer (of_int r) f s u)
         | SYS_SLEEP \<Rightarrow> do { s \<leftarrow> sys_sleep (w_others w) (ucast a1) s; answer 0 f s u }
         | SYS_UPTIME \<Rightarrow> answer (sys_uptime s) f s u
         | SYS_GETENV \<Rightarrow> do {
             key \<leftarrow> ustr u a1;
             (r, b) \<leftarrow> sys_getenv (cur s) key (uget_env u a2) a3;
             answer (of_int r) f s (uput_env a2 b u) }
         | SYS_SETENV \<Rightarrow> do {
             key \<leftarrow> ustr u a1; val \<leftarrow> ustr u a2;
             let (r, p) = sys_setenv (cur s) key val;
             answer (of_int r) f (on_cur_env p s) u }
         | SYS_UNSETENV \<Rightarrow> do {
             key \<leftarrow> ustr u a1;
             let (r, p) = sys_unsetenv (cur s) key;
             answer (of_int r) f (on_cur_env p s) u }
         | SYS_GETENV_AT \<Rightarrow> do {
             (r, b) \<leftarrow> sys_getenv_at (cur s) a1 (uget_env u a2) a3;
             answer (of_int r) f s (uput_env a2 b u) }))"

text \<open>
  \<open>syscall_dispatch\<close>: signals are delivered to whoever is current when the call returns. The return address that a
  delivery pushes is written to the caller's memory.
\<close>

definition syscall_dispatch :: "world \<Rightarrow> syscall_frame \<Rightarrow> machine \<Rightarrow> outcome option" where
  "syscall_dispatch w f m = do {
     r \<leftarrow> do_syscall w f m;
     case r of
       Back f m \<Rightarrow>
         Some (case deliver_signals f (bas (ost m)) of
                 Returns f' b \<Rightarrow>
                   Back f' \<lparr>ost = (ost m)\<lparr>bas := b\<rparr>,
                            um = (if sf_ursp f' = sf_ursp f then um m
                                  else uput_list (sf_ursp f') (le64 (umem b (sf_ursp f'))) (um m))\<rparr>
               | Never g \<Rightarrow> left g m)
     | _ \<Rightarrow> Some r
   }"

end
