(* ===== verification/Cache.thy ===== *)
theory Cache
  imports Buffer
begin

text \<open>
  The buffer cache of src/src/fs/noxfs/buffer.c is transparent. The invariant \<open>cache_ok\<close> describes its two linked
  structures (the LRU list as a list of the sixteen buffers, each hash chain as the list of the valid
  buffers of its bucket) and the data in the buffers; \<open>block\<close> is the contents of a block as the
  file system sees it, wherever it is. On a drive whose transfers succeed, reading a block gives these
  contents, and no eviction, write-back or reordering changes them.
\<close>

section \<open>The LRU list\<close>

fun linked :: "(nat \<Rightarrow> nat) \<Rightarrow> (nat \<Rightarrow> nat) \<Rightarrow> nat list \<Rightarrow> bool" where
  "linked nx pv (a # b # xs) \<longleftrightarrow> nx a = b \<and> pv b = a \<and> linked nx pv (b # xs)"
| "linked nx pv _ \<longleftrightarrow> True"

lemma linked_append: "linked nx pv (xs @ a # ys) \<longleftrightarrow> linked nx pv (xs @ [a]) \<and> linked nx pv (a # ys)"
  by (induction nx pv xs rule: linked.induct) (auto split: list.split)

lemma in_set_tlD: "p \<in> set (tl xs) \<Longrightarrow> p \<in> set xs"
  by (cases xs) auto

lemma linked_cong:
  assumes "\<And>p. p \<in> set (butlast xs) \<Longrightarrow> nx p = nx' p" and "\<And>p. p \<in> set (tl xs) \<Longrightarrow> pv p = pv' p"
  shows "linked nx pv xs \<longleftrightarrow> linked nx' pv' xs"
  using assms by (induction nx pv xs rule: linked.induct) auto

abbreviation nxt :: "cache \<Rightarrow> nat \<Rightarrow> nat" where "nxt s \<equiv> \<lambda>p. lru_next (bufs s p)"
abbreviation prv :: "cache \<Rightarrow> nat \<Rightarrow> nat" where "prv s \<equiv> \<lambda>p. lru_prev (bufs s p)"

definition ring :: "nat list \<Rightarrow> nat list" where
  "ring ls = LRU_HEAD # ls @ [LRU_TAIL]"

definition lru_list :: "cache \<Rightarrow> nat list \<Rightarrow> bool" where
  "lru_list s ls \<longleftrightarrow> linked (nxt s) (prv s) (ring ls) \<and> distinct ls \<and> set ls \<subseteq> {1 .. 16}"

lemma ring_distinct: "lru_list s ls \<Longrightarrow> distinct (ring ls) \<and> 0 \<notin> set (ring ls)"
  by (auto simp: lru_list_def ring_def LRU_HEAD_def LRU_TAIL_def)

lemma lru_remove_list:
  assumes "lru_list s (as @ p # bs)"
  shows "lru_list (lru_remove p s) (as @ bs)"
proof -
  define xs a c ys where r: "xs = butlast (LRU_HEAD # as)" "a = last (LRU_HEAD # as)" "c = hd (bs @ [LRU_TAIL])" "ys = tl (bs @ [LRU_TAIL])"
  have ring: "ring (as @ p # bs) = xs @ a # p # c # ys" "ring (as @ bs) = xs @ a # c # ys"
    unfolding r ring_def by (simp_all add: append_butlast_last_id [symmetric] del: append_butlast_last_id)
  have d: "distinct (xs @ a # p # c # ys)" "0 \<notin> set (xs @ a # p # c # ys)" using ring_distinct [OF assms] ring by metis+
  have l: "linked (nxt s) (prv s) (xs @ [a])" "nxt s a = p" "prv s p = a" "nxt s p = c" "prv s c = p" "linked (nxt s) (prv s) (c # ys)"
    using assms linked_append [of "nxt s" "prv s" xs a "p # c # ys"] by (simp_all add: lru_list_def ring)
  have n: "nxt (lru_remove p s) = (nxt s)(a := c, p := 0)" "prv (lru_remove p s) = (prv s)(c := a, p := 0)"
    using l d by (auto simp: lru_remove_def upd_buf_def Let_def fun_eq_iff)
  have "linked (nxt (lru_remove p s)) (prv (lru_remove p s)) (xs @ [a])"
    unfolding n by (rule linked_cong [THEN iffD1, OF _ _ l(1)]) (use d in \<open>auto dest: in_set_tlD\<close>)
  moreover have "linked (nxt (lru_remove p s)) (prv (lru_remove p s)) (c # ys)"
    unfolding n by (rule linked_cong [THEN iffD1, OF _ _ l(6)]) (use d in \<open>auto dest: in_set_butlastD split: if_splits\<close>)
  ultimately have "linked (nxt (lru_remove p s)) (prv (lru_remove p s)) (xs @ a # c # ys)"
    using d by (subst linked_append) (auto simp: n)
  then show ?thesis using assms by (simp add: lru_list_def ring)
qed

lemma lru_insert_list:
  assumes "lru_list s ls" "p \<notin> set ls" "1 \<le> p" "p \<le> 16"
  shows "lru_list (lru_insert_head p s) (p # ls)"
proof -
  define c ys where r: "c = hd (ls @ [LRU_TAIL])" "ys = tl (ls @ [LRU_TAIL])"
  have ring: "ring ls = LRU_HEAD # c # ys" "ring (p # ls) = LRU_HEAD # p # c # ys" unfolding r ring_def by (cases ls; simp)+
  have d: "distinct (LRU_HEAD # c # ys)" using ring_distinct [OF assms(1)] ring by metis
  have p: "p \<notin> set (LRU_HEAD # c # ys)" using assms(2-4) unfolding ring(1) [symmetric] by (simp add: ring_def LRU_HEAD_def LRU_TAIL_def)
  have l: "nxt s LRU_HEAD = c" "linked (nxt s) (prv s) (c # ys)" using assms(1) by (simp_all add: lru_list_def ring)
  have n: "nxt (lru_insert_head p s) = (nxt s)(p := c, LRU_HEAD := p)" "prv (lru_insert_head p s) = (prv s)(p := LRU_HEAD, c := p)"
    using l(1) p d by (auto simp: lru_insert_head_def upd_buf_def Let_def fun_eq_iff)
  have "linked (nxt (lru_insert_head p s)) (prv (lru_insert_head p s)) (c # ys)"
    unfolding n by (rule linked_cong [THEN iffD1, OF _ _ l(2)]) (use d p in \<open>auto dest: in_set_butlastD split: if_splits\<close>)
  then have "linked (nxt (lru_insert_head p s)) (prv (lru_insert_head p s)) (LRU_HEAD # p # c # ys)"
    using d p by (auto simp: n)
  then show ?thesis using assms by (simp add: lru_list_def ring)
qed

lemma lru_cong: "nxt s = nxt t \<Longrightarrow> prv s = prv t \<Longrightarrow> lru_list s ls = lru_list t ls"
  by (simp add: lru_list_def)

lemma lru_sweep_find:
  assumes "linked (nxt s) (prv s) (LRU_HEAD # ls @ [x])" "set ls \<subseteq> {1 .. 16}"
  shows "lru_sweep f (prv s x) s = Some (case find (\<lambda>p. \<not> has_flag s p f) (rev ls) of None \<Rightarrow> 0 | Some p \<Rightarrow> p)"
  using assms
proof (induction ls arbitrary: x rule: rev_induct)
  case Nil
  then show ?case by (simp add: lru_sweep.simps)
next
  case (snoc q ls)
  have "linked (nxt s) (prv s) ((LRU_HEAD # ls) @ q # [x])" using snoc.prems(1) by simp
  then have l: "prv s x = q" "linked (nxt s) (prv s) (LRU_HEAD # ls @ [q])"
    using linked_append [of "nxt s" "prv s" "LRU_HEAD # ls" q "[x]"] by simp_all
  have q: "q \<noteq> 0" "q \<noteq> LRU_HEAD" using snoc.prems(2) by (auto simp: LRU_HEAD_def)
  show ?case
  proof (cases "has_flag s q f")
    case True
    then have "lru_sweep f (prv s x) s = lru_sweep f (prv s q) s" using l(1) q by (subst lru_sweep.simps) simp
    then show ?thesis using snoc.IH [OF l(2)] snoc.prems(2) True by simp
  next
    case False
    then show ?thesis using l(1) q by (subst lru_sweep.simps) simp
  qed
qed

section \<open>The hash chains\<close>

definition cached :: "cache \<Rightarrow> nat \<Rightarrow> bool" where
  "cached s p \<longleftrightarrow> 1 \<le> p \<and> p \<le> 16 \<and> has_flag s p B_VALID"

abbreviation bucket_of :: "cache \<Rightarrow> nat \<Rightarrow> nat" where
  "bucket_of s p \<equiv> buf_hash (b_dev (bufs s p)) (blockno (bufs s p))"

definition bucket :: "cache \<Rightarrow> nat \<Rightarrow> nat list \<Rightarrow> bool" where
  "bucket s h ps \<longleftrightarrow> chain (\<lambda>p. hash_next (bufs s p)) (g_hash s h) ps \<and> distinct ps \<and>
     set ps = {p. cached s p \<and> bucket_of s p = h}"

definition hash_ok :: "cache \<Rightarrow> bool" where
  "hash_ok s \<longleftrightarrow> (\<forall>h < 8. \<exists>ps. bucket s h ps)"

lemma buf_hash_less: "buf_hash dev b < 8"
  by (simp add: buf_hash_def unat_mod)

lemma hash_find_chain:
  assumes "chain (\<lambda>p. hash_next (bufs s p)) p ps"
  shows "hash_find dev b p s = Some (case find (\<lambda>q. b_dev (bufs s q) = dev \<and> blockno (bufs s q) = b) ps of None \<Rightarrow> 0 | Some q \<Rightarrow> q)"
  using assms
proof (induction ps arbitrary: p)
  case (Cons q ps)
  then show ?case by (subst hash_find.simps) auto
qed (simp add: hash_find.simps)

lemma hash_lookup_ok:
  assumes "hash_ok s"
  obtains p where "hash_lookup dev b s = Some p"
    "p = 0 \<and> (\<forall>q. cached s q \<longrightarrow> \<not> (b_dev (bufs s q) = dev \<and> blockno (bufs s q) = b)) \<or>
     cached s p \<and> b_dev (bufs s p) = dev \<and> blockno (bufs s p) = b"
proof -
  obtain ps where ps: "bucket s (buf_hash dev b) ps" using assms [unfolded hash_ok_def, rule_format, OF buf_hash_less] by blast
  let ?P = "\<lambda>q. b_dev (bufs s q) = dev \<and> blockno (bufs s q) = b"
  have lk: "hash_lookup dev b s = Some (case find ?P ps of None \<Rightarrow> 0 | Some q \<Rightarrow> q)"
    using ps hash_find_chain [of s "g_hash s (buf_hash dev b)" ps dev b] by (simp add: hash_lookup_def bucket_def)
  show thesis
  proof (cases "find ?P ps")
    case None
    then have "\<not> (cached s q \<and> ?P q)" for q using ps by (auto simp: find_None_iff bucket_def)
    then show ?thesis using that [of 0] lk None by auto
  next
    case (Some q)
    then have "q \<in> set ps" "?P q" by (auto simp: find_Some_iff)
    then show ?thesis using that [of q] lk Some ps by (auto simp: bucket_def)
  qed
qed

text \<open>Unlinking walks to the buffer and takes it out of the chain.\<close>

lemma hash_unlink_chain:
  assumes "chain (\<lambda>p. hash_next (bufs s p)) cur (as @ p # bs)" "distinct (as @ p # bs)" "prev \<notin> set (as @ p # bs)"
  shows "hash_unlink p h prev cur s = Some
    (if as = [] \<and> prev = 0 then s\<lparr>g_hash := (g_hash s)(h := hash_next (bufs s p))\<rparr>
     else upd_buf (if as = [] then prev else last as) (\<lambda>b. b\<lparr>hash_next := hash_next (bufs s p)\<rparr>) s)"
  using assms
proof (induction as arbitrary: cur prev)
  case Nil
  then show ?case by (subst hash_unlink.simps) auto
next
  case (Cons a as)
  then have a: "cur = a" "a \<noteq> 0" "a \<noteq> p" "chain (\<lambda>p. hash_next (bufs s p)) (hash_next (bufs s a)) (as @ p # bs)" by auto
  then have "hash_unlink p h prev cur s = hash_unlink p h a (hash_next (bufs s a)) s" by (subst hash_unlink.simps) simp
  also have "\<dots> = Some (if as = [] \<and> a = 0 then s\<lparr>g_hash := (g_hash s)(h := hash_next (bufs s p))\<rparr>
     else upd_buf (if as = [] then a else last as) (\<lambda>b. b\<lparr>hash_next := hash_next (bufs s p)\<rparr>) s)"
    using Cons.prems a by (intro Cons.IH) auto
  finally show ?case using a by simp
qed

lemma chain_take_out:
  assumes "chain nx p (as @ q # bs)" "distinct (as @ q # bs)" "as \<noteq> []"
  shows "chain (nx(last as := nx q)) p (as @ bs)"
  using assms
proof (induction as arbitrary: p)
  case (Cons a as)
  show ?case
  proof (cases "as = []")
    case True
    have c: "a \<notin> set bs" "chain nx (nx q) bs" using Cons.prems True by auto
    have "chain (\<lambda>b. if b = a then nx q else nx b) (nx q) bs"
      by (rule chain_cong [THEN iffD1, OF _ c(2)]) (use c(1) in auto)
    then show ?thesis using Cons.prems(1) True by simp
  next
    case False
    then show ?thesis using Cons by auto
  qed
qed simp

lemma chain_join: "chain nx p (as @ q # bs) \<Longrightarrow> chain nx q (q # bs)"
  by (induction as arbitrary: p) auto

text \<open>The state after a removal: the chain of the bucket lacks the buffer, nothing else has changed.\<close>

lemma hash_remove_ok:
  assumes "hash_ok s" "cached s p"
  obtains s' where "hash_remove p s = Some s'" "blks s' = blks s"
    "\<And>q. \<exists>n. bufs s' q = (bufs s q)\<lparr>hash_next := n\<rparr>"
    "\<And>h. h < 8 \<Longrightarrow> \<exists>ps. chain (\<lambda>q. hash_next (bufs s' q)) (g_hash s' h) ps \<and> distinct ps \<and> set ps = {q. cached s q \<and> bucket_of s q = h} - {p}"
proof -
  let ?h = "bucket_of s p"
  obtain ps where ps: "bucket s ?h ps" using assms(1) [unfolded hash_ok_def, rule_format, OF buf_hash_less] by blast
  then have "p \<in> set ps" using assms(2) by (simp add: bucket_def)
  then obtain as bs where sp: "ps = as @ p # bs" by (auto simp: in_set_conv_decomp)
  have c: "chain (\<lambda>p. hash_next (bufs s p)) (g_hash s ?h) (as @ p # bs)" "distinct (as @ p # bs)" using ps sp by (auto simp: bucket_def)
  define s' where "s' = (if as = [] then s\<lparr>g_hash := (g_hash s)(?h := hash_next (bufs s p))\<rparr>
     else upd_buf (last as) (\<lambda>b. b\<lparr>hash_next := hash_next (bufs s p)\<rparr>) s)"
  have nz: "0 \<notin> set (as @ p # bs)" by (rule chain_nonzero [OF c(1)])
  have r: "hash_remove p s = Some s'"
    using hash_unlink_chain [OF c, of 0 ?h] nz by (simp add: hash_remove_def s'_def)
  have own: "chain (\<lambda>q. hash_next (bufs s' q)) (g_hash s' ?h) (as @ bs)"
  proof (cases "as = []")
    case True
    then show ?thesis using c by (simp add: s'_def)
  next
    case False
    have "(\<lambda>q. hash_next (bufs s' q)) = (\<lambda>q. hash_next (bufs s q))(last as := hash_next (bufs s p))"
      using False by (auto simp: s'_def upd_buf_def fun_eq_iff)
    then show ?thesis using chain_take_out [OF c False] False by (simp add: s'_def upd_buf_def)
  qed
  have other: "\<exists>qs. chain (\<lambda>q. hash_next (bufs s' q)) (g_hash s' h) qs \<and> distinct qs \<and> set qs = {q. cached s q \<and> bucket_of s q = h} - {p}"
    if h: "h < 8" for h
  proof (cases "h = ?h")
    case True
    then show ?thesis using own c(2) ps sp by (intro exI [of _ "as @ bs"]) (auto simp: bucket_def)
  next
    case False
    obtain qs where qs: "bucket s h qs" using assms(1) h by (auto simp: hash_ok_def)
    have "as \<noteq> [] \<Longrightarrow> last as \<notin> set qs" using qs ps sp False by (auto simp: bucket_def dest: last_in_set)
    then have same: "hash_next (bufs s' q) = hash_next (bufs s q)" if "q \<in> set qs" for q
      using that by (auto simp: s'_def upd_buf_def)
    moreover have "g_hash s' h = g_hash s h" using False by (simp add: s'_def upd_buf_def)
    ultimately have "chain (\<lambda>q. hash_next (bufs s' q)) (g_hash s' h) qs \<longleftrightarrow> chain (\<lambda>q. hash_next (bufs s q)) (g_hash s h) qs"
      by (simp only:) (rule chain_cong, rule same)
    then show ?thesis using qs False by (intro exI [of _ qs]) (auto simp: bucket_def)
  qed
  have f: "\<exists>n. bufs s' q = (bufs s q)\<lparr>hash_next := n\<rparr>" for q
    by (intro exI [of _ "hash_next (bufs s' q)"]) (simp add: s'_def upd_buf_def)
  show thesis by (rule that [OF r _ f other]) (simp add: s'_def upd_buf_def)
qed

section \<open>The invariant\<close>

text \<open>A drive that moves one sector, and a block layer that has it as device 0 and is idle.\<close>

definition sector_io :: "u32 \<Rightarrow> nat \<Rightarrow> bool \<Rightarrow> io \<Rightarrow> io" where
  "sector_io lba bp write w =
     (if write then w\<lparr>disk := (disk w)(lba := bufdata w bp)\<rparr> else w\<lparr>bufdata := (bufdata w)(bp := disk w lba)\<rparr>)"

definition drive_ok :: "cache \<Rightarrow> bool" where
  "drive_ok s \<longleftrightarrow> blk_idle (blks s) \<and> 0 < g_dev_count (blks s) \<and>
     (\<exists>dev xfer. g_devices (blks s) 0 = Some dev \<and> dev_transfer dev = Some xfer \<and>
        (\<forall>lba bp write w. sectors dev = 0 \<or> lba + 1 \<le> sectors dev \<longrightarrow> xfer lba 1 bp write w = (OS_OK, sector_io lba bp write w)))"

definition in_range :: "cache \<Rightarrow> u32 \<Rightarrow> bool" where
  "in_range s lba \<longleftrightarrow> (\<forall>dev. g_devices (blks s) 0 = Some dev \<longrightarrow> sectors dev = 0 \<or> lba + 1 \<le> sectors dev)"

definition data_ok :: "cache \<Rightarrow> bool" where
  "data_ok s \<longleftrightarrow>
     (\<forall>p. cached s p \<longrightarrow> b_dev (bufs s p) = BUF_DEV_ATA \<and> in_range s (blockno (bufs s p)) \<and>
        (has_flag s p B_DIRTY \<or> buf_data s p = disk (world (blks s)) (blockno (bufs s p)))) \<and>
     (\<forall>p q. cached s p \<longrightarrow> cached s q \<longrightarrow> blockno (bufs s p) = blockno (bufs s q) \<longrightarrow> p = q) \<and>
     (\<forall>p. 1 \<le> p \<longrightarrow> p \<le> 16 \<longrightarrow> has_flag s p B_DIRTY \<longrightarrow> has_flag s p B_VALID)"

definition cache_ok :: "cache \<Rightarrow> bool" where
  "cache_ok s \<longleftrightarrow> (\<exists>ls. lru_list s ls \<and> set ls = {1 .. 16}) \<and> hash_ok s \<and> data_ok s \<and> drive_ok s"

text \<open>The contents of a block: in the buffer that holds it, or on the disk.\<close>

definition block :: "cache \<Rightarrow> u32 \<Rightarrow> u8 list" where
  "block s b = (case find (\<lambda>p. cached s p \<and> blockno (bufs s p) = b) [1 ..< 17] of
     Some p \<Rightarrow> buf_data s p | None \<Rightarrow> disk (world (blks s)) b)"

lemma block_cached:
  assumes "data_ok s" "cached s p"
  shows "block s (blockno (bufs s p)) = buf_data s p"
proof (cases "find (\<lambda>q. cached s q \<and> blockno (bufs s q) = blockno (bufs s p)) [1 ..< 17]")
  case None
  then show ?thesis using assms(2) by (auto simp: find_None_iff cached_def)
next
  case (Some q)
  then have "cached s q" "blockno (bufs s q) = blockno (bufs s p)" by (auto simp: find_Some_iff)
  then have "q = p" using assms by (auto simp: data_ok_def)
  then show ?thesis using Some by (simp add: block_def)
qed

lemma block_uncached:
  assumes "\<And>p. cached s p \<Longrightarrow> blockno (bufs s p) \<noteq> b"
  shows "block s b = disk (world (blks s)) b"
proof -
  have "find (\<lambda>p. cached s p \<and> blockno (bufs s p) = b) [1 ..< 17] = None" using assms by (auto simp: find_None_iff)
  then show ?thesis by (simp add: block_def)
qed

lemma flag_algebra:
  fixes v :: u32
  shows "(v OR 4) AND 1 = v AND 1" "(v OR 4) AND 2 = v AND 2" "(v OR 4) AND 4 = 4"
    "(v AND - 5) AND 1 = v AND 1" "(v AND - 5) AND 2 = v AND 2" "(v AND - 5) AND 4 = 0"
    "(v OR 2) AND 1 = v AND 1" "(v OR 2) AND 4 = v AND 4" "(v OR 2) AND 2 = 2"
    "(v AND - 3) AND 1 = v AND 1" "(v AND - 3) AND 4 = v AND 4" "(v AND - 3) AND 2 = 0"
    "v AND 6 = 0 \<longleftrightarrow> v AND 4 = 0 \<and> v AND 2 = 0"
proof -
  have "v AND (4 OR 2) = (v AND 4) OR (v AND 2)" by (rule bit.conj_disj_distrib)
  then have "v AND 6 = (v AND 4) OR (v AND 2)" by simp
  then show "v AND 6 = 0 \<longleftrightarrow> v AND 4 = 0 \<and> v AND 2 = 0" by (simp add: or_eq_0_iff)
qed (simp_all add: and.assoc bit.conj_disj_distrib bit.conj_disj_distrib2)

lemma buf_rw_ok:
  assumes "drive_ok s" "b_dev (bufs s bp) = BUF_DEV_ATA" "in_range s (blockno (bufs s bp))"
  obtains s' where "buf_rw bp wr s = Some (OS_OK, s')" "bufs s' = bufs s" "g_hash s' = g_hash s"
    "world (blks s') = sector_io (blockno (bufs s bp)) bp wr (world (blks s))" "drive_ok s'" "in_range s' = in_range s"
proof -
  obtain dev xfer where d: "g_devices (blks s) 0 = Some dev" "dev_transfer dev = Some xfer"
    "\<And>lba bp write w. sectors dev = 0 \<or> lba + 1 \<le> sectors dev \<Longrightarrow> xfer lba 1 bp write w = (OS_OK, sector_io lba bp write w)"
    and i: "blk_idle (blks s)" "0 < g_dev_count (blks s)"
    using assms(1) unfolding drive_ok_def by blast
  let ?b = "blockno (bufs s bp)"
  have r: "sectors dev = 0 \<or> ?b + 1 \<le> sectors dev" using assms(3) d(1) by (simp add: in_range_def)
  obtain b' where b': "blk_rw (int 0) ?b 1 (Some bp) wr (blks s) = Some (OS_OK, b')" "blk_idle b'"
    "world b' = sector_io ?b bp wr (world (blks s))" "g_devices b' = g_devices (blks s)" "g_dev_count b' = g_dev_count (blks s)"
    using blk_rw_transfer [OF i d(1,2), of 1 ?b bp wr OS_OK "sector_io ?b bp wr (world (blks s))"] d(3) [OF r] r by auto
  have "buf_rw bp wr s = Some (OS_OK, s\<lparr>blks := b'\<rparr>)" using b'(1) assms(2) by (simp add: buf_rw_def BUF_DEV_ATA_def)
  moreover have "drive_ok (s\<lparr>blks := b'\<rparr>)" using b' assms(1) by (simp add: drive_ok_def)
  moreover have "in_range (s\<lparr>blks := b'\<rparr>) = in_range s" using b'(4) by (simp add: in_range_def fun_eq_iff)
  ultimately show thesis using that [of "s\<lparr>blks := b'\<rparr>"] b'(3) by simp
qed

section \<open>What the operations leave alone\<close>

lemma lru_fields [simp]:
  "b_dev (bufs (lru_remove p s) q) = b_dev (bufs s q)" "blockno (bufs (lru_remove p s) q) = blockno (bufs s q)"
  "flags (bufs (lru_remove p s) q) = flags (bufs s q)" "hash_next (bufs (lru_remove p s) q) = hash_next (bufs s q)"
  "g_hash (lru_remove p s) = g_hash s" "blks (lru_remove p s) = blks s"
  "b_dev (bufs (lru_insert_head p s) q) = b_dev (bufs s q)" "blockno (bufs (lru_insert_head p s) q) = blockno (bufs s q)"
  "flags (bufs (lru_insert_head p s) q) = flags (bufs s q)" "hash_next (bufs (lru_insert_head p s) q) = hash_next (bufs s q)"
  "g_hash (lru_insert_head p s) = g_hash s" "blks (lru_insert_head p s) = blks s"
  by (auto simp: lru_remove_def lru_insert_head_def upd_buf_def Let_def)

lemma hash_insert_fields [simp]:
  "b_dev (bufs (hash_insert p s) q) = b_dev (bufs s q)" "blockno (bufs (hash_insert p s) q) = blockno (bufs s q)"
  "flags (bufs (hash_insert p s) q) = flags (bufs s q)" "lru_next (bufs (hash_insert p s) q) = lru_next (bufs s q)"
  "lru_prev (bufs (hash_insert p s) q) = lru_prev (bufs s q)" "blks (hash_insert p s) = blks s"
  by (auto simp: hash_insert_def upd_buf_def Let_def)

lemma set_flags_fields [simp]:
  "b_dev (bufs (set_flags p v s) q) = b_dev (bufs s q)" "blockno (bufs (set_flags p v s) q) = blockno (bufs s q)"
  "hash_next (bufs (set_flags p v s) q) = hash_next (bufs s q)" "lru_next (bufs (set_flags p v s) q) = lru_next (bufs s q)"
  "lru_prev (bufs (set_flags p v s) q) = lru_prev (bufs s q)" "blks (set_flags p v s) = blks s" "g_hash (set_flags p v s) = g_hash s"
  "flags (bufs (set_flags p v s) q) = (if q = p then v else flags (bufs s q))"
  by (auto simp: set_flags_def upd_buf_def)

text \<open>States that differ in flags other than \<open>B_VALID\<close>, in the buffers' data and in the block layer only.\<close>

definition same_shape :: "cache \<Rightarrow> cache \<Rightarrow> bool" where
  "same_shape s t \<longleftrightarrow> (\<forall>p. bufs t p = (bufs s p)\<lparr>flags := flags (bufs t p)\<rparr>) \<and> cached t = cached s \<and> g_hash t = g_hash s"

lemma same_shape_fields:
  assumes "same_shape s t"
  shows "b_dev (bufs t p) = b_dev (bufs s p)" "blockno (bufs t p) = blockno (bufs s p)" "hash_next (bufs t p) = hash_next (bufs s p)"
    "lru_next (bufs t p) = lru_next (bufs s p)" "lru_prev (bufs t p) = lru_prev (bufs s p)" "cached t p = cached s p" "g_hash t = g_hash s"
proof -
  have b: "bufs t p = (bufs s p)\<lparr>flags := flags (bufs t p)\<rparr>" using assms by (simp add: same_shape_def)
  show "b_dev (bufs t p) = b_dev (bufs s p)" "blockno (bufs t p) = blockno (bufs s p)" "hash_next (bufs t p) = hash_next (bufs s p)"
    "lru_next (bufs t p) = lru_next (bufs s p)" "lru_prev (bufs t p) = lru_prev (bufs s p)"
    by (subst b, simp)+
qed (use assms in \<open>simp_all add: same_shape_def\<close>)

lemma same_shape_ok: "same_shape s t \<Longrightarrow> hash_ok t = hash_ok s \<and> lru_list t ls = lru_list s ls"
  by (simp add: same_shape_fields hash_ok_def bucket_def lru_list_def)

lemma block_eq:
  assumes "same_shape s t" "\<And>q. cached s q \<Longrightarrow> buf_data t q = buf_data s q"
    "\<And>b. (\<And>q. cached s q \<Longrightarrow> blockno (bufs s q) \<noteq> b) \<Longrightarrow> disk (world (blks t)) b = disk (world (blks s)) b"
  shows "block t = block s"
proof
  fix b
  have f: "find (\<lambda>p. cached t p \<and> blockno (bufs t p) = b) [1 ..< 17] = find (\<lambda>p. cached s p \<and> blockno (bufs s p) = b) [1 ..< 17]"
    by (simp add: same_shape_fields [OF assms(1)])
  show "block t b = block s b"
  proof (cases "find (\<lambda>p. cached s p \<and> blockno (bufs s p) = b) [1 ..< 17]")
    case None
    then have "blockno (bufs s q) \<noteq> b" if "cached s q" for q using that by (auto simp: find_None_iff cached_def)
    then show ?thesis using assms(3) [of b] None f by (simp add: block_def)
  next
    case (Some q)
    then have "cached s q" by (auto simp: find_Some_iff)
    then show ?thesis using assms(2) [of q] Some f by (simp add: block_def)
  qed
qed

text \<open>Changing the flags of a valid buffer, except for \<open>B_VALID\<close>.\<close>

lemma set_flags_shape:
  assumes "v AND 1 = flags (bufs s p) AND 1"
  shows "same_shape s (set_flags p v s)"
  using assms by (auto simp: same_shape_def set_flags_def upd_buf_def cached_def has_flag_def B_VALID_def fun_eq_iff)

section \<open>Writing back and evicting\<close>

abbreviation busy :: "cache \<Rightarrow> nat \<Rightarrow> bool" where "busy s p \<equiv> has_flag s p B_BUSY"
abbreviation dirty :: "cache \<Rightarrow> nat \<Rightarrow> bool" where "dirty s p \<equiv> has_flag s p B_DIRTY"

lemmas flag_defs = has_flag_def B_VALID_def B_DIRTY_def B_BUSY_def flag_algebra

lemma bwrite_ok:
  assumes ok: "cache_ok s" and p: "1 \<le> p" "p \<le> 16"
  obtains s' where "bwrite p s = Some s'" "cache_ok s'" "block s' = block s" "same_shape s s'" "\<not> dirty s' p" "busy s' = busy s"
    "bufdata (world (blks s')) = bufdata (world (blks s))" "in_range s' = in_range s"
    "\<And>q. dirty s' q \<Longrightarrow> dirty s q" "dirty s p \<Longrightarrow> disk (world (blks s')) (blockno (bufs s p)) = buf_data s p"
proof (cases "dirty s p")
  case False
  then have "bwrite p s = Some s" by (simp add: bwrite_def)
  moreover have "same_shape s s" by (simp add: same_shape_def)
  ultimately show ?thesis using that [of s] ok False by blast
next
  case True
  have d: "data_ok s" using ok by (simp add: cache_ok_def)
  have c: "cached s p" using d True p by (simp add: data_ok_def cached_def)
  have bd: "b_dev (bufs s p) = BUF_DEV_ATA" "in_range s (blockno (bufs s p))" using d c by (simp_all add: data_ok_def)
  let ?b = "blockno (bufs s p)"
  obtain s1 where s1: "buf_rw p True s = Some (OS_OK, s1)" "bufs s1 = bufs s" "g_hash s1 = g_hash s"
    "world (blks s1) = sector_io ?b p True (world (blks s))" "drive_ok s1" "in_range s1 = in_range s"
    using buf_rw_ok [OF _ bd, of True] ok unfolding cache_ok_def by blast
  define t where "t = set_flags p (flags (bufs s p) AND NOT B_DIRTY) s1"
  have w: "world (blks t) = sector_io ?b p True (world (blks s))" using s1(4) by (simp add: t_def)
  have bw: "bwrite p s = Some t" using True s1(1,2) p by (simp add: bwrite_def t_def)
  have sh: "same_shape s t"
  proof -
    have "same_shape s1 t" unfolding t_def by (rule set_flags_shape) (simp add: s1(2) flag_defs)
    then show ?thesis using s1(2,3) by (simp add: same_shape_def cached_def has_flag_def fun_eq_iff)
  qed
  have fl: "flags (bufs t q) = (if q = p then flags (bufs s p) AND NOT B_DIRTY else flags (bufs s q))" for q by (simp add: t_def s1(2))
  have nd: "dirty t q \<longleftrightarrow> dirty s q \<and> q \<noteq> p" for q by (simp add: has_flag_def fl) (simp add: flag_defs)
  have bz: "busy t = busy s" by (rule ext) (simp add: has_flag_def fl, simp add: flag_defs)
  have va: "has_flag t q B_VALID = has_flag s q B_VALID" for q by (simp add: has_flag_def fl) (simp add: flag_defs)
  have "in_range t = in_range s1" by (rule ext) (simp add: t_def in_range_def)
  then have inr: "in_range t = in_range s" using s1(6) by simp
  have uniq: "q = p" if "cached s q" "blockno (bufs s q) = ?b" for q using d that c by (auto simp: data_ok_def)
  have "data_ok t"
    using d uniq unfolding data_ok_def same_shape_fields [OF sh] nd va w inr
    by (auto simp: sector_io_def)
  moreover have "drive_ok t" using s1(5) by (simp add: t_def drive_ok_def)
  ultimately have "cache_ok t" using ok same_shape_ok [OF sh] by (simp add: cache_ok_def)
  moreover have "block t = block s"
    by (rule block_eq [OF sh]) (use c in \<open>auto simp: w sector_io_def\<close>)
  ultimately show ?thesis using that [OF bw _ _ sh _ bz _ inr] nd w by (simp add: sector_io_def)
qed

lemma find_SomeD: "find P xs = Some x \<Longrightarrow> x \<in> set xs \<and> P x"
  by (auto simp: find_Some_iff)

lemma evict_ok:
  assumes "cache_ok s"
  obtains p s' where "evict s = Some (p, s')" "cache_ok s'" "block s' = block s" "same_shape s s'" "busy s' = busy s" "in_range s' = in_range s"
    "bufdata (world (blks s')) = bufdata (world (blks s))"
    "\<And>q. dirty s' q \<Longrightarrow> dirty s q"
    "if \<exists>q. 1 \<le> q \<and> q \<le> 16 \<and> \<not> busy s q then 1 \<le> p \<and> p \<le> 16 \<and> \<not> busy s p \<and> \<not> dirty s' p else p = 0"
proof -
  obtain ls where ls: "lru_list s ls" "set ls = {1 .. 16}" using assms by (auto simp: cache_ok_def)
  have lk: "linked (nxt s) (prv s) (LRU_HEAD # ls @ [LRU_TAIL])" using ls(1) by (simp add: lru_list_def ring_def)
  note sw = lru_sweep_find [OF lk, of _]
  have self: "same_shape s s" by (simp add: same_shape_def)
  show thesis
  proof (cases "find (\<lambda>p. \<not> has_flag s p (B_BUSY OR B_DIRTY)) (rev ls)")
    case (Some p)
    have p: "p \<in> set ls" "\<not> has_flag s p (B_BUSY OR B_DIRTY)" using find_SomeD [OF Some] by simp_all
    then have p': "1 \<le> p" "p \<le> 16" "\<not> busy s p" "\<not> dirty s p" using ls(2) by (auto simp: flag_defs)
    have "evict s = Some (p, s)" using sw Some ls(2) p' by (simp add: evict_def)
    then show ?thesis by (rule that) (use assms self p' in auto)
  next
    case None
    show ?thesis
    proof (cases "find (\<lambda>p. \<not> busy s p) (rev ls)")
      case (Some p)
      have p: "p \<in> set ls" "\<not> busy s p" using find_SomeD [OF Some] by simp_all
      then have p': "1 \<le> p" "p \<le> 16" using ls(2) by auto
      obtain s' where s': "bwrite p s = Some s'" "cache_ok s'" "block s' = block s" "same_shape s s'" "\<not> dirty s' p" "busy s' = busy s"
        "bufdata (world (blks s')) = bufdata (world (blks s))" "in_range s' = in_range s" "\<And>q. dirty s' q \<Longrightarrow> dirty s q"
        by (rule bwrite_ok [OF assms p']) blast
      have "evict s = Some (p, s')" using sw None Some ls(2) p' s'(1) by (simp add: evict_def)
      then show ?thesis by (rule that) (use s' p p' in auto)
    next
      case none: None
      then have all: "busy s q" if "1 \<le> q" "q \<le> 16" for q using ls(2) that by (auto simp: find_None_iff)
      have "evict s = Some (0, s)" using sw None none ls(2) by (simp add: evict_def)
      then show ?thesis by (rule that) (use assms self all in auto)
    qed
  qed
qed

section \<open>Recycling a buffer\<close>

text \<open>A clean buffer is taken out of the hash table and relabelled.\<close>

lemma recycle_ok:
  assumes ok: "cache_ok s" and p: "1 \<le> p" "p \<le> 16" "\<not> dirty s p"
  obtains t u where "(if has_flag s p B_VALID then hash_remove p s else Some s) = Some t" "blks t = blks s"
    "u = upd_buf p (\<lambda>b. b\<lparr>b_dev := BUF_DEV_ATA, blockno := blk, flags := 0\<rparr>) t" "cache_ok u" "block u = block s"
    "\<And>q. cached u q \<longleftrightarrow> cached s q \<and> q \<noteq> p" "\<And>q. busy u q \<longleftrightarrow> busy s q \<and> q \<noteq> p" "\<And>q. dirty u q \<longleftrightarrow> dirty s q \<and> q \<noteq> p"
    "\<And>q. q \<noteq> p \<Longrightarrow> blockno (bufs u q) = blockno (bufs s q)" "blockno (bufs u p) = blk" "b_dev (bufs u p) = 0"
proof -
  have h: "hash_ok s" and d: "data_ok s" using ok by (simp_all add: cache_ok_def)
  have "\<exists>t. (if has_flag s p B_VALID then hash_remove p s else Some s) = Some t \<and> blks t = blks s \<and>
    (\<forall>q. \<exists>n. bufs t q = (bufs s q)\<lparr>hash_next := n\<rparr>) \<and>
    (\<forall>h < 8. \<exists>ps. chain (\<lambda>q. hash_next (bufs t q)) (g_hash t h) ps \<and> distinct ps \<and> set ps = {q. cached s q \<and> bucket_of s q = h} - {p})"
  proof (cases "has_flag s p B_VALID")
    case True
    then have "cached s p" using p by (simp add: cached_def)
    then show ?thesis using True by (auto elim: hash_remove_ok [OF h])
  next
    case False
    then have "{q. cached s q \<and> bucket_of s q = h} - {p} = {q. cached s q \<and> bucket_of s q = h}" for h by (auto simp: cached_def)
    moreover have "\<exists>n. bufs s q = (bufs s q)\<lparr>hash_next := n\<rparr>" for q by (rule exI [of _ "hash_next (bufs s q)"]) simp
    ultimately show ?thesis using False h by (auto simp: hash_ok_def bucket_def)
  qed
  then obtain t where t: "(if has_flag s p B_VALID then hash_remove p s else Some s) = Some t" "blks t = blks s"
    "\<And>q. \<exists>n. bufs t q = (bufs s q)\<lparr>hash_next := n\<rparr>"
    "\<And>h. h < 8 \<Longrightarrow> \<exists>ps. chain (\<lambda>q. hash_next (bufs t q)) (g_hash t h) ps \<and> distinct ps \<and> set ps = {q. cached s q \<and> bucket_of s q = h} - {p}"
    by blast
  define u where "u = upd_buf p (\<lambda>b. b\<lparr>b_dev := BUF_DEV_ATA, blockno := blk, flags := 0\<rparr>) t"
  have f: "lru_next (bufs u q) = lru_next (bufs s q)" "lru_prev (bufs u q) = lru_prev (bufs s q)" "hash_next (bufs u q) = hash_next (bufs t q)"
    "flags (bufs u q) = (if q = p then 0 else flags (bufs s q))" "b_dev (bufs u q) = (if q = p then 0 else b_dev (bufs s q))"
    "blockno (bufs u q) = (if q = p then blk else blockno (bufs s q))" for q
    using t(3) [of q] by (auto simp: u_def upd_buf_def BUF_DEV_ATA_def)
  have g: "g_hash u = g_hash t" "blks u = blks s" by (simp_all add: u_def upd_buf_def t(2))
  have c: "cached u q \<longleftrightarrow> cached s q \<and> q \<noteq> p" for q by (simp add: cached_def has_flag_def f)
  have fl: "has_flag u q x \<longleftrightarrow> has_flag s q x \<and> q \<noteq> p" for q x by (simp add: has_flag_def f)
  have inr: "in_range u = in_range s" by (rule ext) (simp add: in_range_def g)
  have "hash_ok u"
    unfolding hash_ok_def bucket_def
  proof (intro allI impI)
    fix k assume k: "k < (8 :: nat)"
    have "{q. cached u q \<and> bucket_of u q = k} = {q. cached s q \<and> bucket_of s q = k} - {p}" by (auto simp: c f)
    then show "\<exists>ps. chain (\<lambda>q. hash_next (bufs u q)) (g_hash u k) ps \<and> distinct ps \<and> set ps = {q. cached u q \<and> bucket_of u q = k}"
      using t(4) [OF k] by (simp only: f g)
  qed
  moreover have d': "data_ok u"
    using d unfolding data_ok_def c fl inr g by (auto simp: f)
  moreover have "drive_ok u" using ok by (simp add: cache_ok_def drive_ok_def g)
  moreover have "lru_list u ls = lru_list s ls" for ls by (simp add: lru_list_def f)
  ultimately have "cache_ok u" using ok by (simp add: cache_ok_def)
  moreover have "block u = block s"
  proof
    fix b
    consider q where "cached u q" "blockno (bufs u q) = b" | "\<And>q. cached u q \<Longrightarrow> blockno (bufs u q) \<noteq> b" by blast
    then show "block u b = block s b"
    proof cases
      case 1
      then show ?thesis using block_cached [OF d', of q] block_cached [OF d, of q] by (simp add: c f g)
    next
      case 2
      show ?thesis
      proof (cases "cached s p \<and> blockno (bufs s p) = b")
        case True
        then have "block s b = disk (world (blks s)) b" using block_cached [OF d, of p] d p(3) by (auto simp: data_ok_def)
        then show ?thesis using block_uncached [of u b, OF 2] g by simp
      next
        case False
        then have "blockno (bufs s q) \<noteq> b" if "cached s q" for q using 2 [of q] that by (cases "q = p") (auto simp: c f)
        then show ?thesis using block_uncached [of s b] block_uncached [of u b, OF 2] g by simp
      qed
    qed
  qed
  ultimately show thesis by (intro that [OF t(1,2) u_def] c fl) (simp_all add: f)
qed

text \<open>Reading into a buffer that is not in the table.\<close>

lemma fill_ok:
  assumes ok: "cache_ok s" and p: "\<not> cached s p" "b_dev (bufs s p) = 0" "in_range s (blockno (bufs s p))"
  obtains t where "buf_rw p False s = Some (OS_OK, t)" "cache_ok t" "block t = block s" "bufs t = bufs s" "in_range t = in_range s"
    "buf_data t p = disk (world (blks s)) (blockno (bufs s p))" "disk (world (blks t)) = disk (world (blks s))"
proof -
  obtain t where t: "buf_rw p False s = Some (OS_OK, t)" "bufs t = bufs s" "g_hash t = g_hash s"
    "world (blks t) = sector_io (blockno (bufs s p)) p False (world (blks s))" "drive_ok t" "in_range t = in_range s"
    using buf_rw_ok [of s p False] ok p unfolding cache_ok_def BUF_DEV_ATA_def by blast
  have sh: "same_shape s t" using t(2,3) by (simp add: same_shape_def cached_def has_flag_def fun_eq_iff)
  have w: "buf_data t q = (if q = p then disk (world (blks s)) (blockno (bufs s p)) else buf_data s q)"
    "disk (world (blks t)) = disk (world (blks s))" for q by (simp_all add: t(4) sector_io_def)
  have fl: "has_flag t q x = has_flag s q x" for q x by (simp add: has_flag_def t(2))
  have c: "cached t q = cached s q" for q by (simp add: cached_def fl)
  have "data_ok t"
    using ok p(1) unfolding cache_ok_def data_ok_def c fl t(2,6) by (auto simp: w)
  then have "cache_ok t" using ok same_shape_ok [OF sh] t(5) by (simp add: cache_ok_def)
  moreover have "block t = block s" by (rule block_eq [OF sh]) (use p(1) in \<open>auto simp: w\<close>)
  ultimately show thesis using that [OF t(1) _ _ t(2,6)] w by simp
qed

text \<open>Entering a filled buffer into the table, at the head of the LRU list.\<close>

lemma install_ok:
  assumes ok: "cache_ok s" and p: "1 \<le> p" "p \<le> 16" "\<not> cached s p" "b_dev (bufs s p) = 0" "in_range s (blockno (bufs s p))"
    and new: "\<And>q. cached s q \<Longrightarrow> blockno (bufs s q) \<noteq> blockno (bufs s p)"
    and data: "buf_data s p = disk (world (blks s)) (blockno (bufs s p))"
    and t: "t = lru_insert_head p (hash_insert p (lru_remove p (set_flags p (B_VALID OR B_BUSY) s)))"
  shows "cache_ok t" "block t = block s" "\<And>q. cached t q \<longleftrightarrow> cached s q \<or> q = p" "\<And>q. busy t q \<longleftrightarrow> busy s q \<or> q = p" "\<And>q. dirty t q = dirty s q"
    "blks t = blks s" "\<And>q. blockno (bufs t q) = blockno (bufs s q)"
proof -
  have h: "hash_ok s" and d: "data_ok s" using ok by (simp_all add: cache_ok_def)
  let ?h = "buf_hash 0 (blockno (bufs s p))"
  have f: "b_dev (bufs t q) = b_dev (bufs s q)" "blockno (bufs t q) = blockno (bufs s q)" "blks t = blks s"
    "flags (bufs t q) = (if q = p then B_VALID OR B_BUSY else flags (bufs s q))"
    "hash_next (bufs t q) = (if q = p then g_hash s ?h else hash_next (bufs s q))" "g_hash t = (g_hash s)(?h := p)" for q
    using p(4) by (simp_all add: t) (simp_all add: hash_insert_def upd_buf_def Let_def)
  have vp: "has_flag t p B_VALID" "\<not> dirty t p" "busy t p" by (simp_all add: has_flag_def f) (simp_all add: flag_defs)
  have fl: "has_flag t q x = has_flag s q x" if "q \<noteq> p" for q x using that by (simp add: has_flag_def f)
  have c: "cached t q \<longleftrightarrow> cached s q \<or> q = p" for q using p vp fl by (cases "q = p") (auto simp: cached_def)
  have nv: "\<not> dirty s p" using d p by (auto simp: data_ok_def cached_def)
  have di: "dirty t q = dirty s q" for q using vp fl nv by (cases "q = p") auto
  have inr: "in_range t = in_range s" by (rule ext) (simp add: in_range_def f)
  have "hash_ok t"
    unfolding hash_ok_def
  proof (intro allI impI)
    fix k assume k: "k < (8 :: nat)"
    obtain ps where ps: "bucket s k ps" using h k by (auto simp: hash_ok_def)
    have np: "p \<notin> set ps" using ps p(3) by (auto simp: bucket_def)
    have ch: "chain (\<lambda>q. hash_next (bufs t q)) (g_hash s k) ps"
      by (rule chain_cong [THEN iffD1, of ps "\<lambda>q. hash_next (bufs s q)"]) (use ps np in \<open>auto simp: f bucket_def\<close>)
    show "\<exists>ps. bucket t k ps"
    proof (cases "k = ?h")
      case True
      then have "bucket t k (p # ps)" using ch np ps p f by (auto simp: bucket_def c)
      then show ?thesis ..
    next
      case False
      then have "bucket t k ps" using ch ps p f by (auto simp: bucket_def c)
      then show ?thesis ..
    qed
  qed
  moreover have d': "data_ok t"
    unfolding data_ok_def c inr f(1-3) di
    using d p(4,5) new data vp fl unfolding data_ok_def BUF_DEV_ATA_def by (metis)
  moreover have "drive_ok t" using ok by (simp add: cache_ok_def drive_ok_def f)
  moreover have "\<exists>ls. lru_list t ls \<and> set ls = {1 .. 16}"
  proof -
    obtain ls where ls: "lru_list s ls" "set ls = {1 .. 16}" using ok by (auto simp: cache_ok_def)
    then have "p \<in> set ls" using p by simp
    then obtain as bs where sp: "ls = as @ p # bs" by (auto simp: in_set_conv_decomp)
    have "lru_list (set_flags p (B_VALID OR B_BUSY) s) (as @ p # bs)" using ls(1) sp by (simp add: lru_list_def)
    then have "lru_list (lru_remove p (set_flags p (B_VALID OR B_BUSY) s)) (as @ bs)" by (rule lru_remove_list)
    then have "lru_list (hash_insert p (lru_remove p (set_flags p (B_VALID OR B_BUSY) s))) (as @ bs)" by (simp add: lru_list_def)
    then have "lru_list t (p # as @ bs)" unfolding t using p ls(1) sp by (intro lru_insert_list) (auto simp: lru_list_def)
    then show ?thesis using ls(2) sp by (intro exI [of _ "p # as @ bs"]) auto
  qed
  ultimately show "cache_ok t" by (simp add: cache_ok_def)
  show "block t = block s"
  proof
    fix b
    consider q where "cached s q" "blockno (bufs s q) = b" | "blockno (bufs s p) = b"
      | "blockno (bufs s p) \<noteq> b" "\<forall>q. cached s q \<longrightarrow> blockno (bufs s q) \<noteq> b"
      by blast
    then show "block t b = block s b"
    proof cases
      case 1
      then show ?thesis using block_cached [OF d', of q] block_cached [OF d, of q] c f by auto
    next
      case 2
      then have "block t b = buf_data s p" using block_cached [OF d', of p] c f by auto
      moreover have "block s b = disk (world (blks s)) b" using block_uncached [of s b] new 2 by auto
      ultimately show ?thesis using data 2 by simp
    next
      case 3
      then show ?thesis using block_uncached [of t b] block_uncached [of s b] c f by auto
    qed
  qed
  show "\<And>q. cached t q \<longleftrightarrow> cached s q \<or> q = p" by (rule c)
  show "\<And>q. dirty t q = dirty s q" by (rule di)
  show "busy t q \<longleftrightarrow> busy s q \<or> q = p" for q using vp fl by (cases "q = p") auto
qed (simp_all add: t)

section \<open>Reading and writing blocks\<close>

lemma touch_fields [simp]:
  "b_dev (bufs (touch p s) q) = b_dev (bufs s q)" "blockno (bufs (touch p s) q) = blockno (bufs s q)" "flags (bufs (touch p s) q) = flags (bufs s q)"
  "hash_next (bufs (touch p s) q) = hash_next (bufs s q)" "g_hash (touch p s) = g_hash s" "blks (touch p s) = blks s"
  by (simp_all add: touch_def)

lemma touch_ok:
  assumes ok: "cache_ok s" and p: "1 \<le> p" "p \<le> 16"
  shows "cache_ok (touch p s)" "block (touch p s) = block s"
proof -
  have c: "cached (touch p s) q = cached s q" for q by (simp add: cached_def has_flag_def)
  have i: "in_range (touch p s) = in_range s" by (rule ext) (simp add: in_range_def)
  obtain ls where ls: "lru_list s ls" "set ls = {1 .. 16}" using ok by (auto simp: cache_ok_def)
  then have "p \<in> set ls" using p by simp
  then obtain as bs where sp: "ls = as @ p # bs" by (auto simp: in_set_conv_decomp)
  have "lru_list (lru_remove p s) (as @ bs)" using ls(1) sp lru_remove_list by simp
  then have "lru_list (touch p s) (p # as @ bs)" unfolding touch_def using p ls(1) sp by (intro lru_insert_list) (auto simp: lru_list_def)
  moreover have "set (p # as @ bs) = {1 .. 16}" using ls(2) sp by auto
  ultimately show "cache_ok (touch p s)"
    using ok by (auto simp: cache_ok_def hash_ok_def bucket_def data_ok_def drive_ok_def c i has_flag_def)
  show "block (touch p s) = block s" by (rule ext) (simp only: block_def c touch_fields)
qed

lemma flag_ok:
  assumes ok: "cache_ok s" and v: "v AND 1 = flags (bufs s p) AND 1" "v AND 2 = flags (bufs s p) AND 2"
  shows "cache_ok (set_flags p v s)" "block (set_flags p v s) = block s" "cached (set_flags p v s) = cached s"
proof -
  let ?t = "set_flags p v s"
  have sh: "same_shape s ?t" by (rule set_flags_shape [OF v(1)])
  have fl: "has_flag ?t q B_VALID = has_flag s q B_VALID" "has_flag ?t q B_DIRTY = has_flag s q B_DIRTY" for q
    using v by (auto simp: has_flag_def B_VALID_def B_DIRTY_def)
  have i: "in_range ?t = in_range s" by (rule ext) (simp add: in_range_def)
  have "data_ok ?t" using ok unfolding cache_ok_def data_ok_def fl i same_shape_fields [OF sh] by simp
  then show "cache_ok ?t" using ok same_shape_ok [OF sh] by (simp add: cache_ok_def drive_ok_def)
  show "block ?t = block s" by (rule block_eq [OF sh]) simp_all
  show "cached ?t = cached s" by (rule ext) (rule same_shape_fields [OF sh])
qed

text \<open>
  \<open>bread\<close> always returns. It gives a buffer with the contents of the block, marked busy, unless the
  block is not cached and all buffers are busy; the contents of no block change.
\<close>

lemma bread_ok:
  assumes ok: "cache_ok s" and r: "in_range s b" and free: "\<exists>q. 1 \<le> q \<and> q \<le> 16 \<and> \<not> busy s q"
  obtains p s' where "bread BUF_DEV_ATA b s = Some (p, s')" "cache_ok s'" "block s' = block s" "cached s' p" "blockno (bufs s' p) = b"
    "buf_data s' p = block s b" "\<And>q. busy s' q \<longleftrightarrow> busy s q \<or> q = p" "in_range s' = in_range s"
    "\<And>q. dirty s' q \<Longrightarrow> dirty s q" "\<And>q. busy s q \<Longrightarrow> cached s q \<Longrightarrow> cached s' q \<and> blockno (bufs s' q) = blockno (bufs s q)"
proof -
  have h: "hash_ok s" and d: "data_ok s" using ok by (simp_all add: cache_ok_def)
  obtain p where lk: "hash_lookup BUF_DEV_ATA b s = Some p"
    "p = 0 \<and> (\<forall>q. cached s q \<longrightarrow> \<not> (b_dev (bufs s q) = BUF_DEV_ATA \<and> blockno (bufs s q) = b)) \<or>
     cached s p \<and> b_dev (bufs s p) = BUF_DEV_ATA \<and> blockno (bufs s p) = b"
    by (rule hash_lookup_ok [OF h])
  show thesis
  proof (cases "p = 0")
    case False
    then have c: "cached s p" "blockno (bufs s p) = b" using lk(2) by auto
    then have p: "1 \<le> p" "p \<le> 16" "has_flag s p B_VALID" by (auto simp: cached_def)
    let ?v = "flags (bufs (touch p s) p) OR B_BUSY" and ?t = "touch p s"
    have "bread BUF_DEV_ATA b s = Some (p, set_flags p ?v ?t)" using lk(1) False p(3) by (simp add: bread_def)
    moreover have "cache_ok (set_flags p ?v ?t)" "block (set_flags p ?v ?t) = block ?t" "cached (set_flags p ?v ?t) = cached ?t"
      by (rule flag_ok [OF touch_ok(1) [OF ok p(1,2)]]; simp add: flag_defs)+
    moreover have "buf_data s p = block s b" using block_cached [OF d c(1)] c(2) by simp
    moreover have "busy (set_flags p ?v ?t) q \<longleftrightarrow> busy s q \<or> q = p" for q by (simp add: flag_defs)
    moreover have "in_range (set_flags p ?v ?t) = in_range s" by (rule ext) (simp add: in_range_def)
    moreover have "dirty (set_flags p ?v ?t) q \<Longrightarrow> dirty s q" for q by (simp add: flag_defs split: if_splits)
    moreover have "cached ?t q = cached s q" for q by (simp add: cached_def has_flag_def)
    ultimately show ?thesis using that [of p "set_flags p ?v ?t"] touch_ok(2) [OF ok p(1,2)] c by simp
  next
    case True
    then have un: "blockno (bufs s q) \<noteq> b" if "cached s q" for q using lk(2) d that by (auto simp: data_ok_def cached_def)
    obtain p s1 where s1: "evict s = Some (p, s1)" "cache_ok s1" "block s1 = block s" "same_shape s s1" "busy s1 = busy s" "in_range s1 = in_range s"
      "1 \<le> p" "p \<le> 16" "\<not> busy s p" "\<not> dirty s1 p" "\<And>q. dirty s1 q \<Longrightarrow> dirty s q"
      using free by (rule_tac evict_ok [OF ok]) auto
    obtain t u where t: "(if has_flag s1 p B_VALID then hash_remove p s1 else Some s1) = Some t" "blks t = blks s1"
      and u_def: "u = upd_buf p (\<lambda>b'. b'\<lparr>b_dev := BUF_DEV_ATA, blockno := b, flags := 0\<rparr>) t"
      and u: "cache_ok u" "block u = block s1" "\<And>q. cached u q \<longleftrightarrow> cached s1 q \<and> q \<noteq> p" "\<And>q. busy u q \<longleftrightarrow> busy s1 q \<and> q \<noteq> p"
      "\<And>q. dirty u q \<longleftrightarrow> dirty s1 q \<and> q \<noteq> p" "\<And>q. q \<noteq> p \<Longrightarrow> blockno (bufs u q) = blockno (bufs s1 q)" "blockno (bufs u p) = b" "b_dev (bufs u p) = 0"
      by (rule recycle_ok [OF s1(2,7,8,10), of b]) blast
    have u8: "blks u = blks s1" using t(2) by (simp add: u_def upd_buf_def)
    have "in_range u = in_range s1" by (rule ext) (simp add: in_range_def u8)
    then have ir: "in_range u (blockno (bufs u p))" "in_range u = in_range s" using r s1(6) u(7) by simp_all
    have un1: "blockno (bufs u q) \<noteq> b" if "cached u q" for q
      using un [of q] u(3,6) [of q] that same_shape_fields [OF s1(4)] by auto
    have np: "\<not> cached u p" using u(3) by simp
    obtain w where w: "buf_rw p False u = Some (OS_OK, w)" "cache_ok w" "block w = block u" "bufs w = bufs u" "in_range w = in_range u"
      "buf_data w p = disk (world (blks u)) (blockno (bufs u p))" "disk (world (blks w)) = disk (world (blks u))"
      by (rule fill_ok [OF u(1) np u(8) ir(1)])
    define v where "v = lru_insert_head p (hash_insert p (lru_remove p (set_flags p (B_VALID OR B_BUSY) w)))"
    have cw: "cached w q = cached u q" "has_flag w q x = has_flag u q x" for q x by (simp_all add: cached_def has_flag_def w(4))
    have v: "cache_ok v" "block v = block w" "\<And>q. cached v q \<longleftrightarrow> cached w q \<or> q = p" "\<And>q. busy v q \<longleftrightarrow> busy w q \<or> q = p"
      "\<And>q. dirty v q = dirty w q" "blks v = blks w" "\<And>q. blockno (bufs v q) = blockno (bufs w q)"
      by (rule install_ok [OF w(2) s1(7,8) _ _ _ _ _ v_def]; use np u(7,8) un1 ir w(4-7) cw in simp)+
    have br: "bread BUF_DEV_ATA b s = Some (p, v)"
      using lk(1) True s1(1,7) t(1) w(1) unfolding bread_def by (auto simp: u_def v_def)
    have "buf_data v p = block s b"
      using w(6) v(6) u(7) block_uncached [of u b, OF un1] u(2) s1(3) by simp
    moreover have "in_range v = in_range s" using w(5) ir(2) by (simp add: in_range_def v(6) fun_eq_iff)
    moreover have "busy v q \<longleftrightarrow> busy s q \<or> q = p" for q using v(4) cw u(4) fun_cong [OF s1(5), of q] by auto
    moreover have "dirty v q \<Longrightarrow> dirty s q" for q using v(5) cw u(5) s1(11) by auto
    moreover have "cached v q \<and> blockno (bufs v q) = blockno (bufs s q)" if "busy s q" "cached s q" for q
    proof -
      have "q \<noteq> p" using that(1) s1(9) by auto
      then show ?thesis using that(2) v(3,7) cw u(3,6) w(4) same_shape_fields [OF s1(4)] by auto
    qed
    ultimately show ?thesis using that [OF br v(1)] v u w(3,4) s1(3) by simp
  qed
qed

text \<open>Storing into a buffer that is held, and marking it dirty.\<close>

lemma store_ok:
  assumes ok: "cache_ok s" and c: "cached s p" and t: "t = set_flags p (flags (bufs s p) OR B_DIRTY) (set_data p xs s)"
  shows "cache_ok t" "block t = (block s)(blockno (bufs s p) := xs)" "cached t = cached s" "busy t = busy s" "in_range t = in_range s"
    "\<And>q. dirty t q \<longleftrightarrow> dirty s q \<or> q = p" "\<And>q. blockno (bufs t q) = blockno (bufs s q)" "buf_data t p = xs"
proof -
  have d: "data_ok s" using ok by (simp add: cache_ok_def)
  have b: "bufs (set_data p xs s) = bufs s" "g_hash (set_data p xs s) = g_hash s"
    "bufdata (world (blks (set_data p xs s))) = (bufdata (world (blks s)))(p := xs)"
    "disk (world (blks (set_data p xs s))) = disk (world (blks s))" by (simp_all add: set_data_def)
  have sh: "same_shape s t"
  proof -
    have "same_shape (set_data p xs s) t" unfolding t by (rule set_flags_shape) (simp add: b flag_defs)
    then show ?thesis by (simp add: same_shape_def cached_def has_flag_def b fun_eq_iff)
  qed
  have f: "bufdata (world (blks t)) = (bufdata (world (blks s)))(p := xs)" "disk (world (blks t)) = disk (world (blks s))"
    "flags (bufs t q) = (if q = p then flags (bufs s p) OR B_DIRTY else flags (bufs s q))" for q by (simp_all add: t b)
  have va: "has_flag t q B_VALID = has_flag s q B_VALID" "has_flag t q B_BUSY = has_flag s q B_BUSY" for q
    by (simp_all add: has_flag_def f) (simp_all add: flag_defs)
  have di: "dirty t q \<longleftrightarrow> dirty s q \<or> q = p" for q by (simp add: has_flag_def f) (simp add: flag_defs)
  have inr: "in_range t = in_range s" by (rule ext) (simp add: in_range_def t set_data_def)
  have d': "data_ok t"
    using d unfolding data_ok_def same_shape_fields [OF sh] va di inr f using c by (auto simp: cached_def)
  have "drive_ok t" using ok by (simp add: cache_ok_def drive_ok_def t set_data_def blk_idle_def)
  then show "cache_ok t" using ok d' same_shape_ok [OF sh] by (simp add: cache_ok_def)
  show "block t = (block s)(blockno (bufs s p) := xs)"
  proof
    fix b
    consider "b = blockno (bufs s p)" | q where "cached s q" "blockno (bufs s q) = b" "b \<noteq> blockno (bufs s p)"
      | "b \<noteq> blockno (bufs s p)" "\<forall>q. cached s q \<longrightarrow> blockno (bufs s q) \<noteq> b"
      by blast
    then show "block t b = ((block s)(blockno (bufs s p) := xs)) b"
    proof cases
      case 1
      then show ?thesis using block_cached [OF d', of p] c same_shape_fields [OF sh] f by simp
    next
      case 2
      then have "q \<noteq> p" by auto
      then show ?thesis using 2 block_cached [OF d', of q] block_cached [OF d, of q] same_shape_fields [OF sh] f by simp
    next
      case 3
      then show ?thesis using block_uncached [of t b] block_uncached [of s b] same_shape_fields [OF sh] f by simp
    qed
  qed
  show "cached t = cached s" by (rule ext) (rule same_shape_fields [OF sh])
  show "busy t = busy s" by (rule ext) (rule va)
  show "\<And>q. dirty t q \<longleftrightarrow> dirty s q \<or> q = p" by (rule di)
  show "\<And>q. blockno (bufs t q) = blockno (bufs s q)" by (rule same_shape_fields [OF sh])
qed (simp_all add: t set_data_def in_range_def fun_eq_iff)

lemma brelse_ok:
  assumes "cache_ok s"
  shows "cache_ok (brelse p s)" "block (brelse p s) = block s" "cached (brelse p s) = cached s" "in_range (brelse p s) = in_range s"
    "\<And>q. busy (brelse p s) q \<longleftrightarrow> busy s q \<and> (q \<noteq> p \<or> p = 0)" "\<And>q. dirty (brelse p s) q = dirty s q"
    "\<And>q. buf_data (brelse p s) q = buf_data s q"
proof -
  have "(flags (bufs s p) AND NOT B_BUSY) AND 1 = flags (bufs s p) AND 1" "(flags (bufs s p) AND NOT B_BUSY) AND 2 = flags (bufs s p) AND 2"
    by (simp_all add: flag_defs)
  note f = flag_ok [OF assms this]
  show "cache_ok (brelse p s)" "block (brelse p s) = block s" "cached (brelse p s) = cached s" using f assms by (simp_all add: brelse_def)
qed (simp_all add: brelse_def in_range_def fun_eq_iff flag_defs)

section \<open>The start\<close>

lemma upd_buf_lru:
  "nxt (upd_buf p (\<lambda>b. b\<lparr>flags := a, b_dev := d, blockno := n, hash_next := h\<rparr>) s) = nxt s"
  "prv (upd_buf p (\<lambda>b. b\<lparr>flags := a, b_dev := d, blockno := n, hash_next := h\<rparr>) s) = prv s"
  by (auto simp: upd_buf_def)

definition init_buf :: "nat \<Rightarrow> cache \<Rightarrow> cache" where
  "init_buf i s = lru_insert_head i (upd_buf i (\<lambda>b. b\<lparr>flags := 0, b_dev := 0, blockno := 0, hash_next := 0\<rparr>) s)"

lemma init_bufs:
  assumes "lru_list s []" "k \<le> 16"
  shows "lru_list (fold init_buf [1 ..< Suc k] s) (rev [1 ..< Suc k]) \<and> blks (fold init_buf [1 ..< Suc k] s) = blks s \<and>
    (\<forall>i. 1 \<le> i \<and> i \<le> k \<longrightarrow> flags (bufs (fold init_buf [1 ..< Suc k] s) i) = 0)"
  using assms(2)
proof (induction k)
  case 0
  then show ?case using assms(1) by simp
next
  case (Suc k)
  let ?s = "fold init_buf [1 ..< Suc k] s"
  have IH: "lru_list ?s (rev [1 ..< Suc k])" "blks ?s = blks s" "\<forall>i. 1 \<le> i \<and> i \<le> k \<longrightarrow> flags (bufs ?s i) = 0" using Suc by auto
  have e: "fold init_buf [1 ..< Suc (Suc k)] s = init_buf (Suc k) ?s" by simp
  have "lru_list (upd_buf (Suc k) (\<lambda>b. b\<lparr>flags := 0, b_dev := 0, blockno := 0, hash_next := 0\<rparr>) ?s) (rev [1 ..< Suc k])"
    using IH(1) lru_cong [OF upd_buf_lru] by blast
  then have "lru_list (init_buf (Suc k) ?s) (Suc k # rev [1 ..< Suc k])"
    unfolding init_buf_def using Suc.prems by (intro lru_insert_list) auto
  moreover have "flags (bufs (init_buf (Suc k) ?s) i) = 0" if "1 \<le> i" "i \<le> Suc k" for i
    using IH(3) that by (auto simp: init_buf_def upd_buf_def)
  ultimately show ?case unfolding e using IH(2) by (simp add: init_buf_def upd_buf_def)
qed

lemma buf_init_ok:
  assumes "drive_ok s"
  shows "cache_ok (buf_init s)" "block (buf_init s) = disk (world (blks s))" "\<And>q. 1 \<le> q \<Longrightarrow> q \<le> 16 \<Longrightarrow> flags (bufs (buf_init s) q) = 0"
    "in_range (buf_init s) = in_range s"
proof -
  let ?s0 = "upd_buf LRU_TAIL (\<lambda>b. b\<lparr>lru_prev := LRU_HEAD, lru_next := 0\<rparr>) (upd_buf LRU_HEAD (\<lambda>b. b\<lparr>lru_next := LRU_TAIL, lru_prev := 0\<rparr>) s)"
  let ?s1 = "fold init_buf [1 ..< Suc 16] ?s0"
  have l0: "lru_list ?s0 []" by (simp add: lru_list_def ring_def upd_buf_def LRU_HEAD_def LRU_TAIL_def)
  have b: "lru_list ?s1 (rev [1 ..< Suc 16])" "blks ?s1 = blks ?s0" "\<And>i. 1 \<le> i \<Longrightarrow> i \<le> 16 \<Longrightarrow> flags (bufs ?s1 i) = 0"
    using init_bufs [OF l0, of 16] by auto
  define t where "t = ?s1\<lparr>g_hash := (\<lambda>h. if h < HASH_SIZE then 0 else g_hash ?s1 h)\<rparr>"
  have t: "buf_init s = t"
    unfolding t_def buf_init_def Let_def NBUF_def init_buf_def [abs_def] by simp
  have w: "blks t = blks s" using b(2) by (simp add: t_def upd_buf_def)
  have f: "flags (bufs t i) = 0" if "1 \<le> i" "i \<le> 16" for i using b(3) that by (simp add: t_def)
  have c: "\<not> cached t q" for q using f by (auto simp: cached_def has_flag_def)
  have "lru_list t (rev [1 ..< Suc 16])" using b(1) by (simp add: lru_list_def t_def)
  moreover have "set (rev [1 ..< Suc 16]) = {1 .. 16 :: nat}" by auto
  moreover have "hash_ok t" using c by (simp add: hash_ok_def bucket_def t_def HASH_SIZE_def)
  moreover have "data_ok t" using c f by (simp add: data_ok_def has_flag_def)
  moreover have "drive_ok t" using assms by (simp add: drive_ok_def w)
  ultimately have "cache_ok t" unfolding cache_ok_def by blast
  then show "cache_ok (buf_init s)" by (simp add: t)
  show "block (buf_init s) = disk (world (blks s))" using c w block_uncached [of t] by (auto simp: t)
  show "\<And>q. 1 \<le> q \<Longrightarrow> q \<le> 16 \<Longrightarrow> flags (bufs (buf_init s) q) = 0" using f by (simp add: t)
  show "in_range (buf_init s) = in_range s" by (rule ext) (simp add: in_range_def t w)
qed

section \<open>Transparency\<close>

text \<open>
  The two ways the file system uses the cache: it reads a block and releases the buffer, or it
  reads a block, changes the data, marks the buffer dirty, writes it out and releases it.
\<close>

datatype txn = Peek u32 | Update u32 "u8 list \<Rightarrow> u8 list"

fun txn_block :: "txn \<Rightarrow> u32" where
  "txn_block (Peek b) = b"
| "txn_block (Update b f) = b"

fun do_txn :: "txn \<Rightarrow> cache \<Rightarrow> (u8 list \<times> cache) option" where
  "do_txn (Peek b) s = do { (p, s) \<leftarrow> bread BUF_DEV_ATA b s; Some (buf_data s p, brelse p s) }"
| "do_txn (Update b f) s = do {
     (p, s) \<leftarrow> bread BUF_DEV_ATA b s;
     let old = buf_data s p;
     s \<leftarrow> bwrite p (set_flags p (flags (bufs s p) OR B_DIRTY) (set_data p (f old) s));
     Some (old, brelse p s)
   }"

fun do_txns :: "txn list \<Rightarrow> cache \<Rightarrow> (u8 list list \<times> cache) option" where
  "do_txns [] s = Some ([], s)"
| "do_txns (x # xs) s = do { (r, s) \<leftarrow> do_txn x s; (rs, s) \<leftarrow> do_txns xs s; Some (r # rs, s) }"

text \<open>The same on a disk without a cache.\<close>

fun disk_txns :: "txn list \<Rightarrow> (u32 \<Rightarrow> u8 list) \<Rightarrow> u8 list list \<times> (u32 \<Rightarrow> u8 list)" where
  "disk_txns [] d = ([], d)"
| "disk_txns (Peek b # xs) d = (let (rs, e) = disk_txns xs d in (d b # rs, e))"
| "disk_txns (Update b f # xs) d = (let (rs, e) = disk_txns xs (d(b := f (d b))) in (d b # rs, e))"

text \<open>Between two transactions no buffer is held, and all are clean.\<close>

definition settled :: "cache \<Rightarrow> bool" where
  "settled s \<longleftrightarrow> cache_ok s \<and> (\<forall>q. 1 \<le> q \<longrightarrow> q \<le> 16 \<longrightarrow> \<not> busy s q \<and> \<not> dirty s q)"

lemma settled_disk:
  assumes "settled s"
  shows "disk (world (blks s)) = block s"
proof
  fix b
  have d: "data_ok s" using assms by (simp add: settled_def cache_ok_def)
  show "disk (world (blks s)) b = block s b"
  proof (cases "\<exists>q. cached s q \<and> blockno (bufs s q) = b")
    case True
    then obtain q where q: "cached s q" "blockno (bufs s q) = b" by blast
    then have "\<not> dirty s q" using assms by (simp add: settled_def cached_def)
    then show ?thesis using block_cached [OF d q(1)] q d by (auto simp: data_ok_def)
  next
    case False
    then show ?thesis using block_uncached [of s b] by auto
  qed
qed

lemma txn_ok:
  assumes st: "settled s" and r: "in_range s (txn_block x)"
  obtains rs s' where "do_txn x s = Some (rs, s')" "settled s'" "in_range s' = in_range s"
    "\<And>xs. disk_txns (x # xs) (block s) = (let (os, e) = disk_txns xs (block s') in (rs # os, e))"
proof -
  have ok: "cache_ok s" and q: "\<And>q. 1 \<le> q \<Longrightarrow> q \<le> 16 \<Longrightarrow> \<not> busy s q \<and> \<not> dirty s q" using st by (auto simp: settled_def)
  then have free: "\<exists>q. 1 \<le> q \<and> q \<le> 16 \<and> \<not> busy s q" by (intro exI [of _ 1]) auto
  let ?b = "txn_block x"
  obtain p s1 where s1: "bread BUF_DEV_ATA ?b s = Some (p, s1)" "cache_ok s1" "block s1 = block s" "cached s1 p" "blockno (bufs s1 p) = ?b"
    "buf_data s1 p = block s ?b" "\<And>q. busy s1 q \<longleftrightarrow> busy s q \<or> q = p" "in_range s1 = in_range s" "\<And>q. dirty s1 q \<Longrightarrow> dirty s q"
    by (rule bread_ok [OF ok r free]) blast
  have p: "1 \<le> p" "p \<le> 16" using s1(4) by (auto simp: cached_def)
  show thesis
  proof (cases x)
    case (Peek b)
    have "\<not> dirty s1 q" if "1 \<le> q" "q \<le> 16" for q using s1(9) q that by blast
    then have "settled (brelse p s1)" using brelse_ok [OF s1(2), of p] s1(7) q p by (auto simp: settled_def)
    then show ?thesis using that [of "block s b" "brelse p s1"] s1 brelse_ok [OF s1(2), of p] Peek by simp
  next
    case (Update b f)
    define t where "t = set_flags p (flags (bufs s1 p) OR B_DIRTY) (set_data p (f (block s b)) s1)"
    note t = store_ok [OF s1(2,4) t_def]
    obtain u where u: "bwrite p t = Some u" "cache_ok u" "block u = block t" "same_shape t u" "\<not> dirty u p" "busy u = busy t" "in_range u = in_range t"
      "\<And>q. dirty u q \<Longrightarrow> dirty t q"
      by (rule bwrite_ok [OF t(1) p]) blast
    have bz: "busy u q = (busy s q \<or> q = p)" for q using fun_cong [OF u(6), of q] fun_cong [OF t(4), of q] s1(7) by simp
    have dy: "\<not> dirty u q" if "1 \<le> q" "q \<le> 16" for q using u(5,8) t(6) s1(9) q that by (cases "q = p") auto
    have "settled (brelse p u)" using brelse_ok [OF u(2), of p] bz dy q p by (auto simp: settled_def)
    moreover have "do_txn x s = Some (block s b, brelse p u)"
      using s1(1,6) u(1) Update by (simp add: Let_def t_def)
    moreover have "block (brelse p u) = (block s)(b := f (block s b))"
      using brelse_ok(2) [OF u(2), of p] u(3) t(2) s1(3,5) Update by simp
    ultimately show ?thesis using that [of "block s b" "brelse p u"] brelse_ok(4) [OF u(2), of p] u(7) t(5) s1(8) Update by simp
  qed
qed

lemma txns_ok:
  assumes "settled s" "\<And>x. x \<in> set xs \<Longrightarrow> in_range s (txn_block x)"
  shows "\<exists>rs t. do_txns xs s = Some (rs, t) \<and> settled t \<and> disk_txns xs (block s) = (rs, block t)"
  using assms
proof (induction xs arbitrary: s)
  case (Cons x xs)
  obtain r s1 where s1: "do_txn x s = Some (r, s1)" "settled s1" "in_range s1 = in_range s"
    "\<And>xs. disk_txns (x # xs) (block s) = (let (os, e) = disk_txns xs (block s1) in (r # os, e))"
    using txn_ok [OF Cons.prems(1), of x] Cons.prems(2) [of x] by auto
  then show ?case using Cons.IH [OF s1(2)] Cons.prems(2) by fastforce
qed simp

text \<open>
  C36: the buffer cache is transparent. After initialisation, on a drive whose sector transfers succeed, every
  sequence of block reads and read-modify-writes through the cache returns, gives the
  same data as the same sequence on the disk itself, and leaves the disk with the same
  contents; lookups, evictions, write-backs and the order of the LRU list never show.
\<close>

theorem cache_transparent:
  assumes "drive_ok s" and "\<forall>x \<in> set xs. in_range s (txn_block x)"
  shows "\<exists>rs t. do_txns xs (buf_init s) = Some (rs, t) \<and> cache_ok t \<and> disk_txns xs (disk (world (blks s))) = (rs, disk (world (blks t)))"
proof -
  have st: "settled (buf_init s)" using buf_init_ok [OF assms(1)] by (simp add: settled_def has_flag_def)
  obtain rs t where t: "do_txns xs (buf_init s) = Some (rs, t)" "settled t" "disk_txns xs (block (buf_init s)) = (rs, block t)"
    using txns_ok [OF st, of xs] assms(2) buf_init_ok(4) [OF assms(1)] by auto
  then show ?thesis using settled_disk [OF t(2)] buf_init_ok(2) [OF assms(1)] by (auto simp: settled_def)
qed

text \<open>A drive of 100 zeroed sectors.\<close>

definition demo_drive :: "(nat, io) block_device" where
  "demo_drive = \<lparr>dev_name = str ''ata0'', sectors = 100, dev_transfer = Some (\<lambda>lba n bp wr w. (OS_OK, sector_io lba bp wr w)), registered = True\<rparr>"

definition demo_sector :: "u8 list" where
  "demo_sector = 0 # replicate 511 0"

definition demo_cache :: cache where
  "demo_cache = \<lparr>bufs = (\<lambda>_. \<lparr>b_dev = 9, blockno = 9, flags = 9, hash_next = 9, lru_prev = 9, lru_next = 9\<rparr>), g_hash = (\<lambda>_. 9),
     blks = \<lparr>g_devices = (\<lambda>i. if i = 0 then Some demo_drive else None), g_dev_count = 1,
       g_pool = (\<lambda>_. \<lparr>rq_dev = 0, rq_write = False, rq_lba = 0, rq_count = 0, rq_buf = 0, rq_status = OS_OK, rq_next = 0, in_use = False\<rparr>),
       g_queue = (\<lambda>_. 0), g_served = 0, world = \<lparr>bufdata = (\<lambda>_. []), disk = (\<lambda>_. demo_sector)\<rparr>\<rparr>\<rparr>"

theorem cache_transparent_witness:
  "drive_ok demo_cache \<and> (\<exists>rs t. do_txns [Update 5 (\<lambda>d. 7 # tl d), Peek 5, Peek 6] (buf_init demo_cache) = Some (rs, t) \<and>
     rs = [demo_sector, 7 # replicate 511 0, demo_sector] \<and> disk (world (blks t)) 5 = 7 # replicate 511 0)"
proof -
  let ?xs = "[Update 5 (\<lambda>d. 7 # tl d), Peek 5, Peek 6]"
  have d: "drive_ok demo_cache"
    by (simp add: drive_ok_def demo_cache_def demo_drive_def blk_idle_def)
  have r: "\<forall>x \<in> set ?xs. in_range demo_cache (txn_block x)"
    by (simp add: in_range_def demo_cache_def demo_drive_def)
  obtain rs t where t: "do_txns ?xs (buf_init demo_cache) = Some (rs, t)"
    "disk_txns ?xs (disk (world (blks demo_cache))) = (rs, disk (world (blks t)))"
    using cache_transparent [OF d r] by blast
  have "disk_txns ?xs (\<lambda>_. demo_sector) = ([demo_sector, 7 # tl demo_sector, demo_sector], (\<lambda>_. demo_sector)(5 := 7 # tl demo_sector))" by simp
  moreover have "disk (world (blks demo_cache)) = (\<lambda>_. demo_sector)" by (simp add: demo_cache_def)
  moreover have "tl demo_sector = replicate 511 0" by (simp only: demo_sector_def list.sel)
  ultimately have "rs = [demo_sector, 7 # replicate 511 0, demo_sector]" and e: "disk (world (blks t)) = (\<lambda>_. demo_sector)(5 := 7 # replicate 511 0)"
    using t(2) by simp_all
  moreover have "disk (world (blks t)) 5 = 7 # replicate 511 0" by (simp only: e fun_upd_same)
  ultimately show ?thesis using d t(1) by blast
qed

end
