(* ===== verification/Volume.thy ===== *)
theory Volume
  imports Directory Cache
begin

text \<open>
  NoxFS on the blocks of its disk. Over the transparent buffer cache (theory Cache) the functions of
  src/src/fs/noxfs/noxfs.c act on the contents \<open>blk s\<close> of the blocks: the theory describes the bitmap
  allocator, the inode table, the block map of a file and the file data on that view. It shows that
  what \<open>_store_data\<close> writes is what \<open>_load_data\<close> reads back, that a store fails exactly when the volume has
  fewer free blocks than the file lacks, and that a store leaves the other files alone in both cases.
\<close>

section \<open>Blocks through the cache\<close>

abbreviation blk :: "noxfs \<Rightarrow> u32 \<Rightarrow> u8 list" where
  "blk s \<equiv> block (fcache s)"

text \<open>All buffers are clean, and exactly the buffers \<open>H\<close> are held.\<close>

definition holding :: "nat set \<Rightarrow> cache \<Rightarrow> bool" where
  "holding H c \<longleftrightarrow> cache_ok c \<and> (\<forall>q. 1 \<le> q \<longrightarrow> q \<le> 16 \<longrightarrow> \<not> dirty c q \<and> (busy c q \<longleftrightarrow> q \<in> H)) \<and> (\<forall>q \<in> H. cached c q)"

definition held_blocks :: "nat set \<Rightarrow> cache \<Rightarrow> u32 set" where
  "held_blocks H c = (\<lambda>q. blockno (bufs c q)) ` H"

lemma held_data: "holding H c \<Longrightarrow> q \<in> H \<Longrightarrow> buf_data c q = block c (blockno (bufs c q))"
  by (simp add: holding_def cache_ok_def block_cached)

lemma holding_settled: "holding {} c \<longleftrightarrow> settled c"
  by (auto simp: holding_def settled_def)

text \<open>Taking one more block: reading it and, for any new contents, writing it through and releasing it.\<close>

lemma fs_open:
  assumes h: "holding H (fcache s)" and r: "in_range (fcache s) b" and free: "\<exists>q. 1 \<le> q \<and> q \<le> 16 \<and> q \<notin> H"
    and b: "b \<notin> held_blocks H (fcache s)"
  obtains p c where "fs_bread b s = Some (p, s\<lparr>fcache := c\<rparr>)" "p \<noteq> 0" "buf_data c p = blk s b" "p \<notin> H" "block c = blk s"
    "holding (insert p H) c" "blockno (bufs c p) = b" "in_range c = in_range (fcache s)" "\<And>q. q \<in> H \<Longrightarrow> blockno (bufs c q) = blockno (bufs (fcache s) q)"
proof -
  have ok: "cache_ok (fcache s)" using h by (simp add: holding_def)
  have "\<exists>q. 1 \<le> q \<and> q \<le> 16 \<and> \<not> busy (fcache s) q" using h free by (auto simp: holding_def)
  then obtain p c where c: "bread BUF_DEV_ATA b (fcache s) = Some (p, c)" "cache_ok c" "block c = blk s" "cached c p" "blockno (bufs c p) = b"
    "buf_data c p = blk s b" "\<And>q. busy c q \<longleftrightarrow> busy (fcache s) q \<or> q = p" "in_range c = in_range (fcache s)" "\<And>q. dirty c q \<Longrightarrow> dirty (fcache s) q"
    "\<And>q. busy (fcache s) q \<Longrightarrow> cached (fcache s) q \<Longrightarrow> cached c q \<and> blockno (bufs c q) = blockno (bufs (fcache s) q)"
    by (rule bread_ok [OF ok r]) blast
  have hq: "cached c q \<and> blockno (bufs c q) = blockno (bufs (fcache s) q)" if "q \<in> H" for q
  proof -
    have "cached (fcache s) q" using h that by (simp add: holding_def)
    moreover from this have "busy (fcache s) q" using h that by (simp add: holding_def cached_def)
    ultimately show ?thesis using c(10) by blast
  qed
  have "p \<noteq> 0" using c(4) by (auto simp: cached_def)
  moreover have "p \<notin> H" using hq [of p] c(5) b by (auto simp: held_blocks_def)
  moreover have "holding (insert p H) c"
    using c(2,4,7) h hq unfolding holding_def using c(9) by blast
  moreover have "fs_bread b s = Some (p, s\<lparr>fcache := c\<rparr>)" using c(1) by (simp add: fs_bread_def on_cache_def)
  ultimately show thesis using that c(3,5,6,8) hq by blast
qed

lemma fs_close:
  assumes "holding (insert p H) c" "p \<notin> H" "block c = d" "p \<noteq> 0"
  shows "holding H (brelse p c)" "block (brelse p c) = d" "in_range (brelse p c) = in_range c" "bufs (brelse p c) q = (bufs c q)\<lparr>flags := flags (bufs (brelse p c) q)\<rparr>"
    "buf_data (brelse p c) q = buf_data c q"
proof -
  have ok: "cache_ok c" using assms(1) by (simp add: holding_def)
  show "holding H (brelse p c)" using brelse_ok [OF ok, of p] assms unfolding holding_def by auto
  show "block (brelse p c) = d" "in_range (brelse p c) = in_range c" "buf_data (brelse p c) q = buf_data c q"
    using brelse_ok [OF ok, of p] assms by auto
qed (simp add: brelse_def set_flags_def upd_buf_def)

lemma fs_put_ok:
  assumes h: "holding H c" and p: "p \<in> H"
  obtains c' where "fs_put p xs (s\<lparr>fcache := c\<rparr>) = Some (s\<lparr>fcache := c'\<rparr>)" "holding H c'" "block c' = (block c)(blockno (bufs c p) := xs)"
    "in_range c' = in_range c" "\<And>q. blockno (bufs c' q) = blockno (bufs c q)"
proof -
  have ok: "cache_ok c" and cp: "cached c p" using h p by (simp_all add: holding_def)
  define t where "t = set_flags p (flags (bufs c p) OR B_DIRTY) (set_data p xs c)"
  note t = store_ok [OF ok cp t_def]
  have p': "1 \<le> p" "p \<le> 16" using cp by (auto simp: cached_def)
  obtain u where u: "bwrite p t = Some u" "cache_ok u" "block u = block t" "same_shape t u" "\<not> dirty u p" "busy u = busy t" "in_range u = in_range t"
    "\<And>q. dirty u q \<Longrightarrow> dirty t q"
    by (rule bwrite_ok [OF t(1) p']) blast
  have "holding H u"
    using h u(2,5,6) t(3,4) same_shape_fields(6) [OF u(4)] u(8) t(6) unfolding holding_def by metis
  moreover have "fs_put p xs (s\<lparr>fcache := c\<rparr>) = Some (s\<lparr>fcache := u\<rparr>)"
    using u(1) by (simp add: fs_put_def t_def Let_def set_data_def)
  ultimately show thesis using that [of u] u(3,7) t(2,5,7) same_shape_fields(2) [OF u(4)] by simp
qed

section \<open>Fields in a block\<close>

lemma le16_word: "(ucast (ucast v :: u8) :: u16) OR push_bit 8 (ucast (ucast (drop_bit 8 v) :: u8)) = v"
proof (rule bit_word_eqI)
  fix n assume n: "n < LENGTH(16)"
  show "bit ((ucast (ucast v :: u8) :: u16) OR push_bit 8 (ucast (ucast (drop_bit 8 v) :: u8))) n = bit v n"
  proof (cases "n < 8")
    case False
    then have "8 + (n - 8) = n" by simp
    then show ?thesis using n False by (auto simp: bit_simps)
  qed (use n in \<open>simp add: bit_simps\<close>)
qed

lemma le32_word:
  "(ucast (ucast v :: u8) :: u32) OR push_bit 8 (ucast (ucast (drop_bit 8 v) :: u8)) OR push_bit 16 (ucast (ucast (drop_bit 16 v) :: u8)) OR
     push_bit 24 (ucast (ucast (drop_bit 24 v) :: u8)) = v" (is "?w = v")
proof (rule bit_word_eqI)
  fix n assume n: "n < LENGTH(32)"
  have e: "bit v (8 + (n - 8)) = bit v n" if "8 \<le> n" using that by simp
  have f: "bit v (16 + (n - 16)) = bit v n" if "16 \<le> n" using that by simp
  have g: "bit v (24 + (n - 24)) = bit v n" if "24 \<le> n" using that by simp
  consider "n < 8" | "8 \<le> n" "n < 16" | "16 \<le> n" "n < 24" | "24 \<le> n" by linarith
  then show "bit ?w n = bit v n" using n e f g by cases (auto simp: bit_simps)
qed

lemma length_le [simp]: "length (le16 v) = 2" "length (le32 w) = 4"
  by (simp_all add: le16_def le32_def)

lemma get16_le16: "get16 (xs @ le16 v @ ys) (length xs) = v"
  using le16_word [of v] by (simp add: get16_def le16_def nth_append)

lemma get32_le32: "get32 (xs @ le32 v @ ys) (length xs) = v"
  using le32_word [of v] by (simp add: get32_def le32_def nth_append)

lemma get_shift:
  assumes "o1 + i + 4 \<le> length xs"
  shows "get32 xs (o1 + i) = get32 (drop o1 xs) i"
  using assms by (simp add: get32_def algebra_simps)

lemma get16_shift: "o1 + i + 2 \<le> length xs \<Longrightarrow> get16 xs (o1 + i) = get16 (drop o1 xs) i"
  by (simp add: get16_def algebra_simps)

text \<open>The same with the bytes in front written as an append, so that a chain of fields is read one by one.\<close>

lemma get32_at: "i = length xs \<Longrightarrow> get32 (xs @ le32 v @ ys) i = v"
  by (simp add: get32_le32)

lemma get16_at: "i = length xs \<Longrightarrow> get16 (xs @ le16 v @ ys) i = v"
  by (simp add: get16_le16)

definition inode_wf :: "noxfs_inode \<Rightarrow> bool" where
  "inode_wf i \<longleftrightarrow> length (i_blocks i) = 10 \<and> length (i_pad i) = 8"

lemma length_concat_le32 [simp]: "length (concat (map le32 vs)) = 4 * length vs"
  by (induction vs) simp_all

lemma get32_concat:
  assumes "k < length vs"
  shows "get32 (xs @ concat (map le32 vs) @ ys) (length xs + 4 * k) = vs ! k"
proof -
  have "concat (map le32 vs) = concat (map le32 (take k vs)) @ le32 (vs ! k) @ concat (map le32 (drop (Suc k) vs))"
    using assms by (subst id_take_nth_drop [OF assms]) simp
  then have "xs @ concat (map le32 vs) @ ys = (xs @ concat (map le32 (take k vs))) @ le32 (vs ! k) @ concat (map le32 (drop (Suc k) vs)) @ ys" by simp
  then show ?thesis using assms by (simp only:) (rule get32_at, simp)
qed

lemma inode_bytes_length [simp]: "inode_wf i \<Longrightarrow> length (inode_bytes i) = 64"
  by (simp add: inode_wf_def inode_bytes_def)

lemma read_inode_bytes:
  assumes "inode_wf i"
  shows "read_inode (inode_bytes i @ ys) 0 = i"
proof -
  have l: "length (i_blocks i) = 10" "length (i_pad i) = 8" using assms by (simp_all add: inode_wf_def)
  let ?m = "le16 (i_mode i)" and ?u = "le16 (i_uid i)" and ?g = "le16 (i_gid i)" and ?s = "le32 (i_size i)"
  let ?b = "concat (map le32 (i_blocks i))" and ?n = "le32 (i_indirect i)" and ?k = "le16 (i_links i)"
  let ?z = "inode_bytes i @ ys"
  have z: "?z = ?m @ ?u @ ?g @ ?s @ ?b @ ?n @ ?k @ i_pad i @ ys" by (simp add: inode_bytes_def)
  have f: "get16 ?z 0 = i_mode i" "get16 ?z 2 = i_uid i" "get16 ?z 4 = i_gid i" "get32 ?z 6 = i_size i"
    unfolding z using get16_at [of 0 "[]" "i_mode i"] get16_at [of 2 ?m "i_uid i"] get16_at [of 4 "?m @ ?u" "i_gid i"]
      get32_at [of 6 "?m @ ?u @ ?g" "i_size i"] by simp_all
  have b: "map (\<lambda>k. get32 ?z (10 + 4 * k)) [0 ..< 10] = i_blocks i"
    unfolding z using l get32_concat [of _ "i_blocks i" "?m @ ?u @ ?g @ ?s"] by (intro nth_equalityI) simp_all
  have g: "get32 ?z 50 = i_indirect i" "get16 ?z 54 = i_links i" "take 8 (drop 56 ?z) = i_pad i"
    unfolding z using l get32_at [of 50 "?m @ ?u @ ?g @ ?s @ ?b" "i_indirect i"]
      get16_at [of 54 "?m @ ?u @ ?g @ ?s @ ?b @ ?n" "i_links i"] by simp_all
  show ?thesis unfolding read_inode_def add_0 f b g by simp
qed

lemma read_inode_shift:
  assumes "o1 + 64 \<le> length xs"
  shows "read_inode xs o1 = read_inode (drop o1 xs) 0"
proof -
  have b: "get32 xs (o1 + 10 + 4 * k) = get32 (drop o1 xs) (10 + 4 * k)" if "k < 10" for k
    using assms that get_shift [of o1 "10 + 4 * k" xs] by (simp add: algebra_simps)
  have f: "get16 xs o1 = get16 (drop o1 xs) 0" "get16 xs (o1 + 2) = get16 (drop o1 xs) 2" "get16 xs (o1 + 4) = get16 (drop o1 xs) 4"
    "get32 xs (o1 + 6) = get32 (drop o1 xs) 6" "get32 xs (o1 + 50) = get32 (drop o1 xs) 50" "get16 xs (o1 + 54) = get16 (drop o1 xs) 54"
    using assms get16_shift [of o1 0 xs] get16_shift [of o1 2 xs] get16_shift [of o1 4 xs] get_shift [of o1 6 xs] get_shift [of o1 50 xs] get16_shift [of o1 54 xs]
    by simp_all
  have "map (\<lambda>k. get32 xs (o1 + 10 + 4 * k)) [0 ..< 10] = map (\<lambda>k. get32 (drop o1 xs) (10 + 4 * k)) [0 ..< 10]" using b by simp
  then show ?thesis unfolding read_inode_def f add_0 by (simp only: drop_drop add.commute)
qed

lemma splice_drop: "off \<le> length xs \<Longrightarrow> drop off (splice off ys xs) = ys @ drop (off + length ys) xs"
  by (simp add: splice_def)

lemma length_splice: "off + length ys \<le> length xs \<Longrightarrow> length (splice off ys xs) = length xs"
  by (simp add: splice_def)

lemma splice_nth: "off + length ys \<le> length xs \<Longrightarrow> i < length xs \<Longrightarrow>
    splice off ys xs ! i = (if off \<le> i \<and> i < off + length ys then ys ! (i - off) else xs ! i)"
  by (auto simp: splice_def nth_append min_def)

lemma read_spliced_inode:
  assumes "inode_wf i" "off + 64 \<le> length xs"
  shows "read_inode (splice off (inode_bytes i) xs) off = i"
  using assms read_inode_shift [of off "splice off (inode_bytes i) xs"] by (simp add: length_splice splice_drop read_inode_bytes)

text \<open>Other inodes of the block are not touched.\<close>

lemma get32_splice_other:
  assumes "off + length ys \<le> length xs" "i + 4 \<le> length xs" "i + 4 \<le> off \<or> off + length ys \<le> i"
  shows "get32 (splice off ys xs) i = get32 xs i"
  using assms by (auto simp: get32_def splice_nth)

lemma get32_splice:
  assumes "i + 4 \<le> length xs"
  shows "get32 (splice i (le32 v) xs) i = v"
  using assms get32_at [of i "take i xs" v "drop (i + 4) xs"] by (simp add: splice_def)

section \<open>Bitmaps\<close>

definition bit_at :: "u8 list \<Rightarrow> nat \<Rightarrow> bool" where
  "bit_at xs i \<longleftrightarrow> bit (xs ! (i div 8)) (i mod 8)"

definition mark :: "u8 list \<Rightarrow> nat \<Rightarrow> u8 list" where
  "mark xs i = xs[i div 8 := xs ! (i div 8) OR push_bit (i mod 8) 1]"

lemma length_mark [simp]: "length (mark xs i) = length xs"
  by (simp add: mark_def)

lemma bit_at_mark: "i div 8 < length xs \<Longrightarrow> bit_at (mark xs i) j \<longleftrightarrow> bit_at xs j \<or> j = i"
proof -
  assume i: "i div 8 < length xs"
  have "i div 8 = j div 8 \<and> j mod 8 = i mod 8 \<longleftrightarrow> j = i" by (metis div_mult_mod_eq)
  then show ?thesis using i by (auto simp: bit_at_def mark_def nth_list_update bit_simps)
qed

lemma all_ones: "v = (0xFF :: u8) \<Longrightarrow> i < 8 \<Longrightarrow> bit v i"
proof -
  assume v: "v = 0xFF" and i: "i < 8"
  have "v = mask 8" using v by (simp add: mask_eq_exp_minus_1)
  then show "bit v i" using i by (simp only: bit_mask_iff) simp
qed

lemma unat_index: "byte < 512 \<Longrightarrow> b < 8 \<Longrightarrow> unat (of_nat byte * 8 + of_nat b :: u32) = 8 * byte + b"
proof -
  assume b: "byte < 512" "b < 8"
  have "(of_nat byte * 8 + of_nat b :: u32) = of_nat (8 * byte + b)" by simp
  also have "unat \<dots> = 8 * byte + b" using b by (subst unat_of_nat) simp
  finally show ?thesis .
qed

lemma scan_bits_spec:
  assumes "b + k = 8" "byte < 512"
  shows "case scan_bits v byte 0 m b k of
      Found y bi idx \<Rightarrow> y = byte \<and> bi < 8 \<and> unat idx = 8 * byte + bi \<and> idx < m \<and> \<not> bit v bi
    | Full \<Rightarrow> (\<exists>j. b \<le> j \<and> j < 8 \<and> unat m \<le> 8 * byte + j \<and> (\<forall>i. b \<le> i \<and> i < j \<longrightarrow> bit v i))
    | More \<Rightarrow> (\<forall>i. b \<le> i \<and> i < 8 \<longrightarrow> bit v i)"
  using assms
proof (induction k arbitrary: b)
  case (Suc k)
  let ?idx = "of_nat byte * 8 + of_nat b :: u32"
  have u: "unat ?idx = 8 * byte + b" using Suc.prems by (intro unat_index) simp_all
  have step: "scan_bits v byte 0 m b (Suc k) =
      (if ?idx \<ge> m then Full else if \<not> bit v b then Found byte b ?idx else scan_bits v byte 0 m (Suc b) k)"
    by (simp add: Let_def and_exp_eq_0_iff_not_bit)
  consider "?idx \<ge> m" | "\<not> ?idx \<ge> m" "\<not> bit v b" | "\<not> ?idx \<ge> m" "bit v b" by blast
  then show ?case
  proof cases
    case 1
    then show ?thesis unfolding step using u Suc.prems by (auto simp: word_le_nat_alt intro: exI [of _ b])
  next
    case 2
    then show ?thesis unfolding step using u Suc.prems by simp
  next
    case 3
    have b: "bit v i" if "b \<le> i" "Suc b \<le> i \<Longrightarrow> bit v i" for i using that 3(2) by (cases "i = b") auto
    have IH: "case scan_bits v byte 0 m (Suc b) k of
      Found y bi idx \<Rightarrow> y = byte \<and> bi < 8 \<and> unat idx = 8 * byte + bi \<and> idx < m \<and> \<not> bit v bi
    | Full \<Rightarrow> (\<exists>j. Suc b \<le> j \<and> j < 8 \<and> unat m \<le> 8 * byte + j \<and> (\<forall>i. Suc b \<le> i \<and> i < j \<longrightarrow> bit v i))
    | More \<Rightarrow> (\<forall>i. Suc b \<le> i \<and> i < 8 \<longrightarrow> bit v i)" using Suc.prems by (intro Suc.IH) simp_all
    show ?thesis
    proof (cases "scan_bits v byte 0 m (Suc b) k")
      case Full
      then obtain j where "Suc b \<le> j" "j < 8" "unat m \<le> 8 * byte + j" "\<And>i. Suc b \<le> i \<Longrightarrow> i < j \<Longrightarrow> bit v i" using IH by auto
      then show ?thesis unfolding step using 3 Full b by (auto intro!: exI [of _ j])
    next
      case More
      then show ?thesis unfolding step using 3 IH b by auto
    qed (use step 3 IH in simp)
  qed
qed auto

lemma scan_bytes_spec:
  assumes "byte + k = 512"
  shows "case scan_bytes xs 0 m byte k of
      Found y bi idx \<Rightarrow> y < 512 \<and> bi < 8 \<and> unat idx = 8 * y + bi \<and> idx < m \<and> \<not> bit (xs ! y) bi
    | Full \<Rightarrow> (\<forall>i. 8 * byte \<le> i \<and> i < unat m \<longrightarrow> bit_at xs i)
    | More \<Rightarrow> (\<forall>i. 8 * byte \<le> i \<and> i < 4096 \<longrightarrow> bit_at xs i)"
  using assms
proof (induction k arbitrary: byte)
  case 0
  then show ?case by auto
next
  case (Suc k)
  let ?v = "xs ! byte"
  have IH: "case scan_bytes xs 0 m (Suc byte) k of
      Found y bi idx \<Rightarrow> y < 512 \<and> bi < 8 \<and> unat idx = 8 * y + bi \<and> idx < m \<and> \<not> bit (xs ! y) bi
    | Full \<Rightarrow> (\<forall>i. 8 * Suc byte \<le> i \<and> i < unat m \<longrightarrow> bit_at xs i)
    | More \<Rightarrow> (\<forall>i. 8 * Suc byte \<le> i \<and> i < 4096 \<longrightarrow> bit_at xs i)" using Suc.prems by (intro Suc.IH) simp
  have sb: "case scan_bits ?v byte 0 m 0 8 of
      Found y bi idx \<Rightarrow> y = byte \<and> bi < 8 \<and> unat idx = 8 * byte + bi \<and> idx < m \<and> \<not> bit ?v bi
    | Full \<Rightarrow> (\<exists>j. 0 \<le> j \<and> j < 8 \<and> unat m \<le> 8 * byte + j \<and> (\<forall>i. 0 \<le> i \<and> i < j \<longrightarrow> bit ?v i))
    | More \<Rightarrow> (\<forall>i. 0 \<le> i \<and> i < 8 \<longrightarrow> bit ?v i)" using Suc.prems by (intro scan_bits_spec) simp_all
  have at: "bit_at xs i" if "8 * byte \<le> i" "i < 8 * Suc byte" "\<And>j. j < 8 \<Longrightarrow> 8 * byte + j = i \<Longrightarrow> bit ?v j" for i
  proof -
    have d: "i div 8 = byte" using that(1,2) by auto
    then have "8 * byte + i mod 8 = i" using mult_div_mod_eq [of 8 i] by simp
    then show ?thesis using d that(3) [of "i mod 8"] by (simp add: bit_at_def)
  qed
  show ?case
  proof (cases "(\<forall>j < 8. bit ?v j) \<and> (?v = 0xFF \<or> scan_bits ?v byte 0 m 0 8 = More)")
    case True
    then have e: "scan_bytes xs 0 m byte (Suc k) = scan_bytes xs 0 m (Suc byte) k" by auto
    have "bit_at xs i" if "8 * byte \<le> i" "8 * Suc byte \<le> i \<Longrightarrow> bit_at xs i" for i
      using at [of i] that True by (cases "8 * Suc byte \<le> i") auto
    then show ?thesis unfolding e using IH by (auto split: bmp_scan.splits)
  next
    case False
    then have ne: "?v \<noteq> 0xFF" using all_ones [of ?v] by auto
    show ?thesis
    proof (cases "scan_bits ?v byte 0 m 0 8")
      case (Found y bi idx)
      then show ?thesis using ne sb Suc.prems by simp
    next
      case Full
      then obtain j where j: "j < 8" "unat m \<le> 8 * byte + j" "\<And>i. i < j \<Longrightarrow> bit ?v i" using sb by auto
      have "bit_at xs i" if "8 * byte \<le> i" "i < unat m" for i using at [of i] that j by auto
      then show ?thesis using ne Full by simp
    next
      case More
      then show ?thesis using False sb by auto
    qed
  qed
qed

section \<open>The volume\<close>

text \<open>
  The layout: superblock in block 0, then the two bitmaps and the inode table, then data; one bitmap
  block covers all blocks.
\<close>

definition layout :: "noxfs_sb \<Rightarrow> bool" where
  "layout b \<longleftrightarrow> 0 < blk_bmp b \<and> blk_bmp b < ino_tbl b \<and> 0 < ino_bmp b \<and> ino_bmp b < ino_tbl b \<and> ino_bmp b \<noteq> blk_bmp b \<and>
     unat (ino_tbl b) + (unat (inode_count b) + 7) div 8 \<le> unat (data_start b) \<and> data_start b \<le> block_count b \<and>
     unat (block_count b) \<le> 4096 \<and> length (sb_pad b) = 472"

definition unused :: "noxfs_sb \<Rightarrow> u8 list \<Rightarrow> u32 set" where
  "unused b d = {x. x < block_count b \<and> \<not> bit_at d (unat x)}"

text \<open>
  A well-formed volume: the buffers \<open>H\<close> are held, the metadata blocks are marked in the block bitmap, and
  the superblock counts the clear bits of the bitmap.
\<close>

definition vol :: "nat set \<Rightarrow> noxfs \<Rightarrow> bool" where
  "vol H s \<longleftrightarrow> holding H (fcache s) \<and> finite H \<and> card H < 15 \<and> layout (g_sb s) \<and>
     (\<forall>b < block_count (g_sb s). in_range (fcache s) b \<and> length (blk s b) = 512) \<and>
     (\<forall>i < unat (data_start (g_sb s)). bit_at (blk s (blk_bmp (g_sb s))) i) \<and>
     unat (free_blocks (g_sb s)) = card (unused (g_sb s) (blk s (blk_bmp (g_sb s)))) \<and>
     (\<forall>q \<in> H. data_start (g_sb s) \<le> blockno (bufs (fcache s) q))"

definition used :: "noxfs \<Rightarrow> u32 \<Rightarrow> bool" where
  "used s b \<longleftrightarrow> bit_at (blk s (blk_bmp (g_sb s))) (unat b)"

lemma free_buffer: "finite (H :: nat set) \<Longrightarrow> card H < 15 \<Longrightarrow> \<exists>q. 1 \<le> q \<and> q \<le> 16 \<and> q \<notin> H"
proof (rule ccontr)
  assume H: "finite H" "card H < 15" and "\<nexists>q. 1 \<le> q \<and> q \<le> 16 \<and> q \<notin> H"
  then have "{1 .. 16} \<subseteq> H" by auto
  then have "card {1 .. 16 :: nat} \<le> card H" using H(1) by (rule card_mono [rotated])
  then show False using H(2) by simp
qed

text \<open>Metadata blocks are never held, and reading one, or reading and rewriting one, works.\<close>

lemma meta_block:
  assumes v: "vol H s" and b: "b < data_start (g_sb s)"
  obtains p c where "fs_bread b s = Some (p, s\<lparr>fcache := c\<rparr>)" "p \<noteq> 0" "buf_data c p = blk s b" "p \<notin> H"
    "holding (insert p H) c" "block c = blk s" "blockno (bufs c p) = b" "in_range c = in_range (fcache s)"
    "\<And>q. q \<in> H \<Longrightarrow> blockno (bufs c q) = blockno (bufs (fcache s) q)"
proof -
  have "in_range (fcache s) b" using v b by (auto simp: vol_def layout_def)
  moreover have "b \<notin> held_blocks H (fcache s)" using v b by (auto simp: vol_def held_blocks_def)
  ultimately show thesis using v fs_open [of H s b] free_buffer [of H] that unfolding vol_def by blast
qed

text \<open>The state after a block of the volume has been replaced by \<open>d\<close>, with the held buffers as before.\<close>

lemma vol_frame:
  assumes v: "vol H s" and c: "holding H c" "in_range c = in_range (fcache s)" "\<And>q. q \<in> H \<Longrightarrow> blockno (bufs c q) = blockno (bufs (fcache s) q)"
    and b: "\<And>b. b < block_count (g_sb s) \<Longrightarrow> length (block c b) = 512"
    and m: "block c (blk_bmp (g_sb s)) = blk s (blk_bmp (g_sb s))"
  shows "vol H (s\<lparr>fcache := c\<rparr>)"
  using assms by (simp add: vol_def)

lemma bmp_alloc_ok:
  assumes v: "vol H s" and b: "b < data_start (g_sb s)"
  obtains r c where "bmp_alloc b 1 m s = Some (r, s\<lparr>fcache := c\<rparr>)" "holding H c" "in_range c = in_range (fcache s)"
    "\<And>q. q \<in> H \<Longrightarrow> blockno (bufs c q) = blockno (bufs (fcache s) q)"
    "if r = NO_INO then block c = blk s \<and> (\<forall>i < min (unat m) 4096. bit_at (blk s b) i)
     else r < m \<and> unat r < 4096 \<and> \<not> bit_at (blk s b) (unat r) \<and> block c = (blk s)(b := mark (blk s b) (unat r))"
proof -
  obtain p c where c: "fs_bread b s = Some (p, s\<lparr>fcache := c\<rparr>)" "p \<noteq> 0" "buf_data c p = blk s b" "p \<notin> H"
    "holding (insert p H) c" "block c = blk s" "blockno (bufs c p) = b" "in_range c = in_range (fcache s)"
    "\<And>q. q \<in> H \<Longrightarrow> blockno (bufs c q) = blockno (bufs (fcache s) q)"
    by (rule meta_block [OF v b]) blast
  note cl = fs_close [OF c(5,4,6,2)]
  have nb: "blockno (bufs (brelse p c) q) = blockno (bufs c q)" for q by (subst cl(4)) simp
  have fd: "fs_data p (s\<lparr>fcache := c\<rparr>) = blk s b" using c(3) by (simp add: fs_data_def)
  have rel: "fs_brelse p (s\<lparr>fcache := c\<rparr>) = s\<lparr>fcache := brelse p c\<rparr>" by (simp add: fs_brelse_def)
  note sp = scan_bytes_spec [where byte = 0 and k = 512 and xs = "blk s b" and m = m]
  show thesis
  proof (cases "scan_bytes (blk s b) 0 m 0 512")
    case (Found y bi idx)
    then have f: "y < 512" "bi < 8" "unat idx = 8 * y + bi" "idx < m" "\<not> bit (blk s b ! y) bi" using sp by simp_all
    have dm: "unat idx div 8 = y" "unat idx mod 8 = bi" using f by auto
    have mk: "(blk s b)[y := blk s b ! y OR push_bit bi 1] = mark (blk s b) (unat idx)" using dm by (simp add: mark_def)
    obtain c' where c': "fs_put p (mark (blk s b) (unat idx)) (s\<lparr>fcache := c\<rparr>) = Some (s\<lparr>fcache := c'\<rparr>)" "holding (insert p H) c'"
      "block c' = (block c)(blockno (bufs c p) := mark (blk s b) (unat idx))" "in_range c' = in_range c"
      "\<And>q. blockno (bufs c' q) = blockno (bufs c q)"
      by (rule fs_put_ok [OF c(5)]) auto
    note cl' = fs_close [OF c'(2) c(4) c'(3) c(2)]
    have nb': "blockno (bufs (brelse p c') q) = blockno (bufs c' q)" for q by (subst cl'(4)) simp
    have "idx \<noteq> NO_INO"
    proof
      assume "idx = NO_INO"
      then have "unat idx = 4294967295" by (simp add: NO_INO_def unsigned_minus_1_eq_mask mask_eq_exp_minus_1)
      then show False using f(1-3) by simp
    qed
    moreover have "bmp_alloc b 1 m s = Some (idx, s\<lparr>fcache := brelse p c'\<rparr>)"
      using c(1,2) fd Found c'(1) mk by (simp add: bmp_alloc_def fs_brelse_def)
    moreover have "\<not> bit_at (blk s b) (unat idx)" using f(5) dm by (simp add: bit_at_def)
    ultimately show ?thesis
      using that [of idx "brelse p c'"] cl' nb' c'(4,5) c(6-9) f by simp
  next
    case Full
    then have "bmp_alloc b 1 m s = Some (NO_INO, s\<lparr>fcache := brelse p c\<rparr>)" using c(1,2) fd rel by (simp add: bmp_alloc_def)
    moreover have "\<forall>i < min (unat m) 4096. bit_at (blk s b) i" using sp Full by simp
    ultimately show ?thesis using that [of NO_INO "brelse p c"] cl nb c(8,9) by simp
  next
    case More
    then have "bmp_alloc b 1 m s = Some (NO_INO, s\<lparr>fcache := brelse p c\<rparr>)" using c(1,2) fd rel by (simp add: bmp_alloc_def)
    moreover have "\<forall>i < min (unat m) 4096. bit_at (blk s b) i" using sp More by simp
    ultimately show ?thesis using that [of NO_INO "brelse p c"] cl nb c(8,9) by simp
  qed
qed

lemma sb_bytes_length: "layout b \<Longrightarrow> length (sb_bytes b) = 512"
  by (simp add: sb_bytes_def layout_def)

lemma layout_order:
  assumes "layout b"
  shows "0 < data_start b" "blk_bmp b < data_start b" "ino_bmp b < data_start b" "ino_tbl b \<le> data_start b" "data_start b \<le> block_count b"
    "blk_bmp b \<noteq> 0" "ino_bmp b \<noteq> 0" "ino_bmp b \<noteq> blk_bmp b"
  using assms by (auto simp: layout_def word_less_nat_alt word_le_nat_alt)

lemma sb_write_ok:
  assumes v: "vol H s"
  obtains c where "sb_write s = Some (OS_OK, s\<lparr>fcache := c\<rparr>)" "vol H (s\<lparr>fcache := c\<rparr>)" "block c = (blk s)(0 := sb_bytes (g_sb s))"
    "\<And>q. q \<in> H \<Longrightarrow> blockno (bufs c q) = blockno (bufs (fcache s) q)"
proof -
  have l: "layout (g_sb s)" using v by (simp add: vol_def)
  note lo = layout_order [OF l]
  obtain p c where c: "fs_bread 0 s = Some (p, s\<lparr>fcache := c\<rparr>)" "p \<noteq> 0" "buf_data c p = blk s 0" "p \<notin> H"
    "holding (insert p H) c" "block c = blk s" "blockno (bufs c p) = 0" "in_range c = in_range (fcache s)"
    "\<And>q. q \<in> H \<Longrightarrow> blockno (bufs c q) = blockno (bufs (fcache s) q)"
    by (rule meta_block [OF v lo(1)]) blast
  have "length (blk s 0) = 512" using v lo by (auto simp: vol_def)
  then have sp: "splice 0 (sb_bytes (g_sb s)) (blk s 0) = sb_bytes (g_sb s)" using sb_bytes_length [OF l] by (simp add: splice_def)
  obtain c' where c': "fs_put p (sb_bytes (g_sb s)) (s\<lparr>fcache := c\<rparr>) = Some (s\<lparr>fcache := c'\<rparr>)" "holding (insert p H) c'"
    "block c' = (block c)(blockno (bufs c p) := sb_bytes (g_sb s))" "in_range c' = in_range c"
    "\<And>q. blockno (bufs c' q) = blockno (bufs c q)"
    by (rule fs_put_ok [OF c(5)]) auto
  note cl = fs_close [OF c'(2) c(4) c'(3) c(2)]
  have nb: "blockno (bufs (brelse p c') q) = blockno (bufs (fcache s) q)" if "q \<in> H" for q
    using c'(5) c(9) that by (subst cl(4)) simp
  have bl: "block (brelse p c') = (blk s)(0 := sb_bytes (g_sb s))" using cl(2) c(6,7) by simp
  have "sb_write s = Some (OS_OK, s\<lparr>fcache := brelse p c'\<rparr>)"
    using c(1-3) c'(1) sp by (simp add: sb_write_def fs_data_def fs_brelse_def)
  moreover have "vol H (s\<lparr>fcache := brelse p c'\<rparr>)"
    by (rule vol_frame [OF v cl(1)]) (use v lo sb_bytes_length [OF l] cl(3) c'(4) c(8) nb in \<open>auto simp: vol_def bl\<close>)
  ultimately show thesis using that bl nb by blast
qed

text \<open>
  Allocating a block: either every block is taken, or the result is a data block that was free; only the
  bitmap, the superblock and the count of free blocks change.
\<close>

lemma fs_balloc_ok:
  assumes v: "vol H s"
  obtains r c b where "fs_balloc s = Some (r, s\<lparr>fcache := c, g_sb := b\<rparr>)" "vol H (s\<lparr>fcache := c, g_sb := b\<rparr>)"
    "\<And>q. q \<in> H \<Longrightarrow> blockno (bufs c q) = blockno (bufs (fcache s) q)"
    "r = NO_INO \<Longrightarrow> block c = blk s \<and> b = g_sb s"
    "r \<noteq> NO_INO \<Longrightarrow> data_start (g_sb s) \<le> r \<and> r < block_count (g_sb s) \<and> \<not> used s r \<and> b = (g_sb s)\<lparr>free_blocks := free_blocks (g_sb s) - 1\<rparr> \<and>
       block c = (blk s)(blk_bmp (g_sb s) := mark (blk s (blk_bmp (g_sb s))) (unat r), 0 := sb_bytes b)"
    "r = NO_INO \<longleftrightarrow> free_blocks (g_sb s) = 0"
proof (cases "free_blocks (g_sb s) = 0")
  case True
  show ?thesis
    by (rule that [of NO_INO "g_sb s" "fcache s"]) (use True v in \<open>simp_all add: fs_balloc_def\<close>)
next
  case False
  let ?m = "blk_bmp (g_sb s)"
  have l: "layout (g_sb s)" using v by (simp add: vol_def)
  note lo = layout_order [OF l]
  obtain r c where c: "bmp_alloc ?m 1 (block_count (g_sb s)) s = Some (r, s\<lparr>fcache := c\<rparr>)" "holding H c" "in_range c = in_range (fcache s)"
    "\<And>q. q \<in> H \<Longrightarrow> blockno (bufs c q) = blockno (bufs (fcache s) q)"
    "if r = NO_INO then block c = blk s \<and> (\<forall>i < min (unat (block_count (g_sb s))) 4096. bit_at (blk s ?m) i)
     else r < block_count (g_sb s) \<and> unat r < 4096 \<and> \<not> bit_at (blk s ?m) (unat r) \<and> block c = (blk s)(?m := mark (blk s ?m) (unat r))"
    by (rule bmp_alloc_ok [OF v lo(2), of "block_count (g_sb s)"]) blast
  show ?thesis
  proof (cases "r = NO_INO")
    case True
    have "bit_at (blk s ?m) (unat k)" if "k < block_count (g_sb s)" for k
      using c(5) True that l by (simp add: word_less_nat_alt layout_def)
    then have "unused (g_sb s) (blk s ?m) = {}" by (auto simp: unused_def)
    then have "unat (free_blocks (g_sb s)) = 0" using v by (simp add: vol_def)
    then show ?thesis using False by (simp add: unat_eq_zero)
  next
    case r: False
    have a: "r < block_count (g_sb s)" "unat r < 4096" "\<not> used s r" "block c = (blk s)(?m := mark (blk s ?m) (unat r))"
      using c(5) r by (simp_all add: used_def)
    have ge: "data_start (g_sb s) \<le> r" using a(3) v by (auto simp: vol_def used_def word_le_nat_alt not_le [symmetric])
    define b where "b = (g_sb s)\<lparr>free_blocks := free_blocks (g_sb s) - 1\<rparr>"
    have lb: "length (blk s ?m) = 512" using v lo by (auto simp: vol_def)
    have "unused b (mark (blk s ?m) (unat r)) = unused (g_sb s) (blk s ?m) - {r}"
      using a(2) lb by (auto simp: unused_def b_def bit_at_mark word_unat_eq_iff)
    moreover have "r \<in> unused (g_sb s) (blk s ?m)" using a(1,3) by (simp add: unused_def used_def)
    ultimately have un: "card (unused b (mark (blk s ?m) (unat r))) = card (unused (g_sb s) (blk s ?m)) - 1" by simp
    have fr: "unat (free_blocks (g_sb s) - 1) = unat (free_blocks (g_sb s)) - 1"
      using False by (simp add: unat_minus_one)
    have "layout b" using l by (simp add: b_def layout_def)
    moreover have "unat (free_blocks b) = card (unused b (block c (blk_bmp b)))" using un fr v a(4) by (simp add: vol_def b_def)
    ultimately have "vol H (s\<lparr>fcache := c, g_sb := b\<rparr>)"
      using v c(2-4) a(2,4) lb by (auto simp: vol_def b_def bit_at_mark)
    then obtain d where d0: "sb_write (s\<lparr>fcache := c, g_sb := b\<rparr>) = Some (OS_OK, s\<lparr>fcache := c, g_sb := b, fcache := d\<rparr>)"
      "vol H (s\<lparr>fcache := c, g_sb := b, fcache := d\<rparr>)" "block d = (block c)(0 := sb_bytes b)" "\<And>q. q \<in> H \<Longrightarrow> blockno (bufs d q) = blockno (bufs c q)"
      by (rule sb_write_ok) auto
    have "s\<lparr>fcache := c, g_sb := b, fcache := d\<rparr> = s\<lparr>fcache := d, g_sb := b\<rparr>" by simp
    note d = d0 [unfolded this]
    have "fs_balloc s = Some (r, s\<lparr>fcache := d, g_sb := b\<rparr>)" using False r c(1) d(1) by (simp add: fs_balloc_def b_def)
    then show ?thesis using that [of r b d] d(2-4) c(4) a ge r b_def False by simp
  qed
qed

section \<open>The inode table\<close>

definition inode_at :: "noxfs \<Rightarrow> u32 \<Rightarrow> noxfs_inode" where
  "inode_at s ino = read_inode (blk s (ino_blk ino s)) (ino_off ino)"

lemma ino_off_bound: "ino_off ino + 64 \<le> 512"
proof -
  have "unat (ino mod 8) < 8" by (simp add: unat_mod)
  then have "unat ((ino mod 8) * 64) = unat (ino mod 8) * 64" by (simp add: unat_word_ariths(2))
  then show ?thesis using \<open>unat (ino mod 8) < 8\<close> by (simp add: ino_off_def INODES_PER_BLK_def NOXFS_INO_SZ_def)
qed

lemma ino_blk_bounds:
  assumes "layout (g_sb s)" "ino < inode_count (g_sb s)"
  shows "ino_tbl (g_sb s) \<le> ino_blk ino s" "ino_blk ino s < data_start (g_sb s)"
proof -
  let ?t = "unat (ino_tbl (g_sb s))"
  have n: "unat ino < unat (inode_count (g_sb s))" using assms(2) by (simp add: word_less_nat_alt)
  have d: "?t + (unat (inode_count (g_sb s)) + 7) div 8 \<le> unat (data_start (g_sb s))" using assms(1) by (simp add: layout_def)
  have le: "?t + unat ino div 8 < unat (data_start (g_sb s))" using n d by linarith
  have "unat (ino_tbl (g_sb s) + ino div 8) = ?t + unat (ino div 8)"
    by (rule unat_add_no_wrap) (use le unat_u32 [of "data_start (g_sb s)"] in \<open>simp add: unat_div\<close>)
  then have u: "unat (ino_blk ino s) = ?t + unat ino div 8" by (simp add: ino_blk_def INODES_PER_BLK_def unat_div)
  show "ino_tbl (g_sb s) \<le> ino_blk ino s" "ino_blk ino s < data_start (g_sb s)"
    using u le by (simp_all add: word_le_nat_alt word_less_nat_alt)
qed

lemma read_inode_wf: "length xs = 512 \<Longrightarrow> inode_wf (read_inode xs (ino_off ino))"
  using ino_off_bound [of ino] by (simp add: inode_wf_def read_inode_def)

lemma meta_length: "vol H s \<Longrightarrow> b < data_start (g_sb s) \<Longrightarrow> length (blk s b) = 512"
  using layout_order(5) [of "g_sb s"] by (auto simp: vol_def)

lemma iread_ok:
  assumes v: "vol H s" and ino: "ino < inode_count (g_sb s)"
  obtains c where "iread ata ino s = Some (Inr (inode_at s ino), s\<lparr>fcache := c\<rparr>)" "vol H (s\<lparr>fcache := c\<rparr>)" "block c = blk s"
    "\<And>q. q \<in> H \<Longrightarrow> blockno (bufs c q) = blockno (bufs (fcache s) q)"
proof -
  have l: "layout (g_sb s)" using v by (simp add: vol_def)
  note lb = ino_blk_bounds [OF l ino]
  obtain p c where c: "fs_bread (ino_blk ino s) s = Some (p, s\<lparr>fcache := c\<rparr>)" "p \<noteq> 0" "buf_data c p = blk s (ino_blk ino s)" "p \<notin> H"
    "holding (insert p H) c" "block c = blk s" "blockno (bufs c p) = ino_blk ino s" "in_range c = in_range (fcache s)"
    "\<And>q. q \<in> H \<Longrightarrow> blockno (bufs c q) = blockno (bufs (fcache s) q)"
    by (rule meta_block [OF v lb(2)]) blast
  note cl = fs_close [OF c(5,4,6,2)]
  have nb: "blockno (bufs (brelse p c) q) = blockno (bufs (fcache s) q)" if "q \<in> H" for q using c(9) that by (subst cl(4)) simp
  have "iread ata ino s = Some (Inr (inode_at s ino), s\<lparr>fcache := brelse p c\<rparr>)"
    using c(1-3) ino by (simp add: iread_def fs_data_def fs_brelse_def inode_at_def)
  moreover have "vol H (s\<lparr>fcache := brelse p c\<rparr>)"
    by (rule vol_frame [OF v cl(1)]) (use v cl(2,3) c(8) nb in \<open>auto simp: vol_def\<close>)
  ultimately show thesis using that cl(2) nb by blast
qed

lemma iwrite_ok:
  assumes v: "vol H s" and ino: "ino < inode_count (g_sb s)" and i: "inode_wf i"
  obtains c where "iwrite ino i s = Some (OS_OK, s\<lparr>fcache := c\<rparr>)" "vol H (s\<lparr>fcache := c\<rparr>)"
    "block c = (blk s)(ino_blk ino s := splice (ino_off ino) (inode_bytes i) (blk s (ino_blk ino s)))"
    "\<And>q. q \<in> H \<Longrightarrow> blockno (bufs c q) = blockno (bufs (fcache s) q)"
proof -
  have l: "layout (g_sb s)" using v by (simp add: vol_def)
  note lb = ino_blk_bounds [OF l ino]
  let ?xs = "splice (ino_off ino) (inode_bytes i) (blk s (ino_blk ino s))"
  obtain p c where c: "fs_bread (ino_blk ino s) s = Some (p, s\<lparr>fcache := c\<rparr>)" "p \<noteq> 0" "buf_data c p = blk s (ino_blk ino s)" "p \<notin> H"
    "holding (insert p H) c" "block c = blk s" "blockno (bufs c p) = ino_blk ino s" "in_range c = in_range (fcache s)"
    "\<And>q. q \<in> H \<Longrightarrow> blockno (bufs c q) = blockno (bufs (fcache s) q)"
    by (rule meta_block [OF v lb(2)]) blast
  obtain c' where c': "fs_put p ?xs (s\<lparr>fcache := c\<rparr>) = Some (s\<lparr>fcache := c'\<rparr>)" "holding (insert p H) c'"
    "block c' = (block c)(blockno (bufs c p) := ?xs)" "in_range c' = in_range c"
    "\<And>q. blockno (bufs c' q) = blockno (bufs c q)"
    by (rule fs_put_ok [OF c(5)]) auto
  note cl = fs_close [OF c'(2) c(4) c'(3) c(2)]
  have nb: "blockno (bufs (brelse p c') q) = blockno (bufs (fcache s) q)" if "q \<in> H" for q using c'(5) c(9) that by (subst cl(4)) simp
  have bl: "block (brelse p c') = (blk s)(ino_blk ino s := ?xs)" using cl(2) c(6,7) by simp
  have len: "length ?xs = 512" using meta_length [OF v lb(2)] ino_off_bound [of ino] i by (simp add: length_splice)
  have ne: "ino_blk ino s \<noteq> blk_bmp (g_sb s)" using lb(1) l by (auto simp: layout_def)
  have "iwrite ino i s = Some (OS_OK, s\<lparr>fcache := brelse p c'\<rparr>)"
    using c(1-3) c'(1) ino by (simp add: iwrite_def fs_data_def fs_brelse_def)
  moreover have "vol H (s\<lparr>fcache := brelse p c'\<rparr>)"
    by (rule vol_frame [OF v cl(1)]) (use v cl(3) c'(4) c(8) nb len ne in \<open>auto simp: vol_def bl\<close>)
  ultimately show thesis using that bl nb by blast
qed

section \<open>The block map of a file\<close>

definition bmap :: "(u32 \<Rightarrow> u8 list) \<Rightarrow> noxfs_inode \<Rightarrow> nat \<Rightarrow> u32" where
  "bmap d i k =
     (if k < 10 then i_blocks i ! k
      else if i_indirect i = 0 \<or> k \<ge> 138 then 0 else get32 (d (i_indirect i)) (4 * (k - 10)))"

definition data_blk :: "noxfs \<Rightarrow> u32 \<Rightarrow> bool" where
  "data_blk s b \<longleftrightarrow> data_start (g_sb s) \<le> b \<and> b < block_count (g_sb s) \<and> used s b"

text \<open>The blocks of a file are allocated data blocks, and no two of them are the same.\<close>

definition file_ok :: "noxfs \<Rightarrow> noxfs_inode \<Rightarrow> bool" where
  "file_ok s i \<longleftrightarrow> inode_wf i \<and>
     (\<forall>k < 138. bmap (blk s) i k \<noteq> 0 \<longrightarrow> data_blk s (bmap (blk s) i k)) \<and>
     (\<forall>j < 138. \<forall>k < 138. bmap (blk s) i j \<noteq> 0 \<longrightarrow> bmap (blk s) i j = bmap (blk s) i k \<longrightarrow> j = k) \<and>
     (i_indirect i \<noteq> 0 \<longrightarrow> data_blk s (i_indirect i) \<and> (\<forall>k < 138. bmap (blk s) i k \<noteq> i_indirect i))"

lemma data_block:
  assumes v: "vol H s" and b: "data_start (g_sb s) \<le> b" "b < block_count (g_sb s)" "b \<notin> held_blocks H (fcache s)" and H: "card H < 14"
  obtains p c where "fs_bread b s = Some (p, s\<lparr>fcache := c\<rparr>)" "p \<noteq> 0" "buf_data c p = blk s b" "p \<notin> H" "vol (insert p H) (s\<lparr>fcache := c\<rparr>)"
    "block c = blk s" "blockno (bufs c p) = b" "\<And>q. q \<in> H \<Longrightarrow> blockno (bufs c q) = blockno (bufs (fcache s) q)"
proof -
  obtain p c where c: "fs_bread b s = Some (p, s\<lparr>fcache := c\<rparr>)" "p \<noteq> 0" "buf_data c p = blk s b" "p \<notin> H"
    "block c = blk s" "holding (insert p H) c" "blockno (bufs c p) = b" "in_range c = in_range (fcache s)"
    "\<And>q. q \<in> H \<Longrightarrow> blockno (bufs c q) = blockno (bufs (fcache s) q)"
    using v b fs_open [of H s b] free_buffer [of H] unfolding vol_def by blast
  have "vol (insert p H) (s\<lparr>fcache := c\<rparr>)"
    using v c H b by (simp add: vol_def)
  then show thesis using that c by blast
qed

text \<open>Releasing a held data block.\<close>

lemma data_release:
  assumes "vol (insert p H) s" "p \<notin> H" "p \<noteq> 0"
  shows "vol H (fs_brelse p s)" "blk (fs_brelse p s) = blk s" "fs_brelse p s = s\<lparr>fcache := brelse p (fcache s)\<rparr>"
proof -
  have h: "holding (insert p H) (fcache s)" using assms(1) by (simp add: vol_def)
  note cl = fs_close [OF h assms(2) refl assms(3)]
  have nb: "blockno (bufs (brelse p (fcache s)) q) = blockno (bufs (fcache s) q)" for q by (subst cl(4)) simp
  show e: "fs_brelse p s = s\<lparr>fcache := brelse p (fcache s)\<rparr>" by (simp add: fs_brelse_def)
  show "blk (fs_brelse p s) = blk s" using cl(2) e by simp
  show "vol H (fs_brelse p s)" using assms cl nb unfolding e by (auto simp: vol_def card_insert_if)
qed

lemmas data_release1 = data_release [of _ "{}", OF _ equals0D [OF refl]]

lemma data_put:
  assumes v: "vol H s" and p: "p \<in> H" and b: "blockno (bufs (fcache s) p) = b" and xs: "length xs = 512"
  obtains c where "fs_put p xs s = Some (s\<lparr>fcache := c\<rparr>)" "vol H (s\<lparr>fcache := c\<rparr>)" "block c = (blk s)(b := xs)"
    "\<And>q. blockno (bufs c q) = blockno (bufs (fcache s) q)"
proof -
  have h: "holding H (fcache s)" using v by (simp add: vol_def)
  have d: "data_start (g_sb s) \<le> b" using v p b by (auto simp: vol_def)
  then have ne: "b \<noteq> blk_bmp (g_sb s)" using v layout_order(2) [of "g_sb s"] by (auto simp: vol_def)
  obtain c where c: "fs_put p xs (s\<lparr>fcache := fcache s\<rparr>) = Some (s\<lparr>fcache := c\<rparr>)" "holding H c" "block c = (blk s)(blockno (bufs (fcache s) p) := xs)"
    "in_range c = in_range (fcache s)" "\<And>q. blockno (bufs c q) = blockno (bufs (fcache s) q)"
    by (rule fs_put_ok [OF h p]) blast
  have "vol H (s\<lparr>fcache := c\<rparr>)" by (rule vol_frame [OF v c(2,4,5)]) (use v c(3) b ne xs in \<open>auto simp: vol_def\<close>)
  then show thesis using that [of c] c b by simp
qed

text \<open>
  \<open>grows s t\<close>: from \<open>s\<close> to \<open>t\<close> the layout and everything outside the cache and the superblock stays, and
  allocated data blocks stay allocated.
\<close>

definition grows :: "noxfs \<Rightarrow> noxfs \<Rightarrow> bool" where
  "grows s t \<longleftrightarrow> (\<exists>c b. t = s\<lparr>fcache := c, g_sb := b\<rparr> \<and> b = (g_sb s)\<lparr>free_blocks := free_blocks b\<rparr>) \<and> (\<forall>b. data_blk s b \<longrightarrow> data_blk t b)"

lemma grows_cache:
  assumes "blk (s\<lparr>fcache := c\<rparr>) (blk_bmp (g_sb s)) = blk s (blk_bmp (g_sb s))"
  shows "grows s (s\<lparr>fcache := c\<rparr>)"
  unfolding grows_def
proof (intro conjI exI [of _ c] exI [of _ "g_sb s"])
  show "\<forall>b. data_blk s b \<longrightarrow> data_blk (s\<lparr>fcache := c\<rparr>) b" using assms by (simp add: data_blk_def used_def)
qed simp_all

lemma grows_fields:
  assumes "grows s t"
  shows "data_start (g_sb t) = data_start (g_sb s)" "block_count (g_sb t) = block_count (g_sb s)" "inode_count (g_sb t) = inode_count (g_sb s)"
    "ino_tbl (g_sb t) = ino_tbl (g_sb s)" "blk_bmp (g_sb t) = blk_bmp (g_sb s)" "kmem t = kmem s" "fheap t = fheap s" "ino_blk ino t = ino_blk ino s"
proof -
  obtain c b where t: "t = s\<lparr>fcache := c, g_sb := b\<rparr>" and b: "b = (g_sb s)\<lparr>free_blocks := free_blocks b\<rparr>" using assms unfolding grows_def by blast
  show "data_start (g_sb t) = data_start (g_sb s)" "block_count (g_sb t) = block_count (g_sb s)" "inode_count (g_sb t) = inode_count (g_sb s)"
    "ino_tbl (g_sb t) = ino_tbl (g_sb s)" "blk_bmp (g_sb t) = blk_bmp (g_sb s)" unfolding t by (simp, subst b, simp)+
  then show "kmem t = kmem s" "fheap t = fheap s" "ino_blk ino t = ino_blk ino s" by (simp_all add: t ino_blk_def)
qed

lemma grows_trans: "grows s t \<Longrightarrow> grows t u \<Longrightarrow> grows s u"
proof -
  assume g: "grows s t" "grows t u"
  obtain c b where t: "t = s\<lparr>fcache := c, g_sb := b\<rparr>" "b = (g_sb s)\<lparr>free_blocks := free_blocks b\<rparr>" using g(1) unfolding grows_def by blast
  obtain c' b' where u: "u = t\<lparr>fcache := c', g_sb := b'\<rparr>" "b' = (g_sb t)\<lparr>free_blocks := free_blocks b'\<rparr>" using g(2) unfolding grows_def by blast
  have "b' = (g_sb s)\<lparr>free_blocks := free_blocks b'\<rparr>" by (subst u(2), simp add: t(1), subst t(2), simp)
  moreover have "u = s\<lparr>fcache := c', g_sb := b'\<rparr>" by (simp add: u(1) t(1))
  ultimately show ?thesis using g unfolding grows_def by blast
qed

lemma grows_blk: "grows s t \<Longrightarrow> data_blk s b \<Longrightarrow> data_blk t b"
  by (simp add: grows_def)

text \<open>The blocks that an allocation leaves alone: the allocated data blocks, and the metadata except for the superblock and the block bitmap.\<close>

definition kept :: "noxfs \<Rightarrow> u32 \<Rightarrow> bool" where
  "kept s b \<longleftrightarrow> data_blk s b \<or> b < data_start (g_sb s) \<and> b \<noteq> 0 \<and> b \<noteq> blk_bmp (g_sb s)"

lemma keptD: "vol H s \<Longrightarrow> kept s b \<Longrightarrow> b \<noteq> 0 \<and> b \<noteq> blk_bmp (g_sb s)"
  using layout_order(1,2) [of "g_sb s"] by (auto simp: kept_def data_blk_def vol_def)

lemma kept_data: "data_blk s b \<Longrightarrow> kept s b"
  by (simp add: kept_def)

lemma kept_grows: "grows s t \<Longrightarrow> kept s b \<Longrightarrow> kept t b"
  by (auto simp: kept_def grows_fields grows_blk)

lemma fresh_not_kept: "grows s t \<Longrightarrow> \<not> data_blk s r \<Longrightarrow> data_blk t r \<Longrightarrow> \<not> kept s r"
  using grows_fields(1) [of s t] by (auto simp: kept_def data_blk_def)

text \<open>The number of free blocks that the superblock records.\<close>

definition frees :: "noxfs \<Rightarrow> nat" where
  "frees s = unat (free_blocks (g_sb s))"

lemma frees_cache [simp]: "frees (s\<lparr>fcache := c\<rparr>) = frees s"
  by (simp add: frees_def)

lemma alloc_block:
  assumes v: "vol H s"
  obtains r t where "fs_balloc s = Some (r, t)" "vol H t" "grows s t" "\<And>q. q \<in> H \<Longrightarrow> blockno (bufs (fcache t) q) = blockno (bufs (fcache s) q)"
    "\<And>b. kept s b \<Longrightarrow> blk t b = blk s b" "r \<noteq> NO_INO \<Longrightarrow> r \<noteq> 0 \<and> \<not> data_blk s r \<and> data_blk t r"
    "if r = NO_INO then frees s = 0 else frees s = Suc (frees t)"
proof -
  obtain r c b where a: "fs_balloc s = Some (r, s\<lparr>fcache := c, g_sb := b\<rparr>)" "vol H (s\<lparr>fcache := c, g_sb := b\<rparr>)"
    "\<And>q. q \<in> H \<Longrightarrow> blockno (bufs c q) = blockno (bufs (fcache s) q)"
    "r = NO_INO \<Longrightarrow> block c = blk s \<and> b = g_sb s"
    "r \<noteq> NO_INO \<Longrightarrow> data_start (g_sb s) \<le> r \<and> r < block_count (g_sb s) \<and> \<not> used s r \<and> b = (g_sb s)\<lparr>free_blocks := free_blocks (g_sb s) - 1\<rparr> \<and>
       block c = (blk s)(blk_bmp (g_sb s) := mark (blk s (blk_bmp (g_sb s))) (unat r), 0 := sb_bytes b)"
    "r = NO_INO \<longleftrightarrow> free_blocks (g_sb s) = 0"
    by (rule fs_balloc_ok [OF v]) blast
  let ?t = "s\<lparr>fcache := c, g_sb := b\<rparr>"
  have l: "layout (g_sb s)" using v by (simp add: vol_def)
  note lo = layout_order [OF l]
  show thesis
  proof (cases "r = NO_INO")
    case True
    have "grows s ?t" unfolding grows_def data_blk_def used_def using a(4) [OF True]
      by (intro conjI exI [of _ c] exI [of _ b]) simp_all
    then show ?thesis using that [OF a(1,2)] a(3) a(4) [OF True] a(6) True by (simp add: frees_def)
  next
    case False
    note r = a(5) [OF False]
    have lb: "length (blk s (blk_bmp (g_sb s))) = 512" by (rule meta_length [OF v lo(2)])
    have n: "unat r < 4096" using r l by (auto simp: layout_def word_less_nat_alt)
    have us: "used ?t y \<longleftrightarrow> used s y \<or> y = r" for y
      using r lo(6) lb n word_unat_eq_iff [of y r] by (auto simp: used_def bit_at_mark)
    have "grows s ?t" unfolding grows_def
    proof (intro conjI exI [of _ c] exI [of _ b])
      show "?t = s\<lparr>fcache := c, g_sb := b\<rparr>" by simp
      show "b = (g_sb s)\<lparr>free_blocks := free_blocks b\<rparr>" using r by simp
      show "\<forall>b. data_blk s b \<longrightarrow> data_blk ?t b" using us r by (simp add: data_blk_def)
    qed
    moreover have "r \<noteq> 0" using r lo(1) by (auto simp: word_le_nat_alt word_less_nat_alt)
    moreover have "data_blk ?t r" using r us by (simp add: data_blk_def)
    moreover have "blk ?t b = blk s b" if "kept s b" for b using r that keptD [OF v that] by auto
    moreover have "frees s = Suc (frees ?t)" using r a(6) False by (simp add: frees_def unat_minus_one unat_gt_0)
    ultimately show ?thesis using that [OF a(1,2)] a(3) r False by (simp add: data_blk_def)
  qed
qed

lemma file_ok_same:
  assumes "file_ok s i" "\<And>b. data_blk s b \<Longrightarrow> data_blk t b" "\<And>b. data_blk s b \<Longrightarrow> blk t b = blk s b"
  shows "file_ok t i" "\<And>j. bmap (blk t) i j = bmap (blk s) i j"
proof -
  show m: "bmap (blk t) i j = bmap (blk s) i j" for j using assms by (auto simp: bmap_def file_ok_def)
  show "file_ok t i" using assms(1,2) unfolding file_ok_def m by blast
qed

lemma file_ok_extend:
  assumes f: "file_ok s i" and g: "\<And>b. data_blk s b \<Longrightarrow> data_blk t b" and r: "r \<noteq> 0" "\<not> data_blk s r" "data_blk t r"
    and i': "inode_wf i'" "i_indirect i' = i_indirect i"
    and m: "\<And>j. j < 138 \<Longrightarrow> bmap (blk t) i' j = (if j = k then r else bmap (blk s) i j)"
  shows "file_ok t i'"
proof -
  have d: "data_blk s (bmap (blk s) i j)" if "j < 138" "bmap (blk s) i j \<noteq> 0" for j using f that by (simp add: file_ok_def)
  have x: "i_indirect i \<noteq> 0 \<Longrightarrow> data_blk s (i_indirect i)" using f by (simp add: file_ok_def)
  show ?thesis using f g r i' d x unfolding file_ok_def by (auto simp: m)
qed

lemma data_blkD: "vol H s \<Longrightarrow> data_blk s b \<Longrightarrow> data_start (g_sb s) \<le> b \<and> b < block_count (g_sb s) \<and> length (blk s b) = 512"
  by (simp add: data_blk_def vol_def)

lemma file_block:
  assumes v: "vol {} s" and b: "data_blk s b"
  obtains p c where "fs_bread b s = Some (p, s\<lparr>fcache := c\<rparr>)" "p \<noteq> 0" "buf_data c p = blk s b" "vol {p} (s\<lparr>fcache := c\<rparr>)"
    "block c = blk s" "blockno (bufs c p) = b"
proof -
  have d: "data_start (g_sb s) \<le> b" "b < block_count (g_sb s)" "b \<notin> held_blocks {} (fcache s)" using b by (simp_all add: data_blk_def held_blocks_def)
  show thesis by (rule data_block [OF v d]) (simp, rule that)
qed

text \<open>Looking up a block of a file allocates nothing.\<close>

lemma iget_lookup:
  assumes v: "vol {} s" and f: "file_ok s i" and k: "k < 138"
  obtains c where "iget_block i (of_nat k) False s = Some (bmap (blk s) i k, i, s\<lparr>fcache := c\<rparr>)" "vol {} (s\<lparr>fcache := c\<rparr>)" "block c = blk s"
proof -
  have uk: "unat (of_nat k :: u32) = k" using k by (simp add: unat_of_nat)
  show thesis
  proof (cases "k < 10")
    case True
    have "iget_block i (of_nat k) False s = Some (bmap (blk s) i k, i, s\<lparr>fcache := fcache s\<rparr>)"
      using True uk by (simp add: iget_block_def get_direct_def bmap_def NOXFS_DIRECT_def word_less_nat_alt)
    then show ?thesis by (rule that) (use v in simp_all)
  next
    case False
    have u10: "unat (of_nat k - 10 :: u32) = k - 10" using uk False k by (subst unat_sub_no_wrap) (simp_all add: word_le_nat_alt)
    have lg: "\<not> (of_nat k :: u32) < NOXFS_DIRECT" "\<not> NOXFS_INDIRECT \<le> (of_nat k - NOXFS_DIRECT :: u32)"
      using False k uk u10 by (simp_all add: NOXFS_DIRECT_def NOXFS_INDIRECT_def word_less_nat_alt word_le_nat_alt)
    show ?thesis
    proof (cases "i_indirect i = 0")
      case True
      have "iget_block i (of_nat k) False s = Some (bmap (blk s) i k, i, s\<lparr>fcache := fcache s\<rparr>)"
        using True False lg by (simp add: iget_block_def get_via_indirect_def bmap_def)
      then show ?thesis by (rule that) (use v in simp_all)
    next
      case ind: False
      let ?x = "i_indirect i"
      have x: "data_blk s ?x" using f ind by (simp add: file_ok_def)
      obtain p c where c: "fs_bread ?x s = Some (p, s\<lparr>fcache := c\<rparr>)" "p \<noteq> 0" "buf_data c p = blk s ?x" "vol {p} (s\<lparr>fcache := c\<rparr>)"
        "block c = blk s"
        by (rule file_block [OF v x])
      note rel = data_release1 [OF c(4,2)]
      have "iget_block i (of_nat k) False s = Some (bmap (blk s) i k, i, s\<lparr>fcache := brelse p c\<rparr>)"
        using False k ind lg c(1-3) u10 by (simp add: iget_block_def get_via_indirect_def bmap_def fs_data_def fs_brelse_def NOXFS_DIRECT_def)
      then show ?thesis using that [of "brelse p c"] rel c(5) by simp
    qed
  qed
qed

text \<open>
  Looking up with allocation: the map of the file then has the block at this place, which is a data block
  of its own, nothing else of the map changes, and no other data block of the volume changes.
\<close>

definition need :: "(u32 \<Rightarrow> u8 list) \<Rightarrow> noxfs_inode \<Rightarrow> nat \<Rightarrow> nat" where
  "need d i k = (if bmap d i k = 0 then 1 else 0) + (if 10 \<le> k \<and> i_indirect i = 0 then 1 else 0)"

definition extended :: "noxfs \<Rightarrow> noxfs_inode \<Rightarrow> nat \<Rightarrow> u32 \<Rightarrow> noxfs \<Rightarrow> noxfs_inode \<Rightarrow> bool" where
  "extended s i k r t i' \<longleftrightarrow> vol {} t \<and> grows s t \<and> file_ok t i' \<and> r \<noteq> 0 \<and> data_blk t r \<and>
     (\<forall>j < 138. bmap (blk t) i' j = (if j = k then r else bmap (blk s) i j)) \<and>
     (\<forall>b. kept s b \<longrightarrow> b \<noteq> i_indirect i \<longrightarrow> blk t b = blk s b) \<and>
     (kept s r \<longrightarrow> r = bmap (blk s) i k) \<and> (kept s (i_indirect i') \<longrightarrow> i_indirect i' = i_indirect i) \<and>
     i' = i\<lparr>i_blocks := i_blocks i', i_indirect := i_indirect i'\<rparr> \<and>
     (k < 10 \<or> i_indirect i \<noteq> 0 \<longrightarrow> i_indirect i' = i_indirect i) \<and> (10 \<le> k \<longrightarrow> i_indirect i' \<noteq> 0) \<and>
     frees s = frees t + need (blk s) i k"

text \<open>When the volume has not the blocks that are needed, no block that was in use changes.\<close>

definition ran_out :: "noxfs \<Rightarrow> noxfs_inode \<Rightarrow> nat \<Rightarrow> noxfs \<Rightarrow> bool" where
  "ran_out s i k t \<longleftrightarrow> vol {} t \<and> grows s t \<and> (\<forall>b. kept s b \<longrightarrow> blk t b = blk s b) \<and> frees s < need (blk s) i k"

lemma file_okD: "file_ok s i \<Longrightarrow> k < 138 \<Longrightarrow> bmap (blk s) i k \<noteq> 0 \<Longrightarrow> data_blk s (bmap (blk s) i k)"
  by (simp add: file_ok_def)

lemma via_indirect_ok:
  assumes v: "vol {} s" and f: "file_ok s i" and k: "10 \<le> k" "k < 138" and x: "i_indirect i \<noteq> 0"
  obtains r t where "get_via_indirect i (of_nat k - 10) True s = Some (r, i, t)" "if r = 0 then ran_out s i k t else extended s i k r t i"
proof -
  have uk: "unat (of_nat k :: u32) = k" using k by (simp add: unat_of_nat)
  have u10: "unat (of_nat k - 10 :: u32) = k - 10" using uk k by (subst unat_sub_no_wrap) (simp_all add: word_le_nat_alt)
  let ?x = "i_indirect i" and ?o = "4 * (k - 10)"
  have xd: "data_blk s ?x" using f x by (simp add: file_ok_def)
  note xb = data_blkD [OF v xd]
  obtain p c where c: "fs_bread ?x s = Some (p, s\<lparr>fcache := c\<rparr>)" "p \<noteq> 0" "buf_data c p = blk s ?x" "vol {p} (s\<lparr>fcache := c\<rparr>)"
    "block c = blk s" "blockno (bufs c p) = ?x"
    by (rule file_block [OF v xd])
  have m: "bmap (blk s) i k = get32 (blk s ?x) ?o" using k x by (simp add: bmap_def)
  show thesis
  proof (cases "get32 (blk s ?x) ?o = 0")
    case False
    note rel = data_release1 [OF c(4,2)]
    let ?t = "s\<lparr>fcache := brelse p c\<rparr>"
    have "get_via_indirect i (of_nat k - 10) True s = Some (get32 (blk s ?x) ?o, i, ?t)"
      using x c(1-3) False u10 by (simp add: get_via_indirect_def fs_data_def fs_brelse_def)
    moreover have "blk ?t = blk s" "vol {} ?t" using rel c(5) by simp_all
    moreover from this have "grows s ?t" by (intro grows_cache) simp
    moreover have d: "data_blk s (bmap (blk s) i k)" by (rule file_okD [OF f k(2)]) (simp add: m False)
    moreover have "file_ok ?t i" using file_ok_same(1) [OF f, of ?t] grows_blk [OF \<open>grows s ?t\<close>] \<open>blk ?t = blk s\<close> by simp
    moreover have "data_blk ?t (bmap (blk s) i k)" by (rule grows_blk [OF \<open>grows s ?t\<close> d])
    ultimately have "extended s i k (get32 (blk s ?x) ?o) ?t i" unfolding extended_def need_def using False m x by auto
    then show ?thesis using that [OF \<open>get_via_indirect i (of_nat k - 10) True s = Some (get32 (blk s ?x) ?o, i, ?t)\<close>] False by simp
  next
    case True
    let ?s = "s\<lparr>fcache := c\<rparr>"
    have gs: "grows s ?s" using c(5) by (intro grows_cache) simp
    have fs: "file_ok ?s i" using file_ok_same(1) [OF f, of ?s] grows_blk [OF gs] c(5) by simp
    obtain r t where a: "fs_balloc ?s = Some (r, t)" "vol {p} t" "grows ?s t" "\<And>q. q \<in> {p} \<Longrightarrow> blockno (bufs (fcache t) q) = blockno (bufs (fcache ?s) q)"
      "\<And>b. kept ?s b \<Longrightarrow> blk t b = blk ?s b" "r \<noteq> NO_INO \<Longrightarrow> r \<noteq> 0 \<and> \<not> data_blk ?s r \<and> data_blk t r"
      "if r = NO_INO then frees ?s = 0 else frees ?s = Suc (frees t)"
      by (rule alloc_block [OF c(4)]) blast
    show ?thesis
    proof (cases "r = NO_INO")
      case True': True
      have "get_via_indirect i (of_nat k - 10) True s = Some (0, i, fs_brelse p t)"
        using x c(1-3) True u10 a(1) True' by (simp add: get_via_indirect_def fs_data_def)
      moreover have "ran_out s i k (fs_brelse p t)"
      proof -
        note rel = data_release1 [OF a(2) c(2)]
        have "grows t (t\<lparr>fcache := brelse p (fcache t)\<rparr>)" by (rule grows_cache) (use rel(2,3) in simp)
        then have "grows s (fs_brelse p t)" using grows_trans [OF gs grows_trans [OF a(3)]] rel(3) by simp
        moreover have "blk (fs_brelse p t) b = blk s b" if "kept s b" for b using a(5) [OF kept_grows [OF gs that]] rel(2) c(5) by simp
        ultimately show ?thesis using rel(1) a(7) True' True m by (simp add: ran_out_def need_def)
      qed
      ultimately show ?thesis using that by simp
    next
      case False
      note r = a(6) [OF False]
      have tx: "blk t ?x = blk s ?x" using a(5) [of ?x] kept_grows [OF gs kept_data [OF xd]] c(5) by simp
      have h: "holding {p} (fcache t)" using a(2) by (simp add: vol_def)
      have fd: "fs_data p t = blk s ?x" using held_data [OF h, of p] a(4) [of p] c(6) tx by (simp add: fs_data_def)
      let ?xs = "splice ?o (le32 r) (blk s ?x)"
      have lx: "length ?xs = 512" using xb k by (simp add: length_splice)
      obtain d where d: "fs_put p ?xs t = Some (t\<lparr>fcache := d\<rparr>)" "vol {p} (t\<lparr>fcache := d\<rparr>)" "block d = (blk t)(?x := ?xs)"
        "\<And>q. blockno (bufs d q) = blockno (bufs (fcache t) q)"
        by (rule data_put [OF a(2), of p ?x ?xs]) (use a(4) [of p] c(6) lx in auto)
      note rel = data_release1 [OF d(2) c(2)]
      let ?u = "t\<lparr>fcache := brelse p d\<rparr>"
      have ub: "blk ?u = (blk t)(?x := ?xs)" using rel(2,3) d(3) by simp
      have hd: "holding {p} d" using d(2) by (simp add: vol_def)
      have "get32 (fs_data p (t\<lparr>fcache := d\<rparr>)) ?o = r"
        using held_data [OF hd, of p] d(3,4) a(4) [of p] c(6) get32_splice [of ?o "blk s ?x" r] xb k by (simp add: fs_data_def)
      then have res: "get_via_indirect i (of_nat k - 10) True s = Some (r, i, ?u)"
        using x c(1-3) True u10 a(1) False fd d(1) by (simp add: get_via_indirect_def fs_data_def fs_brelse_def)
      have vu: "vol {} ?u" using rel by simp
      have "?x \<noteq> blk_bmp (g_sb t)" using xb layout_order(2) [of "g_sb s"] v grows_fields(5) [OF a(3)] by (auto simp: vol_def)
      then have "grows t ?u" using ub by (intro grows_cache) simp
      then have g: "grows s ?u" using grows_trans gs a(3) by blast
      have nd: "\<not> data_blk s r" using r c(5) by (auto simp: data_blk_def used_def)
      have rt: "data_blk ?u r" using r \<open>grows t ?u\<close> grows_blk by blast
      have mp: "bmap (blk ?u) i j = (if j = k then r else bmap (blk s) i j)" if j: "j < 138" for j
      proof (cases "j < 10")
        case False
        have "get32 ?xs (4 * (j - 10)) = (if j = k then r else get32 (blk s ?x) (4 * (j - 10)))"
        proof (cases "j = k")
          case True
          then show ?thesis using get32_splice [of ?o "blk s ?x" r] xb k by simp
        next
          case ne: False
          then have "4 * (j - 10) + 4 \<le> ?o \<or> ?o + 4 \<le> 4 * (j - 10)" using False k by linarith
          then show ?thesis using get32_splice_other [of ?o "le32 r" "blk s ?x" "4 * (j - 10)"] xb k j ne by simp
        qed
        then show ?thesis using False x j ub k by (simp add: bmap_def)
      qed (use k in \<open>simp add: bmap_def\<close>)
      have "file_ok ?u i"
        by (rule file_ok_extend [OF f grows_blk [OF g] _ nd rt _ refl mp]) (use r f in \<open>auto simp: file_ok_def\<close>)
      moreover have "blk ?u b = blk s b" if "kept s b" "b \<noteq> ?x" for b
        using ub a(5) [OF kept_grows [OF gs that(1)]] that(2) c(5) by simp
      moreover have "frees s = frees ?u + need (blk s) i k" using a(7) False True m x by (simp add: need_def)
      ultimately have "extended s i k r ?u i" using vu g rt mp r fresh_not_kept [OF g nd rt] x by (simp add: extended_def)
      then show ?thesis using that [OF res] r by simp
    qed
  qed
qed

lemma iget_alloc_ok:
  assumes v: "vol {} s" and f: "file_ok s i" and k: "k < 138"
  obtains r i' t where "iget_block i (of_nat k) True s = Some (r, i', t)" "if r = 0 then ran_out s i k t else extended s i k r t i'"
proof -
  have uk: "unat (of_nat k :: u32) = k" using k by (simp add: unat_of_nat)
  have wf: "inode_wf i" using f by (simp add: file_ok_def)
  show thesis
  proof (cases "k < 10")
    case True
    then have dir: "(of_nat k :: u32) < NOXFS_DIRECT" using uk by (simp add: NOXFS_DIRECT_def word_less_nat_alt)
    have m: "bmap (blk s) i k = i_blocks i ! k" using True by (simp add: bmap_def)
    show ?thesis
    proof (cases "i_blocks i ! k = 0")
      case False
      have "iget_block i (of_nat k) True s = Some (i_blocks i ! k, i, s)"
        using dir uk False by (simp add: iget_block_def get_direct_def Let_def)
      moreover have "data_blk s (i_blocks i ! k)" using file_okD [OF f k] m False by simp
      moreover have "grows s s" by (simp add: grows_def) (metis noxfs.surjective noxfs.update_convs(1,2) noxfs_sb.surjective noxfs_sb.update_convs(4))
      ultimately show ?thesis using that v f False m True by (auto simp: extended_def need_def)
    next
      case True': True
      obtain r t where a: "fs_balloc s = Some (r, t)" "vol {} t" "grows s t"
        "\<And>b. kept s b \<Longrightarrow> blk t b = blk s b" "r \<noteq> NO_INO \<Longrightarrow> r \<noteq> 0 \<and> \<not> data_blk s r \<and> data_blk t r"
        "if r = NO_INO then frees s = 0 else frees s = Suc (frees t)"
        by (rule alloc_block [OF v]) blast
      show ?thesis
      proof (cases "r = NO_INO")
        case True
        then have "ran_out s i k t" using a(2,3,4,6) m True' by (simp add: ran_out_def need_def)
        then show ?thesis using that [of 0 i t] a(1) dir uk True' True by (simp add: iget_block_def get_direct_def Let_def)
      next
        case False
        note r = a(5) [OF False]
        let ?i = "i\<lparr>i_blocks := (i_blocks i)[k := r]\<rparr>"
        have res: "iget_block i (of_nat k) True s = Some (r, ?i, t)" using a(1) dir uk True' False by (simp add: iget_block_def get_direct_def Let_def)
        have bt: "blk t b = blk s b" if "kept s b" for b using a(4) that by simp
        have mt: "bmap (blk t) i j = bmap (blk s) i j" for j by (rule file_ok_same(2) [OF f grows_blk [OF a(3)] bt [OF kept_data]])
        have mp: "bmap (blk t) ?i j = (if j = k then r else bmap (blk s) i j)" for j
          using mt [of j] True wf by (auto simp: bmap_def inode_wf_def)
        have fo: "file_ok t ?i"
          by (rule file_ok_extend [OF f grows_blk [OF a(3)] _ _ _ _ _ mp]) (use r wf in \<open>auto simp: inode_wf_def\<close>)
        moreover have "frees s = frees t + need (blk s) i k" using a(6) False True True' m by (simp add: need_def)
        ultimately have "extended s i k r t ?i" using a(2,3) r mp bt fresh_not_kept [OF a(3)] True by (simp add: extended_def)
        then show ?thesis using that [OF res] r by simp
      qed
    qed
  next
    case False
    then have k10: "10 \<le> k" by simp
    have u10: "unat (of_nat k - 10 :: u32) = k - 10" using uk False k by (subst unat_sub_no_wrap) (simp_all add: word_le_nat_alt)
    have lg: "\<not> (of_nat k :: u32) < NOXFS_DIRECT" "\<not> NOXFS_INDIRECT \<le> (of_nat k - NOXFS_DIRECT :: u32)"
      using False k uk u10 by (simp_all add: NOXFS_DIRECT_def NOXFS_INDIRECT_def word_less_nat_alt word_le_nat_alt)
    show ?thesis
    proof (cases "i_indirect i = 0")
      case False
      obtain r t where "get_via_indirect i (of_nat k - 10) True s = Some (r, i, t)" "if r = 0 then ran_out s i k t else extended s i k r t i"
        by (rule via_indirect_ok [OF v f k10 k False])
      then show ?thesis using that [of r i t] lg False by (simp add: iget_block_def NOXFS_DIRECT_def)
    next
      case True
      obtain r t where a: "fs_balloc s = Some (r, t)" "vol {} t" "grows s t"
        "\<And>b. kept s b \<Longrightarrow> blk t b = blk s b" "r \<noteq> NO_INO \<Longrightarrow> r \<noteq> 0 \<and> \<not> data_blk s r \<and> data_blk t r"
        "if r = NO_INO then frees s = 0 else frees s = Suc (frees t)"
        by (rule alloc_block [OF v]) blast
      show ?thesis
      proof (cases "r = NO_INO")
        case True': True
        then have "ran_out s i k t" using a(2,3,4,6) True k10 by (simp add: ran_out_def need_def)
        then show ?thesis using that [of 0 i t] a(1) lg True True' by (simp add: iget_block_def Let_def)
      next
        case ne: False
        note r = a(5) [OF ne]
        let ?i = "i\<lparr>i_indirect := r\<rparr>"
        obtain p c where c: "fs_bread r t = Some (p, t\<lparr>fcache := c\<rparr>)" "p \<noteq> 0" "buf_data c p = blk t r" "vol {p} (t\<lparr>fcache := c\<rparr>)"
          "block c = blk t" "blockno (bufs c p) = r"
          using file_block [OF a(2)] r by blast
        obtain d where d: "fs_put p (replicate 512 0) (t\<lparr>fcache := c\<rparr>) = Some (t\<lparr>fcache := c, fcache := d\<rparr>)" "vol {p} (t\<lparr>fcache := c, fcache := d\<rparr>)"
          "block d = (blk (t\<lparr>fcache := c\<rparr>))(r := replicate 512 0)"
          by (rule data_put [OF c(4), of p r "replicate 512 0"]) (use c(6) in simp_all)
        note rel = data_release1 [OF d(2) c(2)]
        define u where "u = fs_brelse p (t\<lparr>fcache := c, fcache := d\<rparr>)"
        have ub: "blk u = (blk t)(r := replicate 512 0)" using rel(2) d(3) c(5) by (simp add: u_def)
        have vu: "vol {} u" using rel(1) by (simp add: u_def)
        have ut: "u = t\<lparr>fcache := fcache u\<rparr>" using rel(3) by (simp add: u_def)
        have "r \<noteq> blk_bmp (g_sb t)" using r layout_order(2) [of "g_sb t"] a(2) by (auto simp: data_blk_def vol_def)
        then have "grows t (t\<lparr>fcache := fcache u\<rparr>)" using ub by (intro grows_cache) simp
        then have gu: "grows t u" using ut by simp
        have su: "grows s u" using grows_trans [OF a(3) gu] .
        have bs: "blk u b = blk s b" if "kept s b" for b using ub a(4) [OF that] that r grows_fields(1) [OF a(3)] by (auto simp: kept_def data_blk_def)
        have mi: "bmap (blk u) ?i j = bmap (blk s) i j" if "j < 138" for j
          using True ub that by (auto simp: bmap_def get32_def)
        have fu: "file_ok u ?i"
        proof -
          have ds: "data_blk s (bmap (blk s) i j)" if "j < 138" "bmap (blk s) i j \<noteq> 0" for j by (rule file_okD [OF f that])
          have "bmap (blk s) i j \<noteq> r" if "j < 138" for j using ds [OF that] r by auto
          then show ?thesis
            using f ds grows_blk [OF su] grows_blk [OF gu] r unfolding file_ok_def by (auto simp: mi inode_wf_def)
        qed
        obtain q w where w: "get_via_indirect ?i (of_nat k - 10) True u = Some (q, ?i, w)" "if q = 0 then ran_out u ?i k w else extended u ?i k q w ?i"
          by (rule via_indirect_ok [OF vu fu k10 k]) (use r in auto)
        have res: "iget_block i (of_nat k) True s = Some (q, ?i, w)"
          using lg True a(1) ne c(1,2) d(1) w(1) by (simp add: iget_block_def Let_def NOXFS_DIRECT_def u_def)
        have fr: "frees s = Suc (frees u)" using a(6) ne ut by (simp add: frees_def) (metis noxfs.select_convs(2) noxfs.surjective noxfs.update_convs(1))
        have nd: "need (blk s) i k = Suc (need (blk u) ?i k)" using True k10 k mi [OF k] r by (simp add: need_def)
        have "ran_out s i k w" if "ran_out u ?i k w"
          using that grows_trans [OF su] kept_grows [OF su] bs fr nd by (simp add: ran_out_def)
        moreover have "extended s i k q w ?i" if "extended u ?i k q w ?i"
        proof -
          have nk: "\<not> kept s r" using fresh_not_kept [OF a(3)] r by blast
          then have "b \<noteq> r" if "kept s b" for b using that by blast
          then have "blk w b = blk s b" if "kept s b" for b
            using \<open>extended u ?i k q w ?i\<close> bs [OF that] kept_grows [OF su that] that by (auto simp: extended_def)
          then show ?thesis using that grows_trans [OF su] mi [OF k] mi kept_grows [OF su] nk k10 True fr nd by (auto simp: extended_def)
        qed
        ultimately show ?thesis using that [OF res] w(2) by (auto split: if_splits)
      qed
    qed
  qed
qed

section \<open>Storing the contents of a file\<close>

lemma length_inode_bytes: "inode_wf i \<Longrightarrow> length (inode_bytes i) = 64"
  by (simp add: inode_bytes_def inode_wf_def)

text \<open>Block \<open>b\<close> belongs to the file of inode \<open>i\<close>, as a block of data or as its indirect block.\<close>

definition owns :: "(u32 \<Rightarrow> u8 list) \<Rightarrow> noxfs_inode \<Rightarrow> u32 \<Rightarrow> bool" where
  "owns d i b \<longleftrightarrow> b \<noteq> 0 \<and> (b = i_indirect i \<or> (\<exists>k < 138. bmap d i k = b))"

text \<open>The bytes of a file, read through its block map.\<close>

definition file_byte :: "(u32 \<Rightarrow> u8 list) \<Rightarrow> noxfs_inode \<Rightarrow> nat \<Rightarrow> u8" where
  "file_byte d i x = d (bmap d i (x div 512)) ! (x mod 512)"

definition file_bytes :: "(u32 \<Rightarrow> u8 list) \<Rightarrow> noxfs_inode \<Rightarrow> u8 list" where
  "file_bytes d i = map (file_byte d i) [0 ..< unat (i_size i)]"

text \<open>What one round of the loop of \<open>store_data\<close> does to block \<open>k\<close> of the file, and what it leaves alone.\<close>

definition only_own :: "noxfs \<Rightarrow> noxfs_inode \<Rightarrow> noxfs \<Rightarrow> noxfs_inode \<Rightarrow> bool" where
  "only_own s i t i' \<longleftrightarrow> vol {} t \<and> grows s t \<and> file_ok t i' \<and> i' = i\<lparr>i_blocks := i_blocks i', i_indirect := i_indirect i'\<rparr> \<and>
     (i_indirect i \<noteq> 0 \<longrightarrow> i_indirect i' = i_indirect i) \<and>
     (\<forall>b. kept s b \<longrightarrow> owns (blk t) i' b \<longrightarrow> owns (blk s) i b) \<and> (\<forall>b. kept s b \<longrightarrow> \<not> owns (blk s) i b \<longrightarrow> blk t b = blk s b)"

lemma only_own_trans:
  assumes a: "only_own s i t i'" and b: "only_own t i' u j"
  shows "only_own s i u j"
proof -
  have k: "kept t b" if "kept s b" for b using kept_grows that a by (auto simp: only_own_def)
  have "j = i\<lparr>i_blocks := i_blocks j, i_indirect := i_indirect j\<rparr>"
    using a b unfolding only_own_def by (metis noxfs_inode.surjective noxfs_inode.update_convs(5,6))
  then show ?thesis using a b k grows_trans [of s t u] unfolding only_own_def by metis
qed

text \<open>
  A store that stops half way has also touched only the file's own blocks: the inode on disk is the old one,
  and what its map gained are blocks that were free.
\<close>

definition partial_own :: "noxfs \<Rightarrow> noxfs_inode \<Rightarrow> noxfs \<Rightarrow> bool" where
  "partial_own s i t \<longleftrightarrow> vol {} t \<and> grows s t \<and> (\<forall>b. kept s b \<longrightarrow> owns (blk t) i b \<longrightarrow> owns (blk s) i b) \<and>
     (\<forall>b. kept s b \<longrightarrow> \<not> owns (blk s) i b \<longrightarrow> blk t b = blk s b)"

lemma ran_out_own:
  assumes "ran_out s i k t" "file_ok s i"
  shows "partial_own s i t"
proof -
  have b: "blk t b = blk s b" if "kept s b" for b using assms(1) that by (simp add: ran_out_def)
  have "data_blk s (i_indirect i)" if "i_indirect i \<noteq> 0" using assms(2) that by (simp add: file_ok_def)
  then have "blk t (i_indirect i) = blk s (i_indirect i)" if "i_indirect i \<noteq> 0" using b kept_data that by blast
  then have "bmap (blk t) i j = bmap (blk s) i j" for j by (simp add: bmap_def)
  then have "owns (blk t) i b = owns (blk s) i b" for b by (simp add: owns_def)
  then show ?thesis using assms(1) b by (simp add: partial_own_def ran_out_def)
qed

lemma partial_own_trans:
  assumes a: "only_own s i t i'" and b: "partial_own t i' u"
  shows "partial_own s i u"
proof -
  have i': "i_indirect i \<noteq> 0 \<Longrightarrow> i_indirect i' = i_indirect i" using a by (simp add: only_own_def)
  have k: "kept t b" if "kept s b" for b using kept_grows that a by (auto simp: only_own_def)
  have o: "owns (blk s) i b" if "kept s b" "owns (blk t) i' b" for b using a that by (simp add: only_own_def)
  have "owns (blk s) i b" if kb: "kept s b" and ob: "owns (blk u) i b" for b
  proof -
    consider "b = i_indirect i" | j where "j < 10" "i_blocks i ! j = b" | j where "10 \<le> j" "j < 138" "bmap (blk u) i j = b"
    proof (cases "b = i_indirect i")
      case False
      then obtain j where "j < 138" "bmap (blk u) i j = b" using ob by (auto simp: owns_def)
      then show thesis using that(2,3) [of j] by (cases "j < 10") (simp_all add: bmap_def)
    qed (rule that(1))
    then show ?thesis
    proof cases
      case (2 j)
      then have "bmap (blk s) i j = b" "j < 138" by (simp_all add: bmap_def)
      then show ?thesis using ob unfolding owns_def by blast
    next
      case (3 j)
      have "b \<noteq> 0" using ob by (simp add: owns_def)
      then have "bmap (blk u) i' j = b" using 3 i' by (auto simp: bmap_def split: if_splits)
      then have "owns (blk u) i' b" using 3 \<open>b \<noteq> 0\<close> by (auto simp: owns_def)
      then have "owns (blk t) i' b" using b k [OF kb] by (simp add: partial_own_def)
      then show ?thesis by (rule o [OF kb])
    qed (use ob in \<open>simp add: owns_def\<close>)
  qed
  moreover have "blk u b = blk s b" if "kept s b" "\<not> owns (blk s) i b" for b
    using a b that k [OF that(1)] o by (metis only_own_def partial_own_def)
  ultimately show ?thesis using a b grows_trans by (auto simp: partial_own_def only_own_def)
qed

text \<open>
  The blocks that a file lacks among its blocks \<open>k, ..., m - 1\<close>: those without a block in the map, and
  the indirect block when it is needed and not there.
\<close>

definition missing :: "(u32 \<Rightarrow> u8 list) \<Rightarrow> noxfs_inode \<Rightarrow> nat \<Rightarrow> nat \<Rightarrow> nat" where
  "missing d i k m = card {j. k \<le> j \<and> j < m \<and> bmap d i j = 0} + (if k < m \<and> 10 < m \<and> i_indirect i = 0 then 1 else 0)"

lemma need_missing:
  assumes "k < m"
  shows "need d i k \<le> missing d i k m"
proof -
  have "card {k} \<le> card {j. k \<le> j \<and> j < m \<and> bmap d i j = 0}" if "bmap d i k = 0"
    using that assms by (intro card_mono) auto
  then show ?thesis using assms by (auto simp: need_def missing_def)
qed

lemma missing_step:
  assumes "k < m" "m \<le> 138" and b: "\<And>j. j < 138 \<Longrightarrow> j \<noteq> k \<Longrightarrow> bmap d' i' j = bmap d i j"
    and i': "k < 10 \<or> i_indirect i \<noteq> 0 \<Longrightarrow> i_indirect i' = i_indirect i" "10 \<le> k \<Longrightarrow> i_indirect i' \<noteq> 0"
  shows "missing d i k m = need d i k + missing d' i' (Suc k) m"
proof -
  let ?S = "{j. Suc k \<le> j \<and> j < m \<and> bmap d i j = 0}"
  have e: "{j. Suc k \<le> j \<and> j < m \<and> bmap d' i' j = 0} = ?S" using b assms(2) by auto
  have "{j. k \<le> j \<and> j < m \<and> bmap d i j = 0} = (if bmap d i k = 0 then insert k ?S else ?S)"
    using assms(1) by (auto simp: Suc_le_eq le_less)
  moreover have "finite ?S" by simp
  ultimately have c: "card {j. k \<le> j \<and> j < m \<and> bmap d i j = 0} = (if bmap d i k = 0 then 1 else 0) + card ?S" by simp
  show ?thesis using assms(1) i' unfolding missing_def need_def e c by auto
qed

lemma blk_copy_eq:
  assumes "k < 138" "k * 512 < unat sz"
  shows "blk_copy (of_nat k) sz = min 512 (unat sz - k * 512)" "unat (of_nat k * NOXFS_BLKSZ :: u32) = k * 512"
proof -
  have u: "unat (of_nat k * 512 :: u32) = k * 512" using assms(1) by (simp add: unat_word_ariths(2) unat_of_nat)
  have p: "unat (of_nat k * 512 + 512 :: u32) = k * 512 + 512" using assms(1) u by (simp add: unat_word_ariths(1))
  have "unat (sz - of_nat k * 512) = unat sz - k * 512" using assms(2) u by (subst unat_sub_no_wrap) (simp_all add: word_le_nat_alt)
  then show "blk_copy (of_nat k) sz = min 512 (unat sz - k * 512)"
    using p assms(2) by (auto simp: blk_copy_def NOXFS_BLKSZ_def word_less_nat_alt)
  show "unat (of_nat k * NOXFS_BLKSZ :: u32) = k * 512" using u by (simp add: NOXFS_BLKSZ_def)
qed

lemma length_mem_read [simp]: "length (mem_read p off n s) = n"
  by (simp add: mem_read_def)

text \<open>One round: block \<open>k\<close> of the file holds the bytes of memory, the other blocks of the file stay as they are.\<close>

definition wrote :: "noxfs \<Rightarrow> noxfs_inode \<Rightarrow> nat \<Rightarrow> u64 \<Rightarrow> u32 \<Rightarrow> noxfs \<Rightarrow> noxfs_inode \<Rightarrow> bool" where
  "wrote s i k p sz t i' \<longleftrightarrow> only_own s i t i' \<and> bmap (blk t) i' k \<noteq> 0 \<and>
     take (blk_copy (of_nat k) sz) (blk t (bmap (blk t) i' k)) = mem_read p (k * 512) (blk_copy (of_nat k) sz) s \<and>
     (\<forall>j < 138. j \<noteq> k \<longrightarrow> bmap (blk t) i' j = bmap (blk s) i j) \<and>
     (\<forall>j < 138. j \<noteq> k \<longrightarrow> bmap (blk s) i j \<noteq> 0 \<longrightarrow> blk t (bmap (blk s) i j) = blk s (bmap (blk s) i j)) \<and>
     (k < 10 \<longrightarrow> i_indirect i' = i_indirect i) \<and> (10 \<le> k \<longrightarrow> i_indirect i' \<noteq> 0) \<and> frees s = frees t + need (blk s) i k"

lemma store_step:
  assumes v: "vol {} s" and f: "file_ok s i" and k: "k < 138" "k * 512 < unat sz"
  obtains i' t where "\<And>n. store_blocks i p sz k (Suc n) s = Some (OS_ERR_OOM, i', t)" "ran_out s i k t"
  | i' t where "\<And>n. store_blocks i p sz k (Suc n) s = store_blocks i' p sz (Suc k) n t" "wrote s i k p sz t i'"
proof -
  obtain r i' t where g: "iget_block i (of_nat k) True s = Some (r, i', t)" "if r = 0 then ran_out s i k t else extended s i k r t i'"
    by (rule iget_alloc_ok [OF v f k(1)])
  show thesis
  proof (cases "r = 0")
    case True
    then show ?thesis using that(1) [of i' t] g by simp
  next
    case False
    then have x: "vol {} t" "grows s t" "file_ok t i'" "data_blk t r"
      "\<And>j. j < 138 \<Longrightarrow> bmap (blk t) i' j = (if j = k then r else bmap (blk s) i j)"
      "\<And>b. kept s b \<Longrightarrow> b \<noteq> i_indirect i \<Longrightarrow> blk t b = blk s b" "i' = i\<lparr>i_blocks := i_blocks i', i_indirect := i_indirect i'\<rparr>"
      "kept s r \<Longrightarrow> r = bmap (blk s) i k" "kept s (i_indirect i') \<Longrightarrow> i_indirect i' = i_indirect i"
      "k < 10 \<or> i_indirect i \<noteq> 0 \<Longrightarrow> i_indirect i' = i_indirect i" "10 \<le> k \<Longrightarrow> i_indirect i' \<noteq> 0" "frees s = frees t + need (blk s) i k"
      using g(2) by (simp_all add: extended_def)
    obtain q c where c: "fs_bread r t = Some (q, t\<lparr>fcache := c\<rparr>)" "q \<noteq> 0" "buf_data c q = blk t r" "vol {q} (t\<lparr>fcache := c\<rparr>)"
      "block c = blk t" "blockno (bufs c q) = r"
      by (rule file_block [OF x(1,4)])
    let ?n = "blk_copy (of_nat k) sz" and ?t = "t\<lparr>fcache := c\<rparr>"
    let ?src = "mem_read p (k * 512) ?n s"
    let ?xs = "splice 0 ?src (blk t r)"
    have rb: "data_start (g_sb t) \<le> r" "length (blk t r) = 512" using data_blkD [OF x(1,4)] by simp_all
    have n: "?n \<le> 512" using blk_copy_eq(1) [OF k] by simp
    have lx: "length ?xs = 512" using rb n by (simp add: splice_def)
    obtain d where d: "fs_put q ?xs ?t = Some (?t\<lparr>fcache := d\<rparr>)" "vol {q} (?t\<lparr>fcache := d\<rparr>)" "block d = (blk ?t)(r := ?xs)"
      by (rule data_put [OF c(4), of q r ?xs]) (use c(6) lx in auto)
    note rel = data_release1 [OF d(2) c(2)]
    define u where "u = fs_brelse q (?t\<lparr>fcache := d\<rparr>)"
    have ub: "blk u = (blk t)(r := ?xs)" using rel(2) d(3) c(5) by (simp add: u_def)
    have vu: "vol {} u" using rel(1) by (simp add: u_def)
    have ut: "u = t\<lparr>fcache := fcache u\<rparr>" using rel(3) by (simp add: u_def)
    have "r \<noteq> blk_bmp (g_sb t)" using rb layout_order(2) [of "g_sb t"] x(1) by (auto simp: vol_def)
    then have "grows t (t\<lparr>fcache := fcache u\<rparr>)" using ub by (intro grows_cache) simp
    then have gu: "grows t u" using ut by simp
    have ri: "r \<noteq> i_indirect i'" using x(3) x(5) [OF k(1)] False k(1) unfolding file_ok_def by metis
    have mu: "bmap (blk u) i' j = bmap (blk t) i' j" for j using ri ub by (auto simp: bmap_def)
    have fu: "file_ok u i'" using x(3) grows_blk [OF gu] unfolding file_ok_def mu by blast
    have res: "store_blocks i p sz k (Suc m) s = store_blocks i' p sz (Suc k) m u" for m
    proof -
      have "mem_read p (unat (of_nat k * NOXFS_BLKSZ :: u32)) ?n ?t = ?src"
        unfolding blk_copy_eq(2) [OF k] using grows_fields(6) [OF x(2)] by (simp add: mem_read_def)
      then show ?thesis using g(1) False c(1-3) d(1) by (simp add: fs_data_def u_def)
    qed
    have own: "owns (blk u) i' b \<Longrightarrow> owns (blk s) i b" if "kept s b" for b
      using x(5) x(8,9) that k(1) by (auto simp: owns_def mu split: if_splits)
    have fr: "blk u b = blk s b" if "kept s b" "\<not> owns (blk s) i b" for b
    proof -
      have "b \<noteq> 0" using keptD [OF v that(1)] by simp
      then have "b \<noteq> i_indirect i" "b \<noteq> r" using that x(8) k(1) by (auto simp: owns_def)
      then show ?thesis using x(6) [OF that(1)] ub by simp
    qed
    have oo: "only_own s i u i'" unfolding only_own_def using vu grows_trans [OF x(2) gu] fu x(7,10) own fr by blast
    have fru: "frees u = frees t" by (subst ut) simp
    have oth: "blk u (bmap (blk s) i j) = blk s (bmap (blk s) i j)" if j: "j < 138" "j \<noteq> k" "bmap (blk s) i j \<noteq> 0" for j
    proof -
      have "bmap (blk s) i j \<noteq> i_indirect i" using f j by (auto simp: file_ok_def)
      moreover have "bmap (blk s) i j \<noteq> r" using x(3) x(5) j k(1) False unfolding file_ok_def by metis
      ultimately show ?thesis using x(6) kept_data [OF file_okD [OF f j(1,3)]] ub by simp
    qed
    have "take ?n (blk u r) = ?src" using ub by (simp add: splice_def)
    then have "wrote s i k p sz u i'" unfolding wrote_def using oo oth x(5,10-12) k(1) False mu fru by simp
    then show ?thesis using that(2) res by blast
  qed
qed

lemma grows_refl: "grows s s"
  by (simp add: grows_def) (metis noxfs.surjective noxfs.update_convs(1,2) noxfs_sb.surjective noxfs_sb.update_convs(4))

lemma only_own_refl: "vol {} s \<Longrightarrow> file_ok s i \<Longrightarrow> only_own s i s i"
  using grows_refl by (simp add: only_own_def)

lemma owns_data: "file_ok s i \<Longrightarrow> owns (blk s) i b \<Longrightarrow> data_blk s b"
  using file_okD [of s i] by (auto simp: owns_def file_ok_def)

text \<open>The first \<open>n\<close> blocks of the file hold the bytes at \<open>p\<close>.\<close>

definition stored :: "noxfs \<Rightarrow> noxfs_inode \<Rightarrow> u64 \<Rightarrow> u32 \<Rightarrow> nat \<Rightarrow> bool" where
  "stored s i p sz n \<longleftrightarrow> (\<forall>j < n. bmap (blk s) i j \<noteq> 0 \<and>
     take (blk_copy (of_nat j) sz) (blk s (bmap (blk s) i j)) = mem_read p (j * 512) (blk_copy (of_nat j) sz) s)"

lemma mem_read_grows: "grows s t \<Longrightarrow> mem_read p off n t = mem_read p off n s"
  by (simp add: mem_read_def grows_fields)

lemma stored_Suc:
  assumes "stored s i p sz k" "wrote s i k p sz t i'" "k < 138"
  shows "stored t i' p sz (Suc k)"
  unfolding stored_def
proof (intro allI impI)
  fix j assume j: "j < Suc k"
  have m: "mem_read p off n t = mem_read p off n s" for off n
    using assms(2) mem_read_grows by (auto simp: wrote_def only_own_def)
  show "bmap (blk t) i' j \<noteq> 0 \<and> take (blk_copy (of_nat j) sz) (blk t (bmap (blk t) i' j)) = mem_read p (j * 512) (blk_copy (of_nat j) sz) t"
    using assms j unfolding m by (cases "j = k") (auto simp: wrote_def stored_def)
qed

lemma store_blocks_ok:
  "vol {} s \<Longrightarrow> file_ok s i \<Longrightarrow> k + n \<le> 138 \<Longrightarrow> (k + n) * 512 < unat sz + 512 \<Longrightarrow> stored s i p sz k \<Longrightarrow>
   \<exists>st i' t. store_blocks i p sz k n s = Some (st, i', t) \<and>
     (if frees s < missing (blk s) i k (k + n) then st = OS_ERR_OOM \<and> partial_own s i t
      else st = OS_OK \<and> only_own s i t i' \<and> stored t i' p sz (k + n) \<and> frees s = frees t + missing (blk s) i k (k + n))"
proof (induction n arbitrary: s i k)
  case 0
  moreover have "missing (blk s) i k k = 0" by (simp add: missing_def)
  ultimately show ?case using only_own_refl by simp
next
  case (Suc n)
  have k: "k < 138" "k * 512 < unat sz" using Suc.prems(3,4) by simp_all
  consider i' t where "\<And>n. store_blocks i p sz k (Suc n) s = Some (OS_ERR_OOM, i', t)" "ran_out s i k t"
    | i' t where "\<And>n. store_blocks i p sz k (Suc n) s = store_blocks i' p sz (Suc k) n t" "wrote s i k p sz t i'"
    by (rule store_step [OF Suc.prems(1,2) k]) blast+
  then show ?case
  proof cases
    case (1 i' t)
    have "need (blk s) i k \<le> missing (blk s) i k (k + Suc n)" by (rule need_missing) simp
    then have "frees s < missing (blk s) i k (k + Suc n)" using 1(2) by (simp add: ran_out_def)
    then show ?thesis using 1(1) ran_out_own [OF 1(2) Suc.prems(2)] by auto
  next
    case (2 i' t)
    have o: "only_own s i t i'" using 2(2) by (simp add: wrote_def)
    then have t: "vol {} t" "file_ok t i'" by (simp_all add: only_own_def)
    have fr: "frees s = frees t + need (blk s) i k" using 2(2) by (simp add: wrote_def)
    have ms: "missing (blk s) i k (k + Suc n) = need (blk s) i k + missing (blk t) i' (Suc k) (Suc k + n)"
      using missing_step [of k "k + Suc n" "blk t" i' "blk s" i] 2(2) Suc.prems(3) by (auto simp: wrote_def only_own_def)
    obtain st j u where u: "store_blocks i' p sz (Suc k) n t = Some (st, j, u)"
      "if frees t < missing (blk t) i' (Suc k) (Suc k + n) then st = OS_ERR_OOM \<and> partial_own t i' u
       else st = OS_OK \<and> only_own t i' u j \<and> stored u j p sz (Suc k + n) \<and> frees t = frees u + missing (blk t) i' (Suc k) (Suc k + n)"
      using Suc.IH [OF t, of "Suc k"] Suc.prems(3,4) stored_Suc [OF Suc.prems(5) 2(2) k(1)] by auto
    show ?thesis
    proof (cases "frees t < missing (blk t) i' (Suc k) (Suc k + n)")
      case True
      then show ?thesis using 2(1) [of n] u fr ms partial_own_trans [OF o] by auto
    next
      case False
      then show ?thesis using 2(1) [of n] u fr ms only_own_trans [OF o] by auto
    qed
  qed
qed

lemma stored_bytes:
  assumes st: "stored s i p sz n" and n: "n \<le> 138" and x: "x < unat sz" "x < n * 512"
  shows "bmap (blk s) i (x div 512) \<noteq> 0" "file_byte (blk s) i x = kmem s p x"
proof -
  let ?j = "x div 512" and ?o = "x mod 512"
  have j: "?j < n" using x(2) by (simp add: less_mult_imp_div_less)
  have x': "?j * 512 + ?o = x" by simp
  have k: "?j < 138" "?j * 512 < unat sz" using j n x(1) x' by linarith+
  let ?c = "blk_copy (of_nat ?j) sz" and ?b = "bmap (blk s) i ?j"
  have s: "?b \<noteq> 0" "take ?c (blk s ?b) = mem_read p (?j * 512) ?c s" using st j by (simp_all add: stored_def)
  have os: "?o < unat sz - ?j * 512" using x(1) x' k(2) by linarith
  have o: "?o < ?c" using blk_copy_eq(1) [OF k] os by simp
  show "?b \<noteq> 0" by (rule s)
  have "blk s ?b ! ?o = take ?c (blk s ?b) ! ?o" using o by simp
  also have "\<dots> = kmem s p x" unfolding s(2) using o nth_upt [OF add_strict_left_mono [OF o, of "?j * 512"]] unfolding x' by (simp add: mem_read_def)
  finally show "file_byte (blk s) i x = kmem s p x" by (simp add: file_byte_def)
qed

text \<open>\<open>round_blk\<close> and the number of blocks of a file that fits its block map.\<close>

lemma new_blocks:
  assumes "unat (sz :: u32) \<le> 70656" "sz \<noteq> 0"
  shows "unat ((sz + NOXFS_BLKSZ - 1) div NOXFS_BLKSZ) = (unat sz + 511) div 512"
proof -
  have "sz + 512 - 1 = sz + (511 :: u32)" by simp
  moreover have "unat (sz + 511) = unat sz + 511" using assms(1) by (simp add: unat_word_ariths(1))
  moreover have "unat (512 :: u32) = 512" by simp
  ultimately show ?thesis by (simp only: NOXFS_BLKSZ_def unat_div)
qed

text \<open>
  Storing \<open>sz\<close> bytes in a file: the call returns, and succeeds exactly when the volume has as many free
  blocks as the file lacks. In both cases no block of another file and no other inode changes; after a
  success the file holds the bytes and its inode the size.
\<close>

definition own_changes :: "noxfs \<Rightarrow> u32 \<Rightarrow> noxfs \<Rightarrow> bool" where
  "own_changes s ino t \<longleftrightarrow> vol {} t \<and> grows s t \<and>
     (\<forall>b. kept s b \<longrightarrow> owns (blk t) (inode_at t ino) b \<longrightarrow> owns (blk s) (inode_at s ino) b) \<and>
     (\<forall>b. kept s b \<longrightarrow> \<not> owns (blk s) (inode_at s ino) b \<longrightarrow> b \<noteq> ino_blk ino s \<longrightarrow> blk t b = blk s b) \<and>
     (\<forall>x < 512. x < ino_off ino \<or> ino_off ino + 64 \<le> x \<longrightarrow> blk t (ino_blk ino s) ! x = blk s (ino_blk ino s) ! x)"

lemma partial_own_changes:
  assumes v: "vol {} s" and ino: "ino < inode_count (g_sb s)" and f: "file_ok s (inode_at s ino)" and p: "partial_own s (inode_at s ino) t"
  shows "own_changes s ino t" "inode_at t ino = inode_at s ino"
proof -
  have lay: "layout (g_sb s)" using v by (simp add: vol_def)
  note ib = ino_blk_bounds [OF lay ino]
  have g: "grows s t" using p by (simp add: partial_own_def)
  have "\<not> owns (blk s) (inode_at s ino) (ino_blk ino s)" using owns_data [OF f, of "ino_blk ino s"] ib(2) by (auto simp: data_blk_def)
  moreover have "kept s (ino_blk ino s)" using ib lay by (auto simp: kept_def layout_def)
  ultimately have b: "blk t (ino_blk ino s) = blk s (ino_blk ino s)" using p by (simp add: partial_own_def)
  then show i: "inode_at t ino = inode_at s ino" using grows_fields(8) [OF g] by (simp add: inode_at_def)
  show "own_changes s ino t" using p b by (simp add: own_changes_def partial_own_def i)
qed

lemma store_data_ok:
  assumes v: "vol {} s" and ino: "ino < inode_count (g_sb s)" and f: "file_ok s (inode_at s ino)" and sz: "unat sz \<le> 70656"
  obtains st t where "store_data ata ino p sz s = Some (st, t)" "own_changes s ino t"
    "if frees s < missing (blk s) (inode_at s ino) 0 ((unat sz + 511) div 512) then st = OS_ERR_OOM \<and> inode_at t ino = inode_at s ino
     else st = OS_OK \<and> file_ok t (inode_at t ino) \<and> i_size (inode_at t ino) = sz \<and>
       frees s = frees t + missing (blk s) (inode_at s ino) 0 ((unat sz + 511) div 512) \<and>
       (\<forall>x < unat sz. bmap (blk t) (inode_at t ino) (x div 512) \<noteq> 0 \<and> file_byte (blk t) (inode_at t ino) x = kmem s p x)"
proof -
  let ?i = "inode_at s ino"
  obtain c where c: "iread ata ino s = Some (Inr ?i, s\<lparr>fcache := c\<rparr>)" "vol {} (s\<lparr>fcache := c\<rparr>)" "block c = blk s"
    by (rule iread_ok [OF v ino]) blast
  let ?s = "s\<lparr>fcache := c\<rparr>" and ?n = "unat (if sz = 0 then 0 else (sz + NOXFS_BLKSZ - 1) div NOXFS_BLKSZ)"
  let ?j = "?i\<lparr>i_size := sz\<rparr>"
  have n: "?n = (unat sz + 511) div 512" using new_blocks [OF sz] by (auto simp: unat_eq_zero)
  have bm: "bmap (blk ?s) ?j k = bmap (blk s) ?i k" for k using c(3) by (simp add: bmap_def)
  have gs: "grows s ?s" using c(3) by (intro grows_cache) simp
  have fs: "file_ok ?s ?j" using f grows_blk [OF gs] unfolding file_ok_def bm by (auto simp: inode_wf_def)
  have ks: "kept ?s b = kept s b" for b using c(3) by (simp add: kept_def data_blk_def used_def)
  have os: "owns (blk ?s) ?j b = owns (blk s) ?i b" for b unfolding owns_def bm by simp
  have ms: "missing (blk ?s) ?j 0 m = missing (blk s) ?i 0 m" for m unfolding missing_def bm by simp
  have st0: "stored ?s ?j p sz 0" by (simp add: stored_def)
  have nb: "?n \<le> 138" "?n * 512 < unat sz + 512" using sz unfolding n by linarith+
  obtain st i' t where t: "store_blocks ?j p sz 0 ?n ?s = Some (st, i', t)"
    "if frees s < missing (blk s) ?i 0 ?n then st = OS_ERR_OOM \<and> partial_own ?s ?j t
      else st = OS_OK \<and> only_own ?s ?j t i' \<and> stored t i' p sz ?n \<and> frees s = frees t + missing (blk s) ?i 0 ?n"
    using store_blocks_ok [OF c(2) fs _ _ st0, unfolded add_0 ms frees_cache] nb by blast
  show thesis
  proof (cases "frees s < missing (blk s) ?i 0 ?n")
    case True
    have "owns (blk t) ?j b = owns (blk t) ?i b" for b by (simp add: owns_def bmap_def)
    then have "partial_own s ?i t" using t(2) True grows_trans [OF gs] c(3) unfolding partial_own_def ks os by simp
    from partial_own_changes [OF v ino f this] show ?thesis
      using that [of st t] c(1) t True n by (simp add: store_data_def Let_def)
  next
    case False
    then have o: "only_own ?s ?j t i'" and sd: "stored t i' p sz ?n" and st: "st = OS_OK" and fr: "frees s = frees t + missing (blk s) ?i 0 ?n"
      using t(2) by simp_all
    from o have tt: "vol {} t" "grows ?s t" "file_ok t i'" "i' = ?j\<lparr>i_blocks := i_blocks i', i_indirect := i_indirect i'\<rparr>"
      by (simp_all add: only_own_def)
    have it: "ino < inode_count (g_sb t)" using ino grows_fields(3) [OF tt(2)] by simp
    have wf: "inode_wf i'" using tt(3) by (simp add: file_ok_def)
    obtain d where d: "iwrite ino i' t = Some (OS_OK, t\<lparr>fcache := d\<rparr>)" "vol {} (t\<lparr>fcache := d\<rparr>)"
      "block d = (blk t)(ino_blk ino t := splice (ino_off ino) (inode_bytes i') (blk t (ino_blk ino t)))"
      by (rule iwrite_ok [OF tt(1) it wf]) blast
    let ?u = "t\<lparr>fcache := d\<rparr>" and ?b = "ino_blk ino t"
    have lay: "layout (g_sb t)" using tt(1) by (simp add: vol_def)
    note ib = ino_blk_bounds [OF lay it]
    have same: "blk ?u b = blk t b" if "data_blk t b" for b using that ib(2) d(3) by (auto simp: data_blk_def)
    have "blk_bmp (g_sb t) \<noteq> ?b" using ib(1) lay by (auto simp: layout_def)
    then have gu: "grows t ?u" using d(3) by (intro grows_cache) simp
    have mu: "bmap (blk ?u) i' k = bmap (blk t) i' k" for k by (rule file_ok_same(2) [OF tt(3) grows_blk [OF gu] same])
    have fu: "file_ok ?u i'" by (rule file_ok_same(1) [OF tt(3) grows_blk [OF gu] same])
    have lb: "length (blk t ?b) = 512" by (rule meta_length [OF tt(1) ib(2)])
    then have iu: "inode_at ?u ino = i'"
      using read_spliced_inode [OF wf, of "ino_off ino" "blk t ?b"] ino_off_bound [of ino] d(3) by (simp add: inode_at_def ino_blk_def)
    have ob: "ino_blk ino t = ino_blk ino s" using grows_fields(8) [OF tt(2)] by (simp add: ino_blk_def)
    have kb: "kept s ?b" using ib lay grows_fields(1,5) [OF tt(2)] by (auto simp: kept_def layout_def)
    have by': "bmap (blk ?u) i' (x div 512) \<noteq> 0 \<and> file_byte (blk ?u) i' x = kmem s p x" if x: "x < unat sz" for x
    proof -
      have x': "x < ?n * 512" using x unfolding n by linarith
      have n8: "?n \<le> 138" using sz unfolding n by simp
      note sb = stored_bytes [OF sd n8 x x']
      have "data_blk t (bmap (blk t) i' (x div 512))" by (rule file_okD [OF tt(3) _ sb(1)]) (use x sz in linarith)
      then show ?thesis using sb same grows_fields(6) [OF tt(2)] mu by (simp add: file_byte_def)
    qed
    have "own_changes s ino ?u" unfolding own_changes_def iu
    proof (intro conjI allI impI)
      show "grows s ?u" by (rule grows_trans [OF gs grows_trans [OF tt(2) gu]])
      show "owns (blk s) ?i b" if "kept s b" "owns (blk ?u) i' b" for b
        using o that unfolding only_own_def ks os owns_def [of "blk ?u"] mu owns_def [of "blk t", symmetric] by blast
      show "blk ?u b = blk s b" if "kept s b" "\<not> owns (blk s) ?i b" "b \<noteq> ino_blk ino s" for b
        using o that c(3) d(3) ob unfolding only_own_def ks os by simp
      have "\<not> owns (blk s) ?i ?b" using owns_data [OF f, of ?b] ib(2) grows_fields(1) [OF tt(2)] by (auto simp: data_blk_def)
      then have "blk t ?b = blk s ?b" using o kb c(3) unfolding only_own_def ks os by simp
      then show "blk ?u (ino_blk ino s) ! x = blk s (ino_blk ino s) ! x" if "x < 512" "x < ino_off ino \<or> ino_off ino + 64 \<le> x" for x
        using that d(3) ob lb ino_off_bound [of ino] length_inode_bytes [OF wf] by (auto simp: splice_nth)
    qed (rule d(2))
    moreover have "store_data ata ino p sz s = Some (OS_OK, ?u)" using c(1) t(1) st d(1) by (simp add: store_data_def Let_def)
    moreover have "i_size i' = sz" by (subst tt(4)) simp
    ultimately show ?thesis using that [of OS_OK ?u, unfolded iu] fu by' fr False n by simp
  qed
qed

section \<open>Loading the contents of a file\<close>

text \<open>The memory at \<open>p\<close> after the bytes \<open>[from, to)\<close> of the file that lie in a block have been copied there.\<close>

definition loaded :: "noxfs \<Rightarrow> noxfs_inode \<Rightarrow> u64 \<Rightarrow> nat \<Rightarrow> nat \<Rightarrow> nat \<Rightarrow> u8" where
  "loaded s i p from to x =
     (if from \<le> x \<and> x < to \<and> x < unat (i_size i) \<and> bmap (blk s) i (x div 512) \<noteq> 0 then file_byte (blk s) i x else kmem s p x)"

lemma vol_kmem [simp]: "vol H (s\<lparr>kmem := m\<rparr>) = vol H s"
  by (simp add: vol_def)

lemma file_ok_fields: "blk t = blk s \<Longrightarrow> g_sb t = g_sb s \<Longrightarrow> file_ok t i = file_ok s i"
  by (simp add: file_ok_def data_blk_def used_def)

lemma load_step:
  assumes v: "vol {} s" and f: "file_ok s i" and k: "k < 138" "k * 512 < unat (i_size i)"
  obtains c where "load_blocks ata i p (of_nat k) s = load_blocks ata i p (of_nat (Suc k))
      (s\<lparr>fcache := c, kmem := (kmem s)(p := loaded s i p (k * 512) (Suc k * 512))\<rparr>)" "vol {} (s\<lparr>fcache := c\<rparr>)" "block c = blk s"
proof -
  let ?b = "bmap (blk s) i k" and ?m = "loaded s i p (k * 512) (Suc k * 512)"
  have go: "of_nat k * NOXFS_BLKSZ < i_size i" using blk_copy_eq(2) [OF k] k(2) by (simp add: word_less_nat_alt)
  have dv: "x div 512 = k" if "k * 512 \<le> x" "x < Suc k * 512" for x using that by (simp add: div_nat_eqI)
  obtain c where c: "iget_block i (of_nat k) False s = Some (?b, i, s\<lparr>fcache := c\<rparr>)" "vol {} (s\<lparr>fcache := c\<rparr>)" "block c = blk s"
    by (rule iget_lookup [OF v f k(1)])
  show thesis
  proof (cases "?b = 0")
    case True
    have "?m x = kmem s p x" for x using True dv [of x] by (auto simp: loaded_def)
    then have "?m = kmem s p" by blast
    then have "s\<lparr>fcache := c, kmem := (kmem s)(p := ?m)\<rparr> = s\<lparr>fcache := c\<rparr>" by simp
    moreover have "load_blocks ata i p (of_nat k) s = load_blocks ata i p (of_nat (Suc k)) (s\<lparr>fcache := c\<rparr>)"
      by (subst load_blocks.simps) (use go c(1) True in \<open>simp add: add.commute\<close>)
    ultimately show ?thesis using that [OF _ c(2,3)] by metis
  next
    case False
    let ?s = "s\<lparr>fcache := c\<rparr>" and ?n = "blk_copy (of_nat k) (i_size i)"
    have db: "data_blk ?s ?b" using file_okD [OF f k(1) False] c(3) by (simp add: data_blk_def used_def)
    obtain q d where d: "fs_bread ?b ?s = Some (q, ?s\<lparr>fcache := d\<rparr>)" "q \<noteq> 0" "buf_data d q = blk ?s ?b" "vol {q} (?s\<lparr>fcache := d\<rparr>)"
      "block d = blk ?s"
      by (rule file_block [OF c(2) db])
    have len: "length (blk s ?b) = 512" using data_blkD [OF c(2) db] c(3) by simp
    let ?xs = "take ?n (blk s ?b)"
    let ?w = "mem_write p (k * 512) ?xs (?s\<lparr>fcache := d\<rparr>)"
    have n: "?n = min 512 (unat (i_size i) - k * 512)" by (rule blk_copy_eq(1) [OF k])
    have m: "(if k * 512 \<le> x \<and> x < k * 512 + length ?xs then ?xs ! (x - k * 512) else kmem (?s\<lparr>fcache := d\<rparr>) p x) = ?m x" for x
    proof (cases "k * 512 \<le> x \<and> x < k * 512 + ?n")
      case True
      then have x: "x div 512 = k" "x < unat (i_size i)" "x < Suc k * 512" "x - k * 512 < ?n" using n dv [of x] by auto
      then have "x mod 512 = x - k * 512" using True by (simp add: modulo_nat_def mult.commute)
      then show ?thesis using True x len n False by (simp add: loaded_def file_byte_def)
    next
      case out: False
      then show ?thesis using n len by (auto simp: loaded_def)
    qed
    have w: "?w = s\<lparr>fcache := d, kmem := (kmem s)(p := ?m)\<rparr>" unfolding mem_write_def m by simp
    have vw: "vol {q} ?w" unfolding w using d(4) by simp
    note rel = data_release1 [OF vw d(2)]
    have fin: "fs_brelse q ?w = s\<lparr>fcache := brelse q d, kmem := (kmem s)(p := ?m)\<rparr>" unfolding w by (simp add: fs_brelse_def)
    have "load_blocks ata i p (of_nat k) s = load_blocks ata i p (of_nat (Suc k)) (fs_brelse q ?w)"
      by (subst load_blocks.simps) (use go c(1) False d(1-3) c(3) blk_copy_eq(2) [OF k] in \<open>simp add: fs_data_def add.commute\<close>)
    moreover have "vol {} (s\<lparr>fcache := brelse q d\<rparr>)" using rel(1) unfolding fin by (simp add: vol_def)
    moreover have "block (brelse q d) = blk s" using rel(2) d(5) c(3) by (simp add: fs_brelse_def mem_write_def)
    ultimately show ?thesis using that unfolding fin by blast
  qed
qed

lemma loaded_join:
  assumes "blk t = blk s" "kmem t p = loaded s i p a b" "a \<le> b" "b \<le> c"
  shows "loaded t i p b c = loaded s i p a c"
  using assms(2-4) by (intro ext) (auto simp: loaded_def assms(1))

lemma load_blocks_ok:
  assumes "vol {} s" "file_ok s i" "unat (i_size i) \<le> 70656" "k + n = (unat (i_size i) + 511) div 512"
  shows "\<exists>c. load_blocks ata i p (of_nat k) s = Some (p, s\<lparr>fcache := c, kmem := (kmem s)(p := loaded s i p (k * 512) ((k + n) * 512))\<rparr>) \<and>
     vol {} (s\<lparr>fcache := c\<rparr>) \<and> block c = blk s"
  using assms
proof (induction n arbitrary: k s)
  case 0
  have k: "unat (i_size i) \<le> k * 512" "k \<le> 138" using 0 by simp_all
  have "unat (of_nat k * 512 :: u32) = k * 512" using k(2) by (simp add: unat_word_ariths(2) unat_of_nat)
  then have "\<not> of_nat k * NOXFS_BLKSZ < i_size i" using k(1) by (simp add: NOXFS_BLKSZ_def word_less_nat_alt)
  moreover have "loaded s i p (k * 512) (k * 512) = kmem s p" by (rule ext) (auto simp: loaded_def)
  ultimately show ?case using 0(1) by (subst load_blocks.simps) (auto intro!: exI [of _ "fcache s"])
next
  case (Suc n)
  have k: "k < 138" "k * 512 < unat (i_size i)" using Suc.prems(3,4) by linarith+
  let ?m = "loaded s i p (k * 512) (Suc k * 512)"
  obtain c where c: "load_blocks ata i p (of_nat k) s = load_blocks ata i p (of_nat (Suc k)) (s\<lparr>fcache := c, kmem := (kmem s)(p := ?m)\<rparr>)"
    "vol {} (s\<lparr>fcache := c\<rparr>)" "block c = blk s"
    by (rule load_step [OF Suc.prems(1,2) k])
  let ?t = "s\<lparr>fcache := c, kmem := (kmem s)(p := ?m)\<rparr>"
  have t: "vol {} ?t" using c(2) by simp
  have ft: "file_ok ?t i" using Suc.prems(2) file_ok_fields [of ?t s i] c(3) by simp
  have eq: "Suc k + n = (unat (i_size i) + 511) div 512" using Suc.prems(4) by simp
  obtain d where d: "load_blocks ata i p (of_nat (Suc k)) ?t =
      Some (p, ?t\<lparr>fcache := d, kmem := (kmem ?t)(p := loaded ?t i p (Suc k * 512) ((Suc k + n) * 512))\<rparr>)"
    "vol {} (?t\<lparr>fcache := d\<rparr>)" "block d = blk ?t"
    using Suc.IH [OF t ft Suc.prems(3) eq] by blast
  have "loaded ?t i p (Suc k * 512) ((Suc k + n) * 512) = loaded s i p (k * 512) ((Suc k + n) * 512)"
    by (rule loaded_join) (use c(3) in simp_all)
  then have "load_blocks ata i p (of_nat k) s = Some (p, s\<lparr>fcache := d, kmem := (kmem s)(p := loaded s i p (k * 512) ((k + Suc n) * 512))\<rparr>)"
    using c(1) d(1) by simp
  moreover have "vol {} (s\<lparr>fcache := d\<rparr>)" using d(2) by (simp add: vol_def)
  moreover have "block d = blk s" using d(3) c(3) by simp
  ultimately show ?case by blast
qed

text \<open>Loading a file whose blocks are all there, when the heap has the memory.\<close>

lemma load_data_ok:
  assumes v: "vol {} s" and ino: "ino < inode_count (g_sb s)" and f: "file_ok s (inode_at s ino)" and sz: "i_size (inode_at s ino) = sz" "unat sz \<le> 70656"
    and full: "\<And>x. x < unat sz \<Longrightarrow> bmap (blk s) (inode_at s ino) (x div 512) \<noteq> 0"
    and m: "kmalloc (ucast (if sz = 0 then 1 else round_blk sz)) (fheap s) = Some (q, h)" "q \<noteq> 0"
  obtains t where "load_data ata ino old s = Some (q, sz, t)" "mem_read q 0 (unat sz) t = file_bytes (blk s) (inode_at s ino)"
proof -
  let ?i = "inode_at s ino"
  obtain c where c: "iread ata ino s = Some (Inr ?i, s\<lparr>fcache := c\<rparr>)" "vol {} (s\<lparr>fcache := c\<rparr>)" "block c = blk s"
    by (rule iread_ok [OF v ino]) blast
  show thesis
  proof (cases "sz = 0")
    case True
    then show ?thesis using that c(1) m sz(1) by (simp add: load_data_def fs_kmalloc_def mem_read_def file_bytes_def)
  next
    case False
    let ?s = "s\<lparr>fcache := c, fheap := h\<rparr>"
    have vs: "vol {} ?s" using c(2) by (simp add: vol_def)
    have fs: "file_ok ?s ?i" using f file_ok_fields [of ?s s ?i] c(3) by simp
    let ?n = "(unat (i_size ?i) + 511) div 512"
    obtain d where d: "load_blocks ata ?i q (of_nat 0) ?s = Some (q, ?s\<lparr>fcache := d, kmem := (kmem ?s)(q := loaded ?s ?i q (0 * 512) ((0 + ?n) * 512))\<rparr>)"
      using load_blocks_ok [OF vs fs, of 0 ?n ata q] sz by auto
    let ?t = "?s\<lparr>fcache := d, kmem := (kmem ?s)(q := loaded ?s ?i q (0 * 512) ((0 + ?n) * 512))\<rparr>"
    have "load_data ata ino old s = Some (q, sz, ?t)" using c(1) m sz(1) False d by (simp add: load_data_def fs_kmalloc_def)
    moreover have "loaded ?s ?i q (0 * 512) ((0 + ?n) * 512) x = file_byte (blk s) ?i x" if "x < unat sz" for x
    proof -
      have "x < ?n * 512" using that unfolding sz(1) by linarith
      then show ?thesis using that full [OF that] sz(1) c(3) by (simp add: loaded_def)
    qed
    then have "mem_read q 0 (unat sz) ?t = file_bytes (blk s) ?i" using sz(1) by (simp add: mem_read_def file_bytes_def)
    ultimately show ?thesis using that by blast
  qed
qed

section \<open>Durability and isolation\<close>

text \<open>
  C37: what \<open>store_data\<close> writes to a file is what \<open>load_data\<close> reads back. On a well-formed volume and a
  file of at most 138 blocks the store returns, the volume is well formed again, and the store succeeds
  exactly when the volume has as many free blocks as the file lacks (its blocks without a place, and
  the indirect block when it has none); otherwise it reports \<open>OS_ERR_OOM\<close>. After a success a load that
  gets memory from the heap returns the size and the bytes, whatever blocks the cache evicted, direct
  and indirect blocks alike.
\<close>

theorem store_load_roundtrip:
  assumes "vol {} s" "ino < inode_count (g_sb s)" "file_ok s (inode_at s ino)" "unat sz \<le> 70656"
    and "kmalloc (ucast (if sz = 0 then 1 else round_blk sz)) (fheap s) = Some (q, h)" "q \<noteq> 0"
  shows "\<exists>t. store_data ata ino p sz s =
      Some (if missing (blk s) (inode_at s ino) 0 ((unat sz + 511) div 512) \<le> frees s then OS_OK else OS_ERR_OOM, t) \<and> vol {} t \<and>
    (missing (blk s) (inode_at s ino) 0 ((unat sz + 511) div 512) \<le> frees s \<longrightarrow> file_ok t (inode_at t ino) \<and>
      (\<exists>u. load_data ata ino old t = Some (q, sz, u) \<and> mem_read q 0 (unat sz) u = mem_read p 0 (unat sz) s))"
proof -
  let ?m = "missing (blk s) (inode_at s ino) 0 ((unat sz + 511) div 512)"
  obtain st t where t: "store_data ata ino p sz s = Some (st, t)" "own_changes s ino t"
    "if frees s < ?m then st = OS_ERR_OOM \<and> inode_at t ino = inode_at s ino
     else st = OS_OK \<and> file_ok t (inode_at t ino) \<and> i_size (inode_at t ino) = sz \<and> frees s = frees t + ?m \<and>
       (\<forall>x < unat sz. bmap (blk t) (inode_at t ino) (x div 512) \<noteq> 0 \<and> file_byte (blk t) (inode_at t ino) x = kmem s p x)"
    by (rule store_data_ok [OF assms(1-4)])
  have vg: "vol {} t" "grows s t" using t(2) by (simp_all add: own_changes_def)
  have "file_ok t (inode_at t ino) \<and> (\<exists>u. load_data ata ino old t = Some (q, sz, u) \<and> mem_read q 0 (unat sz) u = mem_read p 0 (unat sz) s)"
    if "?m \<le> frees s"
  proof -
    have v: "file_ok t (inode_at t ino)" "i_size (inode_at t ino) = sz"
      "\<And>x. x < unat sz \<Longrightarrow> bmap (blk t) (inode_at t ino) (x div 512) \<noteq> 0"
      "\<And>x. x < unat sz \<Longrightarrow> file_byte (blk t) (inode_at t ino) x = kmem s p x" using t(3) that by auto
    have "ino < inode_count (g_sb t)" "fheap t = fheap s" using assms(2) grows_fields [OF vg(2)] by simp_all
    then obtain u where u: "load_data ata ino old t = Some (q, sz, u)" "mem_read q 0 (unat sz) u = file_bytes (blk t) (inode_at t ino)"
      using load_data_ok [OF vg(1) _ v(1,2) assms(4) v(3)] assms(5,6) by metis
    have "file_bytes (blk t) (inode_at t ino) = mem_read p 0 (unat sz) s" using v(2,4) by (simp add: file_bytes_def mem_read_def)
    then show ?thesis using u v(1) by auto
  qed
  then show ?thesis using t(1,3) vg(1) by (cases "?m \<le> frees s") auto
qed

text \<open>Two inodes lie in different blocks or at different offsets of one block.\<close>

lemma ino_off_mult: "ino_off ino = unat (ino mod 8) * 64"
proof -
  have "unat (ino mod 8) < 8" by (simp add: unat_mod)
  then have "unat ((ino mod 8) * 64) = unat (ino mod 8) * 64" by (simp add: unat_word_ariths(2))
  then show ?thesis by (simp add: ino_off_def INODES_PER_BLK_def NOXFS_INO_SZ_def)
qed

lemma inodes_apart:
  assumes "ino_blk ino s = ino_blk jno s" "ino \<noteq> jno"
  shows "ino_off ino + 64 \<le> ino_off jno \<or> ino_off jno + 64 \<le> ino_off ino"
proof -
  have "ino div 8 = jno div 8" using assms(1) by (simp add: ino_blk_def INODES_PER_BLK_def)
  then have "ino mod 8 \<noteq> jno mod 8" using assms(2) by (metis div_mult_mod_eq)
  then have "unat (ino mod 8) \<noteq> unat (jno mod 8)" using word_unat_eq_iff [of "ino mod 8" "jno mod 8"] by blast
  then show ?thesis by (simp add: ino_off_mult) linarith
qed

lemma read_inode_cong:
  assumes "length xs = length ys" "o1 + 64 \<le> length xs" "\<And>i. o1 \<le> i \<Longrightarrow> i < o1 + 64 \<Longrightarrow> xs ! i = ys ! i"
  shows "read_inode xs o1 = read_inode ys o1"
proof -
  have "take 8 (drop (o1 + 56) xs) = take 8 (drop (o1 + 56) ys)"
    using assms by (intro nth_equalityI) auto
  then show ?thesis using assms(3) by (simp add: read_inode_def get16_def get32_def)
qed

text \<open>File \<open>jno\<close> is as it was, and shares no block with file \<open>ino\<close>.\<close>

definition isolated :: "noxfs \<Rightarrow> u32 \<Rightarrow> noxfs \<Rightarrow> u32 \<Rightarrow> bool" where
  "isolated s ino t jno \<longleftrightarrow> inode_at t jno = inode_at s jno \<and> file_ok t (inode_at t jno) \<and>
     (\<forall>k. bmap (blk t) (inode_at t jno) k = bmap (blk s) (inode_at s jno) k) \<and>
     {b. owns (blk s) (inode_at s jno) b} \<subseteq> {b. blk t b = blk s b} \<and>
     (\<forall>b. \<not> (owns (blk t) (inode_at t ino) b \<and> owns (blk t) (inode_at t jno) b))"

lemma store_isolates:
  assumes "vol {} s" "ino < inode_count (g_sb s)" "file_ok s (inode_at s ino)"
    and "jno < inode_count (g_sb s)" "jno \<noteq> ino" "file_ok s (inode_at s jno)"
    and "\<forall>b. \<not> (owns (blk s) (inode_at s ino) b \<and> owns (blk s) (inode_at s jno) b)"
    and oc: "own_changes s ino t"
  shows "isolated s ino t jno"
proof -
  let ?i = "inode_at s ino" and ?j = "inode_at s jno"
  have t: "grows s t" "vol {} t" "\<And>b. kept s b \<Longrightarrow> owns (blk t) (inode_at t ino) b \<Longrightarrow> owns (blk s) ?i b"
    "\<And>b. kept s b \<Longrightarrow> \<not> owns (blk s) ?i b \<Longrightarrow> b \<noteq> ino_blk ino s \<Longrightarrow> blk t b = blk s b"
    "\<And>x. x < 512 \<Longrightarrow> x < ino_off ino \<or> ino_off ino + 64 \<le> x \<Longrightarrow> blk t (ino_blk ino s) ! x = blk s (ino_blk ino s) ! x"
    using oc unfolding own_changes_def by blast+
  have lay: "layout (g_sb s)" using assms(1) by (simp add: vol_def)
  note ib = ino_blk_bounds [OF lay assms(2)] and jb = ino_blk_bounds [OF lay assms(4)]
  have own: "blk t b = blk s b" if "owns (blk s) ?j b" for b
  proof -
    have "data_blk s b" by (rule owns_data [OF assms(6) that])
    then have "kept s b" "b \<noteq> ino_blk ino s" using ib(2) by (auto simp: kept_data data_blk_def)
    then show ?thesis using t(4) that assms(7) by blast
  qed
  have jt: "inode_at t jno = ?j"
  proof (cases "ino_blk jno s = ino_blk ino s")
    case True
    have l: "length (blk s (ino_blk ino s)) = 512" by (rule meta_length [OF assms(1) ib(2)])
    have lt: "length (blk t (ino_blk ino s)) = 512" by (rule meta_length [OF t(2)]) (use ib(2) grows_fields(1) [OF t(1)] in simp)
    have "read_inode (blk t (ino_blk ino s)) (ino_off jno) = read_inode (blk s (ino_blk ino s)) (ino_off jno)"
    proof (rule read_inode_cong)
      show "length (blk t (ino_blk ino s)) = length (blk s (ino_blk ino s))"
        using l lt by simp
      then show "ino_off jno + 64 \<le> length (blk t (ino_blk ino s))" using l ino_off_bound [of jno] by simp
      show "blk t (ino_blk ino s) ! x = blk s (ino_blk ino s) ! x" if "ino_off jno \<le> x" "x < ino_off jno + 64" for x
        using that inodes_apart [OF True assms(5)] ino_off_bound [of jno] by (intro t(5)) auto
    qed
    then show ?thesis using True grows_fields(8) [OF t(1), of jno] by (simp add: inode_at_def)
  next
    case False
    have "\<not> owns (blk s) ?i (ino_blk jno s)" using owns_data [OF assms(3), of "ino_blk jno s"] jb(2) by (auto simp: data_blk_def)
    moreover have "kept s (ino_blk jno s)" using jb lay by (auto simp: kept_def layout_def)
    ultimately show ?thesis using t(4) False grows_fields(8) [OF t(1), of jno] by (simp add: inode_at_def)
  qed
  have mj: "bmap (blk t) ?j k = bmap (blk s) ?j k" for k
    using own [of "i_indirect ?j"] by (cases "i_indirect ?j = 0") (simp_all add: bmap_def owns_def)
  have fj: "file_ok t ?j" using assms(6) grows_blk [OF t(1)] unfolding file_ok_def mj by blast
  have oj: "owns (blk t) ?j b = owns (blk s) ?j b" for b by (simp add: owns_def mj)
  have "\<not> (owns (blk t) (inode_at t ino) b \<and> owns (blk t) ?j b)" for b
    using t(3) [of b] assms(7) kept_data [OF owns_data [OF assms(6), of b]] unfolding oj by blast
  then show ?thesis unfolding isolated_def jt using own mj fj by blast
qed

text \<open>
  C38: storing a file does not touch the others, whether the store succeeds or runs out of blocks half
  way. A second file whose blocks are its own keeps its inode, its block map, the contents of every block
  and so its bytes, and after the store the two files still share no block; the volume is well formed.
\<close>

theorem store_isolated:
  assumes "vol {} s" "ino < inode_count (g_sb s)" "file_ok s (inode_at s ino)" "unat sz \<le> 70656"
    and "jno < inode_count (g_sb s)" "jno \<noteq> ino" "file_ok s (inode_at s jno)"
    and "\<forall>b. \<not> (owns (blk s) (inode_at s ino) b \<and> owns (blk s) (inode_at s jno) b)"
  shows "\<exists>st t. store_data ata ino p sz s = Some (st, t) \<and> vol {} t \<and> inode_at t jno = inode_at s jno \<and> file_ok t (inode_at t jno) \<and>
      (\<forall>k. bmap (blk t) (inode_at t jno) k = bmap (blk s) (inode_at s jno) k) \<and>
      {b. owns (blk s) (inode_at s jno) b} \<subseteq> {b. blk t b = blk s b} \<and>
      (\<forall>b. \<not> (owns (blk t) (inode_at t ino) b \<and> owns (blk t) (inode_at t jno) b))"
proof -
  obtain st t where st: "store_data ata ino p sz s = Some (st, t)" and oc: "own_changes s ino t"
    by (rule store_data_ok [OF assms(1-4)])
  have "isolated s ino t jno" by (rule store_isolates [OF assms(1-3,5-8) oc])
  moreover have "vol {} t" using oc by (simp add: own_changes_def)
  ultimately show ?thesis using st unfolding isolated_def by blast
qed

definition demo_volume :: noxfs where
  "demo_volume = \<lparr>fcache = buf_init (demo_cache\<lparr>blks := (blks demo_cache)\<lparr>world := \<lparr>bufdata = (\<lambda>_. []),
       disk = (\<lambda>b. if b = 1 then 31 # replicate 511 0 else replicate 512 0)\<rparr>\<rparr>\<rparr>),
     g_sb = \<lparr>magic = 0x4E584653, block_count = 20, inode_count = 16, free_blocks = 15, free_inodes = 14, blk_bmp = 1, ino_bmp = 2,
       ino_tbl = 3, data_start = 5, root_ino = 1, sb_pad = replicate 472 0\<rparr>,
     g_files = (\<lambda>_. \<lparr>f_name = [], f_data = 0, f_size = 0, f_inode = 0, f_capacity = 0\<rparr>), g_count = 0, g_ready = True,
     fheap = snd (heap_init \<lparr>cells = (\<lambda>_. 0), g_head = 0\<rparr>), kmem = (\<lambda>p x. of_nat x)\<rparr>"

lemma demo_volume_facts:
  "vol {} demo_volume" "ino < 16 \<Longrightarrow> file_ok demo_volume (inode_at demo_volume ino)" "ino < 16 \<Longrightarrow> \<not> owns (blk demo_volume) (inode_at demo_volume ino) b"
  "\<exists>h. kmalloc 512 (fheap demo_volume) = Some (HEAP_BASE + 32, h)"
proof -
  let ?d = "\<lambda>b :: u32. if b = 1 then 31 # replicate 511 0 else replicate 512 (0 :: u8)"
  let ?c = "demo_cache\<lparr>blks := (blks demo_cache)\<lparr>world := \<lparr>bufdata = (\<lambda>_. []), disk = ?d\<rparr>\<rparr>\<rparr>"
  have drv: "drive_ok ?c" by (simp add: drive_ok_def demo_cache_def demo_drive_def blk_idle_def)
  note bi = buf_init_ok [OF drv]
  have b: "blk demo_volume = ?d" using bi(2) by (simp add: demo_volume_def)
  have h: "holding {} (fcache demo_volume)" using bi(1,3) by (simp add: holding_def demo_volume_def has_flag_def)
  have r: "in_range (fcache demo_volume) x \<and> length (blk demo_volume x) = 512" if "x < 20" for x
  proof -
    have "x + 1 \<le> 100" using that by (simp add: word_le_nat_alt word_less_nat_alt unat_word_ariths(1))
    then have "in_range ?c x" by (simp add: in_range_def demo_cache_def demo_drive_def)
    then show ?thesis using bi(4) b by (simp add: demo_volume_def)
  qed
  have m: "bit_at (?d 1) k" if "k < 5" for k
  proof -
    have "k \<in> {0, 1, 2, 3, 4}" using that by auto
    then show ?thesis by (auto simp: bit_at_def)
  qed
  have l: "layout (g_sb demo_volume)" by (simp add: layout_def demo_volume_def)
  have cl: "\<not> bit_at (?d 1) k" if "5 \<le> k" "k < 20" for k
  proof -
    have "k \<in> {5, 6, 7, 8, 9, 10, 11, 12, 13, 14, 15, 16, 17, 18, 19}" using that by (simp only: insert_iff empty_iff) arith
    then show ?thesis by (auto simp: bit_at_def)
  qed
  have "unused (g_sb demo_volume) (?d 1) = of_nat ` {5 ..< 20}"
  proof (intro set_eqI iffI)
    fix x assume "x \<in> unused (g_sb demo_volume) (?d 1)"
    then have x: "unat x < 20" "\<not> bit_at (?d 1) (unat x)" by (simp_all add: unused_def demo_volume_def word_less_nat_alt)
    then have "5 \<le> unat x" using m [of "unat x"] by (cases "unat x < 5") simp_all
    then show "x \<in> of_nat ` {5 ..< 20}" using x by (intro image_eqI [of _ _ "unat x"]) simp_all
  next
    fix x :: u32 assume "x \<in> of_nat ` {5 ..< 20}"
    then obtain k where k: "x = of_nat k" "5 \<le> k" "k < 20" by auto
    then have "unat x = k" by (simp add: unat_of_nat)
    then show "x \<in> unused (g_sb demo_volume) (?d 1)" using cl [OF k(2,3)] k(3) by (simp add: unused_def demo_volume_def word_less_nat_alt)
  qed
  moreover have "inj_on (of_nat :: nat \<Rightarrow> u32) {5 ..< 20}"
    by (rule inj_on_inverseI [of _ unat]) (simp add: unat_of_nat)
  ultimately have ac: "card (unused (g_sb demo_volume) (?d 1)) = 15" by (simp add: card_image)
  show v: "vol {} demo_volume" unfolding vol_def using h l r m b ac by (simp add: demo_volume_def)
  have i: "inode_at demo_volume ino = \<lparr>i_mode = 0, i_uid = 0, i_gid = 0, i_size = 0, i_blocks = replicate 10 0, i_indirect = 0, i_links = 0, i_pad = replicate 8 0\<rparr>"
    if "ino < 16" for ino
  proof -
    have "3 \<le> ino_blk ino demo_volume" using ino_blk_bounds(1) [OF l, of ino] that by (simp add: demo_volume_def)
    then have "blk demo_volume (ino_blk ino demo_volume) = replicate 512 0" unfolding b by (auto simp: word_le_nat_alt)
    moreover have "get32 (replicate 512 0) x = 0" "get16 (replicate 512 0) x = 0" if "x + 4 \<le> 512" for x using that by (simp_all add: get32_def get16_def)
    moreover have "map (\<lambda>k. get32 (replicate 512 0) (ino_off ino + 10 + 4 * k)) [0 ..< 10] = replicate 10 0"
      using ino_off_bound [of ino] by (intro nth_equalityI) (simp_all add: get32_def)
    ultimately show ?thesis using ino_off_bound [of ino] by (simp add: inode_at_def read_inode_def)
  qed
  have z: "bmap (blk demo_volume) (inode_at demo_volume ino) k = 0" if "ino < 16" for ino k unfolding i [OF that] by (simp add: bmap_def)
  show "ino < 16 \<Longrightarrow> file_ok demo_volume (inode_at demo_volume ino)" unfolding file_ok_def by (simp add: z) (simp add: i inode_wf_def)
  show "ino < 16 \<Longrightarrow> \<not> owns (blk demo_volume) (inode_at demo_volume ino) b" using i [of ino] z [of ino] by (simp add: owns_def) metis
  have "ALIGN16 512 = 512" by (simp add: ALIGN16_def)
  then show "\<exists>h. kmalloc 512 (fheap demo_volume) = Some (HEAP_BASE + 32, h)"
    using kmalloc_rep [OF heap_rep_init, of 512 "\<lparr>cells = (\<lambda>_. 0), g_head = 0\<rparr>"] by (auto simp: heap_base_facts(4) demo_volume_def)
qed

lemma demo_missing: "ino < 16 \<Longrightarrow> missing (blk demo_volume) (inode_at demo_volume ino) 0 1 \<le> frees demo_volume"
proof -
  have "card {j :: nat. 0 \<le> j \<and> j < 1 \<and> bmap (blk demo_volume) (inode_at demo_volume ino) j = 0} \<le> card {0 :: nat}"
    by (intro card_mono) auto
  then show ?thesis by (simp add: missing_def frees_def demo_volume_def)
qed

theorem store_load_roundtrip_witness:
  "\<exists>t. store_data (\<lambda>lba w. (OS_OK, disk w lba)) 2 0 300 demo_volume = Some (OS_OK, t) \<and> vol {} t \<and> file_ok t (inode_at t 2) \<and>
      (\<exists>u. load_data (\<lambda>lba w. (OS_OK, disk w lba)) 2 0 t = Some (HEAP_BASE + 32, 300, u) \<and>
        mem_read (HEAP_BASE + 32) 0 300 u = map of_nat [0 ..< 300])"
proof -
  obtain h where h: "kmalloc 512 (fheap demo_volume) = Some (HEAP_BASE + 32, h)" using demo_volume_facts(4) by blast
  have "round_blk 300 = 512" by (simp add: round_blk_def NOXFS_BLKSZ_def)
  then have k: "kmalloc (ucast (if (300 :: u32) = 0 then 1 else round_blk 300)) (fheap demo_volume) = Some (HEAP_BASE + 32, h)" using h by simp
  have "mem_read 0 0 300 demo_volume = map of_nat [0 ..< 300]" by (simp add: mem_read_def demo_volume_def)
  moreover have "HEAP_BASE + 32 \<noteq> 0" by (simp add: HEAP_BASE_def)
  moreover have "2 < inode_count (g_sb demo_volume)" by (simp add: demo_volume_def)
  ultimately show ?thesis using demo_missing [of 2]
      store_load_roundtrip [OF demo_volume_facts(1) _ demo_volume_facts(2) _ k, where ino = 2 and ata = "\<lambda>lba w. (OS_OK, disk w lba)" and p = 0 and old = 0] by simp
qed

theorem store_isolated_witness:
  "\<exists>st t. store_data (\<lambda>lba w. (OS_OK, disk w lba)) 2 0 300 demo_volume = Some (st, t) \<and> vol {} t \<and>
     inode_at t 3 = inode_at demo_volume 3 \<and> file_ok t (inode_at t 3)"
proof -
  have c: "2 < inode_count (g_sb demo_volume)" "3 < inode_count (g_sb demo_volume)" by (simp_all add: demo_volume_def)
  have d: "\<forall>b. \<not> (owns (blk demo_volume) (inode_at demo_volume 2) b \<and> owns (blk demo_volume) (inode_at demo_volume 3) b)"
    using demo_volume_facts(3) by simp
  show ?thesis
    using store_isolated [OF demo_volume_facts(1) c(1) demo_volume_facts(2) _ c(2) _ demo_volume_facts(2) d, of 300 "\<lambda>lba w. (OS_OK, disk w lba)" 0] by auto
qed

end
