(* ===== verification/Textutils.thy ===== *)
theory Textutils
  imports Noxlib "HOL-Library.List_Lexorder" "HOL-Library.Multiset" "HOL-Library.Sublist"
begin

text \<open>
  The text utilities of src/src/bin: sort, tail, head, wc, grep, echo, seq, test and cat. A program
  reads its standard input and the files it opens as byte streams: \<open>stdin\<close> and \<open>files\<close> give the bytes
  that reads return up to the first one that fails, and \<open>None\<close> is a file that cannot be opened. What a
  program writes to descriptors 1 and 2 is recorded in \<open>out\<close> and \<open>err\<close>.
\<close>

section \<open>Programs and their environment\<close>

record world =
  stdin :: "u8 list"
  files :: "cstring \<Rightarrow> u8 list option"
  out :: "u8 list"
  err :: "u8 list"

definition put_out :: "u8 list \<Rightarrow> world \<Rightarrow> world" where
  "put_out bs w = w\<lparr>out := out w @ bs\<rparr>"

text \<open>A message on descriptor 2 through \<open>fprintf\<close>; a run that hangs in it has no result.\<close>

definition complain :: "string \<Rightarrow> cstring \<Rightarrow> world \<Rightarrow> world option" where
  "complain fmt name w =
     (case fprintf (str fmt) [Ptr (Some name)] of Some (Text t) \<Rightarrow> Some (w\<lparr>err := err w @ t\<rparr>) | _ \<Rightarrow> None)"

section \<open>sort.c\<close>

definition SORT_MAX_LINES :: nat where "SORT_MAX_LINES = 512"
definition SORT_LINE_MAX :: nat where "SORT_LINE_MAX = 256"

text \<open>
  The parameter \<open>room\<close> is the answer of \<open>malloc\<close> for the next line, given the lines stored so far. The
  result says whether the descriptor was read to its end.
\<close>

fun sort_read :: "(cstring list \<Rightarrow> nat \<Rightarrow> bool) \<Rightarrow> u8 list \<Rightarrow> cstring \<Rightarrow> cstring list \<Rightarrow> bool \<times> cstring list" where
  "sort_read room [] buf lines =
     (if length lines \<ge> SORT_MAX_LINES then (True, lines)
      else if length buf > 0
      then if room lines (length buf + 1) then (True, lines @ [c_text buf]) else (False, lines)
      else (True, lines))"
| "sort_read room (c # s) buf lines =
     (if length lines \<ge> SORT_MAX_LINES then (True, lines)
      else if c = 13 then sort_read room s buf lines
      else if c = 10
      then if room lines (length buf + 1) then sort_read room s [] (lines @ [c_text buf]) else (False, lines)
      else if length buf < SORT_LINE_MAX - 1 then sort_read room s (buf @ [c]) lines
      else sort_read room s buf lines)"

definition read_lines :: "(cstring list \<Rightarrow> nat \<Rightarrow> bool) \<Rightarrow> u8 list \<Rightarrow> cstring list \<Rightarrow> bool \<times> cstring list" where
  "read_lines room s lines = sort_read room s [] lines"

definition out_of_order :: "bool \<Rightarrow> cstring \<Rightarrow> cstring \<Rightarrow> bool" where
  "out_of_order r a key = (if r then strcmp a key < 0 else strcmp a key > 0)"

text \<open>The inner loop with \<open>j + 1\<close> as the counter: move larger lines up and store the key.\<close>

fun shift_up :: "bool \<Rightarrow> cstring \<Rightarrow> cstring list \<Rightarrow> nat \<Rightarrow> cstring list" where
  "shift_up r key ls 0 = ls[0 := key]"
| "shift_up r key ls (Suc j) =
     (if out_of_order r (ls ! j) key then shift_up r key (ls[Suc j := ls ! j]) j else ls[Suc j := key])"

definition insertion_sort :: "bool \<Rightarrow> cstring list \<Rightarrow> cstring list" where
  "insertion_sort r ls = fold (\<lambda>i ls. shift_up r (ls ! i) ls i) [1 ..< length ls] ls"

fun sort_files :: "(cstring list \<Rightarrow> nat \<Rightarrow> bool) \<Rightarrow> cstring list \<Rightarrow> cstring list \<Rightarrow> world \<Rightarrow> (cstring list \<times> world) option" where
  "sort_files room [] lines w = Some (lines, w)"
| "sort_files room (f # fs) lines w =
     (case files w f of
        None \<Rightarrow> do { w \<leftarrow> complain (''sort: %s: cannot open'' @ [CHR 0x0A]) f w; sort_files room fs lines w }
      | Some s \<Rightarrow> sort_files room fs (snd (read_lines room s lines)) w)"

definition sort_main :: "(cstring list \<Rightarrow> nat \<Rightarrow> bool) \<Rightarrow> cstring list \<Rightarrow> world \<Rightarrow> (nat \<times> world) option" where
  "sort_main room argv w =
     (let (r, first_file) = (if length argv > 1 \<and> strcmp (argv ! 1) (str ''-r'') = 0 then (True, 2) else (False, 1 :: nat))
      in do { (lines, w) \<leftarrow> (if first_file \<ge> length argv then Some (snd (read_lines room (stdin w) []), w)
                            else sort_files room (drop first_file argv) [] w);
              Some (0, put_out (concat (map (\<lambda>l. l @ [10]) (insertion_sort r lines))) w) })"

section \<open>tail.c\<close>

definition TAIL_LINE_MAX :: nat where "TAIL_LINE_MAX = 512"
definition TAIL_LINES_MAX :: nat where "TAIL_LINES_MAX = 100"

record ring_lines =
  row :: "nat \<Rightarrow> nat \<Rightarrow> u8"
  llen :: "nat \<Rightarrow> nat"

record tail_state =
  ring :: ring_lines
  hd_i :: nat
  cnt :: nat
  pos :: nat

definition end_line :: "nat \<Rightarrow> tail_state \<Rightarrow> tail_state" where
  "end_line n t =
     t\<lparr>ring := \<lparr>row = (row (ring t))(hd_i t := (row (ring t) (hd_i t))(pos t := 0)), llen = (llen (ring t))(hd_i t := pos t)\<rparr>,
       hd_i := (hd_i t + 1) mod n, cnt := (if cnt t < n then cnt t + 1 else cnt t), pos := 0\<rparr>"

definition tail_byte :: "nat \<Rightarrow> u8 \<Rightarrow> tail_state \<Rightarrow> tail_state" where
  "tail_byte n c t =
     (if c = 13 then t
      else if c = 10 then end_line n t
      else if pos t < TAIL_LINE_MAX - 1
      then t\<lparr>ring := (ring t)\<lparr>row := (row (ring t))(hd_i t := (row (ring t) (hd_i t))(pos t := c))\<rparr>, pos := pos t + 1\<rparr>
      else t)"

definition tail_print :: "nat \<Rightarrow> tail_state \<Rightarrow> u8 list" where
  "tail_print n t =
     (let start = (hd_i t + n - cnt t) mod n
      in concat (map (\<lambda>i. let idx = (start + i) mod n in map (row (ring t) idx) [0 ..< llen (ring t) idx] @ [10]) [0 ..< cnt t]))"

definition tail :: "int \<Rightarrow> u8 list \<Rightarrow> ring_lines \<Rightarrow> u8 list \<times> ring_lines" where
  "tail n s rl =
     (let n = (if n \<le> 0 \<or> n > int TAIL_LINES_MAX then TAIL_LINES_MAX else nat n);
          t = fold (tail_byte n) s \<lparr>ring = rl, hd_i = 0, cnt = 0, pos = 0\<rparr>;
          t = (if pos t > 0 then end_line n t else t)
      in (tail_print n t, ring t))"

text \<open>The header line of a file when there are several.\<close>

definition banner :: "cstring \<Rightarrow> world \<Rightarrow> world option" where
  "banner f w =
     (case printf (str (''==> %s <=='' @ [CHR 0x0A])) [Ptr (Some f)] of Some (Text t) \<Rightarrow> Some (put_out t w) | _ \<Rightarrow> None)"

fun tail_files :: "int \<Rightarrow> bool \<Rightarrow> cstring list \<Rightarrow> ring_lines \<Rightarrow> nat \<Rightarrow> world \<Rightarrow> (nat \<times> world) option" where
  "tail_files n many [] rl rc w = Some (rc, w)"
| "tail_files n many (f # fs) rl rc w =
     (case files w f of
        None \<Rightarrow> do { w \<leftarrow> complain (''tail: %s: cannot open'' @ [CHR 0x0A]) f w; tail_files n many fs rl 1 w }
      | Some s \<Rightarrow>
          do { w \<leftarrow> (if many then banner f w else Some w);
               let (t, rl) = tail n s rl in tail_files n many fs rl rc (put_out t w) })"

text \<open>The option \<open>-nN\<close> or \<open>-n N\<close>: the count and the index of the first file.\<close>

definition tail_option :: "cstring list \<Rightarrow> u32 \<times> nat" where
  "tail_option argv =
     (if length argv > 1 \<and> cstr (argv ! 1) 0 = ch CHR ''-'' \<and> cstr (argv ! 1) 1 = ch CHR ''n''
      then if cstr (argv ! 1) 2 \<noteq> 0 then (atoi (drop 2 (argv ! 1)), 2)
           else if length argv > 2 then (atoi (argv ! 2), 3) else (10, 1)
      else (10, 1))"

definition tail_main :: "cstring list \<Rightarrow> ring_lines \<Rightarrow> world \<Rightarrow> (nat \<times> world) option" where
  "tail_main argv rl w =
     (let (n, first_file) = tail_option argv; n = (if sint n \<le> 0 then 10 else n)
      in if first_file \<ge> length argv then Some (0, put_out (fst (tail (sint n) (stdin w) rl)) w)
         else tail_files (sint n) (length argv - first_file > 1) (drop first_file argv) rl 0 w)"

section \<open>head.c\<close>

fun head_loop :: "nat \<Rightarrow> nat \<Rightarrow> u8 list \<Rightarrow> u8 list" where
  "head_loop n lines [] = []"
| "head_loop n lines (c # s) = (if lines < n then c # head_loop n (if c = 10 then lines + 1 else lines) s else [])"

definition head :: "u32 \<Rightarrow> u8 list \<Rightarrow> u8 list" where
  "head n s = head_loop (nat (sint n)) 0 s"

fun head_files :: "u32 \<Rightarrow> bool \<Rightarrow> cstring list \<Rightarrow> nat \<Rightarrow> world \<Rightarrow> (nat \<times> world) option" where
  "head_files n many [] rc w = Some (rc, w)"
| "head_files n many (f # fs) rc w =
     (case files w f of
        None \<Rightarrow> do { w \<leftarrow> complain (''head: %s: cannot open'' @ [CHR 0x0A]) f w; head_files n many fs 1 w }
      | Some s \<Rightarrow>
          do { w \<leftarrow> (if many then banner f w else Some w); head_files n many fs rc (put_out (head n s) w) })"

definition head_option :: "cstring list \<Rightarrow> u32 \<times> nat" where
  "head_option argv =
     (if length argv > 1 \<and> cstr (argv ! 1) 0 = ch CHR ''-'' \<and> cstr (argv ! 1) 1 = ch CHR ''n''
      then let n = atoi (drop 2 (argv ! 1))
           in if n = 0 \<and> cstr (argv ! 1) 2 = 0 \<and> length argv > 2 then (atoi (argv ! 2), 3) else (n, 2)
      else (10, 1))"

definition head_main :: "cstring list \<Rightarrow> world \<Rightarrow> (nat \<times> world) option" where
  "head_main argv w =
     (let (n, first_file) = head_option argv; n = (if sint n \<le> 0 then 10 else n)
      in if first_file \<ge> length argv then Some (0, put_out (head n (stdin w)) w)
         else head_files n (length argv - first_file > 1) (drop first_file argv) 0 w)"

section \<open>wc.c\<close>

text \<open>Lines, words, bytes and whether a word is open.\<close>

type_synonym wc_counts = "u64 \<times> u64 \<times> u64 \<times> bool"

definition wc_byte :: "u8 \<Rightarrow> wc_counts \<Rightarrow> wc_counts" where
  "wc_byte c s =
     (case s of (lines, words, bytes, in_word) \<Rightarrow>
        let bytes = bytes + 1; lines = (if c = 10 then lines + 1 else lines)
        in if isspace c then (lines, words, bytes, False)
           else if \<not> in_word then (lines, words + 1, bytes, True) else (lines, words, bytes, in_word))"

definition wc_count :: "u8 list \<Rightarrow> wc_counts" where
  "wc_count s = fold wc_byte s (0, 0, 0, False)"

definition wc_report :: "u8 list \<Rightarrow> cstring option \<Rightarrow> world \<Rightarrow> world option" where
  "wc_report s label w =
     (case wc_count s of (lines, words, bytes, _) \<Rightarrow>
        case printf (str ''%8ld %8ld %8ld'') [Num lines, Num words, Num bytes] of
          Some (Text t) \<Rightarrow>
            Some (put_out (t @ (case label of None \<Rightarrow> [] | Some l \<Rightarrow> ch CHR '' '' # c_text l) @ [10]) w)
        | _ \<Rightarrow> None)"

fun wc_files :: "cstring list \<Rightarrow> nat \<Rightarrow> world \<Rightarrow> (nat \<times> world) option" where
  "wc_files [] rc w = Some (rc, w)"
| "wc_files (f # fs) rc w =
     (case files w f of
        None \<Rightarrow> do { w \<leftarrow> complain (''wc: %s: cannot open'' @ [CHR 0x0A]) f w; wc_files fs 1 w }
      | Some s \<Rightarrow> do { w \<leftarrow> wc_report s (Some f) w; wc_files fs rc w })"

definition wc_main :: "cstring list \<Rightarrow> world \<Rightarrow> (nat \<times> world) option" where
  "wc_main argv w =
     (if length argv < 2 then do { w \<leftarrow> wc_report (stdin w) None w; Some (0, w) } else wc_files (tl argv) 0 w)"

section \<open>grep.c\<close>

definition lo :: "u8 \<Rightarrow> u8" where
  "lo c = (if c \<ge> ch CHR ''A'' \<and> c \<le> ch CHR ''Z'' then c + 32 else c)"

text \<open>The inner loop of the case-insensitive match: compare the pattern with the line at its start.\<close>

fun match_ci_at :: "cstring \<Rightarrow> cstring \<Rightarrow> nat \<Rightarrow> bool" where
  "match_ci_at h p 0 = True"
| "match_ci_at h p (Suc n) = (if lo (cstr h 0) = lo (cstr p 0) then match_ci_at (tl h) (tl p) n else False)"

fun match_ci :: "cstring \<Rightarrow> cstring \<Rightarrow> bool" where
  "match_ci [] pat = False"
| "match_ci (c # line) pat =
     (if c = 0 then False else if match_ci_at (c # line) pat (strlen pat) then True else match_ci line pat)"

definition grep_match :: "cstring \<Rightarrow> cstring \<Rightarrow> bool \<Rightarrow> bool" where
  "grep_match line pat ci = (if \<not> ci then strstr line pat \<noteq> None else match_ci line pat)"

definition grep_line :: "cstring \<Rightarrow> bool \<Rightarrow> bool \<Rightarrow> cstring \<Rightarrow> cstring \<Rightarrow> u8 list" where
  "grep_line pat ci show_name name line =
     (if grep_match line pat ci then (if show_name then c_text name @ [ch CHR '':''] else []) @ c_text line @ [10] else [])"

fun grep_loop :: "cstring \<Rightarrow> bool \<Rightarrow> bool \<Rightarrow> cstring \<Rightarrow> u8 list \<Rightarrow> cstring \<Rightarrow> bool \<Rightarrow> u8 list \<times> bool" where
  "grep_loop pat ci sn name [] line found =
     (if length line > 0 then (grep_line pat ci sn name line, found \<or> grep_match line pat ci) else ([], found))"
| "grep_loop pat ci sn name (c # s) line found =
     (if c = 10 \<or> length line = 511
      then let (o', f) = grep_loop pat ci sn name s [] (found \<or> grep_match line pat ci)
           in (grep_line pat ci sn name line @ o', f)
      else grep_loop pat ci sn name s (line @ [c]) found)"

definition grep_fd :: "u8 list \<Rightarrow> cstring \<Rightarrow> bool \<Rightarrow> bool \<Rightarrow> cstring \<Rightarrow> u8 list \<times> bool" where
  "grep_fd s pat ci show_name name = grep_loop pat ci show_name name s [] False"

fun grep_files :: "cstring \<Rightarrow> bool \<Rightarrow> bool \<Rightarrow> cstring list \<Rightarrow> bool \<Rightarrow> nat \<Rightarrow> world \<Rightarrow> (bool \<times> nat \<times> world) option" where
  "grep_files pat ci sn [] found rc w = Some (found, rc, w)"
| "grep_files pat ci sn (f # fs) found rc w =
     (case files w f of
        None \<Rightarrow> do { w \<leftarrow> complain (''grep: %s: cannot open'' @ [CHR 0x0A]) f w; grep_files pat ci sn fs found 2 w }
      | Some s \<Rightarrow> let (t, g) = grep_fd s pat ci sn f in grep_files pat ci sn fs (found \<or> g) rc (put_out t w))"

definition grep_main :: "cstring list \<Rightarrow> world \<Rightarrow> (nat \<times> world) option" where
  "grep_main argv w =
     (let (ci, argi) = (if 1 < length argv \<and> strcmp (argv ! 1) (str ''-i'') = 0 then (True, 2) else (False, 1 :: nat))
      in if argi \<ge> length argv
         then Some (2, put_out (str (''usage: grep [-i] <pattern> [file ...]'' @ [CHR 0x0A])) w)
         else let pat = argv ! argi; fs = drop (argi + 1) argv
              in do { (found, rc, w) \<leftarrow> (if fs = [] then let (t, g) = grep_fd (stdin w) pat ci False [] in Some (g, 0, put_out t w)
                                        else grep_files pat ci (length fs > 1) fs False 0 w);
                      Some (if found then 0 else if rc \<noteq> 0 then rc else 1, w) })"

section \<open>echo.c\<close>

fun echo_escape :: "cstring \<Rightarrow> u8 list" where
  "echo_escape [] = []"
| "echo_escape [c] = (if c = 0 then [] else [c])"
| "echo_escape (c # d # s) =
     (if c = 0 then []
      else if c = 92 \<and> d \<noteq> 0
      then (if d = ch CHR ''n'' then [10] else if d = ch CHR ''t'' then [9] else if d = ch CHR ''r'' then [13]
            else if d = 92 then [92] else [92, d]) @ echo_escape s
      else c # echo_escape (d # s))"

definition echo_str :: "cstring \<Rightarrow> bool \<Rightarrow> u8 list" where
  "echo_str s escape = (if escape then echo_escape s else c_text s)"

definition echo_flag :: "cstring \<Rightarrow> bool" where
  "echo_flag a \<longleftrightarrow> cstr a 0 = ch CHR ''-'' \<and> list_all (\<lambda>c. c = ch CHR ''n'' \<or> c = ch CHR ''e'') (c_text (tl a))"

fun echo_flags :: "cstring list \<Rightarrow> bool \<Rightarrow> bool \<Rightarrow> bool \<times> bool \<times> cstring list" where
  "echo_flags [] newline escape = (newline, escape, [])"
| "echo_flags (a # as) newline escape =
     (if echo_flag a
      then echo_flags as (newline \<and> ch CHR ''n'' \<notin> set (c_text (tl a))) (escape \<or> ch CHR ''e'' \<in> set (c_text (tl a)))
      else (newline, escape, a # as))"

fun echo_args :: "bool \<Rightarrow> cstring list \<Rightarrow> u8 list" where
  "echo_args escape [] = []"
| "echo_args escape [a] = echo_str a escape"
| "echo_args escape (a # b # as) = echo_str a escape @ [32] @ echo_args escape (b # as)"

definition echo_main :: "cstring list \<Rightarrow> world \<Rightarrow> nat \<times> world" where
  "echo_main argv w =
     (let (newline, escape, as) = echo_flags (tl argv) True False
      in (0, put_out (echo_args escape as @ (if newline then [10] else [])) w))"

section \<open>seq.c\<close>

text \<open>The counter is a \<open>long\<close> and the bounds are results of \<open>atoi\<close>, so the additions do not overflow.\<close>

function seq_loop :: "int \<Rightarrow> int \<Rightarrow> int \<Rightarrow> (u8 list) option" where
  "seq_loop i step lst =
     (if step \<noteq> 0 \<and> (if step > 0 then i \<le> lst else i \<ge> lst)
      then (case snprintf 32 (str (''%ld'' @ [CHR 0x0A])) [Num (of_int i)] of
              Some (Text t) \<Rightarrow> map_option ((@) (c_text t)) (seq_loop (i + step) step lst)
            | _ \<Rightarrow> None)
      else Some [])"
  by pat_completeness auto

termination seq_loop
  by (relation "measure (\<lambda>(i, step, lst). nat (if step > 0 then lst + 1 - i else i + 1 - lst))") (auto split: if_splits)

definition seq_main :: "cstring list \<Rightarrow> world \<Rightarrow> (nat \<times> world) option" where
  "seq_main argv w =
     (let argc = length argv
      in if argc < 2 \<or> argc > 4 then Some (1, put_out (str (''usage: seq [first [step]] last'' @ [CHR 0x0A])) w)
         else let first = (if argc = 2 then 1 else sint (atoi (argv ! 1)));
                  step = (if argc = 4 then sint (atoi (argv ! 2)) else 1);
                  lst = sint (atoi (argv ! (argc - 1)))
              in if step = 0 then Some (1, put_out (str (''seq: step cannot be zero'' @ [CHR 0x0A])) w)
                 else do { t \<leftarrow> seq_loop first step lst; Some (0, put_out t w) })"

section \<open>test.c\<close>

text \<open>The parameter \<open>stat\<close> is the answer of the system call: mode and size of an existing file.\<close>

definition S_ISREG :: "u16 \<Rightarrow> bool" where "S_ISREG m \<longleftrightarrow> m AND 0x8000 \<noteq> 0"
definition S_ISDIR :: "u16 \<Rightarrow> bool" where "S_ISDIR m \<longleftrightarrow> m AND 0x4000 \<noteq> 0"

definition test_unary :: "(cstring \<Rightarrow> (u16 \<times> u32) option) \<Rightarrow> cstring \<Rightarrow> cstring \<Rightarrow> bool" where
  "test_unary stat op arg =
     (if strcmp op (str ''-z'') = 0 then strlen arg = 0
      else if strcmp op (str ''-n'') = 0 then strlen arg \<noteq> 0
      else case stat arg of
        None \<Rightarrow> False
      | Some (mode, sz) \<Rightarrow>
          if strcmp op (str ''-e'') = 0 then True
          else if strcmp op (str ''-f'') = 0 then S_ISREG mode
          else if strcmp op (str ''-d'') = 0 then S_ISDIR mode
          else if strcmp op (str ''-r'') = 0 then True
          else if strcmp op (str ''-s'') = 0 then sz > 0
          else False)"

definition test_binary :: "cstring \<Rightarrow> cstring \<Rightarrow> cstring \<Rightarrow> bool" where
  "test_binary a op b =
     (if strcmp op (str ''='') = 0 \<or> strcmp op (str ''=='') = 0 then strcmp a b = 0
      else if strcmp op (str ''!='') = 0 then strcmp a b \<noteq> 0
      else if strcmp op (str ''<'') = 0 then strcmp a b < 0
      else if strcmp op (str ''>'') = 0 then strcmp a b > 0
      else let av = sint (atoi a); bv = sint (atoi b)
           in if strcmp op (str ''-eq'') = 0 then av = bv
              else if strcmp op (str ''-ne'') = 0 then av \<noteq> bv
              else if strcmp op (str ''-lt'') = 0 then av < bv
              else if strcmp op (str ''-le'') = 0 then av \<le> bv
              else if strcmp op (str ''-gt'') = 0 then av > bv
              else if strcmp op (str ''-ge'') = 0 then av \<ge> bv
              else False)"

fun test_eval :: "(cstring \<Rightarrow> (u16 \<times> u32) option) \<Rightarrow> cstring list \<Rightarrow> bool" where
  "test_eval stat [] = False"
| "test_eval stat (a # as) =
     (if strcmp a (str ''!'') = 0 then \<not> test_eval stat as
      else if length as = 1 \<and> cstr a 0 = ch CHR ''-'' then test_unary stat a (as ! 0)
      else if length as = 2 then test_binary a (as ! 0) (as ! 1)
      else if as = [] then strlen a \<noteq> 0
      else False)"

definition test_main :: "(cstring \<Rightarrow> (u16 \<times> u32) option) \<Rightarrow> cstring list \<Rightarrow> nat" where
  "test_main stat argv =
     (let argv = (if length argv > 1 \<and> strcmp (last argv) (str '']'') = 0 then butlast argv else argv)
      in if test_eval stat (tl argv) then 1 else 0)"

section \<open>cat.c\<close>

definition cat_main :: "cstring list \<Rightarrow> world \<Rightarrow> nat \<times> world" where
  "cat_main argv w =
     (if length argv < 2 then (0, put_out (stdin w) w)
      else case files w (argv ! 1) of
        None \<Rightarrow> (1, put_out (str ''cat: cannot open '' @ c_text (argv ! 1) @ [10]) w)
      | Some s \<Rightarrow> (0, put_out s w))"

section \<open>The order of strings\<close>

text \<open>On strings without zero bytes, \<open>strcmp\<close> is the lexicographic order of the byte lists.\<close>

lemma strcmp_order:
  assumes "wf_cstr a" and "wf_cstr b"
  shows "strcmp a b < 0 \<longleftrightarrow> a < b" and "strcmp a b = 0 \<longleftrightarrow> a = b"
proof -
  have "(strcmp a b < 0 \<longleftrightarrow> a < b) \<and> (strcmp a b = 0 \<longleftrightarrow> a = b)"
    using assms
  proof (induction a b rule: strcmp.induct)
    case (1 b)
    have "0 < uint x" if "x \<noteq> 0" for x :: u8 using that by (metis uint_ge_0 order_le_less uint_0_iff)
    then show ?case using 1 by (cases b) (auto simp: wf_cstr_def uint_0_iff)
  next
    case (2 x a b)
    show ?case
    proof (cases b)
      case Nil
      then show ?thesis using 2 by (auto simp: wf_cstr_def uint_0_iff)
    next
      case (Cons y b')
      then show ?thesis
        using 2 by (cases "x = y") (auto simp: wf_cstr_def word_less_def word_uint_eq_iff)
    qed
  qed
  then show "strcmp a b < 0 \<longleftrightarrow> a < b" "strcmp a b = 0 \<longleftrightarrow> a = b" by simp_all
qed

lemma out_of_order_less:
  assumes "wf_cstr a" and "wf_cstr b"
  shows "out_of_order r a b = (if r then a < b else b < a)"
  using strcmp_order [OF assms] by (auto simp: out_of_order_def not_less linorder_neq_iff intro: ccontr)

section \<open>sort prints the lines in order\<close>

definition in_order :: "bool \<Rightarrow> cstring \<Rightarrow> cstring \<Rightarrow> bool" where
  "in_order r a b \<longleftrightarrow> (if r then b \<le> a else a \<le> b)"

lemma in_order_out_of_order: "wf_cstr a \<Longrightarrow> wf_cstr b \<Longrightarrow> in_order r a b \<longleftrightarrow> \<not> out_of_order r a b"
  by (auto simp: in_order_def out_of_order_less not_less)

lemma in_order_total: "in_order r a b \<or> in_order r b a"
  by (auto simp: in_order_def)

lemma in_order_trans: "in_order r a b \<Longrightarrow> in_order r b c \<Longrightarrow> in_order r a c"
  by (auto simp: in_order_def split: if_splits)

lemma shift_up_inserts:
  assumes "sorted_wrt (in_order r) xs" and "wf_cstr key" and "\<forall>x \<in> set xs. wf_cstr x"
  shows "\<exists>zs. shift_up r key (xs @ h # ys) (length xs) = zs @ ys \<and> mset zs = add_mset key (mset xs) \<and> sorted_wrt (in_order r) zs"
  using assms
proof (induction xs arbitrary: h ys rule: rev_induct)
  case Nil
  then show ?case by (intro exI [of _ "[key]"]) simp
next
  case (snoc x xs)
  have ls: "((xs @ [x]) @ h # ys) ! length xs = x" by (simp add: nth_append)
  have wf: "wf_cstr x" using snoc.prems by simp
  show ?case
  proof (cases "out_of_order r x key")
    case True
    have "sorted_wrt (in_order r) xs" "\<forall>x \<in> set xs. wf_cstr x" using snoc.prems by (simp_all add: sorted_wrt_append)
    then obtain zs where zs: "shift_up r key (xs @ x # x # ys) (length xs) = zs @ x # ys"
        "mset zs = add_mset key (mset xs)" "sorted_wrt (in_order r) zs"
      using snoc.IH [of "x" "x # ys"] snoc.prems(2) by blast
    have "set zs = insert key (set xs)" using zs(2) by (metis set_mset_add_mset_insert set_mset_mset)
    moreover have "in_order r key x"
      using True in_order_out_of_order [OF wf snoc.prems(2)] in_order_total by blast
    ultimately have "sorted_wrt (in_order r) (zs @ [x])"
      using zs(3) snoc.prems by (auto simp: sorted_wrt_append)
    moreover have "((xs @ [x]) @ h # ys)[Suc (length xs) := x] = xs @ x # x # ys" by (simp add: list_update_append)
    ultimately show ?thesis using zs True ls by (intro exI [of _ "zs @ [x]"]) simp
  next
    case False
    have "in_order r x key" using False in_order_out_of_order [OF wf snoc.prems(2)] by simp
    then have "sorted_wrt (in_order r) ((xs @ [x]) @ [key])"
      using snoc.prems(1) by (auto simp: sorted_wrt_append intro: in_order_trans)
    moreover have "((xs @ [x]) @ h # ys)[Suc (length xs) := key] = xs @ x # key # ys" by (simp add: list_update_append)
    ultimately show ?thesis
      using False ls by (intro exI [of _ "xs @ [x, key]"]) simp
  qed
qed

lemma insertion_sort_loop:
  assumes "\<forall>x \<in> set ls. wf_cstr x" and "n \<le> length ls" and "0 < n"
    and run: "\<And>n. F n = fold (\<lambda>i ls. shift_up r (ls ! i) ls i) [1 ..< n] ls"
  shows "mset (F n) = mset ls \<and> sorted_wrt (in_order r) (take n (F n))"
  using assms(2,3)
proof (induction n)
  case (Suc n)
  show ?case
  proof (cases "n = 0")
    case True
    then show ?thesis using Suc.prems by (cases ls) (simp_all add: run)
  next
    case False
    define ms where "ms = F n"
    have IH: "mset ms = mset ls" "sorted_wrt (in_order r) (take n ms)" using Suc False by (simp_all add: ms_def)
    have len: "length ms = length ls" using IH(1) by (metis size_mset)
    have split: "ms = take n ms @ ms ! n # drop (Suc n) ms" using Suc.prems(1) len by (simp add: id_take_nth_drop)
    have wf: "\<forall>x \<in> set ms. wf_cstr x" using assms(1) IH(1) by (metis mset_eq_setD)
    have "ms ! n \<in> set ms" using Suc.prems(1) len by simp
    then obtain zs where zs: "shift_up r (ms ! n) (take n ms @ ms ! n # drop (Suc n) ms) (length (take n ms)) = zs @ drop (Suc n) ms"
        "mset zs = add_mset (ms ! n) (mset (take n ms))" "sorted_wrt (in_order r) zs"
      using shift_up_inserts [OF IH(2)] wf by (meson in_set_takeD)
    have shift: "shift_up r (ms ! n) ms n = zs @ drop (Suc n) ms"
      using zs(1) split Suc.prems(1) len by (simp add: min_def)
    have "size (mset zs) = Suc n" using zs(2) Suc.prems(1) len by simp
    then have "length zs = Suc n" by simp
    moreover have "mset ms = mset (take n ms) + add_mset (ms ! n) (mset (drop (Suc n) ms))"
      by (subst split) simp
    moreover have "F (Suc n) = zs @ drop (Suc n) ms" using False shift by (simp add: run ms_def)
    ultimately show ?thesis using zs IH(1) by simp
  qed
qed simp

text \<open>
  C29: \<open>sort\<close> sorts. On lines without zero bytes the in-place insertion sort gives exactly the sorted
  list of the lines in the lexicographic order of bytes, and with the option \<open>-r\<close> its reverse.
\<close>

theorem insertion_sort_sorts:
  assumes "\<forall>l \<in> set ls. wf_cstr l"
  shows "insertion_sort r ls = (if r then rev (sort ls) else sort ls)"
proof (cases "ls = []")
  case False
  have "0 < length ls" using False by simp
  note loop = insertion_sort_loop [OF assms order_refl this refl, of r, folded insertion_sort_def]
  then have "length (insertion_sort r ls) = length ls" by (metis size_mset)
  then have *: "mset (insertion_sort r ls) = mset ls" "sorted_wrt (in_order r) (insertion_sort r ls)" using loop by simp_all
  show ?thesis
  proof (cases r)
    case True
    then have "sorted (rev (insertion_sort r ls))" using *(2) by (simp add: sorted_wrt_rev in_order_def [abs_def])
    then have "sort ls = rev (insertion_sort r ls)" using *(1) by (intro properties_for_sort) simp_all
    then show ?thesis using True by simp
  next
    case False
    then show ?thesis using * properties_for_sort [of "insertion_sort r ls" ls] by (simp add: in_order_def [abs_def])
  qed
qed (simp add: insertion_sort_def)

theorem insertion_sort_sorts_witness:
  "insertion_sort True [str ''a'', str ''c'', str ''b''] = rev (sort [str ''a'', str ''c'', str ''b''])"
  by (subst insertion_sort_sorts) (simp_all add: wf_cstr_def str_def ch_def)

section \<open>tail prints the last lines\<close>

text \<open>The specification: the lines of a text, the last one possibly without its newline.\<close>

fun split_lines :: "u8 list \<Rightarrow> u8 list \<Rightarrow> u8 list list" where
  "split_lines cur [] = (if cur = [] then [] else [cur])"
| "split_lines cur (c # s) = (if c = 10 then cur # split_lines [] s else split_lines (cur @ [c]) s)"

definition last_lines :: "nat \<Rightarrow> u8 list \<Rightarrow> u8 list list" where
  "last_lines n s =
     (let ls = map (take 511) (split_lines [] (filter (\<lambda>c. c \<noteq> 13) s)) in drop (length ls - n) ls)"

definition stored :: "tail_state \<Rightarrow> nat \<Rightarrow> u8 list" where
  "stored t r = map (row (ring t) r) [0 ..< llen (ring t) r]"

text \<open>Line \<open>k\<close> is in row \<open>k mod n\<close>; the row of the unfinished line no longer holds the line it replaces.\<close>

definition tail_inv :: "nat \<Rightarrow> u8 list list \<Rightarrow> u8 list \<Rightarrow> tail_state \<Rightarrow> bool" where
  "tail_inv n D cur t \<longleftrightarrow>
     hd_i t = length D mod n \<and> cnt t = min n (length D) \<and> pos t = min 511 (length cur)
   \<and> (\<forall>i < pos t. row (ring t) (hd_i t) i = cur ! i)
   \<and> (\<forall>k < length D. length D < k + n \<or> length D = k + n \<and> cur = [] \<longrightarrow> stored t (k mod n) = D ! k)"

lemma mod_differ:
  fixes k l n :: nat
  assumes "k < l" and "l < k + n"
  shows "k mod n \<noteq> l mod n"
proof
  assume "k mod n = l mod n"
  then have "n dvd l - k" using assms(1) by (metis mod_eq_dvd_iff_nat less_imp_le_nat)
  then show False using assms by (auto dest: dvd_imp_le)
qed

lemma stored_cong:
  assumes "\<And>i. row (ring t) r i = row (ring u) r i" and "llen (ring t) r = llen (ring u) r"
  shows "stored t r = stored u r"
  using assms by (simp add: stored_def)

lemma end_line_inv:
  assumes inv: "tail_inv n D cur t" and n: "0 < n"
  shows "tail_inv n (D @ [take 511 cur]) [] (end_line n t)"
proof -
  let ?t = "end_line n t"
  have h: "hd_i t = length D mod n" "pos t = min 511 (length cur)" using inv by (simp_all add: tail_inv_def)
  have rows: "stored ?t (k mod n) = (D @ [take 511 cur]) ! k" if k: "k < Suc (length D)" "Suc (length D) \<le> k + n" for k
  proof (cases "k = length D")
    case True
    have "stored ?t (hd_i t) = map (\<lambda>i. cur ! i) [0 ..< pos t]"
      using inv by (auto simp: stored_def end_line_def tail_inv_def)
    also have "\<dots> = take 511 cur" unfolding h by (rule nth_equalityI) simp_all
    finally show ?thesis using True h by simp
  next
    case False
    then have kl: "k < length D" "length D < k + n" using k by simp_all
    then have "k mod n \<noteq> hd_i t" unfolding h using mod_differ by blast
    then have "stored ?t (k mod n) = stored t (k mod n)" by (intro stored_cong) (simp_all add: end_line_def)
    then show ?thesis using inv kl by (simp add: tail_inv_def nth_append)
  qed
  have "hd_i ?t = Suc (length D) mod n" "cnt ?t = min n (Suc (length D))" "pos ?t = 0"
    using inv by (auto simp: tail_inv_def end_line_def mod_Suc_eq)
  then show ?thesis using rows unfolding tail_inv_def by simp
qed

lemma tail_char_inv:
  assumes inv: "tail_inv n D cur t" and c: "c \<noteq> 13" "c \<noteq> 10"
  shows "tail_inv n D (cur @ [c]) (tail_byte n c t)"
proof (cases "pos t < 511")
  case True
  let ?t = "tail_byte n c t"
  have t: "?t = t\<lparr>ring := (ring t)\<lparr>row := (row (ring t))(hd_i t := (row (ring t) (hd_i t))(pos t := c))\<rparr>, pos := pos t + 1\<rparr>"
    using c True by (simp add: tail_byte_def TAIL_LINE_MAX_def)
  have h: "hd_i t = length D mod n" "pos t = length cur" using inv True by (simp_all add: tail_inv_def)
  have "stored ?t (k mod n) = D ! k" if k: "k < length D" "length D < k + n" for k
  proof -
    have "k mod n \<noteq> hd_i t" unfolding h using mod_differ [OF k] .
    then have "stored ?t (k mod n) = stored t (k mod n)" unfolding t by (intro stored_cong) simp_all
    then show ?thesis using inv k by (simp add: tail_inv_def)
  qed
  moreover have "row (ring ?t) (hd_i ?t) i = (cur @ [c]) ! i" if "i < pos ?t" for i
    using inv that h(2) by (auto simp: t tail_inv_def nth_append less_Suc_eq)
  ultimately show ?thesis using inv True h by (simp add: tail_inv_def t)
next
  case False
  then have "tail_byte n c t = t" "511 \<le> length cur" using c inv by (simp_all add: tail_byte_def TAIL_LINE_MAX_def tail_inv_def)
  then show ?thesis using inv by (auto simp: tail_inv_def nth_append)
qed

lemma tail_fold:
  assumes "tail_inv n D cur t" and "0 < n"
  shows "\<exists>E cur'. tail_inv n E cur' (fold (tail_byte n) s t)
    \<and> D @ map (take 511) (split_lines cur (filter (\<lambda>c. c \<noteq> 13) s)) = E @ (if cur' = [] then [] else [take 511 cur'])"
  using assms
proof (induction s arbitrary: D cur t)
  case (Cons c s)
  consider "c = 13" | "c = 10" | "c \<noteq> 13" "c \<noteq> 10" by blast
  then show ?case
  proof cases
    case 1
    then show ?thesis using Cons by (simp add: tail_byte_def)
  next
    case 2
    then have "tail_byte n c t = end_line n t" by (simp add: tail_byte_def)
    then show ?thesis using Cons.IH [OF end_line_inv [OF Cons.prems] Cons.prems(2)] 2 by simp
  next
    case 3
    then show ?thesis using Cons.IH [OF tail_char_inv [OF Cons.prems(1) 3] Cons.prems(2)] by simp
  qed
qed auto

lemma tail_print_inv:
  assumes inv: "tail_inv n D [] t" and n: "0 < n"
  shows "tail_print n t = concat (map (\<lambda>l. l @ [10]) (drop (length D - n) D))"
proof -
  let ?c = "min n (length D)"
  have h: "hd_i t = length D mod n" "cnt t = ?c" using inv by (simp_all add: tail_inv_def)
  have start: "(hd_i t + n - cnt t) mod n = (length D - ?c) mod n"
  proof -
    have "(hd_i t + n - cnt t) mod n = (length D mod n + (n - ?c)) mod n" unfolding h by simp
    also have "\<dots> = (length D + (n - ?c)) mod n" by (rule mod_add_left_eq)
    also have "length D + (n - ?c) = (length D - ?c) + n" by simp
    finally show ?thesis by (simp only: mod_add_self2)
  qed
  have "stored t (((hd_i t + n - cnt t) mod n + i) mod n) = drop (length D - n) D ! i" if i: "i < ?c" for i
  proof -
    have "((hd_i t + n - cnt t) mod n + i) mod n = (length D - ?c + i) mod n" unfolding start by (rule mod_add_left_eq)
    moreover have "length D - ?c + i < length D" "length D \<le> length D - ?c + i + n" using i by linarith+
    then have "stored t ((length D - ?c + i) mod n) = D ! (length D - ?c + i)"
      using inv unfolding tail_inv_def by (metis order_le_less)
    ultimately show ?thesis using i by (auto simp: min_def split: if_splits)
  qed
  then have "map (\<lambda>i. stored t (((hd_i t + n - cnt t) mod n + i) mod n)) [0 ..< cnt t] = drop (length D - n) D"
    unfolding h(2) by (intro nth_equalityI) (simp_all add: h min_def)
  then have "map (\<lambda>l. l @ [10]) (map (\<lambda>i. stored t (((hd_i t + n - cnt t) mod n + i) mod n)) [0 ..< cnt t]) =
      map (\<lambda>l. l @ [10]) (drop (length D - n) D)" by simp
  then show ?thesis unfolding tail_print_def Let_def stored_def map_map comp_def by simp
qed

text \<open>
  C30: \<open>tail\<close> prints the last lines. Whatever the ring buffer held before, take the lines of a stream without
  its carriage returns, each cut to 511 bytes. For \<open>n\<close> from 1 to 100 the output is the last \<open>n\<close> of them, and for
  any other \<open>n\<close>, so also for a request of more than 100 lines, the last 100, oldest first and each
  ended by a newline; the ring of rows loses no line that is printed.
\<close>

theorem tail_prints_last_lines:
  "fst (tail n s rl) =
     concat (map (\<lambda>l. l @ [10]) (last_lines (if n \<le> 0 \<or> n > 100 then 100 else nat n) s))"
proof -
  define m where "m = (if n \<le> 0 \<or> n > 100 then 100 else nat n)"
  have m: "0 < m" by (simp add: m_def)
  define t where "t = fold (tail_byte m) s \<lparr>ring = rl, hd_i = 0, cnt = 0, pos = 0\<rparr>"
  define ls where "ls = map (take 511) (split_lines [] (filter (\<lambda>c. c \<noteq> 13) s))"
  have "tail_inv m [] [] \<lparr>ring = rl, hd_i = 0, cnt = 0, pos = 0\<rparr>" by (simp add: tail_inv_def)
  then obtain E cur where inv: "tail_inv m E cur t" and ls: "ls = E @ (if cur = [] then [] else [take 511 cur])"
    using tail_fold [OF _ m] by (fastforce simp: t_def ls_def)
  have fin: "tail_inv m ls [] (if pos t > 0 then end_line m t else t)"
  proof (cases "cur = []")
    case True
    then have "pos t = 0" using inv by (simp add: tail_inv_def)
    then show ?thesis using inv ls True by simp
  next
    case False
    then have "pos t > 0" using inv by (simp add: tail_inv_def)
    then show ?thesis using end_line_inv [OF inv m] ls False by simp
  qed
  have "fst (tail n s rl) = tail_print m (if pos t > 0 then end_line m t else t)"
    by (simp add: tail_def m_def t_def TAIL_LINES_MAX_def Let_def)
  then show ?thesis
    using tail_print_inv [OF fin m] by (simp add: last_lines_def ls_def m_def Let_def)
qed

section \<open>grep selects the lines that contain the pattern\<close>

lemma match_at_prefix: "wf_cstr h \<Longrightarrow> wf_cstr n \<Longrightarrow> match_at h n \<longleftrightarrow> prefix n h"
proof (induction h n rule: match_at.induct)
  case (2 h c n)
  then show ?case by (cases h) auto
qed simp

lemma strstr_from_sublist: "wf_cstr h \<Longrightarrow> wf_cstr n \<Longrightarrow> n \<noteq> [] \<Longrightarrow> strstr_from h n \<noteq> None \<longleftrightarrow> sublist n h"
  by (induction h n rule: strstr_from.induct) (auto simp: match_at_prefix sublist_Cons_right)

lemma lo_zero: "lo c = 0 \<longleftrightarrow> c = 0"
proof -
  have "c + 32 \<noteq> 0" if "c \<le> 90" for c :: u8
    using that by (auto simp: word_le_nat_alt unat_word_ariths simp flip: unat_eq_zero)
  then show ?thesis by (auto simp: lo_def ch_def)
qed

lemma match_ci_at_prefix:
  "wf_cstr h \<Longrightarrow> wf_cstr p \<Longrightarrow> match_ci_at h p (length p) \<longleftrightarrow> prefix (map lo p) (map lo h)"
proof (induction p arbitrary: h)
  case (Cons c p)
  show ?case
  proof (cases h)
    case Nil
    have "lo 0 \<noteq> lo c" using Cons.prems(2) lo_zero [of c] lo_zero [of 0] by (metis wf_cstr_simps(2))
    then show ?thesis using Nil by simp
  next
    case (Cons d h')
    then show ?thesis using Cons.IH [of h'] Cons.prems by auto
  qed
qed simp

lemma match_ci_sublist:
  "wf_cstr h \<Longrightarrow> wf_cstr p \<Longrightarrow> match_ci h p \<longleftrightarrow> h \<noteq> [] \<and> sublist (map lo p) (map lo h)"
proof (induction h)
  case (Cons c h)
  have len: "strlen p = length p" using Cons.prems(2) by (induction p) auto
  have "sublist (map lo p) (map lo h) \<longleftrightarrow> map lo p = []" if "h = []" using that by simp
  then show ?case
    using Cons len match_ci_at_prefix [of "c # h" p] by (cases h) (auto simp: sublist_Cons_right)
qed simp

text \<open>
  \<open>grep\<close> selects exactly the lines that contain the pattern. Without \<open>-i\<close> a line is selected when the
  pattern is a contiguous part of it; with \<open>-i\<close> when this holds after folding capital letters, except
  that an empty line is never selected, not even by the empty pattern.
\<close>

theorem grep_match_sublist:
  assumes "wf_cstr line" and "wf_cstr pat"
  shows "grep_match line pat ci =
    (if ci then line \<noteq> [] \<and> sublist (map lo pat) (map lo line) else sublist pat line)"
proof (cases "pat = []")
  case True
  then show ?thesis using match_ci_sublist [OF assms] by (auto simp: grep_match_def strstr_def)
next
  case False
  then have "cstr pat 0 \<noteq> 0" using assms(2) by (cases pat) auto
  then show ?thesis
    using match_ci_sublist [OF assms] strstr_from_sublist [OF assms False] by (auto simp: grep_match_def strstr_def)
qed

theorem grep_match_sublist_witness: "grep_match (str ''xABy'') (str ''ab'') True"
proof -
  have "grep_match (str ''xABy'') (str ''ab'') True = sublist (map lo (str ''ab'')) (map lo (str ''xABy''))"
    by (subst grep_match_sublist) (simp_all add: str_def ch_def)
  then show ?thesis by (simp add: str_def ch_def lo_def sublist_Cons_right)
qed

section \<open>test reports the opposite of what it evaluates\<close>

text \<open>
  C32: \<open>test\<close> exits with the inverted status. \<open>test a = b\<close> exits with 1 when the strings are equal and with
  0 when they differ, although 0 is the status for true; the operands must not be \<open>!\<close> or \<open>]\<close>.
\<close>

theorem test_status_inverted:
  assumes "wf_cstr a" and "wf_cstr b" and "a \<noteq> str ''!''" and "b \<noteq> str '']''"
  shows "test_main stat [prog, a, str ''='', b] = (if a = b then 1 else 0)"
proof -
  have s: "wf_cstr (str ''!'')" "wf_cstr (str '']'')" by (simp_all add: str_def ch_def)
  have "strcmp a (str ''!'') \<noteq> 0" "strcmp b (str '']'') \<noteq> 0"
    using strcmp_order(2) [OF assms(1) s(1)] strcmp_order(2) [OF assms(2) s(2)] assms(3,4) by simp_all
  then show ?thesis
    using strcmp_order(2) [OF assms(1,2)] by (simp add: test_main_def test_binary_def str_def ch_def)
qed

theorem test_status_inverted_witness:
  "test_main (\<lambda>_. None) [str ''test'', str ''x'', str ''='', str ''x''] = 1 \<and> test_main (\<lambda>_. None) [str ''test'', str ''x'', str ''='', str ''y''] = 0"
  using test_status_inverted [of "str ''x''" "str ''x''" "\<lambda>_. None"] test_status_inverted [of "str ''x''" "str ''y''" "\<lambda>_. None"]
  by (simp add: str_def ch_def)

end
