(* ===== verification/Readline.thy ===== *)
theory Readline
  imports Noxlib
begin

text \<open>
  The line editor \<open>readline\<close> of src/src/lib/noxlib/noxlib.h with its history of 20 lines. The bytes that
  reads of descriptor 0 return are a list; an editor that waits for input that does not come has no
  result. The editor is shown to implement a list editor: a text with a cursor, and a list of lines as
  history.
\<close>

section \<open>The code\<close>

definition RL_MAX :: nat where "RL_MAX = 256"
definition RL_HIST :: nat where "RL_HIST = 20"
definition ISIG :: u32 where "ISIG = 0x0001"
definition ICANON :: u32 where "ICANON = 0x0002"
definition ECHO :: u32 where "ECHO = 0x0008"
definition VMIN :: nat where "VMIN = 0"

record termios =
  c_lflag :: u32
  c_cc :: "nat \<Rightarrow> u8"

text \<open>The locals of \<open>readline\<close>, its static history, the terminal settings and what was written.\<close>

record rl =
  buf :: "nat \<Rightarrow> u8"
  len :: nat
  cur :: nat
  old_len :: nat
  hist_pos :: nat
  tmp :: "nat \<Rightarrow> u8"
  tmp_len :: nat
  in_hist :: bool
  rl_hist :: "nat \<Rightarrow> nat \<Rightarrow> u8"
  rl_nhist :: nat
  rl_out :: "nat \<Rightarrow> u8"
  tio :: termios
  screen :: "u8 list"

definition emit :: "u8 list \<Rightarrow> rl \<Rightarrow> rl" where
  "emit bs s = s\<lparr>screen := screen s @ bs\<rparr>"

definition rl_draw :: "cstring \<Rightarrow> nat \<Rightarrow> nat \<Rightarrow> nat \<Rightarrow> rl \<Rightarrow> rl" where
  "rl_draw pr l c old s =
     emit ([13] @ pr @ map (buf s) [0 ..< l] @ replicate (old - l) 32 @ [13] @ pr @ map (buf s) [0 ..< c]) s"

text \<open>A row of the history as the string functions see it.\<close>

definition row_text :: "(nat \<Rightarrow> u8) \<Rightarrow> u8 list" where
  "row_text r = map r [0 ..< RL_MAX]"

definition copy_row :: "nat \<Rightarrow> (nat \<Rightarrow> u8) \<Rightarrow> (nat \<Rightarrow> u8) \<Rightarrow> nat \<Rightarrow> u8" where
  "copy_row n src dst = fold (\<lambda>i d. d(i := src i)) [0 ..< n] dst"

definition rl_store :: "rl \<Rightarrow> rl" where
  "rl_store s =
     (if len s = 0 then s
      else if rl_nhist s > 0 \<and> strcmp (row_text (rl_hist s (rl_nhist s - 1))) (row_text (buf s)) = 0 then s
      else if rl_nhist s < RL_HIST
      then s\<lparr>rl_hist := (rl_hist s)(rl_nhist s := (copy_row (len s) (buf s) (rl_hist s (rl_nhist s)))(len s := 0)),
             rl_nhist := rl_nhist s + 1\<rparr>
      else let h = fold (\<lambda>i h. h(i := copy_row RL_MAX (h (i + 1)) (h i))) [0 ..< RL_HIST - 1] (rl_hist s)
           in s\<lparr>rl_hist := h(RL_HIST - 1 := (copy_row (len s) (buf s) (h (RL_HIST - 1)))(len s := 0))\<rparr>)"

definition rl_enter :: "rl \<Rightarrow> rl" where
  "rl_enter s = rl_store (emit [10] (s\<lparr>buf := (buf s)(len s := 0)\<rparr>))"

text \<open>Closing the gap at \<open>i\<close>, and opening one at the cursor.\<close>

definition close_gap :: "nat \<Rightarrow> rl \<Rightarrow> nat \<Rightarrow> u8" where
  "close_gap i s = fold (\<lambda>i b. b(i := b (i + 1))) [i ..< len s - 1] (buf s)"

definition open_gap :: "rl \<Rightarrow> nat \<Rightarrow> u8" where
  "open_gap s = fold (\<lambda>i b. b(i := b (i - 1))) (rev [cur s + 1 ..< len s + 1]) (buf s)"

definition rl_backspace :: "cstring \<Rightarrow> rl \<Rightarrow> rl" where
  "rl_backspace pr s =
     (if cur s > 0
      then let s = s\<lparr>buf := close_gap (cur s - 1) s, old_len := len s, len := len s - 1, cur := cur s - 1\<rparr>
           in rl_draw pr (len s) (cur s) (old_len s) s
      else s)"

definition rl_home :: "cstring \<Rightarrow> rl \<Rightarrow> rl" where
  "rl_home pr s = (rl_draw pr (len s) 0 (len s) s)\<lparr>cur := 0\<rparr>"

definition rl_end :: "cstring \<Rightarrow> rl \<Rightarrow> rl" where
  "rl_end pr s = (rl_draw pr (len s) (len s) (len s) s)\<lparr>cur := len s\<rparr>"

definition rl_kill :: "cstring \<Rightarrow> rl \<Rightarrow> rl" where
  "rl_kill pr s =
     (let s = s\<lparr>old_len := len s, len := cur s\<rparr> in rl_draw pr (len s) (cur s) (old_len s) s)"

definition rl_left :: "cstring \<Rightarrow> rl \<Rightarrow> rl" where
  "rl_left pr s = (let s = s\<lparr>cur := cur s - 1\<rparr> in rl_draw pr (len s) (cur s) (len s) s)"

definition rl_right :: "cstring \<Rightarrow> rl \<Rightarrow> rl" where
  "rl_right pr s = (let s = s\<lparr>cur := cur s + 1\<rparr> in rl_draw pr (len s) (cur s) (len s) s)"

text \<open>Taking over \<open>n\<close> bytes of another array as the line.\<close>

definition rl_replace :: "cstring \<Rightarrow> nat \<Rightarrow> (nat \<Rightarrow> u8) \<Rightarrow> rl \<Rightarrow> rl" where
  "rl_replace pr n src s =
     (let s = s\<lparr>old_len := len s, buf := (copy_row n src (buf s))(n := 0), len := n, cur := n\<rparr>
      in rl_draw pr (len s) (cur s) (old_len s) s)"

definition rl_up :: "cstring \<Rightarrow> rl \<Rightarrow> rl" where
  "rl_up pr s =
     (let s = (if \<not> in_hist s
               then s\<lparr>tmp := (copy_row (len s) (buf s) (tmp s))(len s := 0), tmp_len := len s, in_hist := True, hist_pos := rl_nhist s\<rparr>
               else s)
      in if hist_pos s > 0
         then let s = s\<lparr>hist_pos := hist_pos s - 1\<rparr>
              in rl_replace pr (strlen (row_text (rl_hist s (hist_pos s)))) (rl_hist s (hist_pos s)) s
         else s)"

definition rl_down :: "cstring \<Rightarrow> rl \<Rightarrow> rl" where
  "rl_down pr s =
     (if in_hist s \<and> hist_pos s < rl_nhist s
      then let s = s\<lparr>hist_pos := hist_pos s + 1\<rparr>
           in if hist_pos s = rl_nhist s then (rl_replace pr (tmp_len s) (tmp s) s)\<lparr>in_hist := False\<rparr>
              else rl_replace pr (strlen (row_text (rl_hist s (hist_pos s)))) (rl_hist s (hist_pos s)) s
      else s)"

definition rl_delete :: "cstring \<Rightarrow> rl \<Rightarrow> rl" where
  "rl_delete pr s =
     (if cur s < len s
      then let s = s\<lparr>old_len := len s, buf := close_gap (cur s) s, len := len s - 1\<rparr>
           in rl_draw pr (len s) (cur s) (old_len s) s
      else s)"

definition rl_insert :: "cstring \<Rightarrow> u8 \<Rightarrow> rl \<Rightarrow> rl" where
  "rl_insert pr c s =
     (if c \<ge> 0x20 \<and> len s < RL_MAX - 1
      then let s = s\<lparr>in_hist := False\<rparr>;
               s = s\<lparr>buf := (open_gap s)(cur s := c), old_len := len s, len := len s + 1, cur := cur s + 1\<rparr>
           in rl_draw pr (len s) (cur s) (old_len s) s
      else s)"

text \<open>The bytes behind ESC: the new state and the input left, if the sequence is complete.\<close>

fun rl_escape :: "cstring \<Rightarrow> u8 list \<Rightarrow> rl \<Rightarrow> (u8 list \<times> rl) option" where
  "rl_escape pr [] s = None"
| "rl_escape pr (s1 # inp) s =
     (if s1 \<noteq> ch CHR ''['' then Some (inp, s)
      else case inp of
        [] \<Rightarrow> None
      | s2 # inp \<Rightarrow>
          if s2 = ch CHR ''D'' \<and> cur s > 0 then Some (inp, rl_left pr s)
          else if s2 = ch CHR ''C'' \<and> cur s < len s then Some (inp, rl_right pr s)
          else if s2 = ch CHR ''A'' then Some (inp, rl_up pr s)
          else if s2 = ch CHR ''B'' then Some (inp, rl_down pr s)
          else if s2 = ch CHR ''3'' then (case inp of [] \<Rightarrow> None | tilde # inp \<Rightarrow> Some (inp, rl_delete pr s))
          else Some (inp, s))"

lemma rl_escape_shorter: "rl_escape pr inp s = Some (rest, t) \<Longrightarrow> length rest < length inp"
  by (induction pr inp s rule: rl_escape.induct) (auto split: if_splits list.splits)

function rl_loop :: "cstring \<Rightarrow> u8 list \<Rightarrow> rl \<Rightarrow> (u8 list \<times> rl) option" where
  "rl_loop pr [] s = None"
| "rl_loop pr (c # inp) s =
     (if c = 13 \<or> c = 10 then Some (inp, rl_enter s)
      else if c = 0x7F \<or> c = 8 then rl_loop pr inp (rl_backspace pr s)
      else if c = 1 then rl_loop pr inp (rl_home pr s)
      else if c = 5 then rl_loop pr inp (rl_end pr s)
      else if c = 0x0B then rl_loop pr inp (rl_kill pr s)
      else if c = 0x1B then (case rl_escape pr inp s of None \<Rightarrow> None | Some (rest, s) \<Rightarrow> rl_loop pr rest s)
      else rl_loop pr inp (rl_insert pr c s))"
  by pat_completeness auto

termination rl_loop
  by (relation "measure (\<lambda>(_, inp, _). length inp)") (auto dest: rl_escape_shorter)

definition readline :: "cstring \<Rightarrow> u8 list \<Rightarrow> rl \<Rightarrow> (u8 list \<times> rl) option" where
  "readline prompt inp s =
     (let saved = tio s;
          s = s\<lparr>tio := saved\<lparr>c_lflag := c_lflag saved AND NOT (ICANON OR ECHO), c_cc := (c_cc saved)(VMIN := 1)\<rparr>\<rparr>;
          s = emit (c_text prompt) s;
          s = s\<lparr>len := 0, cur := 0, old_len := 0, hist_pos := rl_nhist s, tmp_len := 0, in_hist := False\<rparr>
      in case rl_loop (c_text prompt) inp s of
           None \<Rightarrow> None
         | Some (rest, s) \<Rightarrow>
             let s = s\<lparr>tio := saved\<rparr> in Some (rest, s\<lparr>rl_out := copy_row (len s + 1) (buf s) (rl_out s)\<rparr>))"

section \<open>The list editor\<close>

text \<open>The specification: the text and the cursor, the history, the position in it and the text it was left with.\<close>

record lineed =
  ltxt :: "u8 list"
  crs :: nat
  past :: "u8 list list"
  idx :: nat
  kept :: "u8 list"
  recall :: bool

definition remember :: "u8 list \<Rightarrow> u8 list list \<Rightarrow> u8 list list" where
  "remember t h =
     (if t = [] \<or> h \<noteq> [] \<and> last h = t then h else (if length h < 20 then h else tl h) @ [t])"

definition erase :: "nat \<Rightarrow> u8 list \<Rightarrow> u8 list" where
  "erase i t = take i t @ drop (Suc i) t"

definition ed_up :: "lineed \<Rightarrow> lineed" where
  "ed_up e =
     (let e = (if recall e then e else e\<lparr>kept := ltxt e, recall := True, idx := length (past e)\<rparr>)
      in if idx e > 0 then e\<lparr>idx := idx e - 1, ltxt := past e ! (idx e - 1), crs := length (past e ! (idx e - 1))\<rparr> else e)"

definition ed_down :: "lineed \<Rightarrow> lineed" where
  "ed_down e =
     (if recall e \<and> idx e < length (past e)
      then if idx e + 1 = length (past e) then e\<lparr>idx := idx e + 1, ltxt := kept e, crs := length (kept e), recall := False\<rparr>
           else e\<lparr>idx := idx e + 1, ltxt := past e ! (idx e + 1), crs := length (past e ! (idx e + 1))\<rparr>
      else e)"

definition ed_insert :: "u8 \<Rightarrow> lineed \<Rightarrow> lineed" where
  "ed_insert c e =
     (if c \<ge> 0x20 \<and> length (ltxt e) < 255
      then e\<lparr>ltxt := take (crs e) (ltxt e) @ c # drop (crs e) (ltxt e), crs := crs e + 1, recall := False\<rparr> else e)"

definition ed_delete :: "lineed \<Rightarrow> lineed" where
  "ed_delete e = (if crs e < length (ltxt e) then e\<lparr>ltxt := erase (crs e) (ltxt e)\<rparr> else e)"

definition ed_backspace :: "lineed \<Rightarrow> lineed" where
  "ed_backspace e = (if crs e > 0 then e\<lparr>ltxt := erase (crs e - 1) (ltxt e), crs := crs e - 1\<rparr> else e)"

fun ed_escape :: "u8 list \<Rightarrow> lineed \<Rightarrow> (u8 list \<times> lineed) option" where
  "ed_escape [] e = None"
| "ed_escape (s1 # inp) e =
     (if s1 \<noteq> ch CHR ''['' then Some (inp, e)
      else case inp of
        [] \<Rightarrow> None
      | s2 # inp \<Rightarrow>
          if s2 = ch CHR ''D'' \<and> crs e > 0 then Some (inp, e\<lparr>crs := crs e - 1\<rparr>)
          else if s2 = ch CHR ''C'' \<and> crs e < length (ltxt e) then Some (inp, e\<lparr>crs := crs e + 1\<rparr>)
          else if s2 = ch CHR ''A'' then Some (inp, ed_up e)
          else if s2 = ch CHR ''B'' then Some (inp, ed_down e)
          else if s2 = ch CHR ''3''
          then (case inp of [] \<Rightarrow> None
                | tilde # inp \<Rightarrow> Some (inp, ed_delete e))
          else Some (inp, e))"

lemma ed_escape_shorter: "ed_escape inp e = Some (rest, t) \<Longrightarrow> length rest < length inp"
  by (induction inp e rule: ed_escape.induct) (auto split: if_splits list.splits)

function edit :: "u8 list \<Rightarrow> lineed \<Rightarrow> (u8 list \<times> lineed) option" where
  "edit [] e = None"
| "edit (c # inp) e =
     (if c = 13 \<or> c = 10 then Some (inp, e\<lparr>past := remember (ltxt e) (past e)\<rparr>)
      else if c = 0x7F \<or> c = 8
      then edit inp (ed_backspace e)
      else if c = 1 then edit inp (e\<lparr>crs := 0\<rparr>)
      else if c = 5 then edit inp (e\<lparr>crs := length (ltxt e)\<rparr>)
      else if c = 0x0B then edit inp (e\<lparr>ltxt := take (crs e) (ltxt e)\<rparr>)
      else if c = 0x1B then (case ed_escape inp e of None \<Rightarrow> None | Some (rest, e) \<Rightarrow> edit rest e)
      else edit inp (ed_insert c e))"
  by pat_completeness auto

termination edit
  by (relation "measure (\<lambda>(inp, _). length inp)") (auto dest: ed_escape_shorter)

section \<open>The array loops\<close>

lemma copy_row_eq: "copy_row n src dst = (\<lambda>i. if i < n then src i else dst i)"
proof (induction n)
  case (Suc n)
  then show ?case by (auto simp: copy_row_def fun_eq_iff)
qed (simp add: copy_row_def)

lemma shift_left_eq: "i \<le> m \<Longrightarrow> fold (\<lambda>i b. b(i := b (i + 1))) [i ..< m] b = (\<lambda>j. if i \<le> j \<and> j < m then b (j + 1) else b j)"
proof (induction m)
  case (Suc m)
  show ?case
  proof (cases "i = Suc m")
    case False
    then show ?thesis using Suc by (auto simp: fun_eq_iff)
  next
    case True
    then show ?thesis unfolding True by (intro ext) auto
  qed
qed auto

lemma shift_right_eq: "0 < a \<Longrightarrow> fold (\<lambda>i b. b(i := b (i - 1))) (rev [a ..< m]) b = (\<lambda>j. if a \<le> j \<and> j < m then b (j - 1) else b j)"
proof (induction m arbitrary: b)
  case (Suc m)
  show ?case
  proof (cases "a \<le> m")
    case True
    then have "fold (\<lambda>i b. b(i := b (i - 1))) (rev [a ..< Suc m]) b = fold (\<lambda>i b. b(i := b (i - 1))) (rev [a ..< m]) (b(m := b (m - 1)))"
      by simp
    also have "\<dots> = (\<lambda>j. if a \<le> j \<and> j < m then (b(m := b (m - 1))) (j - 1) else (b(m := b (m - 1))) j)"
      by (rule Suc.IH [OF Suc.prems])
    also have "\<dots> = (\<lambda>j. if a \<le> j \<and> j < Suc m then b (j - 1) else b j)"
      using Suc.prems True by (auto simp: fun_eq_iff)
    finally show ?thesis .
  qed (use Suc in \<open>auto simp: fun_eq_iff\<close>)
qed simp

lemma shift_rows_eq:
  "fold (\<lambda>i h. h(i := copy_row RL_MAX (h (i + 1)) (h i))) [0 ..< m] h = (\<lambda>i. if i < m then copy_row RL_MAX (h (i + 1)) (h i) else h i)"
proof (induction m)
  case (Suc m)
  define g where "g = fold (\<lambda>i h. h(i := copy_row RL_MAX (h (i + 1)) (h i))) [0 ..< m] h"
  have g: "g = (\<lambda>i. if i < m then copy_row RL_MAX (h (i + 1)) (h i) else h i)" unfolding g_def by (rule Suc.IH)
  have "fold (\<lambda>i h. h(i := copy_row RL_MAX (h (i + 1)) (h i))) [0 ..< Suc m] h = g(m := copy_row RL_MAX (g (m + 1)) (g m))"
    by (simp add: g_def)
  also have "\<dots> = (\<lambda>i. if i < Suc m then copy_row RL_MAX (h (i + 1)) (h i) else h i)"
    unfolding g by (intro ext) (auto simp: less_Suc_eq)
  finally show ?case .
qed simp

lemma erase_gap:
  assumes "i < len s"
  shows "map (close_gap i s) [0 ..< len s - 1] = erase i (map (buf s) [0 ..< len s])"
proof (rule nth_equalityI)
  show "length (map (close_gap i s) [0 ..< len s - 1]) = length (erase i (map (buf s) [0 ..< len s]))"
    using assms by (simp add: erase_def)
  fix j assume "j < length (map (close_gap i s) [0 ..< len s - 1])"
  then show "map (close_gap i s) [0 ..< len s - 1] ! j = erase i (map (buf s) [0 ..< len s]) ! j"
    using assms shift_left_eq [of i "len s - 1" "buf s"] by (simp add: close_gap_def erase_def nth_append)
qed

lemma insert_gap:
  assumes "cur s \<le> len s"
  shows "map ((open_gap s)(cur s := c)) [0 ..< Suc (len s)] =
    take (cur s) (map (buf s) [0 ..< len s]) @ c # drop (cur s) (map (buf s) [0 ..< len s])"
proof (rule nth_equalityI)
  fix j assume "j < length (map ((open_gap s)(cur s := c)) [0 ..< Suc (len s)])"
  then have j: "j < Suc (len s)" by (simp del: upt_Suc)
  then show "map ((open_gap s)(cur s := c)) [0 ..< Suc (len s)] ! j =
      (take (cur s) (map (buf s) [0 ..< len s]) @ c # drop (cur s) (map (buf s) [0 ..< len s])) ! j"
    using assms shift_right_eq [of "cur s + 1" "len s + 1" "buf s"]
    by (auto simp: open_gap_def nth_append nth_Cons' simp del: upt_Suc)
qed (use assms in simp)

section \<open>The editor implements the list editor\<close>

definition is_row :: "(nat \<Rightarrow> u8) \<Rightarrow> u8 list \<Rightarrow> bool" where
  "is_row r t \<longleftrightarrow> length t \<le> 255 \<and> (\<forall>i < length t. r i = t ! i) \<and> r (length t) = 0 \<and> wf_cstr t"

lemma row_text_is: "is_row r t \<Longrightarrow> c_text (row_text r) = t"
proof -
  assume r: "is_row r t"
  have le: "length t < RL_MAX" using r by (simp add: is_row_def RL_MAX_def)
  then have "[0 ..< RL_MAX] = [0 ..< length t] @ length t # [Suc (length t) ..< RL_MAX]"
    using upt_add_eq_append [of 0 "length t" "RL_MAX - length t"] upt_conv_Cons [OF le] by simp
  then have "row_text r = map r [0 ..< length t] @ 0 # map r [Suc (length t) ..< RL_MAX]"
    using r by (simp add: row_text_def is_row_def)
  moreover have "map r [0 ..< length t] = t" using r by (intro nth_equalityI) (simp_all add: is_row_def)
  moreover have "takeWhile (\<lambda>c. c \<noteq> 0) (t @ 0 # u) = t" for u using r by (subst takeWhile_append2) (auto simp: is_row_def wf_cstr_def)
  ultimately show ?thesis by (simp add: c_text_def)
qed

lemma uint_diff_zero: "uint (x :: u8) - uint y = 0 \<longleftrightarrow> x = y"
  using word_uint_eq_iff [of x y] by linarith

lemma strcmp_text: "strcmp a b = 0 \<longleftrightarrow> c_text a = c_text b"
proof (induction a b rule: strcmp.induct)
  case (1 b)
  have "strcmp [] b = 0 \<longleftrightarrow> cstr b 0 = 0" using uint_diff_zero [of 0 "cstr b 0"] by auto
  then show ?case by (cases b) (auto simp: c_text_def)
next
  case (2 x a b)
  show ?case
  proof (cases "x \<noteq> 0 \<and> x = cstr b 0")
    case True
    then show ?thesis using 2 by (cases b) (simp_all add: c_text_def)
  next
    case False
    then have "strcmp (x # a) b = 0 \<longleftrightarrow> x = cstr b 0" by (simp only: strcmp.simps if_False uint_diff_zero)
    then show ?thesis using False by (cases b) (auto simp: c_text_def)
  qed
qed

text \<open>The line in the buffer, and the history with the recalled position.\<close>

definition rows :: "(nat \<Rightarrow> nat \<Rightarrow> u8) \<Rightarrow> nat \<Rightarrow> u8 list list \<Rightarrow> bool" where
  "rows h n ts \<longleftrightarrow> length ts = n \<and> n \<le> 20 \<and> (\<forall>i < n. is_row (h i) (ts ! i))"

lemma rowsD: "rows h n ts \<Longrightarrow> length ts = n \<and> n \<le> 20 \<and> (i < n \<longrightarrow> is_row (h i) (ts ! i))"
  by (simp add: rows_def)

definition line_ok :: "rl \<Rightarrow> u8 list \<Rightarrow> nat \<Rightarrow> bool" where
  "line_ok s t c \<longleftrightarrow> map (buf s) [0 ..< len s] = t \<and> length t = len s \<and> len s \<le> 255 \<and> wf_cstr t \<and> c = cur s \<and> cur s \<le> len s"

definition hist_ok :: "rl \<Rightarrow> lineed \<Rightarrow> bool" where
  "hist_ok s e \<longleftrightarrow>
     rows (rl_hist s) (rl_nhist s) (past e) \<and> recall e = in_hist s
   \<and> (in_hist s \<longrightarrow> idx e = hist_pos s \<and> hist_pos s \<le> rl_nhist s \<and> map (tmp s) [0 ..< tmp_len s] = kept e
        \<and> length (kept e) = tmp_len s \<and> tmp_len s \<le> 255 \<and> wf_cstr (kept e))"

definition sim :: "rl \<Rightarrow> lineed \<Rightarrow> bool" where
  "sim s e \<longleftrightarrow> line_ok s (ltxt e) (crs e) \<and> hist_ok s e"

lemma hist_ok_frame [simp]:
  "hist_ok (s\<lparr>buf := b\<rparr>) e = hist_ok s e" "hist_ok (s\<lparr>len := l\<rparr>) e = hist_ok s e" "hist_ok (s\<lparr>cur := c\<rparr>) e = hist_ok s e"
  "hist_ok (s\<lparr>old_len := l\<rparr>) e = hist_ok s e" "hist_ok (s\<lparr>screen := bs\<rparr>) e = hist_ok s e" "hist_ok (s\<lparr>tio := ti\<rparr>) e = hist_ok s e"
  "hist_ok s (e\<lparr>ltxt := t\<rparr>) = hist_ok s e" "hist_ok s (e\<lparr>crs := c\<rparr>) = hist_ok s e"
  by (simp_all add: hist_ok_def)

lemma line_ok_frame [simp]:
  "line_ok (s\<lparr>old_len := l\<rparr>) t c = line_ok s t c" "line_ok (s\<lparr>screen := bs\<rparr>) t c = line_ok s t c" "line_ok (s\<lparr>tio := ti\<rparr>) t c = line_ok s t c"
  "line_ok (s\<lparr>in_hist := h\<rparr>) t c = line_ok s t c" "line_ok (s\<lparr>hist_pos := p\<rparr>) t c = line_ok s t c"
  "line_ok (s\<lparr>tmp := m\<rparr>) t c = line_ok s t c" "line_ok (s\<lparr>tmp_len := p\<rparr>) t c = line_ok s t c"
  by (simp_all add: line_ok_def)

lemma draw_fields [simp]:
  "buf (rl_draw pr l c old s) = buf s" "len (rl_draw pr l c old s) = len s" "cur (rl_draw pr l c old s) = cur s"
  "old_len (rl_draw pr l c old s) = old_len s" "hist_pos (rl_draw pr l c old s) = hist_pos s" "tmp (rl_draw pr l c old s) = tmp s"
  "tmp_len (rl_draw pr l c old s) = tmp_len s" "in_hist (rl_draw pr l c old s) = in_hist s" "rl_hist (rl_draw pr l c old s) = rl_hist s"
  "rl_nhist (rl_draw pr l c old s) = rl_nhist s" "rl_out (rl_draw pr l c old s) = rl_out s" "tio (rl_draw pr l c old s) = tio s"
  by (simp_all add: rl_draw_def emit_def)

lemma draw_frame [simp]:
  "line_ok (rl_draw pr l c old s) t k = line_ok s t k" "hist_ok (rl_draw pr l c old s) e = hist_ok s e"
  "line_ok (emit bs s) t k = line_ok s t k" "hist_ok (emit bs s) e = hist_ok s e"
  by (simp_all add: line_ok_def hist_ok_def emit_def)

lemma text_close: "wf_cstr t \<Longrightarrow> wf_cstr (erase i t)"
  by (simp add: erase_def wf_cstr_take)

lemma length_erase: "i < length t \<Longrightarrow> length (erase i t) = length t - 1"
  by (simp add: erase_def)

lemma sim_backspace:
  assumes "sim s e"
  shows "sim (rl_backspace pr s) (ed_backspace e)"
proof (cases "cur s > 0")
  case True
  have l: "line_ok s (ltxt e) (crs e)" using assms by (simp add: sim_def)
  then have "map (close_gap (cur s - 1) s) [0 ..< len s - 1] = erase (cur s - 1) (ltxt e)"
    using True erase_gap [of "cur s - 1" s] by (auto simp: line_ok_def)
  then have "line_ok (s\<lparr>buf := close_gap (cur s - 1) s, len := len s - 1, cur := cur s - 1\<rparr>) (erase (cur s - 1) (ltxt e)) (cur s - 1)"
    using l True text_close [of "ltxt e"] length_erase [of "cur s - 1" "ltxt e"] by (auto simp: line_ok_def)
  then show ?thesis using True assms l by (simp add: sim_def rl_backspace_def ed_backspace_def Let_def line_ok_def)
qed (use assms in \<open>simp add: sim_def rl_backspace_def ed_backspace_def line_ok_def\<close>)

lemma sim_delete:
  assumes "sim s e"
  shows "sim (rl_delete pr s) (ed_delete e)"
proof (cases "cur s < len s")
  case True
  have l: "line_ok s (ltxt e) (crs e)" using assms by (simp add: sim_def)
  then have "map (close_gap (cur s) s) [0 ..< len s - 1] = erase (cur s) (ltxt e)"
    using True erase_gap [of "cur s" s] by (simp add: line_ok_def)
  then show ?thesis
    using True assms l text_close [of "ltxt e"] length_erase [of "cur s" "ltxt e"]
    by (auto simp: sim_def rl_delete_def ed_delete_def Let_def close_gap_def) (auto simp: line_ok_def)
qed (use assms in \<open>simp add: sim_def rl_delete_def ed_delete_def line_ok_def\<close>)

lemma take_text: "c \<le> n \<Longrightarrow> take c (map f [0 ..< n]) = map f [0 ..< c]"
  by (simp add: take_map)

lemma sim_moves:
  assumes "sim s e"
  shows "sim (rl_home pr s) (e\<lparr>crs := 0\<rparr>)" and "sim (rl_end pr s) (e\<lparr>crs := length (ltxt e)\<rparr>)"
    and "sim (rl_kill pr s) (e\<lparr>ltxt := take (crs e) (ltxt e)\<rparr>)"
    and "cur s > 0 \<Longrightarrow> sim (rl_left pr s) (e\<lparr>crs := crs e - 1\<rparr>)"
    and "cur s < len s \<Longrightarrow> sim (rl_right pr s) (e\<lparr>crs := crs e + 1\<rparr>)"
proof -
  have h: "hist_ok s e" and l: "line_ok s (ltxt e) (crs e)" using assms by (simp_all add: sim_def)
  show "sim (rl_home pr s) (e\<lparr>crs := 0\<rparr>)" "sim (rl_end pr s) (e\<lparr>crs := length (ltxt e)\<rparr>)"
    using h l by (simp_all add: sim_def rl_home_def rl_end_def) (simp_all add: line_ok_def)
  have "map (buf s) [0 ..< cur s] = take (cur s) (ltxt e)" using l take_text [of "cur s" "len s" "buf s"] by (simp add: line_ok_def)
  then show "sim (rl_kill pr s) (e\<lparr>ltxt := take (crs e) (ltxt e)\<rparr>)"
    using h l wf_cstr_take(1) [of "ltxt e" "cur s"] by (simp add: sim_def rl_kill_def Let_def) (simp add: line_ok_def)
  show "cur s > 0 \<Longrightarrow> sim (rl_left pr s) (e\<lparr>crs := crs e - 1\<rparr>)"
    using h l by (simp add: sim_def rl_left_def Let_def) (auto simp: line_ok_def)
  show "cur s < len s \<Longrightarrow> sim (rl_right pr s) (e\<lparr>crs := crs e + 1\<rparr>)"
    using h l by (simp add: sim_def rl_right_def Let_def) (simp add: line_ok_def)
qed

lemma sim_insert:
  assumes "sim s e"
  shows "sim (rl_insert pr c s) (ed_insert c e)"
proof (cases "c \<ge> 0x20 \<and> len s < 255")
  case True
  then have c: "c \<noteq> 0" by auto
  have h: "hist_ok s e" and l: "line_ok s (ltxt e) (crs e)" using assms by (simp_all add: sim_def)
  let ?t = "take (crs e) (ltxt e) @ c # drop (crs e) (ltxt e)"
  have "map ((open_gap s)(cur s := c)) [0 ..< Suc (len s)] = ?t"
    using insert_gap [of s c] l by (simp add: line_ok_def del: upt_Suc)
  then have "line_ok (s\<lparr>buf := (open_gap s)(cur s := c), len := len s + 1, cur := cur s + 1\<rparr>) ?t (cur s + 1)"
    using l c True by (simp add: line_ok_def wf_cstr_take del: upt_Suc)
  moreover have "open_gap (s\<lparr>in_hist := False\<rparr>) = open_gap s" by (simp add: open_gap_def)
  moreover have "hist_ok (s\<lparr>in_hist := False\<rparr>) (e\<lparr>recall := False\<rparr>)" using h by (simp add: hist_ok_def)
  ultimately show ?thesis
    using True l by (simp add: rl_insert_def ed_insert_def Let_def RL_MAX_def sim_def line_ok_def hist_ok_def del: upt_Suc)
next
  case False
  then show ?thesis using assms by (auto simp: rl_insert_def ed_insert_def RL_MAX_def sim_def line_ok_def)
qed

text \<open>Replacing the line by a string, and recalling lines of the history.\<close>

lemma copied_text: "map ((copy_row n src dst)(n := v)) [0 ..< n] = map src [0 ..< n]"
  by (auto simp: copy_row_eq)

lemma copied_text' [simp]: "map (copy_row n src dst) [0 ..< n] = map src [0 ..< n]"
  by (auto simp: copy_row_eq)

lemma sim_replace:
  assumes "sim s e" and "t = map src [0 ..< n]" and "n \<le> 255" and "wf_cstr t"
  shows "sim (rl_replace pr n src s) (e\<lparr>ltxt := t, crs := length t\<rparr>)"
  using assms copied_text [of n src "buf s" 0] by (simp add: rl_replace_def Let_def sim_def) (simp add: line_ok_def)

lemma sim_recall:
  assumes "sim s e" and "i < rl_nhist s"
  shows "sim (rl_replace pr (strlen (row_text (rl_hist s i))) (rl_hist s i) s) (e\<lparr>ltxt := past e ! i, crs := length (past e ! i)\<rparr>)"
proof (rule sim_replace [OF assms(1)])
  have r: "is_row (rl_hist s i) (past e ! i)" using assms by (auto simp: sim_def hist_ok_def dest: rowsD)
  then have n: "strlen (row_text (rl_hist s i)) = length (past e ! i)" by (simp add: strlen_text row_text_is)
  show "past e ! i = map (rl_hist s i) [0 ..< strlen (row_text (rl_hist s i))]"
    unfolding n using r by (intro nth_equalityI) (simp_all add: is_row_def)
  show "strlen (row_text (rl_hist s i)) \<le> 255" "wf_cstr (past e ! i)" using r n by (simp_all add: is_row_def)
qed

lemma sim_up:
  assumes "sim s e"
  shows "sim (rl_up pr s) (ed_up e)"
proof -
  define s' where "s' = (if \<not> in_hist s
     then s\<lparr>tmp := (copy_row (len s) (buf s) (tmp s))(len s := 0), tmp_len := len s, in_hist := True, hist_pos := rl_nhist s\<rparr> else s)"
  define e' where "e' = (if recall e then e else e\<lparr>kept := ltxt e, recall := True, idx := length (past e)\<rparr>)"
  have s': "sim s' e'"
    using assms by (simp add: s'_def e'_def sim_def hist_ok_def) (auto simp: line_ok_def dest: rowsD)
  have "in_hist s'" by (simp add: s'_def)
  then have h: "in_hist s'" "hist_pos s' = idx e'" "hist_pos s' \<le> rl_nhist s'" using s' by (simp_all add: sim_def hist_ok_def)
  show ?thesis
  proof (cases "hist_pos s' > 0")
    case True
    let ?s = "s'\<lparr>hist_pos := hist_pos s' - 1\<rparr>" and ?e = "e'\<lparr>idx := idx e' - 1\<rparr>"
    have "sim ?s ?e" using s' h by (simp add: sim_def) (simp add: hist_ok_def)
    then have "sim (rl_replace pr (strlen (row_text (rl_hist ?s (idx e' - 1)))) (rl_hist ?s (idx e' - 1)) ?s)
        (?e\<lparr>ltxt := past ?e ! (idx e' - 1), crs := length (past ?e ! (idx e' - 1))\<rparr>)"
      using True h by (intro sim_recall) auto
    then show ?thesis using True h by (simp add: rl_up_def ed_up_def Let_def s'_def [symmetric] e'_def [symmetric])
  next
    case False
    then show ?thesis using s' h by (simp add: rl_up_def ed_up_def Let_def s'_def [symmetric] e'_def [symmetric])
  qed
qed

lemma sim_down:
  assumes "sim s e"
  shows "sim (rl_down pr s) (ed_down e)"
proof (cases "in_hist s \<and> hist_pos s < rl_nhist s")
  case True
  have r: "recall e" "idx e = hist_pos s" "length (past e) = rl_nhist s" using assms True rowsD by (simp_all add: sim_def hist_ok_def) blast
  let ?s = "s\<lparr>hist_pos := hist_pos s + 1\<rparr>" and ?e = "e\<lparr>idx := idx e + 1\<rparr>"
  have se: "sim ?s ?e" using assms True by (simp add: sim_def) (simp add: hist_ok_def)
  show ?thesis
  proof (cases "hist_pos s + 1 = rl_nhist s")
    case last: True
    have "sim (rl_replace pr (tmp_len ?s) (tmp ?s) ?s) (?e\<lparr>ltxt := kept e, crs := length (kept e)\<rparr>)"
      using se assms True by (intro sim_replace) (auto simp: sim_def hist_ok_def)
    then have "sim ((rl_replace pr (tmp_len ?s) (tmp ?s) ?s)\<lparr>in_hist := False\<rparr>) (?e\<lparr>ltxt := kept e, crs := length (kept e), recall := False\<rparr>)"
      by (simp add: sim_def) (simp add: hist_ok_def)
    then show ?thesis using True last r by (simp add: rl_down_def ed_down_def Let_def)
  next
    case False
    have "sim (rl_replace pr (strlen (row_text (rl_hist ?s (idx e + 1)))) (rl_hist ?s (idx e + 1)) ?s)
        (?e\<lparr>ltxt := past ?e ! (idx e + 1), crs := length (past ?e ! (idx e + 1))\<rparr>)"
      using se True False r by (intro sim_recall) auto
    then show ?thesis using True False r by (simp add: rl_down_def ed_down_def Let_def)
  qed
next
  case False
  then show ?thesis using assms rowsD [of "rl_hist s" "rl_nhist s" "past e"] by (auto simp: rl_down_def ed_down_def sim_def hist_ok_def)
qed

text \<open>The line entered, and the history it is stored in.\<close>

lemma is_row_line: "line_ok s t c \<Longrightarrow> is_row ((buf s)(len s := 0)) t"
  by (auto simp: line_ok_def is_row_def)

lemma is_row_copy: "is_row r t \<Longrightarrow> is_row ((copy_row (length t) r r')(length t := 0)) t"
  by (simp add: is_row_def copy_row_eq)

lemma is_row_copy_all: "is_row r t \<Longrightarrow> is_row (copy_row RL_MAX r r') t"
  by (simp add: is_row_def copy_row_eq RL_MAX_def)

definition entered :: "rl \<Rightarrow> lineed \<Rightarrow> bool" where
  "entered s e \<longleftrightarrow> is_row (buf s) (ltxt e) \<and> len s = length (ltxt e) \<and> rows (rl_hist s) (rl_nhist s) (past e)"

lemma store_entered:
  assumes "entered s e"
  shows "entered (rl_store s) (e\<lparr>past := remember (ltxt e) (past e)\<rparr>)"
proof -
  let ?n = "rl_nhist s" and ?t = "ltxt e" and ?h = "past e"
  have b: "is_row (buf s) ?t" "len s = length ?t" and r: "length ?h = ?n" "?n \<le> 20" "\<And>i. i < ?n \<Longrightarrow> is_row (rl_hist s i) (?h ! i)"
    using assms by (auto simp: entered_def rows_def)
  consider "?t = []" | "?t \<noteq> []" "?h \<noteq> []" "last ?h = ?t" | "?t \<noteq> []" "?h = [] \<or> last ?h \<noteq> ?t" by blast
  then show ?thesis
  proof cases
    case 2
    then have "strcmp (row_text (rl_hist s (?n - 1))) (row_text (buf s)) = 0"
      using r(3) [of "?n - 1"] r(1) b(1) last_conv_nth [of ?h] row_text_is by (cases "?n = 0") (auto simp: strcmp_text)
    then show ?thesis using 2 assms r(1) by (auto simp: rl_store_def remember_def)
  next
    case 3
    then have ne: "\<not> (?n > 0 \<and> strcmp (row_text (rl_hist s (?n - 1))) (row_text (buf s)) = 0)"
      using r(3) [of "?n - 1"] r(1) b(1) last_conv_nth [of ?h] row_text_is by (cases "?h = []") (auto simp: strcmp_text)
    have l: "len s \<noteq> 0" using 3(1) b(2) by simp
    show ?thesis
    proof (cases "?n < 20")
      case True
      then show ?thesis using ne l 3 b r is_row_copy [OF b(1)]
        by (auto simp: rl_store_def remember_def RL_HIST_def entered_def rows_def nth_append less_Suc_eq)
    next
      case False
      then have n: "?n = 20" using r(2) by simp
      then show ?thesis using ne l 3 b r is_row_copy [OF b(1)] is_row_copy_all
        by (auto simp: rl_store_def remember_def RL_HIST_def entered_def rows_def nth_append nth_tl Let_def shift_rows_eq [simplified])
    qed
  qed (use assms b in \<open>simp add: rl_store_def remember_def\<close>)
qed

lemma sim_cursor: "sim s e \<Longrightarrow> cur s = crs e \<and> len s = length (ltxt e)"
  by (simp add: sim_def line_ok_def)

lemma sim_enter: "sim s e \<Longrightarrow> entered (rl_enter s) (e\<lparr>past := remember (ltxt e) (past e)\<rparr>)"
  using is_row_line [of s "ltxt e" "crs e"] store_entered [of "emit [10] (s\<lparr>buf := (buf s)(len s := 0)\<rparr>)" e] sim_cursor [of s e]
  by (simp add: rl_enter_def sim_def entered_def hist_ok_def emit_def)

lemma sim_escape:
  assumes "sim s e"
  shows "rel_option (rel_prod (=) sim) (rl_escape pr inp s) (ed_escape inp e)"
proof -
  have c: "cur s = crs e" "len s = length (ltxt e)" using sim_cursor [OF assms] by simp_all
  note m = sim_moves(4,5) [OF assms, unfolded c, of pr] sim_up [OF assms, of pr] sim_down [OF assms, of pr]
    sim_delete [OF assms, of pr] assms
  show ?thesis
  proof (cases inp)
    case (Cons s1 inp')
    then show ?thesis using c m by (cases inp') (auto simp: ch_def split: list.split)
  qed simp
qed

lemma sim_loop: "sim s e \<Longrightarrow> rel_option (rel_prod (=) entered) (rl_loop pr inp s) (edit inp e)"
proof (induction inp e arbitrary: s rule: edit.induct)
  case (2 c inp e)
  note sims = sim_backspace [OF "2.prems"] sim_moves(1-3) [OF "2.prems"] sim_insert [OF "2.prems"] sim_enter [OF "2.prems"]
  show ?case
  proof (cases "c = 0x1B")
    case True
    then show ?thesis using sim_escape [OF "2.prems", of pr inp] "2.IH"(5)
      by (cases "rl_escape pr inp s"; cases "ed_escape inp e") auto
  next
    case False
    then show ?thesis using sims "2.IH"(1-4,6) by (simp split: if_split)
  qed
qed simp

section \<open>The line returned\<close>

definition history :: "rl \<Rightarrow> u8 list list" where
  "history s = map (\<lambda>i. c_text (row_text (rl_hist s i))) [0 ..< rl_nhist s]"

definition history_ok :: "rl \<Rightarrow> bool" where
  "history_ok s \<longleftrightarrow> rl_nhist s \<le> 20 \<and> list_all (\<lambda>t. length t \<le> 255) (history s)"

definition fresh_line :: "u8 list list \<Rightarrow> lineed" where
  "fresh_line h = \<lparr>ltxt = [], crs = 0, past = h, idx = 0, kept = [], recall = False\<rparr>"

lemma c_text_row: "length (c_text (row_text r)) \<le> 255 \<Longrightarrow> is_row r (c_text (row_text r))"
proof -
  assume l: "length (c_text (row_text r)) \<le> 255"
  let ?t = "c_text (row_text r)"
  have n: "length ?t < length (row_text r)" using l by (simp add: row_text_def RL_MAX_def)
  have nth: "row_text r ! i = r i" if "i < RL_MAX" for i using that by (simp add: row_text_def)
  have t: "?t = takeWhile (\<lambda>c. c \<noteq> 0) (row_text r)" by (simp add: c_text_def)
  have "row_text r ! length ?t = 0" using nth_length_takeWhile [of "\<lambda>c. c \<noteq> 0" "row_text r"] n by (simp add: t)
  moreover have "row_text r ! i = ?t ! i" if "i < length ?t" for i using that by (simp add: t takeWhile_nth)
  moreover have "wf_cstr ?t" by (auto simp: t wf_cstr_def dest: set_takeWhileD)
  ultimately show ?thesis using l nth by (simp add: is_row_def RL_MAX_def)
qed

lemma rows_history: "history_ok s \<Longrightarrow> rows (rl_hist s) (rl_nhist s) (history s)"
  using c_text_row by (simp add: history_ok_def rows_def history_def list_all_length)

lemma history_rows:
  assumes "rows (rl_hist s) (rl_nhist s) h"
  shows "history s = h" and "history_ok s"
proof -
  have l: "length h = rl_nhist s" "rl_nhist s \<le> 20" using assms by (simp_all add: rows_def)
  have i: "is_row (rl_hist s i) (h ! i)" if "i < rl_nhist s" for i using assms that by (simp add: rows_def)
  show h: "history s = h" using l row_text_is [OF i] by (intro nth_equalityI) (simp_all add: history_def)
  show "history_ok s" using l i unfolding history_ok_def h by (auto simp: list_all_length is_row_def)
qed

text \<open>
  C35: The line editor with its byte buffer, cursor, saved line and ring of history rows behaves on every
  input as the editor on lists: it waits for more input exactly when that does, consumes the same keys,
  returns the same line (at most 255 bytes, terminated), keeps the same history (at most 20 lines) and puts
  the terminal back as it was.\<close>

theorem readline_refines_edit:
  assumes "history_ok s"
  shows "case readline prompt inp s of
      None \<Rightarrow> edit inp (fresh_line (history s)) = None
    | Some (rest, t) \<Rightarrow> \<exists>e. edit inp (fresh_line (history s)) = Some (rest, e)
        \<and> c_text (row_text (rl_out t)) = ltxt e \<and> length (ltxt e) \<le> 255
        \<and> history t = past e \<and> history_ok t \<and> tio t = tio s"
proof -
  define s0 where "s0 = (emit (c_text prompt) (s\<lparr>tio := (tio s)\<lparr>c_lflag := c_lflag (tio s) AND NOT (ICANON OR ECHO),
      c_cc := (c_cc (tio s))(VMIN := 1)\<rparr>\<rparr>))\<lparr>len := 0, cur := 0, old_len := 0, hist_pos := rl_nhist s, tmp_len := 0, in_hist := False\<rparr>"
  have "sim s0 (fresh_line (history s))"
    using rows_history [OF assms] by (simp add: s0_def sim_def line_ok_def hist_ok_def fresh_line_def emit_def)
  then have r: "rel_option (rel_prod (=) entered) (rl_loop (c_text prompt) inp s0) (edit inp (fresh_line (history s)))" by (rule sim_loop)
  have rd: "readline prompt inp s = (case rl_loop (c_text prompt) inp s0 of None \<Rightarrow> None
      | Some (rest, t) \<Rightarrow> Some (rest, t\<lparr>tio := tio s, rl_out := copy_row (len t + 1) (buf t) (rl_out t)\<rparr>))"
    by (simp add: readline_def s0_def Let_def emit_def split: option.split)
  show ?thesis
  proof (cases "rl_loop (c_text prompt) inp s0")
    case (Some p)
    then obtain rest t e where p: "p = (rest, t)" and e: "edit inp (fresh_line (history s)) = Some (rest, e)" and en: "entered t e"
      using r by (cases p) (auto simp: option_rel_Some1)
    let ?t = "t\<lparr>tio := tio s, rl_out := copy_row (len t + 1) (buf t) (rl_out t)\<rparr>"
    have "is_row (rl_out ?t) (ltxt e)" using en by (simp add: entered_def is_row_def copy_row_eq)
    moreover have "rows (rl_hist ?t) (rl_nhist ?t) (past e)" using en by (simp add: entered_def)
    ultimately show ?thesis using Some p e rd row_text_is history_rows [of ?t "past e"] by (auto simp: is_row_def)
  qed (use r rd in simp)
qed

definition idle :: rl where
  "idle = \<lparr>buf = \<lambda>_. 7, len = 0, cur = 0, old_len = 0, hist_pos = 0, tmp = \<lambda>_. 7, tmp_len = 0, in_hist = False,
     rl_hist = \<lambda>_ _. 0, rl_nhist = 0, rl_out = \<lambda>_. 0, tio = \<lparr>c_lflag = 11, c_cc = \<lambda>_. 0\<rparr>, screen = []\<rparr>"

text \<open>Typing \<open>ab\<close>, a backspace, \<open>c\<close> and return gives \<open>ac\<close>, which is then the history.\<close>

theorem readline_refines_edit_witness:
  "history_ok idle \<and> (\<exists>t. readline [36] [97, 98, 127, 99, 10] idle = Some ([], t) \<and> c_text (row_text (rl_out t)) = [97, 99]
     \<and> history t = [[97, 99]])"
proof -
  have h: "history idle = []" by (simp add: history_def idle_def)
  have ok: "history_ok idle" by (simp add: history_ok_def h) (simp add: idle_def)
  have "edit [97, 98, 127, 99, 10] (fresh_line []) =
      Some ([], \<lparr>ltxt = [97, 99], crs = 2, past = [[97, 99]], idx = 0, kept = [], recall = False\<rparr>)"
    by (simp add: fresh_line_def ed_insert_def ed_backspace_def erase_def remember_def)
  then show ?thesis using ok readline_refines_edit [OF ok, of "[97, 98, 127, 99, 10]" "[36]"]
    by (auto simp: h simp del: edit.simps split: option.splits)
qed

end
