(* ===== verification/Spec2Isabelle.thy ===== *)
theory Spec2Isabelle
  imports Pmm Env Path Cow Fault Dispatch Volume Textutils Readline
begin

text \<open>
  Verification development for Noxis, a small x86-64 kernel in C with its file system and user programs
  (src/src). The development is a shallow embedding: every function of the code is a HOL function, in the order of the
  source, on explicit states.

  \<^bold>\<open>Conventions\<close> (Prelude). The C integers are machine words of their width, so additions wrap around as the
  compiled code does, signed ones included. File-scope variables are the fields of a record. A pointer to an object of a
  pool or of the heap is its number or address, 0 is null. An array is a function of the index or a list; a C
  string is the list of its bytes before the zero. Error codes are values (\<open>os_status\<close>, -1). A loop that may not
  end is a \<open>partial_function (option)\<close> or a \<open>function\<close> with a termination proof; \<open>None\<close> means that the call does not return, and
  the properties state \<open>Some\<close> results where the code returns. Recursions on a natural number run through a
  bound of the code itself (a number of blocks, pages, bytes or rows), so there is no artificial fuel.

  \<^bold>\<open>Memory\<close>. Pmm is src/src/mm/phys/pmm.c: bitmap, reference counts and counters of the frame allocator; its lemmas relate
  the bitmap to the set of used frames, and it provides the contract \<open>frame_source\<close>. Heap is mm/virt/heap.c on
  64-bit cells: first fit, splitting and merging, refined to a list of sizes and free flags; it provides the contract
  \<open>allocator\<close>. Vmm is mm/virt/vmm.c: page tables as cells of physical memory, their tree and the translation
  \<open>lookup\<close>, and the copy-on-write fault; Cow shows what the copy-on-write fork establishes; Fault is the page fault
  handler.

  \<^bold>\<open>Processes\<close>. Process is proc/process.h, process.c and kthread_switch.asm (structure, creation, stack of a new
  thread, context switch), Scheduler is proc/scheduler.c (ready queue and process list as linked lists over the
  store of process structures), Pipe is proc/pipe.c and Signal is proc/signal.c with exit and the timer tick. Env and Path
  are the environment table and the path helpers of proc/syscalls.c, Elf is proc/elf.c. Fd is proc/fd.c: descriptors
  over files, devices, pipes and the console. Syscalls holds the remaining calls of proc/syscalls.c, and Dispatch is
  kernel/syscall/syscall.c. What other processes do while a call waits, and what the hardware does while the CPU halts,
  are parameters of the calls that wait.

  \<^bold>\<open>Devices\<close>. Keyboard is drivers/kbd.c, keymap.c and tty.c, Vga is drivers/vga.c, Serial is drivers/serial.c and Block is
  drivers/block/block.c; port output is a recorded sequence, and a disk driver is a parameter. Fifo holds the contract
  \<open>fifo\<close> that the pipes and the keyboard ring fulfil.

  \<^bold>\<open>File systems\<close>. Buffer is fs/noxfs/buffer.c; Cache shows that it is transparent, for drives whose transfers
  succeed. Noxfs and Directory are fs/noxfs/noxfs.c, Volume describes it on the contents of the blocks. Vfs holds ramfs,
  devfs, procfs and the facade (fs/vfs, fs/devfs, fs/procfs).

  \<^bold>\<open>User programs\<close>. Noxlib is the runtime lib/noxlib/noxlib.h, Readline its line editor, and Textutils the programs sort, tail, head,
  wc, grep, echo, seq, test and cat under bin.

  \<^bold>\<open>What is shown\<close>. Allocators: frames and heap payloads are handed out fresh and disjoint in every run, counters
  are exact, sharing and releasing cancel, the 8-bit reference count loses owners after 255; first fit and
  merging. Address spaces: mapping a page changes one translation, a copy-on-write fork shares every page
  read-only and a fault makes a private copy, the loader puts every byte of a program where user code reads it, the break
  grows by fresh pages of zeros, and fork duplicates the caller. Processes: round robin, zombies, context
  switch, signals and handler returns, descriptors and pipe counts in every run of calls. Data paths: pipes are queues, interrupts
  and polls of the keyboard act as a reference keyboard with a queue of 255 bytes, the elevator drains in order. Files: the
  cache is transparent; a store succeeds exactly when there are as many free blocks as the file lacks, is
  read back, and never touches another file, even when it fails half way; status files of procfs are
  readable. User space: formatted output equals a reference formatter where it ends and hangs on a full buffer, numbers are
  read back, readline refines an editor on lists, sort sorts, tail prints the last lines within its limits (100 lines of 511
  bytes), grep finds sublists, and paths simplify to their unique form within the limits of 16 names of 31
  bytes. Several of these state what the code does although its comments say otherwise.

  \<^bold>\<open>Modelling choices\<close>. The counts of readers, writers and environment strings are unbounded integers, since each
  counts table slots. The user stack of signal delivery is a map of 64-bit cells at distinct addresses. A process
  name has no more bytes than its field. The volume of Volume has one bitmap block, which limits it to 4096
  blocks, and its superblock counts the clear bits of the bitmap.

  \<^bold>\<open>Not modelled\<close>. Boot sectors, assembly stubs, descriptor tables, interrupt controller, timer and ATA port programming:
  single privileged instructions and port writes whose effect is outside the program. The slab and arena allocators, which no
  part of the kernel uses. The shell and the programs that only wrap one or two system calls.
\<close>

end
